(* ===== verification/Prelude.thy ===== *)
theory Prelude
  imports Main "HOL-Library.Word" "HOL-Library.Char_ord" "HOL-Library.Code_Target_Nat"
begin

unbundle bit_operations_syntax

text \<open>
  Shared vocabulary of the development: the machine types of
  \<^verbatim>\<open>kernel/include/types.h\<close>, outcomes of operations that may fail or leave defined
  behaviour, first-fit searches (the kernel's bitmap scans), the bit-array interface
  that every bitmap of the kernel implements, and the lemmas on lists and words that
  the component theories use.
\<close>

section \<open>Machine types\<close>

type_synonym u8 = "8 word"
type_synonym u16 = "16 word"
type_synonym u32 = "32 word"
type_synonym u64 = "64 word"

text \<open>
  Every component adds its unfolding equations to \<open>noos_defs\<close> and its invariant
  preservation facts to \<open>noos_inv\<close>.
\<close>

named_theorems noos_defs \<open>definitions unfolded by the component proofs\<close>
named_theorems noos_inv \<open>invariants kept by the operations\<close>

section \<open>Outcomes\<close>

text \<open>
  An operation that can report an error, or that can leave the behaviour C defines
  (a null pointer that is dereferenced, an access outside the named object, a machine
  trap), returns an outcome. \<open>OutOfFuel\<close> is no behaviour of the code: it marks a loop model
  that was given too few steps.
\<close>

datatype crash = NullDeref | OutOfBounds string | DivideTrap | OutOfFuel

datatype 'a res = Ok 'a | Err string | Crash crash

fun bind_res :: "'a res \<Rightarrow> ('a \<Rightarrow> 'b res) \<Rightarrow> 'b res" where
  "bind_res (Ok x) f = f x"
| "bind_res (Err e) f = Err e"
| "bind_res (Crash c) f = Crash c"

fun is_ok :: "'a res \<Rightarrow> bool" where
  "is_ok (Ok x) = True"
| "is_ok _ = False"

fun map_res :: "('a \<Rightarrow> 'b) \<Rightarrow> 'a res \<Rightarrow> 'b res" where
  "map_res f (Ok x) = Ok (f x)"
| "map_res f (Err e) = Err e"
| "map_res f (Crash c) = Crash c"

lemma bind_res_Ok_iff: "bind_res r f = Ok y \<longleftrightarrow> (\<exists>x. r = Ok x \<and> f x = Ok y)"
  by (cases r) auto

lemma bind_res_Crash_iff:
  "bind_res r f = Crash c \<longleftrightarrow> r = Crash c \<or> (\<exists>x. r = Ok x \<and> f x = Crash c)"
  by (cases r) auto

lemma bind_res_cong [fundef_cong]:
  "r = r' \<Longrightarrow> (\<And>x. r' = Ok x \<Longrightarrow> f x = g x) \<Longrightarrow> bind_res r f = bind_res r' g"
  by (cases r') auto

section \<open>First-fit search\<close>

text \<open>
  \<^verbatim>\<open>for (i = lo; i < hi; i++) if (p(i)) return i;\<close> as the kernel's allocators write it:
  the least index of the range that satisfies \<open>p\<close>.
\<close>

definition first_in :: "(nat \<Rightarrow> bool) \<Rightarrow> nat \<Rightarrow> nat \<Rightarrow> nat option" where
  "first_in p lo hi = List.find p [lo..<hi]"

lemma first_in_Some_iff:
  "first_in p lo hi = Some i \<longleftrightarrow> lo \<le> i \<and> i < hi \<and> p i \<and> (\<forall>j. lo \<le> j \<and> j < i \<longrightarrow> \<not> p j)"
proof -
  have *: "[lo..<hi] ! k = lo + k" if "k < hi - lo" for k
    using that by simp
  show ?thesis
    unfolding first_in_def find_Some_iff
  proof (intro iffI)
    assume "\<exists>k<length [lo..<hi]. p ([lo..<hi] ! k) \<and> i = [lo..<hi] ! k \<and> (\<forall>j<k. \<not> p ([lo..<hi] ! j))"
    then obtain k where k: "k < hi - lo" "p (lo + k)" "i = lo + k" and l: "\<forall>j<k. \<not> p ([lo..<hi] ! j)"
      by auto
    have "\<not> p j" if "lo \<le> j" "j < i" for j
    proof -
      have "j - lo < k" using that k by simp
      with l have "\<not> p ([lo..<hi] ! (j - lo))" by blast
      with that k show ?thesis by simp
    qed
    with k show "lo \<le> i \<and> i < hi \<and> p i \<and> (\<forall>j. lo \<le> j \<and> j < i \<longrightarrow> \<not> p j)" by auto
  next
    assume a: "lo \<le> i \<and> i < hi \<and> p i \<and> (\<forall>j. lo \<le> j \<and> j < i \<longrightarrow> \<not> p j)"
    show "\<exists>k<length [lo..<hi]. p ([lo..<hi] ! k) \<and> i = [lo..<hi] ! k \<and> (\<forall>j<k. \<not> p ([lo..<hi] ! j))"
      by (rule exI [of _ "i - lo"]) (use a in auto)
  qed
qed

lemma first_in_None_iff: "first_in p lo hi = None \<longleftrightarrow> (\<forall>i. lo \<le> i \<and> i < hi \<longrightarrow> \<not> p i)"
  by (auto simp: first_in_def find_None_iff)

lemma first_in_SomeD:
  assumes "first_in p lo hi = Some i"
  shows "lo \<le> i" and "i < hi" and "p i"
  using assms by (simp_all add: first_in_Some_iff)

section \<open>Bit arrays\<close>

text \<open>
  The interface of every bitmap in the kernel (frames, swap slots, clusters, inodes,
  resident model pages): test, set and clear one bit, each leaving all others alone.
  The clients' bookkeeping (how a set or clear changes the number of free entries, what
  a first-fit allocation does) is proved once from these two laws.
\<close>

locale bit_array =
  fixes get :: "'m \<Rightarrow> nat \<Rightarrow> bool"
    and put :: "'m \<Rightarrow> nat \<Rightarrow> 'm"
    and clr :: "'m \<Rightarrow> nat \<Rightarrow> 'm"
  assumes get_put: "get (put m i) j \<longleftrightarrow> j = i \<or> get m j"
    and get_clr: "get (clr m i) j \<longleftrightarrow> j \<noteq> i \<and> get m j"
begin

lemma clear_set_put: "{j. j < n \<and> \<not> get (put m i) j} = {j. j < n \<and> \<not> get m j} - {i}"
  by (auto simp: get_put)

lemma clear_set_clr:
  "i < n \<Longrightarrow> {j. j < n \<and> \<not> get (clr m i) j} = insert i {j. j < n \<and> \<not> get m j}"
  by (auto simp: get_clr)

lemma card_clear_put:
  assumes "i < n" and "\<not> get m i"
  shows "card {j. j < n \<and> \<not> get m j} = Suc (card {j. j < n \<and> \<not> get (put m i) j})"
proof -
  have "i \<in> {j. j < n \<and> \<not> get m j}" using assms by simp
  then show ?thesis unfolding clear_set_put by (intro card_Suc_Diff1 [symmetric]) auto
qed

lemma card_clear_clr:
  assumes "i < n" and "get m i"
  shows "card {j. j < n \<and> \<not> get (clr m i) j} = Suc (card {j. j < n \<and> \<not> get m j})"
  using assms by (simp add: clear_set_clr)

lemma card_clear_le: "card {j. j < n \<and> \<not> get m j} \<le> n"
proof -
  have "card {j. j < n \<and> \<not> get m j} \<le> card {..<n}" by (intro card_mono) auto
  then show ?thesis by simp
qed

lemma clr_put_get: "\<not> get m i \<Longrightarrow> get (clr (put m i) i) j = get m j"
  by (auto simp: get_put get_clr)

lemma get_fold_put: "get (fold (\<lambda>k b. put b k) ks m) j \<longleftrightarrow> j \<in> set ks \<or> get m j"
  by (induction ks arbitrary: m) (auto simp: get_put)

text \<open>A first-fit allocation fails exactly when everything is taken.\<close>

lemma first_clear_None:
  "first_in (\<lambda>i. \<not> get m i) lo hi = None \<longleftrightarrow> (\<forall>i. lo \<le> i \<and> i < hi \<longrightarrow> get m i)"
  by (auto simp: first_in_None_iff)

lemma first_clear_Some:
  assumes "first_in (\<lambda>i. \<not> get m i) lo hi = Some i"
  shows "lo \<le> i \<and> i < hi \<and> \<not> get m i \<and> get (put m i) i \<and> (\<forall>j. j \<noteq> i \<longrightarrow> get (put m i) j = get m j)
    \<and> (\<forall>j. lo \<le> j \<and> j < i \<longrightarrow> get m j)"
  using assms by (auto simp: first_in_Some_iff get_put)

end

section \<open>Words and lists\<close>

lemma unat_less_2p64: "unat (w :: u64) < 18446744073709551616"
proof -
  have "unat w < 2 ^ LENGTH(64)" by (rule unsigned_less)
  then show ?thesis by simp
qed

lemma unat_less_2p32: "unat (w :: u32) < 4294967296"
proof -
  have "unat w < 2 ^ LENGTH(32)" by (rule unsigned_less)
  then show ?thesis by simp
qed

lemma unat_ucast_u32 [simp]: "unat (ucast (x :: u32) :: u64) = unat x"
  using unat_less_2p32 [of x] by (simp add: unsigned_ucast_eq take_bit_nat_eq_self)

lemma unat_ucast_u8 [simp]: "unat (ucast (x :: u8) :: u64) = unat x"
proof -
  have "unat x < 2 ^ LENGTH(8)" by (rule unsigned_less)
  then show ?thesis by (simp add: unsigned_ucast_eq take_bit_nat_eq_self)
qed

lemma unat_dec: "w \<noteq> 0 \<Longrightarrow> unat (w - 1) = unat w - 1" for w :: "'a::len word"
  by (rule unat_minus_one)

lemma unat_inc: "unat w + 1 < 2 ^ LENGTH('a) \<Longrightarrow> unat (w + 1) = unat w + 1" for w :: "'a::len word"
  by (simp add: unat_word_ariths)

lemma fold_invariant:
  assumes "\<And>x s. x \<in> set xs \<Longrightarrow> P s \<Longrightarrow> P (f x s)" and "P s"
  shows "P (fold f xs s)"
  using assms by (induction xs arbitrary: s) auto

end
