(* ===== verification/Pmm.thy ===== *)
theory Pmm
  imports Prelude
begin

unbundle bit_operations_syntax

text \<open>
  The physical frame allocator, \<^verbatim>\<open>kernel/mm/pmm.c\<close>: one bit per 4 KiB frame of the
  identity-mapped first GiB, a total and a free counter. The state is the three static
  variables of the file. The bitmap array is a function from byte index to byte; that
  every access stays inside its 32768 bytes is part of the invariant (the scans only
  touch frames below the total, which never exceeds \<^verbatim>\<open>PMM_MAX_FRAMES\<close>).
\<close>

definition FRAME_SIZE :: u64 where
  "FRAME_SIZE = 4096"

definition PMM_MAX_FRAMES :: nat where
  "PMM_MAX_FRAMES = 262144"

record pmm_state =
  bitmap :: "nat \<Rightarrow> u8"
  total_frames :: u64
  free_frames :: u64

definition bitmap_set :: "(nat \<Rightarrow> u8) \<Rightarrow> nat \<Rightarrow> (nat \<Rightarrow> u8)" where
  "bitmap_set bm idx = bm(idx div 8 := bm (idx div 8) OR push_bit (idx mod 8) 1)"

definition bitmap_clear :: "(nat \<Rightarrow> u8) \<Rightarrow> nat \<Rightarrow> (nat \<Rightarrow> u8)" where
  "bitmap_clear bm idx = bm(idx div 8 := bm (idx div 8) AND NOT (push_bit (idx mod 8) 1))"

definition bitmap_test :: "(nat \<Rightarrow> u8) \<Rightarrow> nat \<Rightarrow> bool" where
  "bitmap_test bm idx = (drop_bit (idx mod 8) (bm (idx div 8)) AND 1 = 1)"

text \<open>Mark one frame used: the body of the marking loops.\<close>

definition take_frame :: "nat \<Rightarrow> pmm_state \<Rightarrow> pmm_state" where
  "take_frame i s = s\<lparr>bitmap := bitmap_set (bitmap s) i, free_frames := free_frames s - 1\<rparr>"

definition reserve_step :: "nat \<Rightarrow> pmm_state \<Rightarrow> pmm_state" where
  "reserve_step i s = (if \<not> bitmap_test (bitmap s) i then take_frame i s else s)"

definition pmm_reserve :: "u64 \<Rightarrow> u64 \<Rightarrow> pmm_state \<Rightarrow> pmm_state" where
  "pmm_reserve addr len s =
     (let first = addr div FRAME_SIZE;
          last0 = (addr + len + FRAME_SIZE - 1) div FRAME_SIZE;
          last = (if last0 > total_frames s then total_frames s else last0)
      in fold reserve_step [unat first..<unat last] s)"

text \<open>
  The walk over the multiboot memory map. \<open>rd32\<close> and \<open>rd64\<close> read physical memory.
  The stride \<open>sz + 4\<close> is computed in 32 bits, so a hostile size can stop the walk from
  advancing: the loop is given fuel, and \<open>mmap_loop_enough\<close> says when it ends.
\<close>

fun mmap_loop :: "nat \<Rightarrow> (u64 \<Rightarrow> u32) \<Rightarrow> (u64 \<Rightarrow> u64) \<Rightarrow> u64 \<Rightarrow> u64 \<Rightarrow> pmm_state \<Rightarrow> pmm_state option" where
  "mmap_loop 0 rd32 rd64 a e s = None"
| "mmap_loop (Suc n) rd32 rd64 a e s =
     (if a + 20 \<le> e then
        (let sz = rd32 a; base = rd64 (a + 4); len = rd64 (a + 12); type = rd32 (a + 20)
         in if sz < 20 then Some s
            else mmap_loop n rd32 rd64 (a + ucast (sz + 4)) e
                   (if type \<noteq> 1 then pmm_reserve base len s else s))
      else Some s)"

definition pmm_init ::
  "nat \<Rightarrow> (u64 \<Rightarrow> u32) \<Rightarrow> (u64 \<Rightarrow> u64) \<Rightarrow> u64 \<Rightarrow> u64 \<Rightarrow> u32 \<Rightarrow> pmm_state option" where
  "pmm_init fuel rd32 rd64 kernel_start kernel_end mb_info =
     (let flags = rd32 (ucast mb_info);
          mem_upper = rd32 (ucast (mb_info + 8));
          mem0 = 0x100000 + ucast mem_upper * 1024;
          mem_bytes = (if mem0 > 0x40000000 then 0x40000000 else mem0);
          total = mem_bytes div FRAME_SIZE;
          s0 = \<lparr>bitmap = (\<lambda>_. 0), total_frames = total, free_frames = total\<rparr>;
          s1 = pmm_reserve 0 0x100000 s0;
          s2 = pmm_reserve kernel_start (kernel_end - kernel_start) s1;
          s3 = pmm_reserve (ucast mb_info) 4096 s2
      in if flags AND 0x40 \<noteq> 0 then
           (let a = ucast (rd32 (ucast (mb_info + 48)));
                e = a + ucast (rd32 (ucast (mb_info + 44)))
            in mmap_loop fuel rd32 rd64 a e s3)
         else Some s3)"

definition pmm_alloc_frame :: "pmm_state \<Rightarrow> u64 \<times> pmm_state" where
  "pmm_alloc_frame s =
     (case first_in (\<lambda>i. \<not> bitmap_test (bitmap s) i) 0 (unat (total_frames s)) of
        Some i \<Rightarrow> (of_nat i * FRAME_SIZE, take_frame i s)
      | None \<Rightarrow> (0, s))"

text \<open>
  The scan of \<^verbatim>\<open>pmm_alloc_frames\<close>: \<open>need\<close> counts the free frames that end just before
  the current one; the result is the first frame of the run (\<^verbatim>\<open>i - need + 1\<close> in unsigned
  arithmetic, with \<^verbatim>\<open>need\<close> already incremented).
\<close>

fun alloc_scan :: "(nat \<Rightarrow> bool) \<Rightarrow> nat \<Rightarrow> nat list \<Rightarrow> nat \<Rightarrow> nat option" where
  "alloc_scan used count [] need = None"
| "alloc_scan used count (i # is) need =
     (if used i then alloc_scan used count is 0
      else if Suc need = count then Some (i + 1 - Suc need)
      else alloc_scan used count is (Suc need))"

definition pmm_alloc_frames :: "u64 \<Rightarrow> pmm_state \<Rightarrow> u64 \<times> pmm_state" where
  "pmm_alloc_frames count s =
     (case alloc_scan (bitmap_test (bitmap s)) (unat count) [0..<unat (total_frames s)] 0 of
        Some b \<Rightarrow>
          (let base = of_nat b * FRAME_SIZE
           in (base, fold (\<lambda>j s. take_frame (unat (base div FRAME_SIZE) + j) s) [0..<unat count] s))
      | None \<Rightarrow> (0, s))"

definition pmm_free_frame :: "u64 \<Rightarrow> pmm_state \<Rightarrow> pmm_state" where
  "pmm_free_frame addr s =
     (let idx = addr div FRAME_SIZE
      in if idx < total_frames s \<and> bitmap_test (bitmap s) (unat idx)
         then s\<lparr>bitmap := bitmap_clear (bitmap s) (unat idx), free_frames := free_frames s + 1\<rparr>
         else s)"

definition pmm_free_frames :: "u64 \<Rightarrow> u64 \<Rightarrow> pmm_state \<Rightarrow> pmm_state" where
  "pmm_free_frames addr count s =
     fold (\<lambda>j s. pmm_free_frame (addr + of_nat j * FRAME_SIZE) s) [0..<unat count] s"

definition pmm_used_bytes :: "pmm_state \<Rightarrow> u64" where
  "pmm_used_bytes s = (total_frames s - free_frames s) * FRAME_SIZE"

definition pmm_total_bytes :: "pmm_state \<Rightarrow> u64" where
  "pmm_total_bytes s = total_frames s * FRAME_SIZE"

definition pmm_free_bytes :: "pmm_state \<Rightarrow> u64" where
  "pmm_free_bytes s = free_frames s * FRAME_SIZE"

section \<open>The bitmap is a bit array\<close>

lemma bitmap_test_bit: "bitmap_test bm i \<longleftrightarrow> bit (bm (i div 8)) (i mod 8)"
  by (simp add: bitmap_test_def bit_iff_odd_drop_bit odd_iff_mod_2_eq_one flip: take_bit_eq_mask)
     (simp add: and_one_eq)

lemma div_mod_8_eq: "j div 8 = i div 8 \<Longrightarrow> (j mod 8 = i mod 8) = (j = i)" for i j :: nat
  by (metis div_mult_mod_eq)

interpretation pmm_bits: bit_array bitmap_test bitmap_set bitmap_clear
proof
  show "bitmap_test (bitmap_set m i) j \<longleftrightarrow> j = i \<or> bitmap_test m j" for m i j
    by (auto simp: bitmap_test_bit bitmap_set_def bit_simps dest: div_mod_8_eq)
  show "bitmap_test (bitmap_clear m i) j \<longleftrightarrow> j \<noteq> i \<and> bitmap_test m j" for m i j
    by (auto simp: bitmap_test_bit bitmap_clear_def bit_simps dest: div_mod_8_eq)
qed

section \<open>Invariant\<close>

text \<open>
  The counter is the number of clear bits below the total, and the total fits the bitmap.
  \<open>used_frame\<close> is the view the clients have of the bitmap.
\<close>

abbreviation used_frame :: "pmm_state \<Rightarrow> nat \<Rightarrow> bool" where
  "used_frame s i \<equiv> bitmap_test (bitmap s) i"

definition free_count :: "pmm_state \<Rightarrow> nat" where
  "free_count s = card {i. i < unat (total_frames s) \<and> \<not> used_frame s i}"

definition pmm_inv :: "pmm_state \<Rightarrow> bool" where
  "pmm_inv s \<longleftrightarrow> unat (total_frames s) \<le> PMM_MAX_FRAMES \<and> unat (free_frames s) = free_count s"

lemma take_frame_simps [simp]:
  "total_frames (take_frame i s) = total_frames s"
  "used_frame (take_frame i s) j \<longleftrightarrow> j = i \<or> used_frame s j"
  by (simp_all add: take_frame_def pmm_bits.get_put)

lemma free_count_take:
  "i < unat (total_frames s) \<Longrightarrow> \<not> used_frame s i \<Longrightarrow> free_count s = Suc (free_count (take_frame i s))"
  using pmm_bits.card_clear_put [of i "unat (total_frames s)" "bitmap s"] by (simp add: free_count_def take_frame_def)

lemma take_frame_inv [noos_inv]:
  assumes inv: "pmm_inv s" and i: "i < unat (total_frames s)" and free: "\<not> used_frame s i"
  shows "pmm_inv (take_frame i s)"
proof -
  have c: "free_count s = Suc (free_count (take_frame i s))" using free_count_take i free by blast
  then have "free_frames s \<noteq> 0" using inv by (auto simp: pmm_inv_def)
  then have "unat (free_frames (take_frame i s)) = unat (free_frames s) - 1"
    by (simp add: take_frame_def unat_dec)
  with c inv show ?thesis by (simp add: pmm_inv_def)
qed

lemma take_frames_fold:
  assumes "pmm_inv s" and "distinct is"
    and "\<And>i. i \<in> set is \<Longrightarrow> i < unat (total_frames s) \<and> \<not> used_frame s i"
  shows "pmm_inv (fold take_frame is s)
    \<and> total_frames (fold take_frame is s) = total_frames s
    \<and> (\<forall>j. used_frame (fold take_frame is s) j \<longleftrightarrow> j \<in> set is \<or> used_frame s j)"
  using assms
proof (induction "is" arbitrary: s)
  case (Cons i "is")
  have "pmm_inv (take_frame i s)" using Cons.prems by (simp add: take_frame_inv)
  moreover have "\<And>k. k \<in> set is \<Longrightarrow> k < unat (total_frames (take_frame i s)) \<and> \<not> used_frame (take_frame i s) k"
    using Cons.prems by auto
  ultimately have "pmm_inv (fold take_frame is (take_frame i s))
    \<and> total_frames (fold take_frame is (take_frame i s)) = total_frames (take_frame i s)
    \<and> (\<forall>j. used_frame (fold take_frame is (take_frame i s)) j \<longleftrightarrow> j \<in> set is \<or> used_frame (take_frame i s) j)"
    using Cons.IH Cons.prems(2) by simp
  then show ?case by auto
qed simp

lemma pmm_free_frame_inv [noos_inv]:
  assumes "pmm_inv s"
  shows "pmm_inv (pmm_free_frame addr s)"
proof (cases "addr div FRAME_SIZE < total_frames s \<and> used_frame s (unat (addr div FRAME_SIZE))")
  case True
  let ?i = "unat (addr div FRAME_SIZE)"
  have i: "?i < unat (total_frames s)" using True by (simp add: word_less_nat_alt)
  have c: "free_count (pmm_free_frame addr s) = Suc (free_count s)"
    using pmm_bits.card_clear_clr [OF i] True by (simp add: free_count_def pmm_free_frame_def)
  have "free_count (pmm_free_frame addr s) \<le> unat (total_frames s)"
    using pmm_bits.card_clear_le True by (simp add: free_count_def pmm_free_frame_def)
  with c assms have "unat (free_frames s) + 1 < 2 ^ LENGTH(64)"
    by (simp add: pmm_inv_def PMM_MAX_FRAMES_def)
  with True have "unat (free_frames (pmm_free_frame addr s)) = Suc (unat (free_frames s))"
    by (simp add: pmm_free_frame_def unat_inc)
  with c assms True show ?thesis by (simp add: pmm_inv_def pmm_free_frame_def)
next
  case False
  then show ?thesis using assms by (auto simp: pmm_free_frame_def)
qed

lemma pmm_free_frame_total [simp]: "total_frames (pmm_free_frame addr s) = total_frames s"
  by (simp add: pmm_free_frame_def Let_def)

lemma used_pmm_free_frame:
  "used_frame (pmm_free_frame addr s) j \<longleftrightarrow>
     used_frame s j \<and> (j \<noteq> unat (addr div FRAME_SIZE) \<or> \<not> addr div FRAME_SIZE < total_frames s)"
  by (auto simp: pmm_free_frame_def Let_def pmm_bits.get_clr)

lemma pmm_free_frames_inv [noos_inv]: "pmm_inv s \<Longrightarrow> pmm_inv (pmm_free_frames addr count s)"
  unfolding pmm_free_frames_def by (rule fold_invariant) (auto intro: pmm_free_frame_inv)

section \<open>Reservation\<close>

lemma reserve_step_used [simp]: "used_frame (reserve_step i s) j \<longleftrightarrow> j = i \<or> used_frame s j"
  by (auto simp: reserve_step_def)

lemma reserve_step_total [simp]: "total_frames (reserve_step i s) = total_frames s"
  by (simp add: reserve_step_def)

lemma reserve_fold:
  assumes "pmm_inv s" and "\<And>i. i \<in> set is \<Longrightarrow> i < unat (total_frames s)"
  shows "pmm_inv (fold reserve_step is s) \<and> total_frames (fold reserve_step is s) = total_frames s
    \<and> (\<forall>j. used_frame (fold reserve_step is s) j \<longleftrightarrow> j \<in> set is \<or> used_frame s j)"
  using assms
proof (induction "is" arbitrary: s)
  case (Cons i "is")
  have "pmm_inv (reserve_step i s)"
    using Cons.prems by (simp add: reserve_step_def take_frame_inv)
  then have "pmm_inv (fold reserve_step is (reserve_step i s))
    \<and> total_frames (fold reserve_step is (reserve_step i s)) = total_frames (reserve_step i s)
    \<and> (\<forall>j. used_frame (fold reserve_step is (reserve_step i s)) j \<longleftrightarrow>
           j \<in> set is \<or> used_frame (reserve_step i s) j)"
    using Cons.prems by (intro Cons.IH) auto
  then show ?case by auto
qed simp

definition reserve_last :: "u64 \<Rightarrow> u64 \<Rightarrow> pmm_state \<Rightarrow> u64" where
  "reserve_last addr len s =
     (let l = (addr + len + FRAME_SIZE - 1) div FRAME_SIZE
      in if l > total_frames s then total_frames s else l)"

lemma pmm_reserve_fold:
  "pmm_reserve addr len s =
     fold reserve_step [unat (addr div FRAME_SIZE)..<unat (reserve_last addr len s)] s"
  by (simp add: pmm_reserve_def reserve_last_def Let_def)

lemma reserve_last_le: "unat (reserve_last addr len s) \<le> unat (total_frames s)"
  by (auto simp: reserve_last_def Let_def word_le_nat_alt word_less_nat_alt)

lemma pmm_reserve_ok:
  assumes "pmm_inv s"
  shows "pmm_inv (pmm_reserve addr len s)"
    and "total_frames (pmm_reserve addr len s) = total_frames s"
    and "used_frame (pmm_reserve addr len s) j \<longleftrightarrow>
      (unat (addr div FRAME_SIZE) \<le> j \<and> j < unat (reserve_last addr len s)) \<or> used_frame s j"
  using reserve_fold [OF assms, of "[unat (addr div FRAME_SIZE)..<unat (reserve_last addr len s)]"]
    reserve_last_le [of addr len s]
  unfolding pmm_reserve_fold by auto

lemma mmap_loop_inv:
  assumes "mmap_loop n rd32 rd64 a e s = Some t" and "pmm_inv s"
  shows "pmm_inv t \<and> total_frames t = total_frames s \<and> (\<forall>j. used_frame s j \<longrightarrow> used_frame t j)"
  using assms
proof (induction n rd32 rd64 a e s arbitrary: t rule: mmap_loop.induct)
  case (2 n rd32 rd64 a e s)
  show ?case
  proof (cases "a + 20 \<le> e \<and> \<not> rd32 a < 20")
    case True
    let ?s = "if rd32 (a + 20) \<noteq> 1 then pmm_reserve (rd64 (a + 4)) (rd64 (a + 12)) s else s"
    have s: "pmm_inv ?s" "total_frames ?s = total_frames s" "\<forall>j. used_frame s j \<longrightarrow> used_frame ?s j"
      using "2.prems"(2) by (auto simp: pmm_reserve_ok)
    have "mmap_loop n rd32 rd64 (a + ucast (rd32 a + 4)) e ?s = Some t"
      using "2.prems"(1) True by (simp add: Let_def split: if_splits)
    from "2.IH" [OF _ refl refl refl refl _ this s(1)] True s(2,3) show ?thesis by auto
  next
    case False
    then show ?thesis using "2.prems" by (auto simp: Let_def split: if_splits)
  qed
qed simp

section \<open>Allocation\<close>

definition free_run :: "(nat \<Rightarrow> bool) \<Rightarrow> nat \<Rightarrow> nat \<Rightarrow> bool" where
  "free_run used b n \<longleftrightarrow> (\<forall>j<n. \<not> used (b + j))"

text \<open>
  The scan keeps: the \<open>need\<close> frames before \<open>i\<close> are free, and no run of the wanted
  length starts before them.
\<close>

lemma alloc_scan_spec:
  assumes "need \<le> i" and "need < count"
    and "\<And>j. i - need \<le> j \<Longrightarrow> j < i \<Longrightarrow> \<not> used j"
    and "\<And>b. b < i - need \<Longrightarrow> \<not> free_run used b count"
  shows "case alloc_scan used count [i..<i + d] need of
      Some b \<Rightarrow> b + count \<le> i + d \<and> free_run used b count \<and> (\<forall>b'<b. \<not> free_run used b' count)
    | None \<Rightarrow> \<forall>b. b + count \<le> i + d \<longrightarrow> \<not> free_run used b count"
  using assms
proof (induction d arbitrary: i need)
  case 0
  have "\<not> free_run used b count" if "b + count \<le> i" for b
    using 0(2,4) that by simp
  then show ?case by simp
next
  case (Suc d)
  have up: "[i..<i + Suc d] = i # [Suc i..<Suc i + d]" by (simp add: upt_conv_Cons)
  consider (used) "used i" | (hit) "\<not> used i" "Suc need = count" | (more) "\<not> used i" "Suc need \<noteq> count"
    by blast
  then show ?case
  proof cases
    case used
    have nf: "\<not> free_run used b count" if "b < Suc i - 0" for b
    proof (cases "b < i - need")
      case False
      with that Suc.prems(2) have "i - b < count" and "b + (i - b) = i" by auto
      with used show ?thesis by (metis free_run_def)
    qed (use Suc.prems(4) in simp)
    have "case alloc_scan used count [Suc i..<Suc i + d] 0 of
        Some b \<Rightarrow> b + count \<le> Suc i + d \<and> free_run used b count \<and> (\<forall>b'<b. \<not> free_run used b' count)
      | None \<Rightarrow> \<forall>b. b + count \<le> Suc i + d \<longrightarrow> \<not> free_run used b count"
      using Suc.prems(2) nf by (intro Suc.IH) auto
    then show ?thesis unfolding up using used by (simp del: upt_Suc split: option.splits)
  next
    case hit
    have "free_run used (i - need) count"
      unfolding free_run_def
    proof (intro allI impI)
      fix j assume "j < count"
      then show "\<not> used (i - need + j)"
        using hit Suc.prems(1,3) by (cases "i - need + j = i") auto
    qed
    moreover have "i - need + count \<le> i + Suc d" using hit Suc.prems(1) by simp
    moreover have "i + 1 - Suc need = i - need" by simp
    ultimately show ?thesis
      unfolding up alloc_scan.simps using hit Suc.prems(4) by (simp del: upt_Suc diff_Suc_Suc)
  next
    case more
    have "case alloc_scan used count [Suc i..<Suc i + d] (Suc need) of
        Some b \<Rightarrow> b + count \<le> Suc i + d \<and> free_run used b count \<and> (\<forall>b'<b. \<not> free_run used b' count)
      | None \<Rightarrow> \<forall>b. b + count \<le> Suc i + d \<longrightarrow> \<not> free_run used b count"
      using more Suc.prems by (intro Suc.IH) (auto simp: less_Suc_eq)
    then show ?thesis unfolding up using more by (simp del: upt_Suc split: option.splits)
  qed
qed

lemma alloc_scan_from_0:
  assumes "0 < count"
  shows "case alloc_scan used count [0..<n] 0 of
      Some b \<Rightarrow> b + count \<le> n \<and> free_run used b count \<and> (\<forall>b'<b. \<not> free_run used b' count)
    | None \<Rightarrow> \<forall>b. b + count \<le> n \<longrightarrow> \<not> free_run used b count"
  using alloc_scan_spec [of 0 0 count used n] assms by (simp only: add_0 le0 diff_self_eq_0 not_less0)

lemma frame_addr:
  assumes "i \<le> PMM_MAX_FRAMES"
  shows "unat (of_nat i * FRAME_SIZE :: u64) = i * 4096"
    and "(of_nat i * FRAME_SIZE :: u64) div FRAME_SIZE = of_nat i"
    and "unat (of_nat i :: u64) = i"
proof -
  show i: "unat (of_nat i :: u64) = i"
    using assms by (simp add: unat_of_nat PMM_MAX_FRAMES_def)
  show u: "unat (of_nat i * FRAME_SIZE :: u64) = i * 4096"
    using assms i by (simp add: unat_word_ariths FRAME_SIZE_def PMM_MAX_FRAMES_def)
  have "unat ((of_nat i * FRAME_SIZE :: u64) div FRAME_SIZE) = unat (of_nat i :: u64)"
    unfolding unat_div u i by (simp add: FRAME_SIZE_def)
  then show "(of_nat i * FRAME_SIZE :: u64) div FRAME_SIZE = of_nat i"
    by (rule unsigned_word_eqI)
qed

lemma pmm_alloc_frame_cases:
  assumes inv: "pmm_inv s" and alloc: "pmm_alloc_frame s = (p, t)"
  obtains (none) "p = 0" "t = s" "\<forall>i<unat (total_frames s). used_frame s i"
  | (some) i where "i < unat (total_frames s)" "\<not> used_frame s i" "\<forall>j<i. used_frame s j"
      "p = of_nat i * FRAME_SIZE" "t = take_frame i s" "pmm_inv t"
proof (cases "first_in (\<lambda>i. \<not> used_frame s i) 0 (unat (total_frames s))")
  case None
  then have "\<forall>i<unat (total_frames s). used_frame s i" by (simp add: first_in_None_iff)
  with None show ?thesis using alloc none by (simp add: pmm_alloc_frame_def)
next
  case (Some i)
  then have i: "i < unat (total_frames s)" "\<not> used_frame s i" "\<forall>j<i. used_frame s j"
    by (auto simp: first_in_Some_iff)
  then show ?thesis
    using alloc Some inv some by (auto simp: pmm_alloc_frame_def take_frame_inv)
qed

lemma take_frames_offset:
  "fold (\<lambda>j s. take_frame (b + j) s) [0..<n] s = fold take_frame [b..<b + n] s"
proof -
  have "[b..<b + n] = map (\<lambda>j. b + j) [0..<n]"
    by (simp add: map_add_upt add.commute)
  then show ?thesis by (simp add: fold_map comp_def)
qed

lemma pmm_alloc_frames_cases:
  assumes inv: "pmm_inv s" and count: "0 < count" and alloc: "pmm_alloc_frames count s = (p, t)"
  obtains (none) "p = 0" "t = s"
      "\<forall>b. b + unat count \<le> unat (total_frames s) \<longrightarrow> \<not> free_run (used_frame s) b (unat count)"
  | (some) b where "b + unat count \<le> unat (total_frames s)" "free_run (used_frame s) b (unat count)"
      "\<forall>b'<b. \<not> free_run (used_frame s) b' (unat count)"
      "p = of_nat b * FRAME_SIZE" "t = fold take_frame [b..<b + unat count] s"
proof -
  have pos: "0 < unat count" using count by (simp add: word_less_nat_alt)
  note spec = alloc_scan_from_0 [OF pos, where used = "used_frame s" and n = "unat (total_frames s)"]
  show ?thesis
  proof (cases "alloc_scan (used_frame s) (unat count) [0..<unat (total_frames s)] 0")
    case None
    then show ?thesis using alloc none spec by (auto simp: pmm_alloc_frames_def)
  next
    case (Some b)
    then have b: "b + unat count \<le> unat (total_frames s)" "free_run (used_frame s) b (unat count)"
      "\<forall>b'<b. \<not> free_run (used_frame s) b' (unat count)"
      using spec by auto
    then have "b \<le> PMM_MAX_FRAMES" using inv by (simp add: pmm_inv_def)
    then have "t = fold take_frame [b..<b + unat count] s" and "p = of_nat b * FRAME_SIZE"
      using alloc Some by (auto simp: pmm_alloc_frames_def Let_def frame_addr take_frames_offset)
    then show ?thesis using some b by blast
  qed
qed

section \<open>Initialisation\<close>

lemma mmap_loop_enough:
  assumes sz: "\<And>x. rd32 x < 0xFFFFFFFC" and e: "unat e < 17179869184"
    and "unat a < 34359738368" and "unat e - unat a < n"
  shows "\<exists>t. mmap_loop n rd32 rd64 a e s = Some t"
  using assms(3,4)
proof (induction n arbitrary: a s)
  case (Suc n)
  show ?case
  proof (cases "a + 20 \<le> e \<and> \<not> rd32 a < 20")
    case True
    have a20: "unat (a + 20) = unat a + 20" using Suc.prems(1) by (simp add: unat_word_ariths)
    with True have le: "unat a + 20 \<le> unat e" by (simp add: word_le_nat_alt)
    have "unat (rd32 a) < 4294967292" using sz [of a] by (simp add: word_less_nat_alt)
    then have s4: "unat (rd32 a + 4) = unat (rd32 a) + 4" by (simp add: unat_word_ariths)
    with Suc.prems(1) \<open>unat (rd32 a) < 4294967292\<close>
    have a': "unat (a + ucast (rd32 a + 4)) = unat a + unat (rd32 a) + 4"
      by (simp add: unat_word_ariths(1) [where ?'a = 64] s4)
    have "\<exists>t. mmap_loop n rd32 rd64 (a + ucast (rd32 a + 4)) e s' = Some t" for s'
      using a' le e Suc.prems(2) \<open>unat (rd32 a) < 4294967292\<close> by (intro Suc.IH) simp_all
    then show ?thesis using True by (auto simp: Let_def)
  qed (auto simp: Let_def)
qed simp

definition init_frames :: "u32 \<Rightarrow> u64" where
  "init_frames mem_upper =
     (let m = 0x100000 + ucast mem_upper * 1024
      in (if m > 0x40000000 then 0x40000000 else m) div FRAME_SIZE)"

lemma unat_init_frames: "unat (init_frames m) = min 262144 (256 + unat m div 4)"
proof -
  let ?w = "0x100000 + ucast m * 1024 :: u64"
  have u: "unat ?w = 1048576 + unat m * 1024"
    using unat_less_2p32 [of m] by (simp add: unat_word_ariths)
  have "unat (init_frames m) = (if unat ?w > 1073741824 then 1073741824 else unat ?w) div 4096"
    by (simp add: init_frames_def Let_def unat_div FRAME_SIZE_def word_less_nat_alt)
  then show ?thesis unfolding u by auto
qed

lemma reserve_last_no_wrap:
  assumes "unat addr + unat len + 4095 < 2 ^ 64"
  shows "unat (reserve_last addr len s) = min (unat (total_frames s)) ((unat addr + unat len + 4095) div 4096)"
proof -
  have "unat (addr + len + FRAME_SIZE - 1) = unat addr + unat len + 4095"
  proof -
    have "addr + len + FRAME_SIZE - 1 = addr + (len + 4095)" by (simp add: FRAME_SIZE_def)
    then show ?thesis using assms by (simp only:) (simp add: unat_word_ariths)
  qed
  then show ?thesis
    by (auto simp: reserve_last_def Let_def unat_div FRAME_SIZE_def word_less_nat_alt min_def)
qed

lemma init_state_inv:
  assumes "unat n \<le> PMM_MAX_FRAMES"
  shows "pmm_inv \<lparr>bitmap = (\<lambda>_. 0), total_frames = n, free_frames = n\<rparr>"
  using assms by (simp add: pmm_inv_def free_count_def bitmap_test_def)

lemmas pmm_reserve_simps = pmm_reserve_ok(2,3) pmm_reserve_ok(1)

text \<open>A small allocator for the concrete instances below: three frames, frame 0 taken.\<close>

definition demo_pmm :: pmm_state where
  "demo_pmm = \<lparr>bitmap = (\<lambda>_. 1), total_frames = 3, free_frames = 2\<rparr>"

lemma demo_used: "used_frame demo_pmm i \<longleftrightarrow> i mod 8 = 0"
  by (simp add: demo_pmm_def bitmap_test_bit bit_1_iff)

lemma demo_inv: "pmm_inv demo_pmm"
proof -
  have "{i. i < 3 \<and> \<not> used_frame demo_pmm i} = {1, 2}"
    by (auto simp: demo_used numeral_3_eq_3 less_Suc_eq)
  moreover have "unat (total_frames demo_pmm) = 3" by (simp add: demo_pmm_def)
  ultimately show ?thesis
    by (simp add: pmm_inv_def free_count_def PMM_MAX_FRAMES_def) (simp add: demo_pmm_def)
qed

lemma demo_alloc: "fst (pmm_alloc_frame demo_pmm) = 4096"
  by (simp add: pmm_alloc_frame_def first_in_def demo_used upt_rec) (simp add: demo_pmm_def upt_rec demo_used [unfolded demo_pmm_def, simplified] FRAME_SIZE_def)

section \<open>Properties\<close>

text \<open>
  C29: on a consistent allocator whose frame 0 is reserved, allocating a frame
  returns 0 exactly when no frame is left, and otherwise the address of the lowest free
  frame, which it marks used; no other frame changes, the counter stays the number of free
  frames, and the address is never the frame-0 address that callers read as failure.
\<close>

theorem pmm_alloc_frame_first_fit:
  assumes "pmm_inv s" and "used_frame s 0" and "pmm_alloc_frame s = (p, t)"
  shows "pmm_inv t
    \<and> (p = 0 \<longleftrightarrow> free_count s = 0)
    \<and> (p = 0 \<longrightarrow> t = s)
    \<and> (p \<noteq> 0 \<longrightarrow> (\<exists>i. i < unat (total_frames s) \<and> unat p = i * 4096 \<and> \<not> used_frame s i
          \<and> (\<forall>j<i. used_frame s j) \<and> (\<forall>j. used_frame t j \<longleftrightarrow> j = i \<or> used_frame s j)
          \<and> unat (free_frames t) + 1 = unat (free_frames s)))"
  using assms(1,3)
proof (cases rule: pmm_alloc_frame_cases)
  case none
  then have e: "{i. i < unat (total_frames s) \<and> \<not> used_frame s i} = {}" by auto
  then have "free_count s = 0" unfolding free_count_def e by simp
  with none assms(1) show ?thesis by simp
next
  case (some i)
  have "i \<noteq> 0" using assms(2) some by (metis)
  moreover have "unat p = i * 4096"
    using some assms(1) by (simp add: pmm_inv_def frame_addr)
  moreover have "free_count s = Suc (free_count t)"
    using pmm_bits.card_clear_put [of i "unat (total_frames s)" "bitmap s"] some
    by (simp add: free_count_def take_frame_def)
  ultimately show ?thesis
    using some assms(1) by (auto simp: pmm_inv_def)
qed

theorem pmm_alloc_frame_first_fit_witness:
  "pmm_inv demo_pmm \<and> used_frame demo_pmm 0 \<and> pmm_inv (snd (pmm_alloc_frame demo_pmm))
    \<and> used_frame (snd (pmm_alloc_frame demo_pmm)) 1"
proof -
  have z: "used_frame demo_pmm 0" by (simp add: demo_used)
  have p: "pmm_alloc_frame demo_pmm = (4096, snd (pmm_alloc_frame demo_pmm))"
    using demo_alloc by (metis prod.collapse)
  have ne: "(4096 :: u64) \<noteq> 0" by simp
  show ?thesis using pmm_alloc_frame_first_fit [OF demo_inv z p] ne z demo_inv by auto
qed

lemma pmm_alloc_frames_spec:
  assumes "pmm_inv s" and "used_frame s 0" and "0 < count" and "pmm_alloc_frames count s = (p, t)"
  shows "pmm_inv t \<and> (p = 0 \<longrightarrow> t = s)
    \<and> (p = 0 \<longleftrightarrow> (\<forall>b. b + unat count \<le> unat (total_frames s) \<longrightarrow> \<not> free_run (used_frame s) b (unat count)))
    \<and> (p \<noteq> 0 \<longrightarrow> (\<exists>b. unat p = b * 4096 \<and> b + unat count \<le> unat (total_frames s)
          \<and> free_run (used_frame s) b (unat count) \<and> (\<forall>b'<b. \<not> free_run (used_frame s) b' (unat count))
          \<and> (\<forall>j. used_frame t j \<longleftrightarrow> (b \<le> j \<and> j < b + unat count) \<or> used_frame s j)))"
  using assms(1,3,4)
proof (cases rule: pmm_alloc_frames_cases)
  case none
  with assms(1) show ?thesis by simp
next
  case (some b)
  have pos: "0 < unat count" using assms(3) by (simp add: word_less_nat_alt)
  have "b \<noteq> 0" using some(2) pos assms(2) by (metis add_0 free_run_def)
  moreover have "unat p = b * 4096"
    using some assms(1) by (simp add: pmm_inv_def frame_addr)
  moreover have "pmm_inv t \<and> total_frames t = total_frames s
      \<and> (\<forall>j. used_frame t j \<longleftrightarrow> j \<in> set [b..<b + unat count] \<or> used_frame s j)"
    unfolding some(5)
  proof (rule take_frames_fold [OF assms(1)])
    fix i assume "i \<in> set [b..<b + unat count]"
    then obtain k where "i = b + k" "k < unat count"
      by (metis atLeastLessThan_iff le_Suc_ex nat_add_left_cancel_less set_upt)
    then show "i < unat (total_frames s) \<and> \<not> used_frame s i"
      using some(1,2) by (auto simp: free_run_def)
  qed simp
  ultimately show ?thesis using some(1-3) by auto
qed

text \<open>
  What clients of the allocator rely on: a granted run was free, lies below the limit and is used
  from then on, and a refused request changes nothing.
\<close>

locale frame_allocator =
  fixes alloc :: "u64 \<Rightarrow> 's \<Rightarrow> u64 \<times> 's" and used :: "'s \<Rightarrow> nat \<Rightarrow> bool" and ok :: "'s \<Rightarrow> bool" and limit :: nat
  assumes grant: "ok s \<Longrightarrow> 0 < n \<Longrightarrow> alloc n s = (p, t) \<Longrightarrow> p \<noteq> 0 \<Longrightarrow>
      ok t \<and> (\<exists>b. unat p = b * 4096 \<and> b + unat n \<le> limit \<and> (\<forall>j. b \<le> j \<and> j < b + unat n \<longrightarrow> \<not> used s j)
        \<and> (\<forall>j. used t j \<longleftrightarrow> (b \<le> j \<and> j < b + unat n) \<or> used s j))"
    and refuse: "alloc n s = (0, t) \<Longrightarrow> ok s \<Longrightarrow> t = s"
    and none: "alloc 0 s = (0, s)"
begin

lemma used_mono: "ok s \<Longrightarrow> alloc n s = (p, t) \<Longrightarrow> used s j \<Longrightarrow> used t j"
proof (cases "n = 0 \<or> p = 0")
  case True
  assume a: "ok s" "alloc n s = (p, t)" "used s j"
  then show ?thesis using True none [of s] refuse by auto
next
  case False
  assume a: "ok s" "alloc n s = (p, t)" "used s j"
  then show ?thesis using False grant [of s n p t] by (auto simp: word_gt_0)
qed

lemma alloc_ok: "ok s \<Longrightarrow> alloc n s = (p, t) \<Longrightarrow> ok t"
  using grant [of s n p t] refuse [of n s t] none [of s] by (cases "n = 0") (auto simp: word_gt_0)

text \<open>Two grants never overlap.\<close>

lemma grants_disjoint:
  assumes "ok s" and "alloc n s = (p, t)" "p \<noteq> 0" "0 < n" and "alloc m t = (q, u)" "q \<noteq> 0" "0 < m"
  shows "unat p + unat n * 4096 \<le> unat q \<or> unat q + unat m * 4096 \<le> unat p"
proof -
  obtain b where b: "ok t" "unat p = b * 4096" "\<forall>j. b \<le> j \<and> j < b + unat n \<longrightarrow> used t j"
    using grant [OF assms(1,4,2,3)] by auto
  obtain c where c: "unat q = c * 4096" "\<forall>j. c \<le> j \<and> j < c + unat m \<longrightarrow> \<not> used t j"
    using grant [OF b(1) assms(7,5,6)] by auto
  have pos: "0 < unat n" "0 < unat m" using assms by (simp_all add: word_less_nat_alt)
  have "b + unat n \<le> c \<or> c + unat m \<le> b"
  proof (rule ccontr)
    assume "\<not> ?thesis"
    then have "b \<le> max b c \<and> max b c < b + unat n" "c \<le> max b c \<and> max b c < c + unat m" using pos by auto
    then show False using b(3) c(2) by blast
  qed
  then show ?thesis using b(2) c(1) by (metis add_mult_distrib mult_le_mono1)
qed

end

lemma pmm_alloc_zero: "pmm_alloc_frames 0 s = (0, s)"
proof -
  have "alloc_scan used 0 is need = None" for used "is" need
    by (induction used "0 :: nat" "is" need rule: alloc_scan.induct) auto
  then show ?thesis by (simp add: pmm_alloc_frames_def)
qed

lemma free_count_takes:
  "distinct is \<Longrightarrow> \<forall>i\<in>set is. i < unat (total_frames s) \<and> \<not> used_frame s i \<Longrightarrow>
     free_count s = length is + free_count (fold take_frame is s)"
proof (induction "is" arbitrary: s)
  case (Cons i "is")
  have "\<forall>j\<in>set is. j < unat (total_frames (take_frame i s)) \<and> \<not> used_frame (take_frame i s) j"
    using Cons.prems by auto
  from Cons.IH [OF _ this] show ?case using free_count_take [of i s] Cons.prems by simp
qed simp

lemma pmm_alloc_frames_count:
  assumes "pmm_inv s" and "used_frame s 0" and "pmm_alloc_frames n s = (p, t)"
  shows "if p = 0 then free_count t = free_count s else free_count s = unat n + free_count t"
proof (cases "n = 0")
  case False
  then have n: "0 < n" by (simp add: word_gt_0)
  from assms(1) n assms(3) show ?thesis
  proof (cases rule: pmm_alloc_frames_cases)
    case (some b)
    have "i < unat (total_frames s) \<and> \<not> used_frame s i" if "i \<in> set [b..<b + unat n]" for i
      using some(1,2) that unfolding free_run_def
      by (metis atLeastLessThan_iff le_add_diff_inverse nat_add_left_cancel_less order_less_le_trans set_upt)
    then have "free_count s = unat n + free_count t" using free_count_takes [of "[b..<b + unat n]" s] some(5) by simp
    moreover have "0 < unat n" using n by (simp add: word_less_nat_alt)
    then have "b \<noteq> 0" using some(2) assms(2) by (metis add_0 free_run_def)
    then have "p \<noteq> 0" using some(1,4) assms(1) frame_addr(1) [of b] by (auto simp: pmm_inv_def)
    ultimately show ?thesis by simp
  qed auto
qed (use assms(3) in \<open>simp add: pmm_alloc_zero\<close>)

interpretation pmm: frame_allocator pmm_alloc_frames used_frame "\<lambda>s. pmm_inv s \<and> used_frame s 0" PMM_MAX_FRAMES
proof
  fix s n p t
  assume a: "pmm_inv s \<and> used_frame s 0" "(0 :: u64) < n" "pmm_alloc_frames n s = (p, t)" "p \<noteq> 0"
  obtain b where b: "pmm_inv t" "unat p = b * 4096" "b + unat n \<le> unat (total_frames s)" "free_run (used_frame s) b (unat n)"
    "\<forall>j. used_frame t j \<longleftrightarrow> (b \<le> j \<and> j < b + unat n) \<or> used_frame s j"
    using pmm_alloc_frames_spec [of s n p t] a by blast
  have "\<not> used_frame s j" if "b \<le> j \<and> j < b + unat n" for j
    using b(4) that unfolding free_run_def by (metis le_add_diff_inverse nat_add_left_cancel_less)
  then show "(pmm_inv t \<and> used_frame t 0) \<and> (\<exists>b. unat p = b * 4096 \<and> b + unat n \<le> PMM_MAX_FRAMES
      \<and> (\<forall>j. b \<le> j \<and> j < b + unat n \<longrightarrow> \<not> used_frame s j)
      \<and> (\<forall>j. used_frame t j \<longleftrightarrow> (b \<le> j \<and> j < b + unat n) \<or> used_frame s j))"
    using a(1) b by (auto simp: pmm_inv_def intro!: exI [of _ b])
next
  fix n s t
  assume "pmm_alloc_frames n s = (0, t)" "pmm_inv s \<and> used_frame s 0"
  then show "t = s" using pmm_alloc_frames_spec [of s n 0 t] pmm_alloc_zero [of s]
    by (cases "n = 0") (auto simp: word_gt_0)
qed (rule pmm_alloc_zero)

text \<open>
  C30: \<open>pmm_alloc_frames\<close> returns 0 exactly when no run of \<open>count\<close> free frames
  exists; otherwise the address of the lowest such run, all of whose frames become used
  while nothing else changes, and the counter drops by \<open>count\<close>.
\<close>

theorem pmm_alloc_frames_first_fit:
  assumes "pmm_inv s" and "used_frame s 0" and "0 < count" and "pmm_alloc_frames count s = (p, t)"
  shows "pmm_inv t
    \<and> (p = 0 \<longleftrightarrow> (\<forall>b. b + unat count \<le> unat (total_frames s) \<longrightarrow> \<not> free_run (used_frame s) b (unat count)))
    \<and> (p \<noteq> 0 \<longrightarrow> (\<exists>b. unat p = b * 4096 \<and> b + unat count \<le> unat (total_frames s)
          \<and> free_run (used_frame s) b (unat count) \<and> (\<forall>b'<b. \<not> free_run (used_frame s) b' (unat count))
          \<and> (\<forall>j. used_frame t j \<longleftrightarrow> (b \<le> j \<and> j < b + unat count) \<or> used_frame s j)))"
  using pmm_alloc_frames_spec [OF assms] by blast

theorem pmm_alloc_frames_first_fit_witness:
  "pmm_inv demo_pmm \<and> used_frame demo_pmm 0 \<and> (0 :: u64) < 2
    \<and> pmm_inv (snd (pmm_alloc_frames 2 demo_pmm))"
proof -
  have z: "used_frame demo_pmm 0" by (simp add: demo_used)
  have c: "(0 :: u64) < 2" by simp
  have p: "pmm_alloc_frames 2 demo_pmm = (fst (pmm_alloc_frames 2 demo_pmm), snd (pmm_alloc_frames 2 demo_pmm))"
    by simp
  show ?thesis using pmm_alloc_frames_first_fit [OF demo_inv z c p] z c demo_inv by blast
qed



text \<open>
  Freeing a frame that was just allocated puts the allocator back exactly as
  it was as far as any client can tell: the same frames are used and the counters agree.
\<close>

theorem pmm_alloc_free_restores:
  assumes "pmm_inv s" and "pmm_alloc_frame s = (p, t)" and "p \<noteq> 0"
  shows "(\<forall>j. used_frame (pmm_free_frame p t) j = used_frame s j)
    \<and> total_frames (pmm_free_frame p t) = total_frames s
    \<and> free_frames (pmm_free_frame p t) = free_frames s"
  using assms(1,2)
proof (cases rule: pmm_alloc_frame_cases)
  case none
  with assms(3) show ?thesis by simp
next
  case (some i)
  have i: "i \<le> PMM_MAX_FRAMES" using some(1) assms(1) by (simp add: pmm_inv_def)
  have d: "p div FRAME_SIZE = of_nat i" using some(4) frame_addr(2) [OF i] by simp
  have lt: "of_nat i < total_frames s" using some(1) frame_addr(3) [OF i] by (simp add: word_less_nat_alt)
  show ?thesis
    using some(2,5) lt frame_addr(3) [OF i]
    by (auto simp: used_pmm_free_frame d) (simp add: pmm_free_frame_def d take_frame_def pmm_bits.get_put)
qed

theorem pmm_alloc_free_restores_witness:
  "used_frame (pmm_free_frame 4096 (snd (pmm_alloc_frame demo_pmm))) 2 = used_frame demo_pmm 2"
proof -
  have p: "pmm_alloc_frame demo_pmm = (4096, snd (pmm_alloc_frame demo_pmm))"
    using demo_alloc by (metis prod.collapse)
  have ne: "(4096 :: u64) \<noteq> 0" by simp
  show ?thesis using pmm_alloc_free_restores [OF demo_inv p ne] by simp
qed

end
