(* ===== verification/Noc.thy ===== *)
theory Noc
  imports Prelude "HOL-Library.Signed_Division"
begin

unbundle bit_operations_syntax

text \<open>
  The data of the NOC language, \<^verbatim>\<open>kernel/include/noc.h\<close>: limits, type codes, tokens,
  syntax trees, opcodes with their byte values, the function record, and the function
  registry of \<^verbatim>\<open>kernel/noc/vm.c\<close>. Code buffers are byte lists; the operands of an
  instruction are stored little-endian, as \<^verbatim>\<open>memcpy\<close> from an integer does on x86-64.
\<close>

section \<open>Limits and type codes\<close>

definition NOC_MAX_ARGS :: nat where "NOC_MAX_ARGS = 16"
definition NOC_MAX_LOCALS :: nat where "NOC_MAX_LOCALS = 64"
definition NOC_MAX_STRINGS :: nat where "NOC_MAX_STRINGS = 64"
definition NOC_MAX_FUNCS :: nat where "NOC_MAX_FUNCS = 128"
definition NOC_MAX_TOKS :: nat where "NOC_MAX_TOKS = 512"
definition NOC_MAX_NODES :: nat where "NOC_MAX_NODES = 1024"

datatype ntype =
    NTYPE_VOID | NTYPE_I64 | NTYPE_U64 | NTYPE_BOOL | NTYPE_STR | NTYPE_U8 | NTYPE_I8
  | NTYPE_U16 | NTYPE_I16 | NTYPE_U32 | NTYPE_I32 | NTYPE_F64

section \<open>Tokens\<close>

datatype (plugins only: code size) tok_t =
    T_EOF | T_NUM | T_STR | T_IDENT
  | T_LP | T_RP | T_LB | T_RB | T_SEMI | T_COMMA
  | T_PLUS | T_MINUS | T_STAR | T_SLASH | T_PCT
  | T_EQ | T_EQEQ | T_NEQ | T_LT | T_LE | T_GT | T_GE
  | T_ANDAND | T_OROR | T_BANG | T_AMP | T_PIPE | T_CARET | T_TILDE
  | T_SHL | T_SHR | T_PLUSPLUS | T_MINUSMINUS
  | T_PLUSEQ | T_MINUSEQ | T_STAREQ | T_SLASHEQ
  | T_IF | T_ELSE | T_WHILE | T_FOR | T_RETURN | T_TRUE | T_FALSE
  | T_TYPE_U0 | T_TYPE_I64 | T_TYPE_U64 | T_TYPE_BOOL | T_TYPE_STR
  | T_TYPE_U8 | T_TYPE_U16 | T_TYPE_U32 | T_TYPE_I8 | T_TYPE_I16 | T_TYPE_I32
  | T_TYPE_F64

text \<open>\<open>tok_s\<close> is \<open>None\<close> for the null pointer. The lexer leaves \<open>num\<close> of the
  end token unset; the model stores 0 there and nothing reads it.\<close>

record tok =
  tok_t :: tok_t
  tok_num :: u64
  tok_s :: "string option"

text \<open>A token array as the parser expects it: one end token, at the end.\<close>

definition eof_ended :: "tok list \<Rightarrow> bool" where
  "eof_ended toks \<longleftrightarrow>
     (\<exists>pre e. toks = pre @ [e] \<and> tok_t e = T_EOF \<and> (\<forall>t\<in>set pre. tok_t t \<noteq> T_EOF))"

section \<open>Syntax trees\<close>

datatype binop =
    BIN_ADD | BIN_SUB | BIN_MUL | BIN_DIV | BIN_MOD
  | BIN_EQ | BIN_NE | BIN_LT | BIN_LE | BIN_GT | BIN_GE
  | BIN_BAND | BIN_BOR | BIN_BXOR | BIN_SHL | BIN_SHR
  | BIN_ANDAND | BIN_OROR

datatype asgop = BIN_ASSIGN | BIN_ADDASSIGN | BIN_SUBASSIGN | BIN_MULASSIGN | BIN_DIVASSIGN

text \<open>\<open>INC_PRE\<close> carries the direction flag that the source keeps in \<^verbatim>\<open>val\<close>.\<close>

datatype unop = UNOP_NEG | UNOP_NOT | UNOP_BNOT | INC_PRE bool

text \<open>
  One constructor per \<^verbatim>\<open>ast_t\<close> kind with the fields that kind uses; an absent child is
  \<open>None\<close>. \<open>A_PREINC\<close> exists in the header's enum but no code builds it.
\<close>

datatype ast =
    A_BLOCK "ast list"
  | A_STMTEXPR ast
  | A_VARDECL ntype string "ast option"
  | A_IF ast ast "ast option"
  | A_WHILE ast ast
  | A_FOR "ast option" "ast option" "ast option" ast
  | A_RETURN "ast option"
  | A_FUNCDECL ntype string "ast list" ast
  | A_LIT u64
  | A_STRLIT string
  | A_VAR string
  | A_BIN binop ast ast
  | A_UN unop ast
  | A_ASSIGN asgop string ast
  | A_CALL string "ast list"
  | A_POSTINC string bool ast

section \<open>Opcodes\<close>

datatype opcode =
    OP_PUSH | OP_PUSHSTR | OP_DUP | OP_POP | OP_LOAD | OP_STORE | OP_CALL
  | OP_RET | OP_JMP | OP_JMPF | OP_JMPT
  | OP_ADD | OP_SUB | OP_MUL | OP_DIV | OP_MOD
  | OP_EQ | OP_NE | OP_LT | OP_LE | OP_GT | OP_GE
  | OP_BAND | OP_BOR | OP_BXOR | OP_SHL | OP_SHR
  | OP_NOT | OP_NEG | OP_BNOT | OP_HALT

text \<open>The enum gives consecutive byte values in the order above.\<close>

definition opcodes :: "opcode list" where
  "opcodes = [OP_PUSH, OP_PUSHSTR, OP_DUP, OP_POP, OP_LOAD, OP_STORE, OP_CALL,
     OP_RET, OP_JMP, OP_JMPF, OP_JMPT, OP_ADD, OP_SUB, OP_MUL, OP_DIV, OP_MOD,
     OP_EQ, OP_NE, OP_LT, OP_LE, OP_GT, OP_GE, OP_BAND, OP_BOR, OP_BXOR, OP_SHL, OP_SHR,
     OP_NOT, OP_NEG, OP_BNOT, OP_HALT]"

fun op_byte :: "opcode \<Rightarrow> u8" where
  "op_byte OP_PUSH = 0" | "op_byte OP_PUSHSTR = 1" | "op_byte OP_DUP = 2"
| "op_byte OP_POP = 3" | "op_byte OP_LOAD = 4" | "op_byte OP_STORE = 5"
| "op_byte OP_CALL = 6" | "op_byte OP_RET = 7" | "op_byte OP_JMP = 8"
| "op_byte OP_JMPF = 9" | "op_byte OP_JMPT = 10" | "op_byte OP_ADD = 11"
| "op_byte OP_SUB = 12" | "op_byte OP_MUL = 13" | "op_byte OP_DIV = 14"
| "op_byte OP_MOD = 15" | "op_byte OP_EQ = 16" | "op_byte OP_NE = 17"
| "op_byte OP_LT = 18" | "op_byte OP_LE = 19" | "op_byte OP_GT = 20"
| "op_byte OP_GE = 21" | "op_byte OP_BAND = 22" | "op_byte OP_BOR = 23"
| "op_byte OP_BXOR = 24" | "op_byte OP_SHL = 25" | "op_byte OP_SHR = 26"
| "op_byte OP_NOT = 27" | "op_byte OP_NEG = 28" | "op_byte OP_BNOT = 29"
| "op_byte OP_HALT = 30"

definition byte_op :: "u8 \<Rightarrow> opcode option" where
  "byte_op b = (if unat b < 31 then Some (opcodes ! unat b) else None)"

lemma byte_op_byte [simp]: "byte_op (op_byte opc) = Some opc"
  by (cases opc) (simp_all add: byte_op_def opcodes_def)

section \<open>Little-endian operands\<close>

definition le_bytes :: "nat \<Rightarrow> 'a::len word \<Rightarrow> u8 list" where
  "le_bytes n v = map (\<lambda>i. ucast (drop_bit (8 * i) v)) [0..<n]"

definition of_le :: "u8 list \<Rightarrow> 'a::len word" where
  "of_le bs = foldr (\<lambda>b acc. ucast b OR push_bit 8 acc) bs 0"

lemma length_le_bytes [simp]: "length (le_bytes n v) = n"
  by (simp add: le_bytes_def)

lemma le_bytes_Suc: "le_bytes (Suc n) v = ucast v # le_bytes n (drop_bit 8 v)"
  by (simp add: le_bytes_def upt_conv_Cons map_Suc_upt [symmetric] del: upt_Suc) (simp add: comp_def add.commute)

lemma of_le_bytes: "of_le (le_bytes n v) = take_bit (8 * n) v"
proof (induction n arbitrary: v)
  case 0
  then show ?case by (simp add: of_le_def le_bytes_def)
next
  case (Suc n)
  have "of_le (le_bytes (Suc n) v) = ucast (ucast v :: u8) OR push_bit 8 (take_bit (8 * n) (drop_bit 8 v))"
    using Suc.IH [of "drop_bit 8 v"] by (simp add: le_bytes_Suc of_le_def)
  also have "\<dots> = take_bit (8 * Suc n) v"
    by (rule bit_eqI) (auto simp: bit_simps)
  finally show ?case .
qed

lemma of_le_u64 [simp]: "of_le (le_bytes 8 (v :: u64)) = v"
  by (simp add: of_le_bytes take_bit_word_eq_self)

lemma of_le_u32 [simp]: "of_le (le_bytes 4 (v :: u32)) = v"
  by (simp add: of_le_bytes take_bit_word_eq_self)

text \<open>A text between single quotes, for the error messages.\<close>

definition quoted :: "string \<Rightarrow> string" where
  "quoted s = CHR 0x27 # s @ [CHR 0x27]"

section \<open>The line arena\<close>

text \<open>
  \<^verbatim>\<open>noc_arena\<close> (\<^verbatim>\<open>lexer.c\<close>): a bump allocator for one line. Only how much is used
  matters; the model keeps values where the source keeps pointers into the arena.
\<close>

record arena =
  ar_base :: u64
  ar_used :: nat
  ar_cap :: nat

definition noc_arena_alloc :: "nat \<Rightarrow> arena \<Rightarrow> arena option" where
  "noc_arena_alloc n a =
     (let n = (n + 15) div 16 * 16
      in if ar_base a = 0 \<or> ar_used a + n > ar_cap a then None
         else Some (a\<lparr>ar_used := ar_used a + n\<rparr>))"

section \<open>The platform layer\<close>

text \<open>
  The compiler and the virtual machine reach memory through \<^verbatim>\<open>noc_os.h\<close>, which the kernel
  implements by \<^verbatim>\<open>kmalloc\<close>/\<^verbatim>\<open>kfree\<close> and a user process by system calls. An allocator is a
  function from the history of calls (latest first) and a size to an address, 0 for the
  null pointer, so a statement about every allocator is a statement about both.
\<close>

datatype os_event = OsAlloc u64 u64 | OsFree u64

type_synonym os_log = "os_event list"
type_synonym allocator = "os_log \<Rightarrow> u64 \<Rightarrow> u64"

definition noc_os_alloc :: "allocator \<Rightarrow> u64 \<Rightarrow> os_log \<Rightarrow> u64 \<times> os_log" where
  "noc_os_alloc os n log = (let p = os log n in (p, OsAlloc n p # log))"

definition noc_os_free :: "u64 \<Rightarrow> os_log \<Rightarrow> os_log" where
  "noc_os_free p log = OsFree p # log"

section \<open>Functions and the registry\<close>

text \<open>
  \<^verbatim>\<open>noc_fn\<close>. Pointers that are handed back to the allocator keep their address beside
  the value they point to: the record itself, its name, its code and each string.
\<close>

record noc_fn =
  fn_ptr :: u64
  fn_name_ptr :: u64
  fn_name :: string
  fn_code_ptr :: u64
  fn_code :: "u8 list"
  fn_strings :: "(u64 \<times> string) list"
  fn_nargs :: nat
  fn_nlocals :: nat
  fn_ret_type :: ntype
  fn_defaults :: "nat \<Rightarrow> u64"
  fn_has_def :: "nat \<Rightarrow> bool"
  fn_builtin :: int
  fn_variadic :: bool
  fn_last_expr :: bool

definition empty_fn :: noc_fn where
  "empty_fn = \<lparr>fn_ptr = 0, fn_name_ptr = 0, fn_name = [], fn_code_ptr = 0, fn_code = [],
     fn_strings = [], fn_nargs = 0, fn_nlocals = 0, fn_ret_type = NTYPE_VOID,
     fn_defaults = (\<lambda>_. 0), fn_has_def = (\<lambda>_. False), fn_builtin = 0, fn_variadic = False,
     fn_last_expr = False\<rparr>"

definition lower_char :: "char \<Rightarrow> char" where
  "lower_char c =
     (if CHR ''A'' \<le> c \<and> c \<le> CHR ''Z'' then char_of (of_char c - 65 + 97 :: nat) else c)"

fun noc_name_eq :: "string \<Rightarrow> string \<Rightarrow> bool" where
  "noc_name_eq (a # as) (b # bs) = (if lower_char a \<noteq> lower_char b then False else noc_name_eq as bs)"
| "noc_name_eq [] [] = True"
| "noc_name_eq _ _ = False"

type_synonym registry = "noc_fn list"

definition noc_lookup :: "registry \<Rightarrow> string \<Rightarrow> noc_fn option" where
  "noc_lookup fs name = List.find (\<lambda>f. noc_name_eq (fn_name f) name) fs"

definition free_if :: "u64 \<Rightarrow> os_log \<Rightarrow> os_log" where
  "free_if p log = (if p \<noteq> 0 then noc_os_free p log else log)"

definition free_strings :: "(u64 \<times> string) list \<Rightarrow> os_log \<Rightarrow> os_log" where
  "free_strings ss log = fold (\<lambda>(p, _). free_if p) ss log"

text \<open>The registry replaces the first function with exactly that name, else appends.\<close>

definition same_name_idx :: "registry \<Rightarrow> string \<Rightarrow> nat option" where
  "same_name_idx fs name = first_in (\<lambda>i. fn_name (fs ! i) = name) 0 (length fs)"

definition noc_register_user_fn :: "noc_fn \<Rightarrow> registry \<Rightarrow> os_log \<Rightarrow> registry option \<times> os_log" where
  "noc_register_user_fn f fs log =
     (case same_name_idx fs (fn_name f) of
        Some i \<Rightarrow>
          (let old = fs ! i;
               l1 = free_if (fn_code_ptr old) log;
               l2 = free_strings (fn_strings old) l1;
               l3 = free_if (fn_name_ptr old) l2
           in (Some (fs[i := f]), noc_os_free (fn_ptr old) l3))
      | None \<Rightarrow> if length fs \<ge> NOC_MAX_FUNCS then (None, log) else (Some (fs @ [f]), log))"

text \<open>\<^verbatim>\<open>sizeof(noc_fn)\<close> on x86-64.\<close>

definition sizeof_noc_fn :: u64 where
  "sizeof_noc_fn = 712"

definition noc_register_builtin ::
  "allocator \<Rightarrow> string \<Rightarrow> ntype \<Rightarrow> nat \<Rightarrow> bool \<Rightarrow> nat \<Rightarrow> registry \<Rightarrow> os_log \<Rightarrow> registry option \<times> os_log" where
  "noc_register_builtin os name ret nargs variadic idx fs log =
     (let (p, l1) = noc_os_alloc os sizeof_noc_fn log
      in if p = 0 then (None, l1)
         else (let (nm, l2) = noc_os_alloc os (of_nat (length name) + 1) l1
               in if nm = 0 then (None, noc_os_free p l2)
                  else noc_register_user_fn
                         (empty_fn\<lparr>fn_ptr := p, fn_name_ptr := nm, fn_name := name, fn_ret_type := ret,
                            fn_nargs := nargs, fn_variadic := variadic, fn_builtin := int idx\<rparr>) fs l2))"

end
