(* ===== verification/Registry.thy ===== *)
theory Registry
  imports Noc
begin

text \<open>
  The function registry of \<^verbatim>\<open>kernel/noc/vm.c\<close>, the one place where the compiler and the
  virtual machine agree on what a name means: the laws of \<open>noc_lookup\<close> and
  \<open>noc_register_user_fn\<close>, an interface that states what a client of a function table may
  rely on, and \<open>noc_init\<close>, which fills the table with the builtins.
\<close>

section \<open>The table of builtins\<close>

text \<open>Name, result type, number of arguments, and whether more are allowed.\<close>

definition noc_builtins :: "(string \<times> ntype \<times> nat \<times> bool) list" where
  "noc_builtins = [
     (''Print'', NTYPE_VOID, 1, True),
     (''PrintLn'', NTYPE_VOID, 1, True),
     (''Time'', NTYPE_I64, 0, False),
     (''Sleep'', NTYPE_VOID, 1, False),
     (''KeyGet'', NTYPE_I64, 0, False),
     (''KeyPressed'', NTYPE_I64, 0, False),
     (''Alloc'', NTYPE_STR, 1, False),
     (''Free'', NTYPE_VOID, 1, False),
     (''MemSet'', NTYPE_VOID, 3, False),
     (''MemCpy'', NTYPE_VOID, 3, False),
     (''Len'', NTYPE_I64, 1, False),
     (''PageFault'', NTYPE_I64, 1, False),
     (''ModelBudget'', NTYPE_I64, 1, False),
     (''ModelCommit'', NTYPE_I64, 1, False),
     (''ModelTouch'', NTYPE_I64, 1, False),
     (''ModelEvict'', NTYPE_I64, 1, False),
     (''ModelStats'', NTYPE_I64, 0, False),
     (''SwapOut'', NTYPE_I64, 1, False),
     (''SwapInfo'', NTYPE_VOID, 0, False),
     (''Help'', NTYPE_VOID, 0, False),
     (''Echo'', NTYPE_VOID, 1, False),
     (''Version'', NTYPE_VOID, 0, False),
     (''MemInfo'', NTYPE_VOID, 0, False),
     (''FaultTest'', NTYPE_VOID, 0, False),
     (''Reboot'', NTYPE_VOID, 0, False),
     (''Spawn'', NTYPE_I64, 1, False),
     (''Ps'', NTYPE_VOID, 0, False),
     (''Demo'', NTYPE_VOID, 0, False),
     (''SaveFile'', NTYPE_VOID, 2, False),
     (''ReadFile'', NTYPE_STR, 1, False),
     (''DeleteFile'', NTYPE_VOID, 1, False),
     (''ListDir'', NTYPE_VOID, 0, False),
     (''StatFile'', NTYPE_VOID, 1, False),
     (''FormatDisk'', NTYPE_VOID, 0, False),
     (''Run'', NTYPE_VOID, 1, False),
     (''Predict'', NTYPE_VOID, 0, False),
     (''Hist'', NTYPE_VOID, 0, False),
     (''ClearHist'', NTYPE_VOID, 0, False),
     (''PgPred'', NTYPE_VOID, 0, False),
     (''PgPredClear'', NTYPE_VOID, 0, False),
     (''ModelInfo'', NTYPE_VOID, 0, False),
     (''LogInfo'', NTYPE_VOID, 0, False),
     (''LogDump'', NTYPE_VOID, 0, False),
     (''LogSave'', NTYPE_VOID, 0, False),
     (''LogClear'', NTYPE_VOID, 0, False),
     (''Train'', NTYPE_VOID, 0, False),
     (''TrainIdle'', NTYPE_VOID, 1, False),
     (''TrainReset'', NTYPE_VOID, 0, False),
     (''PredictBigram'', NTYPE_VOID, 1, False),
     (''DraftRun'', NTYPE_I64, 1, False),
     (''CorpusInfo'', NTYPE_VOID, 0, False),
     (''CorpusRollback'', NTYPE_VOID, 0, False),
     (''TransInfo'', NTYPE_VOID, 0, False),
     (''TransMem'', NTYPE_VOID, 1, False),
     (''TransConfig'', NTYPE_VOID, 2, False),
     (''TransPredict'', NTYPE_I64, 1, False),
     (''TransTrain'', NTYPE_I64, 2, True),
     (''TransEval'', NTYPE_I64, 0, False),
     (''TransReset'', NTYPE_VOID, 0, False),
     (''TransIdle'', NTYPE_VOID, 1, False)]"

fun register_builtins ::
  "allocator \<Rightarrow> nat \<Rightarrow> (string \<times> ntype \<times> nat \<times> bool) list \<Rightarrow> registry \<Rightarrow> os_log \<Rightarrow> registry \<times> os_log" where
  "register_builtins os i [] fs log = (fs, log)"
| "register_builtins os i ((name, ret, nargs, variadic) # bs) fs log =
     (case noc_register_builtin os name ret nargs variadic i fs log of
        (Some fs', log') \<Rightarrow> register_builtins os (Suc i) bs fs' log'
      | (None, log') \<Rightarrow> register_builtins os (Suc i) bs fs log')"

definition noc_init :: "allocator \<Rightarrow> registry \<Rightarrow> os_log \<Rightarrow> registry \<times> os_log" where
  "noc_init os fs log = register_builtins os 0 noc_builtins fs log"

section \<open>Lookup and registration\<close>

lemma noc_name_eq_iff: "noc_name_eq a b \<longleftrightarrow> map lower_char a = map lower_char b"
  by (induction a b rule: noc_name_eq.induct) auto

lemma noc_lookup_Some_iff:
  "noc_lookup fs name = Some f \<longleftrightarrow>
     (\<exists>i<length fs. fs ! i = f \<and> noc_name_eq (fn_name f) name \<and> (\<forall>j<i. \<not> noc_name_eq (fn_name (fs ! j)) name))"
  by (auto simp: noc_lookup_def find_Some_iff)

definition reg_ok :: "registry \<Rightarrow> bool" where
  "reg_ok fs \<longleftrightarrow> length fs \<le> NOC_MAX_FUNCS \<and> distinct (map fn_name fs)"

lemma same_name_idx_Some:
  "same_name_idx fs n = Some i \<Longrightarrow> i < length fs \<and> fn_name (fs ! i) = n"
  by (auto simp: same_name_idx_def first_in_Some_iff)

lemma same_name_idx_None:
  "same_name_idx fs n = None \<longleftrightarrow> n \<notin> fn_name ` set fs"
  by (auto simp: same_name_idx_def first_in_None_iff in_set_conv_nth dest: nth_mem [THEN imageI])

lemma find_append:
  "List.find P (xs @ ys) = (case List.find P xs of Some x \<Rightarrow> Some x | None \<Rightarrow> List.find P ys)"
  by (induction xs) auto

lemma register_user_fn_cases:
  assumes "noc_register_user_fn f fs log = (Some fs', log')"
  obtains (new) "fn_name f \<notin> fn_name ` set fs" "fs' = fs @ [f]" "length fs < NOC_MAX_FUNCS"
  | (replace) us old vs where "fs = us @ old # vs" "fs' = us @ f # vs" "fn_name old = fn_name f"
      "fn_name f \<notin> fn_name ` set us"
proof (cases "same_name_idx fs (fn_name f)")
  case None
  then have "fn_name f \<notin> fn_name ` set fs" by (simp add: same_name_idx_None)
  moreover have "fs' = fs @ [f]" "length fs < NOC_MAX_FUNCS"
    using assms None by (auto simp: noc_register_user_fn_def split: if_splits)
  ultimately show ?thesis using new by blast
next
  case (Some i)
  then have i: "i < length fs" "fn_name (fs ! i) = fn_name f" using same_name_idx_Some by auto
  have "fn_name f \<notin> fn_name ` set (take i fs)"
    using Some unfolding same_name_idx_def first_in_Some_iff by (auto simp: in_set_conv_nth) blast
  moreover have "fs = take i fs @ fs ! i # drop (Suc i) fs" using i by (simp add: id_take_nth_drop)
  moreover have "fs' = take i fs @ f # drop (Suc i) fs"
    using assms Some i by (simp add: noc_register_user_fn_def Let_def upd_conv_take_nth_drop)
  ultimately show ?thesis using i(2) replace by blast
qed

lemma register_lookup_other:
  assumes "noc_register_user_fn f fs log = (Some fs', log')" and "\<not> noc_name_eq (fn_name f) name"
  shows "noc_lookup fs' name = noc_lookup fs name"
  using assms by (cases rule: register_user_fn_cases)
    (auto simp: noc_lookup_def find_append split: option.splits)

lemma register_lookup_same:
  assumes "noc_register_user_fn f fs log = (Some fs', log')" and "noc_name_eq (fn_name f) name"
    and "\<And>g. g \<in> set fs \<Longrightarrow> noc_name_eq (fn_name g) name \<Longrightarrow> fn_name g = fn_name f"
  shows "noc_lookup fs' name = Some f"
  using assms(1)
proof (cases rule: register_user_fn_cases)
  case new
  have "\<not> noc_name_eq (fn_name g) name" if "g \<in> set fs" for g
    using assms(3) [OF that] new(1) imageI [OF that, of fn_name] by metis
  then have "List.find (\<lambda>g. noc_name_eq (fn_name g) name) fs = None"
    unfolding find_None_iff by blast
  then show ?thesis using new assms(2) by (simp add: noc_lookup_def find_append)
next
  case (replace us old vs)
  have "\<not> noc_name_eq (fn_name g) name" if "g \<in> set us" for g
    using assms(3) [of g] replace that imageI [OF that, of fn_name] by (metis UnI1 set_append)
  then have "List.find (\<lambda>g. noc_name_eq (fn_name g) name) us = None"
    unfolding find_None_iff by blast
  then show ?thesis using replace assms(2) by (simp add: noc_lookup_def find_append)
qed

lemma register_shadowed:
  assumes "noc_register_user_fn f fs log = (Some fs', log')" and "fn_name f \<notin> fn_name ` set fs"
    and "g \<in> set fs" and "noc_name_eq (fn_name g) name"
  shows "noc_lookup fs' name = noc_lookup fs name \<and> noc_lookup fs name \<noteq> None"
  using assms(1)
proof (cases rule: register_user_fn_cases)
  case new
  have "noc_lookup fs name \<noteq> None" using assms(3,4) by (auto simp: noc_lookup_def find_None_iff)
  then show ?thesis using new by (auto simp: noc_lookup_def find_append)
qed (use assms(2) in auto)

lemma register_keeps_ok [noos_inv]:
  assumes "noc_register_user_fn f fs log = (Some fs', log')" and "reg_ok fs"
  shows "reg_ok fs'"
  using assms by (cases rule: register_user_fn_cases) (auto simp: reg_ok_def)

section \<open>The function-table interface\<close>

text \<open>
  What the compiler (which resolves a call while it emits it) and the machine (which
  resolves it again when it runs it) need of a table: registering a function changes the
  meaning of its own name only, a fresh name means the new function, and a table never
  gives a function for a name its own name does not match.
\<close>

locale fn_table =
  fixes lookup :: "'t \<Rightarrow> string \<Rightarrow> 'f option"
    and insert :: "'f \<Rightarrow> 't \<Rightarrow> 't option"
    and name :: "'f \<Rightarrow> string"
    and same :: "string \<Rightarrow> string \<Rightarrow> bool"
  assumes lookup_other: "insert f t = Some t' \<Longrightarrow> \<not> same (name f) n \<Longrightarrow> lookup t' n = lookup t n"
    and lookup_fresh: "insert f t = Some t' \<Longrightarrow> same (name f) n \<Longrightarrow> lookup t n = None \<Longrightarrow> lookup t' n = Some f"
    and same_refl: "same m m"
    and same_sym: "same m n \<Longrightarrow> same n m"
    and same_trans: "same l m \<Longrightarrow> same m n \<Longrightarrow> same l n"
begin

fun insert_all :: "'f list \<Rightarrow> 't \<Rightarrow> 't option" where
  "insert_all [] t = Some t"
| "insert_all (f # fs) t = (case insert f t of Some t' \<Rightarrow> insert_all fs t' | None \<Rightarrow> None)"

lemma insert_all_other:
  "insert_all fs t = Some u \<Longrightarrow> (\<And>f. f \<in> set fs \<Longrightarrow> \<not> same (name f) n) \<Longrightarrow> lookup u n = lookup t n"
  by (induction fs arbitrary: t) (auto simp: lookup_other split: option.splits)

text \<open>Functions with pairwise different names are each found after a run of insertions.\<close>

lemma insert_all_lookup:
  assumes "insert_all fs t = Some u"
    and "sorted_wrt (\<lambda>f g. \<not> same (name f) (name g)) fs"
    and "f \<in> set fs" and "same (name f) n" and "lookup t n = None"
  shows "lookup u n = Some f"
  using assms
proof (induction fs arbitrary: t)
  case (Cons g fs)
  then obtain t' where t': "insert g t = Some t'" and u: "insert_all fs t' = Some u"
    by (auto split: option.splits)
  have apart: "\<not> same (name g) (name h)" if "h \<in> set fs" for h using Cons.prems(2) that by simp
  show ?case
  proof (cases "f \<in> set fs")
    case False
    then have fg: "f = g" using Cons.prems(3) by simp
    have "\<not> same (name h) n" if "h \<in> set fs" for h
      using apart [OF that] Cons.prems(4) fg by (meson same_sym same_trans)
    then have "lookup u n = lookup t' n" by (rule insert_all_other [OF u])
    also have "\<dots> = Some f" using lookup_fresh [OF t'] Cons.prems(4,5) fg by simp
    finally show ?thesis .
  next
    case True
    have "\<not> same (name g) n"
      using apart [OF True] Cons.prems(4) by (meson same_sym same_trans)
    then have "lookup t' n = None" using lookup_other [OF t'] Cons.prems(5) by simp
    then show ?thesis using Cons.IH [OF u] Cons.prems True by simp
  qed
qed simp

end

text \<open>The registry as such a table; the history of the allocator plays no part in it.\<close>

definition reg_insert :: "noc_fn \<Rightarrow> registry \<Rightarrow> registry option" where
  "reg_insert f fs = fst (noc_register_user_fn f fs [])"

lemma fst_register: "fst (noc_register_user_fn f fs log) = reg_insert f fs"
  by (simp add: reg_insert_def noc_register_user_fn_def Let_def split: option.splits)

lemma reg_insert_register: "reg_insert f fs = Some fs' \<Longrightarrow> \<exists>log'. noc_register_user_fn f fs [] = (Some fs', log')"
  by (cases "noc_register_user_fn f fs []") (simp add: reg_insert_def)

interpretation reg: fn_table noc_lookup reg_insert fn_name noc_name_eq
proof
  fix f fs fs' n
  assume "reg_insert f fs = Some fs'"
  then obtain log' where r: "noc_register_user_fn f fs [] = (Some fs', log')"
    using reg_insert_register by blast
  show "noc_lookup fs' n = noc_lookup fs n" if "\<not> noc_name_eq (fn_name f) n"
    using register_lookup_other [OF r that] .
  show "noc_lookup fs' n = Some f" if "noc_name_eq (fn_name f) n" "noc_lookup fs n = None"
  proof (rule register_lookup_same [OF r that(1)])
    fix g
    assume "g \<in> set fs" "noc_name_eq (fn_name g) n"
    with that(2) show "fn_name g = fn_name f" by (auto simp: noc_lookup_def find_None_iff)
  qed
qed (auto simp: noc_name_eq_iff)

section \<open>Properties\<close>

definition builtin_entry :: "noc_fn \<Rightarrow> string \<times> ntype \<times> nat \<times> bool" where
  "builtin_entry f = (fn_name f, fn_ret_type f, fn_nargs f, fn_variadic f)"

lemma reg_insert_room:
  assumes "length fs < NOC_MAX_FUNCS"
  shows "\<exists>fs'. reg_insert f fs = Some fs' \<and> length fs' \<le> Suc (length fs)"
  using assms by (auto simp: reg_insert_def noc_register_user_fn_def Let_def split: option.splits)

lemma register_builtin_insert:
  assumes "\<forall>l n. os l n \<noteq> 0"
  obtains f where "builtin_entry f = (name, ret, nargs, variadic)" and "fn_builtin f = int i"
    and "fst (noc_register_builtin os name ret nargs variadic i fs log) = reg_insert f fs"
proof
  let ?l1 = "OsAlloc sizeof_noc_fn (os log sizeof_noc_fn) # log"
  let ?f = "empty_fn\<lparr>fn_ptr := os log sizeof_noc_fn, fn_name_ptr := os ?l1 (of_nat (length name) + 1),
    fn_name := name, fn_ret_type := ret, fn_nargs := nargs, fn_variadic := variadic, fn_builtin := int i\<rparr>"
  show "builtin_entry ?f = (name, ret, nargs, variadic)" by (simp add: builtin_entry_def)
  show "fn_builtin ?f = int i" by simp
  show "fst (noc_register_builtin os name ret nargs variadic i fs log) = reg_insert ?f fs"
    using assms by (simp add: noc_register_builtin_def noc_os_alloc_def fst_register Let_def)
qed

lemma register_builtins_insert_all:
  assumes "\<forall>l n. os l n \<noteq> 0" and "length fs + length bs \<le> NOC_MAX_FUNCS"
  shows "\<exists>gs fs'. reg.insert_all gs fs = Some fs' \<and> fst (register_builtins os i bs fs log) = fs'
           \<and> map builtin_entry gs = bs \<and> (\<forall>k<length gs. fn_builtin (gs ! k) = int (i + k))"
  using assms(2)
proof (induction bs arbitrary: i fs log)
  case Nil
  then show ?case by (auto intro!: exI [of _ "[]"])
next
  case (Cons b bs)
  obtain name ret nargs variadic where b: "b = (name, ret, nargs, variadic)" by (cases b) auto
  obtain f where f: "builtin_entry f = b" "fn_builtin f = int i"
    "fst (noc_register_builtin os name ret nargs variadic i fs log) = reg_insert f fs"
    using register_builtin_insert [OF assms(1)] b by metis
  obtain fs1 where fs1: "reg_insert f fs = Some fs1" "length fs1 \<le> Suc (length fs)"
    using reg_insert_room [of fs f] Cons.prems by auto
  obtain log1 where r: "noc_register_builtin os name ret nargs variadic i fs log = (Some fs1, log1)"
    using f(3) fs1(1) by (metis prod.collapse)
  have rb: "fst (register_builtins os i (b # bs) fs log) = fst (register_builtins os (Suc i) bs fs1 log1)"
    using r b by simp
  from Cons.IH [of fs1 "Suc i" log1] Cons.prems fs1(2) obtain gs fs' where
    gs: "reg.insert_all gs fs1 = Some fs'" "fst (register_builtins os (Suc i) bs fs1 log1) = fs'"
      "map builtin_entry gs = bs" "\<forall>k<length gs. fn_builtin (gs ! k) = int (Suc i + k)"
    by auto
  then show ?case
    by (intro exI [of _ "f # gs"] exI [of _ fs'])
       (auto simp: b [symmetric] f(1,2) fs1(1) rb nth_Cons')
qed

lemma sorted_wrt_distinct: "sorted_wrt (\<lambda>a b. f a \<noteq> f b) xs \<longleftrightarrow> distinct (map f xs)"
  by (induction xs) auto

lemma lower_names:
  "map (\<lambda>a. map lower_char (fst a)) noc_builtins =
    [''print'', ''println'', ''time'', ''sleep'', ''keyget'', ''keypressed'',
     ''alloc'', ''free'', ''memset'', ''memcpy'', ''len'', ''pagefault'',
     ''modelbudget'', ''modelcommit'', ''modeltouch'', ''modelevict'', ''modelstats'', ''swapout'',
     ''swapinfo'', ''help'', ''echo'', ''version'', ''meminfo'', ''faulttest'',
     ''reboot'', ''spawn'', ''ps'', ''demo'', ''savefile'', ''readfile'',
     ''deletefile'', ''listdir'', ''statfile'', ''formatdisk'', ''run'', ''predict'',
     ''hist'', ''clearhist'', ''pgpred'', ''pgpredclear'', ''modelinfo'', ''loginfo'',
     ''logdump'', ''logsave'', ''logclear'', ''train'', ''trainidle'', ''trainreset'',
     ''predictbigram'', ''draftrun'', ''corpusinfo'', ''corpusrollback'', ''transinfo'', ''transmem'',
     ''transconfig'', ''transpredict'', ''transtrain'', ''transeval'', ''transreset'', ''transidle'']"
  by code_simp

lemma lower_names_distinct: "distinct (map (\<lambda>a. map lower_char (fst a)) noc_builtins)"
  unfolding lower_names by simp

lemma builtin_names_apart:
  "sorted_wrt (\<lambda>a b. \<not> noc_name_eq (fst a) (fst b)) noc_builtins"
  using lower_names_distinct by (simp add: sorted_wrt_distinct noc_name_eq_iff)

text \<open>After \<^verbatim>\<open>noc_init\<close> on an empty registry, with an allocator that does not fail, every
  builtin of the table is found under its name in any mix of upper and lower case, with the
  arity and the result type of the table and with its own position as the index the machine
  dispatches on.\<close>

theorem noc_init_lookup:
  assumes "\<forall>l n. os l n \<noteq> 0" and "i < length noc_builtins" and "noc_name_eq (fst (noc_builtins ! i)) n"
  shows "\<exists>f. noc_lookup (fst (noc_init os [] log)) n = Some f
           \<and> builtin_entry f = noc_builtins ! i \<and> fn_builtin f = int i"
proof -
  have "length ([] :: registry) + length noc_builtins \<le> NOC_MAX_FUNCS"
    by (simp add: noc_builtins_def NOC_MAX_FUNCS_def)
  from register_builtins_insert_all [OF assms(1) this, of 0 log] obtain gs fs' where
    gs: "reg.insert_all gs [] = Some fs'" "fst (noc_init os [] log) = fs'"
      "map builtin_entry gs = noc_builtins" "\<forall>k<length gs. fn_builtin (gs ! k) = int (0 + k)"
    unfolding noc_init_def by blast
  have len: "length gs = length noc_builtins" using gs(3) by (metis length_map)
  have "fst (builtin_entry g) = fn_name g" for g by (simp add: builtin_entry_def)
  moreover have "sorted_wrt (\<lambda>f g. \<not> noc_name_eq (fst (builtin_entry f)) (fst (builtin_entry g))) gs"
    using builtin_names_apart unfolding gs(3) [symmetric] sorted_wrt_map .
  ultimately have apart: "sorted_wrt (\<lambda>f g. \<not> noc_name_eq (fn_name f) (fn_name g)) gs" by simp
  have entry: "builtin_entry (gs ! i) = noc_builtins ! i"
    using gs(3) len assms(2) by (metis nth_map)
  have "noc_lookup fs' n = Some (gs ! i)"
  proof (rule reg.insert_all_lookup [OF gs(1) apart])
    show "gs ! i \<in> set gs" using len assms(2) by simp
    show "noc_name_eq (fn_name (gs ! i)) n" using assms(3) entry by (metis builtin_entry_def fst_conv)
  qed (simp add: noc_lookup_def)
  then show ?thesis using gs(2,4) entry len assms(2) by auto
qed

theorem noc_init_lookup_witness:
  "\<exists>f. noc_lookup (fst (noc_init (\<lambda>_ _. 64) [] [])) ''println'' = Some f \<and> fn_builtin f = 1 \<and> fn_variadic f"
proof -
  have "1 < length noc_builtins \<and> noc_name_eq (fst (noc_builtins ! 1)) ''println''" by code_simp
  then have "\<exists>f. noc_lookup (fst (noc_init (\<lambda>_ _. 64) [] [])) ''println'' = Some f
      \<and> builtin_entry f = noc_builtins ! 1 \<and> fn_builtin f = int 1"
    by (intro noc_init_lookup) auto
  moreover have "noc_builtins ! 1 = (''PrintLn'', NTYPE_VOID, 1, True)" by (simp add: noc_builtins_def)
  ultimately show ?thesis by (auto simp: builtin_entry_def)
qed

text \<open>C32 Registering a function that the table accepts keeps the table well formed (at most 128
  entries, no two with one name) and changes the meaning of its own name only; and when no
  other function's name differs from it in case alone, every spelling of the name means the
  new function from then on.\<close>

theorem noc_register_lookup:
  assumes "noc_register_user_fn f fs log = (Some fs', log')" and "reg_ok fs"
    and "\<forall>g\<in>set fs. noc_name_eq (fn_name g) (fn_name f) \<longrightarrow> fn_name g = fn_name f"
  shows "reg_ok fs'
    \<and> (\<forall>n. noc_lookup fs' n = (if noc_name_eq (fn_name f) n then Some f else noc_lookup fs n))"
proof -
  have "noc_lookup fs' n = Some f" if n: "noc_name_eq (fn_name f) n" for n
  proof (rule register_lookup_same [OF assms(1) n])
    fix g
    assume "g \<in> set fs" and "noc_name_eq (fn_name g) n"
    moreover from this n have "noc_name_eq (fn_name g) (fn_name f)" by (simp add: noc_name_eq_iff)
    ultimately show "fn_name g = fn_name f" using assms(3) by blast
  qed
  then show ?thesis
    using register_keeps_ok [OF assms(1,2)] register_lookup_other [OF assms(1)] by simp
qed

theorem noc_register_lookup_witness:
  "noc_lookup [empty_fn\<lparr>fn_name := ''Sq''\<rparr>, empty_fn\<lparr>fn_name := ''Cube'', fn_nargs := 2\<rparr>] ''CUBE''
     = Some (empty_fn\<lparr>fn_name := ''Cube'', fn_nargs := 2\<rparr>)"
proof -
  let ?f = "empty_fn\<lparr>fn_name := ''Cube'', fn_nargs := 2\<rparr>" and ?fs = "[empty_fn\<lparr>fn_name := ''Sq''\<rparr>]"
  have r: "noc_register_user_fn ?f ?fs [] = (Some (?fs @ [?f]), [])"
    by (simp add: noc_register_user_fn_def same_name_idx_def first_in_def NOC_MAX_FUNCS_def)
  have "noc_name_eq ''Cube'' ''CUBE''" "\<not> noc_name_eq ''Sq'' ''Cube''" by code_simp+
  then show ?thesis
    using noc_register_lookup [OF r] by (simp add: reg_ok_def NOC_MAX_FUNCS_def del: noc_name_eq.simps)
qed

text \<open>C33 Registration compares names exactly while lookup ignores case, so a function whose
  name differs in case alone from one already in the table is stored and can never be called:
  no spelling of any name changes its meaning.\<close>

theorem noc_register_shadowed:
  assumes "noc_register_user_fn f fs log = (Some fs', log')" and "fn_name f \<notin> fn_name ` set fs"
    and "g \<in> set fs" and "noc_name_eq (fn_name g) (fn_name f)"
  shows "f \<in> set fs' \<and> (\<forall>n. noc_lookup fs' n = noc_lookup fs n)"
proof -
  have "f \<in> set fs'" using assms(1,2) by (cases rule: register_user_fn_cases) auto
  moreover have "noc_lookup fs' n = noc_lookup fs n" for n
  proof (cases "noc_name_eq (fn_name f) n")
    case True
    then have "noc_name_eq (fn_name g) n" using assms(4) by (simp add: noc_name_eq_iff)
    then show ?thesis using register_shadowed [OF assms(1,2,3)] by blast
  qed (rule register_lookup_other [OF assms(1)])
  ultimately show ?thesis by blast
qed

theorem noc_register_shadowed_witness:
  "noc_lookup ([empty_fn\<lparr>fn_name := ''Print'', fn_nargs := 2\<rparr>] @ [empty_fn\<lparr>fn_name := ''print''\<rparr>]) ''print''
     = Some (empty_fn\<lparr>fn_name := ''Print'', fn_nargs := 2\<rparr>)"
proof -
  let ?f = "empty_fn\<lparr>fn_name := ''print''\<rparr>" and ?g = "empty_fn\<lparr>fn_name := ''Print'', fn_nargs := 2\<rparr>"
  have r: "noc_register_user_fn ?f [?g] [] = (Some ([?g] @ [?f]), [])"
    by (simp add: noc_register_user_fn_def same_name_idx_def first_in_def NOC_MAX_FUNCS_def)
  have eq: "noc_name_eq ''Print'' ''print''" by code_simp
  have "noc_lookup ([?g] @ [?f]) ''print'' = noc_lookup [?g] ''print''"
    using noc_register_shadowed [OF r, of ?g] eq by (simp del: noc_name_eq.simps)
  then show ?thesis using eq by (simp add: noc_lookup_def del: noc_name_eq.simps)
qed

end
