(* ===== verification/Lexer.thy ===== *)
theory Lexer
  imports Noc "HOL-Library.Sublist"
begin

unbundle bit_operations_syntax

text \<open>
  The tokenizer, \<^verbatim>\<open>kernel/noc/lexer.c\<close>. The source text is the list of its characters
  without the terminating NUL, and the pointer \<^verbatim>\<open>p\<close> is the suffix still to be read, so
  \<^verbatim>\<open>*p == 0\<close> is the empty list. A read past the terminator and a write through the
  unchecked string buffer are the outcomes \<open>OutOfBounds ''src''\<close> and \<open>NullDeref\<close>.
\<close>

definition is_ident_start :: "char \<Rightarrow> bool" where
  "is_ident_start c \<longleftrightarrow>
     (CHR ''a'' \<le> c \<and> c \<le> CHR ''z'') \<or> (CHR ''A'' \<le> c \<and> c \<le> CHR ''Z'') \<or> c = CHR ''_''"

definition is_digit :: "char \<Rightarrow> bool" where
  "is_digit c \<longleftrightarrow> CHR ''0'' \<le> c \<and> c \<le> CHR ''9''"

definition is_ident_char :: "char \<Rightarrow> bool" where
  "is_ident_char c \<longleftrightarrow> is_ident_start c \<or> is_digit c"

definition keyword_table :: "(string \<times> tok_t) list" where
  "keyword_table =
    [(''U0'', T_TYPE_U0), (''I64'', T_TYPE_I64), (''U64'', T_TYPE_U64),
     (''Bool'', T_TYPE_BOOL), (''Str'', T_TYPE_STR),
     (''U8'', T_TYPE_U8), (''U16'', T_TYPE_U16), (''U32'', T_TYPE_U32),
     (''I8'', T_TYPE_I8), (''I16'', T_TYPE_I16), (''I32'', T_TYPE_I32),
     (''F64'', T_TYPE_F64),
     (''if'', T_IF), (''else'', T_ELSE), (''while'', T_WHILE),
     (''for'', T_FOR), (''return'', T_RETURN),
     (''true'', T_TRUE), (''false'', T_FALSE)]"

definition keyword_type :: "string \<Rightarrow> tok_t" where
  "keyword_type s = (case map_of keyword_table s of Some t \<Rightarrow> t | None \<Rightarrow> T_IDENT)"

definition lex_escape :: "char \<Rightarrow> char" where
  "lex_escape c =
     (if c = CHR ''n'' then CHR 0x0A else if c = CHR ''t'' then CHR 0x09
      else if c = CHR ''r'' then CHR 0x0D else c)"

definition op_table :: "(string \<times> tok_t) list" where
  "op_table =
    [(''=='', T_EQEQ), (''!='', T_NEQ), (''<='', T_LE), (''>='', T_GE),
     (''&&'', T_ANDAND), (''||'', T_OROR), (''<<'', T_SHL), (''>>'', T_SHR),
     (''++'', T_PLUSPLUS), (''--'', T_MINUSMINUS),
     (''+='', T_PLUSEQ), (''-='', T_MINUSEQ),
     (''*='', T_STAREQ), (''/='', T_SLASHEQ),
     (''('', T_LP), ('')'', T_RP), (''{'', T_LB), (''}'', T_RB),
     ('';'', T_SEMI), ('','', T_COMMA), (''+'', T_PLUS), (''-'', T_MINUS),
     (''*'', T_STAR), (''/'', T_SLASH), (''%'', T_PCT), (''='', T_EQ),
     (''<'', T_LT), (''>'', T_GT), (''!'', T_BANG), (''&'', T_AMP),
     (''|'', T_PIPE), (''^'', T_CARET), (''~'', T_TILDE)]"

definition match_op :: "string \<Rightarrow> (string \<times> tok_t) option" where
  "match_op p = List.find (\<lambda>(opr, t). take (length opr) p = opr) op_table"

definition is_space :: "char \<Rightarrow> bool" where
  "is_space c \<longleftrightarrow> c = CHR '' '' \<or> c = CHR 0x09 \<or> c = CHR 0x0D \<or> c = CHR 0x0A"

definition skip_line :: "string \<Rightarrow> string" where
  "skip_line p = dropWhile (\<lambda>c. c \<noteq> CHR 0x0A) p"

fun skip_block :: "string \<Rightarrow> string" where
  "skip_block [] = []"
| "skip_block (c # p) =
     (if c = CHR ''*'' \<and> take 1 p = ''/'' then drop 1 p else skip_block p)"

text \<open>Digits, in base 16 after a \<^verbatim>\<open>0x\<close>; the value wraps at 64 bits.\<close>

definition is_hex :: "char \<Rightarrow> bool" where
  "is_hex c \<longleftrightarrow> is_digit c \<or> (CHR ''a'' \<le> c \<and> c \<le> CHR ''f'') \<or> (CHR ''A'' \<le> c \<and> c \<le> CHR ''F'')"

definition digit_val :: "char \<Rightarrow> u64" where
  "digit_val d =
     (if is_digit d then of_nat (of_char d - 48)
      else if CHR ''a'' \<le> d \<and> d \<le> CHR ''f'' then of_nat (of_char d - 97 + 10)
      else of_nat (of_char d - 65 + 10))"

fun lex_digits :: "bool \<Rightarrow> u64 \<Rightarrow> string \<Rightarrow> u64 \<times> string" where
  "lex_digits hex v [] = (v, [])"
| "lex_digits hex v (d # p) =
     (if (if hex then is_hex d else is_digit d)
      then lex_digits hex (v * (if hex then 16 else 10) + digit_val d) p
      else (v, d # p))"

definition lex_number :: "string \<Rightarrow> u64 \<times> string" where
  "lex_number p =
     (let hex = (take 1 p = ''0'' \<and> (take 1 (drop 1 p) = ''x'' \<or> take 1 (drop 1 p) = ''X''))
      in lex_digits hex 0 (if hex then drop 2 p else p))"

text \<open>The body of a string literal; \<open>buf\<close> holds the decoded characters, newest first.\<close>

fun lex_string :: "string \<Rightarrow> string \<Rightarrow> (string \<times> string) res" where
  "lex_string [] buf = Ok (rev buf, [])"
| "lex_string (c # p) buf =
     (if c = CHR 0x22 then Ok (rev buf, p)
      else if c = CHR 0x5C then
        (case p of
           [] \<Rightarrow> if length buf + 1 \<ge> 256 then Err ''string too long'' else Crash (OutOfBounds ''src'')
         | e # q \<Rightarrow>
             if length buf + 1 \<ge> 256 then Err ''string too long'' else lex_string q (lex_escape e # buf))
      else if length buf + 1 \<ge> 256 then Err ''string too long'' else lex_string p (c # buf))"

lemma skip_block_length: "length (skip_block p) \<le> length p"
  by (induction p rule: skip_block.induct) auto

lemma lex_digits_length: "length (snd (lex_digits hex v p)) \<le> length p"
  by (induction hex v p rule: lex_digits.induct) auto

lemma lex_number_length:
  assumes "is_digit c"
  shows "length (snd (lex_number (c # p))) \<le> length p"
  using lex_digits_length [of False "0 * 10 + digit_val c" p] lex_digits_length [of True 0 "drop 1 p"] assms
  by (auto simp: lex_number_def Let_def)

lemma lex_string_length: "lex_string p buf = Ok (s, q) \<Longrightarrow> length q \<le> length p"
proof (induction p buf rule: lex_string.induct)
  case (2 c p buf)
  then show ?case by (cases p) (auto split: if_splits)
qed simp

lemma op_table_nonempty: "(opr, t) \<in> set op_table \<Longrightarrow> opr \<noteq> []"
  by (auto simp: op_table_def)

lemma match_op_nonempty:
  assumes "match_op p = Some (opr, t)"
  shows "opr \<noteq> [] \<and> take (length opr) p = opr"
proof -
  from assms obtain i where "i < length op_table" "take (length opr) p = opr" "op_table ! i = (opr, t)"
    by (auto simp: match_op_def find_Some_iff)
  then show ?thesis using op_table_nonempty by (metis nth_mem)
qed

lemma match_op_length:
  assumes "match_op p = Some (opr, t)"
  shows "length (drop (length opr) p) < length p"
proof -
  have "opr \<noteq> []" "take (length opr) p = opr" using match_op_nonempty [OF assms] by auto
  then have "p \<noteq> []" by auto
  with \<open>opr \<noteq> []\<close> show ?thesis by simp
qed

definition mk_tok :: "tok_t \<Rightarrow> u64 \<Rightarrow> string option \<Rightarrow> tok" where
  "mk_tok t n s = \<lparr>tok_t = t, tok_num = n, tok_s = s\<rparr>"

definition bad_char :: "char \<Rightarrow> arena \<Rightarrow> string" where
  "bad_char c a =
     (case noc_arena_alloc 48 a of
        Some _ \<Rightarrow> ''unexpected character '' @ quoted [c]
      | None \<Rightarrow> ''unexpected character'')"

text \<open>
  One turn of the main loop: skip a comment, end at the terminator, produce a token (with
  the rest of the text and the arena), or fail.
\<close>

datatype lexed = LSkip string | LEnd | LTok tok string arena | LErr string | LCrash crash

definition lex_token :: "string \<Rightarrow> arena \<Rightarrow> lexed" where
  "lex_token p a =
     (case p of
        [] \<Rightarrow> LEnd
      | c # q \<Rightarrow>
          if is_digit c then
            (case lex_number p of (v, r) \<Rightarrow> LTok (mk_tok T_NUM v None) r a)
          else if is_ident_start c then
            (let w = takeWhile is_ident_char p
             in case noc_arena_alloc (length w + 1) a of
                  None \<Rightarrow> LErr ''out of memory (identifier)''
                | Some a' \<Rightarrow> LTok (mk_tok (keyword_type w) 0 (Some w)) (dropWhile is_ident_char p) a')
          else if c = CHR 0x22 then
            (case noc_arena_alloc 256 a of
               None \<Rightarrow> LCrash NullDeref
             | Some a' \<Rightarrow>
                 (case lex_string q [] of
                    Ok (s, r) \<Rightarrow> LTok (mk_tok T_STR 0 (Some s)) r a'
                  | Err e \<Rightarrow> LErr e
                  | Crash x \<Rightarrow> LCrash x))
          else
            (case match_op p of
               Some (opr, t) \<Rightarrow> LTok (mk_tok t 0 None) (drop (length opr) p) a
             | None \<Rightarrow> LErr (bad_char c a)))"

definition lex_turn :: "bool \<Rightarrow> string \<Rightarrow> arena \<Rightarrow> lexed" where
  "lex_turn full p0 a =
     (let p = dropWhile is_space p0
      in if take 2 p = ''//'' then LSkip (skip_line p)
         else if take 2 p = ''/*'' then LSkip (skip_block (drop 2 p))
         else if full then LErr ''too many tokens''
         else lex_token p a)"

lemma take2_length: "take 2 p = [a, b] \<Longrightarrow> length (drop 2 p) < length p"
  by (cases p) auto

lemma skip_line_length: "take 2 p = ''//'' \<Longrightarrow> length (skip_line p) < length p"
proof (cases p)
  case (Cons c q)
  assume "take 2 p = ''//''"
  then have "c = CHR ''/''" using Cons by (simp add: numeral_2_eq_2)
  then have "skip_line p = skip_line q" using Cons by (simp add: skip_line_def)
  moreover have "length (skip_line q) \<le> length q" by (simp add: skip_line_def length_dropWhile_le)
  ultimately show ?thesis using Cons by simp
qed simp

lemma lex_token_length:
  assumes "lex_token p a = LTok t r a'"
  shows "length r < length p"
proof (cases p)
  case (Cons c q)
  consider "is_digit c" | "\<not> is_digit c" "is_ident_start c" | "\<not> is_digit c" "\<not> is_ident_start c" "c = CHR 0x22"
    | "\<not> is_digit c" "\<not> is_ident_start c" "c \<noteq> CHR 0x22" by blast
  then show ?thesis
  proof cases
    case 1
    then show ?thesis using assms Cons lex_number_length [of c q]
      by (auto simp: lex_token_def split: prod.splits)
  next
    case 2
    then have "is_ident_char c" by (simp add: is_ident_char_def)
    then have "length (dropWhile is_ident_char p) \<le> length q" using Cons by (simp add: length_dropWhile_le)
    then show ?thesis using assms 2 Cons by (auto simp: lex_token_def Let_def split: option.splits)
  next
    case 3
    then show ?thesis using assms Cons lex_string_length [of q "[]"]
      by (fastforce simp: lex_token_def split: option.splits res.splits)
  next
    case 4
    then show ?thesis using assms Cons match_op_length [of p]
      by (auto simp: lex_token_def split: option.splits)
  qed
qed (use assms in \<open>simp add: lex_token_def\<close>)

lemma lex_turn_length:
  "lex_turn full p a = LSkip r \<Longrightarrow> length r < length p"
  "lex_turn full p a = LTok t r a' \<Longrightarrow> length r < length p"
proof -
  let ?p = "dropWhile is_space p"
  have p: "length ?p \<le> length p" by (rule length_dropWhile_le)
  show "length r < length p" if "lex_turn full p a = LTok t r a'"
    using that p lex_token_length [of ?p a t r a'] by (auto simp: lex_turn_def Let_def split: if_splits)
  have "lex_token q a \<noteq> LSkip r" for q
    by (auto simp: lex_token_def Let_def split: list.splits option.splits res.splits prod.splits)
  moreover have "length (skip_block (drop 2 ?p)) < length ?p" if "take 2 ?p = ''/*''"
    using skip_block_length [of "drop 2 ?p"] take2_length [OF that] by simp
  ultimately show "length r < length p" if "lex_turn full p a = LSkip r"
    using that p skip_line_length [of ?p] by (auto simp: lex_turn_def Let_def split: if_splits)
qed

function lex_loop :: "nat \<Rightarrow> string \<Rightarrow> arena \<Rightarrow> tok list \<Rightarrow> (tok list \<times> arena) res" where
  "lex_loop maxtoks p a toks =
     (case lex_turn (length toks \<ge> maxtoks) p a of
        LSkip r \<Rightarrow> lex_loop maxtoks r a toks
      | LEnd \<Rightarrow> Ok (rev (mk_tok T_EOF 0 None # toks), a)
      | LTok t r a' \<Rightarrow> lex_loop maxtoks r a' (t # toks)
      | LErr e \<Rightarrow> Err e
      | LCrash c \<Rightarrow> Crash c)"
  by pat_completeness auto
termination
  by (relation "measure (\<lambda>(m, p, a, t). length p)") (auto dest: lex_turn_length)

declare lex_loop.simps [simp del]

definition noc_lex :: "string \<Rightarrow> arena \<Rightarrow> nat \<Rightarrow> (tok list \<times> arena) res" where
  "noc_lex src a maxtoks = lex_loop maxtoks src a []"

section \<open>The shape of the output\<close>

lemma keyword_type_not_eof: "keyword_type w \<noteq> T_EOF"
proof -
  have "T_EOF \<notin> snd ` set keyword_table" by (simp add: keyword_table_def)
  then show ?thesis by (force simp: keyword_type_def split: option.splits dest!: map_of_SomeD)
qed

lemma match_op_in_table: "match_op p = Some (opr, t) \<Longrightarrow> (opr, t) \<in> set op_table"
  by (auto simp: match_op_def find_Some_iff in_set_conv_nth)

lemma match_op_not_eof: "match_op p = Some (opr, t) \<Longrightarrow> t \<noteq> T_EOF"
proof -
  assume "match_op p = Some (opr, t)"
  then have "(opr, t) \<in> set op_table" by (rule match_op_in_table)
  moreover have "T_EOF \<notin> snd ` set op_table" by (simp add: op_table_def)
  ultimately show ?thesis by force
qed

lemma mk_tok_fields [simp]:
  "tok_t (mk_tok t n s) = t" "tok_num (mk_tok t n s) = n" "tok_s (mk_tok t n s) = s"
  by (simp_all add: mk_tok_def)

lemma lex_turn_not_eof: "lex_turn full p a = LTok t r a' \<Longrightarrow> tok_t t \<noteq> T_EOF \<and> \<not> full"
  by (auto simp: lex_turn_def lex_token_def Let_def keyword_type_not_eof match_op_not_eof
      split: if_splits list.splits prod.splits option.splits res.splits)

lemma lex_turn_end_full: "lex_turn full p a = LEnd \<Longrightarrow> \<not> full"
  by (auto simp: lex_turn_def Let_def split: if_splits)

lemma lex_loop_shape:
  assumes "lex_loop maxtoks p a toks = Ok (out, a')" and "\<forall>t\<in>set toks. tok_t t \<noteq> T_EOF"
  shows "eof_ended out \<and> length out \<le> maxtoks"
  using assms
proof (induction maxtoks p a toks rule: lex_loop.induct)
  case (1 maxtoks p a toks)
  note eq = 1(3) [unfolded lex_loop.simps [of maxtoks p]]
  show ?case
  proof (cases "lex_turn (maxtoks \<le> length toks) p a")
    case (LSkip r)
    then show ?thesis using 1(1) eq 1(4) by simp
  next
    case LEnd
    then show ?thesis using eq 1(4) lex_turn_end_full [OF LEnd]
      by (auto simp: eof_ended_def intro!: exI [of _ "rev toks"])
  next
    case (LTok t r b)
    then show ?thesis using 1(2) [OF LTok] eq 1(4) lex_turn_not_eof [OF LTok] by simp
  qed (use eq in auto)
qed

lemma lex_string_crash:
  "lex_string p buf = Crash c \<Longrightarrow> c = OutOfBounds ''src'' \<and> p \<noteq> [] \<and> last p = CHR 0x5C"
proof (induction p buf rule: lex_string.induct)
  case (2 c p buf)
  then show ?case by (cases p) (auto split: if_splits)
qed simp

lemma last_suffix: "suffix q p \<Longrightarrow> q \<noteq> [] \<Longrightarrow> last p = last q"
  by (auto simp: suffix_def)

definition ends_well :: "string \<Rightarrow> bool" where
  "ends_well p \<longleftrightarrow> p = [] \<or> last p \<noteq> CHR 0x5C"

lemma ends_well_suffix: "ends_well p \<Longrightarrow> suffix q p \<Longrightarrow> ends_well q"
  by (auto simp: ends_well_def dest: last_suffix)

lemma lex_string_suffix: "lex_string p buf = Ok (s, q) \<Longrightarrow> suffix q p"
proof (induction p buf rule: lex_string.induct)
  case (2 c p buf)
  then show ?case by (cases p) (auto split: if_splits intro: suffix_ConsI)
qed simp

lemma lex_digits_suffix: "suffix (snd (lex_digits hex v p)) p"
  by (induction hex v p rule: lex_digits.induct) (auto intro: suffix_ConsI)

lemma skip_block_suffix: "suffix (skip_block p) p"
  by (induction p rule: skip_block.induct) (auto intro: suffix_ConsI suffix_drop)

lemma lex_number_suffix: "suffix (snd (lex_number p)) p"
  using lex_digits_suffix [of True 0 "drop 2 p"] lex_digits_suffix [of False 0 p]
  by (auto simp: lex_number_def Let_def intro: suffix_order.trans suffix_drop)

lemma lex_turn_suffix:
  "lex_turn full p a = LSkip r \<Longrightarrow> suffix r p"
  "lex_turn full p a = LTok t r a' \<Longrightarrow> suffix r p"
proof -
  let ?p = "dropWhile is_space p"
  have p: "suffix ?p p" by (rule suffix_dropWhile)
  have "suffix (skip_line ?p) ?p" by (simp add: skip_line_def suffix_dropWhile)
  moreover have "suffix (skip_block (drop 2 ?p)) ?p"
    by (meson skip_block_suffix suffix_drop suffix_order.trans)
  moreover have "lex_token q a \<noteq> LSkip r" for q
    by (auto simp: lex_token_def Let_def split: list.splits option.splits res.splits prod.splits)
  ultimately show "suffix r p" if "lex_turn full p a = LSkip r"
    using that p by (auto simp: lex_turn_def Let_def split: if_splits intro: suffix_order.trans)
  have "suffix r q" if "lex_token q a = LTok t r a'" for q
  proof (cases q)
    case (Cons c q')
    then show ?thesis
      using that lex_number_suffix [of q] lex_string_suffix [of q' "[]"] suffix_dropWhile [of is_ident_char q]
      by (auto simp: lex_token_def Let_def suffix_drop
          split: if_splits prod.splits option.splits res.splits intro: suffix_ConsI)
  qed (use that in \<open>simp add: lex_token_def\<close>)
  then show "suffix r p" if "lex_turn full p a = LTok t r a'"
    using that p by (auto simp: lex_turn_def Let_def split: if_splits intro: suffix_order.trans)
qed

text \<open>A character of text costs at most 256 bytes of arena, the buffer of a string literal.\<close>

definition roomy :: "string \<Rightarrow> arena \<Rightarrow> bool" where
  "roomy p a \<longleftrightarrow> ar_base a \<noteq> 0 \<and> ar_used a + 256 * length p \<le> ar_cap a"

lemma roomy_suffix: "roomy p a \<Longrightarrow> suffix q p \<Longrightarrow> roomy q a"
  using suffix_length_le [of q p] by (auto simp: roomy_def)

lemma ident_room:
  assumes "roomy p a" and "p = c # q" and "w = takeWhile is_ident_char p" and "is_ident_char c"
  shows "\<exists>a'. noc_arena_alloc (length w + 1) a = Some a' \<and> roomy (dropWhile is_ident_char p) a'"
proof -
  have len: "length p = length w + length (dropWhile is_ident_char p)"
    using assms(3) by (metis length_append takeWhile_dropWhile_id)
  have "1 \<le> length w" using assms(2,3,4) by simp
  moreover have "(length w + 1 + 15) div 16 * 16 \<le> length w + 16" by simp
  ultimately have "(length w + 1 + 15) div 16 * 16 \<le> 256 * length w" by linarith
  then show ?thesis using assms(1) len
    by (auto simp: roomy_def noc_arena_alloc_def Let_def)
qed

lemma string_room:
  assumes "roomy (c # q) a"
  shows "\<exists>a'. noc_arena_alloc 256 a = Some a' \<and> roomy q a'"
  using assms by (auto simp: roomy_def noc_arena_alloc_def Let_def)

fun lexed_good :: "lexed \<Rightarrow> bool" where
  "lexed_good (LErr e) = (e = ''too many tokens'' \<or> e = ''string too long'' \<or> (\<exists>c a. e = bad_char c a))"
| "lexed_good (LCrash c) = False"
| "lexed_good _ = True"

lemma lex_string_err: "lex_string p buf = Err e \<Longrightarrow> e = ''string too long''"
proof (induction p buf rule: lex_string.induct)
  case (2 c p buf)
  then show ?case by (cases p) (auto split: if_splits)
qed simp

lemma lex_token_roomy:
  assumes "roomy p a" and "lex_token p a = LTok t r a'"
  shows "roomy r a'"
proof (cases p)
  case (Cons c q)
  consider (digit) "is_digit c" | (ident) "\<not> is_digit c" "is_ident_start c"
    | (str) "\<not> is_digit c" "\<not> is_ident_start c" "c = CHR 0x22"
    | (op) "\<not> is_digit c" "\<not> is_ident_start c" "c \<noteq> CHR 0x22" by blast
  then show ?thesis
  proof cases
    case digit
    then show ?thesis using assms Cons roomy_suffix [OF assms(1) lex_number_suffix]
      by (auto simp: lex_token_def split: prod.splits)
  next
    case ident
    then show ?thesis using assms Cons ident_room [OF assms(1) Cons refl]
      by (auto simp: lex_token_def Let_def is_ident_char_def)
  next
    case str
    obtain b where b: "noc_arena_alloc 256 a = Some b" "roomy q b"
      using string_room [of c q a] assms(1) Cons by auto
    then show ?thesis using assms Cons str roomy_suffix [OF b(2) lex_string_suffix [of q "[]"]]
      by (auto simp: lex_token_def split: res.splits)
  next
    case op
    then show ?thesis using assms Cons roomy_suffix [OF assms(1) suffix_drop]
      by (auto simp: lex_token_def split: option.splits)
  qed
qed (use assms in \<open>simp add: lex_token_def\<close>)

lemma lex_turn_roomy:
  assumes "roomy p a" and "lex_turn full p a = LTok t r a'"
  shows "roomy r a'"
  using assms lex_token_roomy [OF roomy_suffix [OF assms(1) suffix_dropWhile]]
  by (auto simp: lex_turn_def Let_def split: if_splits)

lemma lex_token_good:
  assumes "roomy p a" and "ends_well p"
  shows "lexed_good (lex_token p a)"
proof (cases p)
  case (Cons c q)
  have "lex_string q [] \<noteq> Crash x" for x
    using lex_string_crash [of q "[]" x] assms(2) Cons by (auto simp: ends_well_def)
  moreover have "noc_arena_alloc 256 a \<noteq> None" using string_room [of c q a] assms(1) Cons by auto
  moreover have "is_ident_char c \<and> noc_arena_alloc (Suc (Suc (length (takeWhile is_ident_char q)))) a \<noteq> None"
    if "is_ident_start c"
    using ident_room [OF assms(1) Cons refl] that Cons by (auto simp: is_ident_char_def)
  ultimately show ?thesis
    using Cons by (auto simp: lex_token_def Let_def split: option.splits res.splits prod.splits
        dest: lex_string_err)
qed (simp add: lex_token_def)

lemma lex_turn_good:
  assumes "roomy p a" and "ends_well p"
  shows "lexed_good (lex_turn full p a)"
proof -
  let ?p = "dropWhile is_space p"
  have "roomy ?p a" "ends_well ?p"
    using roomy_suffix [OF assms(1) suffix_dropWhile] ends_well_suffix [OF assms(2) suffix_dropWhile] .
  then show ?thesis using lex_token_good [of ?p a] by (auto simp: lex_turn_def Let_def)
qed

lemma lex_loop_good:
  assumes "roomy p a" and "ends_well p"
  shows "(\<exists>out a'. lex_loop maxtoks p a toks = Ok (out, a'))
    \<or> (\<exists>e. lex_loop maxtoks p a toks = Err e \<and> lexed_good (LErr e))"
  using assms
proof (induction maxtoks p a toks rule: lex_loop.induct)
  case (1 maxtoks p a toks)
  note good = lex_turn_good [OF 1(3,4), of "maxtoks \<le> length toks"]
  show ?case
  proof (cases "lex_turn (maxtoks \<le> length toks) p a")
    case (LSkip r)
    note suf = lex_turn_suffix(1) [OF LSkip]
    then show ?thesis using 1(1) [OF LSkip] roomy_suffix [OF 1(3) suf] ends_well_suffix [OF 1(4) suf] LSkip
      by (auto simp: lex_loop.simps [of maxtoks p] simp del: lexed_good.simps)
  next
    case (LTok t r b)
    note suf = lex_turn_suffix(2) [OF LTok]
    then show ?thesis using 1(2) [OF LTok lex_turn_roomy [OF 1(3) LTok]] ends_well_suffix [OF 1(4) suf] LTok
      by (auto simp: lex_loop.simps [of maxtoks p])
  qed (use good in \<open>auto simp: lex_loop.simps [of maxtoks p]\<close>)
qed

text \<open>C27 On a text that does not end in a backslash, with 256 bytes of arena per character,
  the tokenizer ends without a null dereference or a read past the terminator. It either
  delivers at most \<open>maxtoks\<close> tokens of which exactly the last is the end token, or reports
  one of three errors: too many tokens, a string of more than 255 characters, a character that
  starts no token.\<close>

theorem noc_lex_safe:
  assumes "ar_base a \<noteq> 0" and "ar_used a + 256 * length src \<le> ar_cap a"
    and "src \<noteq> [] \<longrightarrow> last src \<noteq> CHR 0x5C"
  shows "(\<exists>toks a'. noc_lex src a maxtoks = Ok (toks, a') \<and> eof_ended toks \<and> length toks \<le> maxtoks)
    \<or> noc_lex src a maxtoks = Err ''too many tokens''
    \<or> noc_lex src a maxtoks = Err ''string too long''
    \<or> (\<exists>c b. noc_lex src a maxtoks = Err (bad_char c b))"
proof -
  have "roomy src a" using assms(1,2) by (simp add: roomy_def)
  from lex_loop_good [OF this, of maxtoks "[]"] assms(3) show ?thesis
    using lex_loop_shape [of maxtoks src a "[]"] by (simp add: noc_lex_def ends_well_def) blast
qed

definition demo_arena :: arena where
  "demo_arena = \<lparr>ar_base = 4096, ar_used = 0, ar_cap = 131072\<rparr>"

theorem noc_lex_safe_witness:
  "\<exists>toks a'. noc_lex ''I64 x = 0x1F; // hex'' demo_arena 16 = Ok (toks, a')
     \<and> map tok_t toks = [T_TYPE_I64, T_IDENT, T_EQ, T_NUM, T_SEMI, T_EOF] \<and> tok_num (toks ! 3) = 31
     \<and> eof_ended toks"
proof -
  let ?s = "''I64 x = 0x1F; // hex''"
  have run: "(case noc_lex ?s demo_arena 16 of
      Ok (toks, _) \<Rightarrow> map tok_t toks = [T_TYPE_I64, T_IDENT, T_EQ, T_NUM, T_SEMI, T_EOF] \<and> tok_num (toks ! 3) = 31
    | _ \<Rightarrow> False)"
    by code_simp
  then obtain toks a' where t: "noc_lex ?s demo_arena 16 = Ok (toks, a')"
    by (auto split: res.splits)
  have "eof_ended toks"
    using noc_lex_safe [of demo_arena ?s 16] t by (simp add: demo_arena_def)
  with run t show ?thesis by simp
qed

section \<open>Printing and lexing back\<close>

text \<open>
  A printer for tokens, one blank after each, and the tokens it can print: numbers in
  decimal, words (identifiers and keywords), string literals of at most 255 characters with the
  quote and the backslash escaped, and the operators of the table.
\<close>

fun digits_of :: "nat \<Rightarrow> nat \<Rightarrow> string" where
  "digits_of 0 n = []"
| "digits_of (Suc k) n = (if n = 0 then [] else digits_of k (n div 10) @ [char_of (48 + n mod 10)])"

definition print_num :: "u64 \<Rightarrow> string" where
  "print_num v = (if v = 0 then ''0'' else digits_of 20 (unat v))"

fun print_str :: "string \<Rightarrow> string" where
  "print_str [] = []"
| "print_str (c # s) = (if c = CHR 0x22 \<or> c = CHR 0x5C then [CHR 0x5C, c] else [c]) @ print_str s"

definition print_op :: "tok_t \<Rightarrow> string" where
  "print_op t = (case List.find (\<lambda>(opr, ty). ty = t) op_table of Some (opr, _) \<Rightarrow> opr | None \<Rightarrow> [])"

definition print_tok :: "tok \<Rightarrow> string" where
  "print_tok t =
     (if tok_t t = T_NUM then print_num (tok_num t)
      else if tok_t t = T_STR then CHR 0x22 # print_str (the (tok_s t)) @ [CHR 0x22]
      else (case tok_s t of Some w \<Rightarrow> w | None \<Rightarrow> print_op (tok_t t)))"

definition print_toks :: "tok list \<Rightarrow> string" where
  "print_toks ts = concat (map (\<lambda>t. print_tok t @ '' '') ts)"

definition is_word :: "string \<Rightarrow> bool" where
  "is_word w \<longleftrightarrow> w \<noteq> [] \<and> is_ident_start (hd w) \<and> (\<forall>c\<in>set w. is_ident_char c)"

definition printable :: "tok \<Rightarrow> bool" where
  "printable t \<longleftrightarrow>
     (case tok_s t of
        None \<Rightarrow> if tok_t t = T_NUM then True else tok_t t \<in> snd ` set op_table \<and> tok_num t = 0
      | Some s \<Rightarrow> tok_num t = 0 \<and>
          (if tok_t t = T_STR then length s \<le> 255 else is_word s \<and> tok_t t = keyword_type s))"

lemma digit_char:
  assumes "d < 10"
  shows "is_digit (char_of (48 + d))" and "digit_val (char_of (48 + d)) = of_nat d"
proof -
  show "is_digit (char_of (48 + d))" using assms by (simp add: is_digit_def less_eq_char_def)
  then show "digit_val (char_of (48 + d)) = of_nat d"
    using assms by (simp add: digit_val_def)
qed

lemma lex_digits_append:
  "(\<forall>d\<in>set ds. is_digit d) \<Longrightarrow> lex_digits False v (ds @ r) =
     lex_digits False (fold (\<lambda>d v. v * 10 + digit_val d) ds v) r"
  by (induction ds arbitrary: v) auto

lemma digits_of_digits: "d \<in> set (digits_of k n) \<Longrightarrow> is_digit d"
  by (induction k n rule: digits_of.induct) (auto simp: digit_char(1) split: if_splits)

lemma digits_of_value:
  "n < 10 ^ k \<Longrightarrow> fold (\<lambda>d v. v * 10 + digit_val d) (digits_of k n) 0 = of_nat n"
proof (induction k n rule: digits_of.induct)
  case (2 k n)
  have "n div 10 < 10 ^ k" using 2(2) by (simp add: less_mult_imp_div_less mult.commute)
  then have "fold (\<lambda>d v. v * 10 + digit_val d) (digits_of k (n div 10)) 0 = (of_nat (n div 10) :: u64)"
    using 2(1) by (cases "n = 0") (auto, cases k, auto)
  moreover have "(of_nat (n div 10) * 10 + of_nat (n mod 10) :: u64) = of_nat n"
    by (metis div_mult_mod_eq of_nat_add of_nat_mult of_nat_numeral)
  ultimately show ?case by (simp add: digit_char(2))
qed simp

lemma digits_of_nonzero:
  assumes "0 < n" and "n < 10 ^ k"
  shows "digits_of k n \<noteq> [] \<and> hd (digits_of k n) \<noteq> CHR ''0''"
  using assms
proof (induction k n rule: digits_of.induct)
  case (2 k n)
  show ?case
  proof (cases "n div 10 = 0")
    case True
    then have "digits_of k (n div 10) = []" by (cases k) auto
    moreover have "n \<in> {1, 2, 3, 4, 5, 6, 7, 8, 9}" using True 2(2) by auto
    ultimately show ?thesis by (auto simp: char_of_def)
  next
    case False
    have "n div 10 < 10 ^ k" using 2(3) by (simp add: less_mult_imp_div_less mult.commute)
    then show ?thesis using 2(1) False 2(2) by simp
  qed
qed simp

lemma lex_number_print:
  assumes "r = [] \<or> \<not> is_digit (hd r)" and "take 1 r \<noteq> ''x''" and "take 1 r \<noteq> ''X''"
  shows "lex_number (print_num v @ r) = (v, r)"
proof -
  have stop: "lex_digits False w r = (w, r)" for w using assms(1) by (cases r) auto
  show ?thesis
  proof (cases "v = 0")
    case True
    then show ?thesis using assms stop by (auto simp: print_num_def lex_number_def digit_val_def is_digit_def)
  next
    case False
    then have n: "0 < unat v" "unat v < 10 ^ 20"
      using unat_less_2p64 [of v] by (auto simp: unat_gt_0)
    let ?ds = "digits_of 20 (unat v)"
    have "take 1 (?ds @ r) \<noteq> ''0''"
      using digits_of_nonzero [OF n] by (cases ?ds) auto
    then have "lex_number (?ds @ r) = lex_digits False 0 (?ds @ r)" by (simp add: lex_number_def)
    also have "\<dots> = (v, r)"
      using digits_of_digits by (simp add: lex_digits_append digits_of_value [OF n(2)] stop)
    finally show ?thesis using False by (simp add: print_num_def)
  qed
qed

lemma lex_string_print:
  "length buf + length s \<le> 255 \<Longrightarrow> lex_string (print_str s @ CHR 0x22 # r) buf = Ok (rev buf @ s, r)"
  by (induction s arbitrary: buf) (auto simp: lex_escape_def)

lemma op_table_checked:
  "list_all (\<lambda>(opr, t). print_op t = opr \<and> 1 \<le> length opr \<and> length opr \<le> 2
      \<and> match_op (opr @ '' '') = Some (opr, t) \<and> t \<noteq> T_NUM \<and> t \<noteq> T_STR
      \<and> \<not> is_space (hd opr) \<and> \<not> is_digit (hd opr) \<and> \<not> is_ident_start (hd opr) \<and> hd opr \<noteq> CHR 0x22
      \<and> take 2 (opr @ '' '') \<noteq> ''//'' \<and> take 2 (opr @ '' '') \<noteq> ''/*'') op_table"
  by code_simp

lemma match_op_take2: "match_op (take 2 p) = match_op p"
proof -
  have "\<forall>(opr, t)\<in>set op_table. length opr \<le> 2" using op_table_checked by (auto simp: list_all_iff)
  then show ?thesis unfolding match_op_def
    by (intro find_cong refl) (auto simp: min_def)
qed

lemma print_op_checked:
  assumes "t \<in> snd ` set op_table"
  obtains c q where "print_op t = c # q" "length q \<le> 1" "\<not> is_space c" "\<not> is_digit c" "\<not> is_ident_start c"
    "c \<noteq> CHR 0x22" "t \<noteq> T_NUM" "t \<noteq> T_STR"
    "take 2 (print_op t @ CHR '' '' # r) \<noteq> ''//''" "take 2 (print_op t @ CHR '' '' # r) \<noteq> ''/*''"
    "match_op (print_op t @ CHR '' '' # r) = Some (print_op t, t)"
proof -
  obtain opr where opr: "(opr, t) \<in> set op_table" using assms by auto
  then have chk: "print_op t = opr" "1 \<le> length opr" "length opr \<le> 2" "match_op (opr @ '' '') = Some (opr, t)"
    "t \<noteq> T_NUM" "t \<noteq> T_STR" "\<not> is_space (hd opr)" "\<not> is_digit (hd opr)" "\<not> is_ident_start (hd opr)"
    "hd opr \<noteq> CHR 0x22" "take 2 (opr @ '' '') \<noteq> ''//''" "take 2 (opr @ '' '') \<noteq> ''/*''"
    using op_table_checked unfolding list_all_iff by auto
  have "take 2 (opr @ CHR '' '' # r) = take 2 (opr @ '' '')" using chk(2,3) by (cases opr; cases "tl opr") auto
  then have "match_op (opr @ CHR '' '' # r) = Some (opr, t)"
    using chk(4) match_op_take2 [of "opr @ CHR '' '' # r"] match_op_take2 [of "opr @ '' ''"] by simp
  then show ?thesis
    using that [of "hd opr" "tl opr"] chk \<open>take 2 (opr @ CHR '' '' # r) = take 2 (opr @ '' '')\<close>
    by (cases opr) auto
qed

lemma tok_eq_mk: "mk_tok (tok_t t) (tok_num t) (tok_s t) = t"
  by (simp add: mk_tok_def)

lemma ident_start_props:
  "is_ident_start c \<Longrightarrow> \<not> is_space c \<and> \<not> is_digit c \<and> c \<noteq> CHR ''/'' \<and> is_ident_char c"
  by (cases c) (auto simp: is_ident_start_def is_ident_char_def is_space_def is_digit_def)

lemma digit_props: "is_digit c \<Longrightarrow> \<not> is_space c \<and> c \<noteq> CHR ''/''"
  by (cases c) (auto simp: is_space_def is_digit_def)

lemma blank_props: "\<not> is_digit (CHR '' '')" "\<not> is_ident_char (CHR '' '')" "is_space (CHR '' '')"
  by (simp_all add: is_digit_def is_ident_char_def is_ident_start_def is_space_def)

lemma lex_turn_token:
  assumes "p = c # q" and "\<not> is_space c" and "c \<noteq> CHR ''/''"
  shows "lex_turn False p a = lex_token p a"
  using assms by (auto simp: lex_turn_def Let_def numeral_2_eq_2)

lemma print_num_digits: "\<exists>d ds. print_num v = d # ds \<and> is_digit d"
proof (cases "v = 0")
  case True
  then show ?thesis by (simp add: print_num_def is_digit_def)
next
  case False
  then have "digits_of 20 (unat v) \<noteq> []"
    using digits_of_nonzero [of "unat v" 20] unat_less_2p64 [of v] by (simp add: unat_gt_0)
  then show ?thesis using False digits_of_digits [of "hd (digits_of 20 (unat v))" 20 "unat v"]
    by (cases "digits_of 20 (unat v)") (auto simp: print_num_def)
qed

lemma lex_print_num:
  assumes "tok_t t = T_NUM" and "tok_s t = None"
  shows "lex_turn False (print_tok t @ CHR '' '' # r) a = LTok t (CHR '' '' # r) a"
proof -
  obtain d ds where d: "print_num (tok_num t) = d # ds" "is_digit d" using print_num_digits by blast
  have "lex_number (print_num (tok_num t) @ CHR '' '' # r) = (tok_num t, CHR '' '' # r)"
    by (rule lex_number_print) (simp_all add: blank_props)
  moreover have "print_tok t = d # ds" using d assms by (simp add: print_tok_def)
  moreover have "mk_tok T_NUM (tok_num t) None = t" using assms tok_eq_mk [of t] by simp
  ultimately show ?thesis
    using d digit_props [OF d(2)] lex_turn_token [of "d # ds @ CHR '' '' # r" d]
    by (simp add: lex_token_def)
qed

lemma lex_print_str:
  assumes "tok_t t = T_STR" and "tok_s t = Some s" and "tok_num t = 0" and "length s \<le> 255"
    and "roomy (print_tok t @ CHR '' '' # r) a"
  shows "\<exists>a'. lex_turn False (print_tok t @ CHR '' '' # r) a = LTok t (CHR '' '' # r) a'"
proof -
  let ?q = "print_str s @ CHR 0x22 # CHR '' '' # r"
  have p: "print_tok t @ CHR '' '' # r = CHR 0x22 # ?q" using assms by (simp add: print_tok_def)
  then obtain a' where "noc_arena_alloc 256 a = Some a'" using string_room [of "CHR 0x22" ?q a] assms(5) by auto
  moreover have "lex_string ?q [] = Ok (s, CHR '' '' # r)"
    using lex_string_print [of "[]" s "CHR '' '' # r"] assms(4) by simp
  moreover have "mk_tok T_STR 0 (Some s) = t" using assms tok_eq_mk [of t] by simp
  ultimately have "lex_token (CHR 0x22 # ?q) a = LTok t (CHR '' '' # r) a'"
    by (simp add: lex_token_def is_digit_def is_ident_start_def)
  then show ?thesis unfolding p using lex_turn_token [of "CHR 0x22 # ?q"] by (simp add: is_space_def)
qed

lemma lex_print_word:
  assumes "is_word w" and "tok_s t = Some w" and "tok_num t = 0" and "tok_t t = keyword_type w"
    and "tok_t t \<noteq> T_STR" and "tok_t t \<noteq> T_NUM" and "roomy (print_tok t @ CHR '' '' # r) a"
  shows "\<exists>a'. lex_turn False (print_tok t @ CHR '' '' # r) a = LTok t (CHR '' '' # r) a'"
proof -
  let ?p = "w @ CHR '' '' # r"
  have p: "print_tok t = w" using assms by (simp add: print_tok_def)
  obtain c q where w: "w = c # q" "is_ident_start c" using assms(1) by (cases w) (auto simp: is_word_def)
  have t: "takeWhile is_ident_char ?p = w" "dropWhile is_ident_char ?p = CHR '' '' # r"
    using assms(1) blank_props(2) by (auto simp: is_word_def takeWhile_append dropWhile_append)
  have "is_ident_char c" using ident_start_props [OF w(2)] by blast
  then obtain a' where a': "noc_arena_alloc (length w + 1) a = Some a'"
    using ident_room [OF assms(7) [unfolded p] _ refl, of c "q @ CHR '' '' # r"] w t by auto
  have "mk_tok (keyword_type w) 0 (Some w) = t" using assms tok_eq_mk [of t] by simp
  then have "lex_token ?p a = LTok t (CHR '' '' # r) a'"
    using w ident_start_props [OF w(2)] a' t by (simp add: lex_token_def Let_def)
  then show ?thesis using p w ident_start_props [OF w(2)] lex_turn_token [of ?p c "q @ CHR '' '' # r"] by simp
qed

lemma lex_print_op:
  assumes "tok_s t = None" and "tok_num t = 0" and "tok_t t \<in> snd ` set op_table"
  shows "lex_turn False (print_tok t @ CHR '' '' # r) a = LTok t (CHR '' '' # r) a"
proof -
  obtain c q where c: "print_op (tok_t t) = c # q" "\<not> is_space c" "\<not> is_digit c" "\<not> is_ident_start c"
    "c \<noteq> CHR 0x22" "tok_t t \<noteq> T_NUM" "tok_t t \<noteq> T_STR"
    "take 2 (print_op (tok_t t) @ CHR '' '' # r) \<noteq> ''//''" "take 2 (print_op (tok_t t) @ CHR '' '' # r) \<noteq> ''/*''"
    "match_op (print_op (tok_t t) @ CHR '' '' # r) = Some (print_op (tok_t t), tok_t t)"
    using print_op_checked [OF assms(3), of r] by metis
  have "mk_tok (tok_t t) 0 None = t" using assms tok_eq_mk [of t] by simp
  then show ?thesis
    using c assms(1) by (simp add: lex_turn_def lex_token_def print_tok_def Let_def)
qed

lemma keyword_type_plain: "keyword_type w \<noteq> T_STR \<and> keyword_type w \<noteq> T_NUM"
proof -
  have "T_STR \<notin> snd ` set keyword_table" "T_NUM \<notin> snd ` set keyword_table" by (simp_all add: keyword_table_def)
  then show ?thesis by (force simp: keyword_type_def split: option.splits dest!: map_of_SomeD)
qed

lemma lex_print_tok:
  assumes "printable t" and "roomy (print_tok t @ CHR '' '' # r) a"
  shows "\<exists>a'. lex_turn False (print_tok t @ CHR '' '' # r) a = LTok t (CHR '' '' # r) a'"
proof (cases "tok_s t")
  case None
  then show ?thesis using assms(1) lex_print_num [of t r a] lex_print_op [of t r a]
    by (cases "tok_t t = T_NUM") (auto simp: printable_def)
next
  case (Some s)
  show ?thesis
  proof (cases "tok_t t = T_STR")
    case True
    then show ?thesis using assms Some lex_print_str [of t s r a] by (simp add: printable_def)
  next
    case False
    then have "is_word s" "tok_num t = 0" "tok_t t = keyword_type s" using assms(1) Some by (simp_all add: printable_def)
    then show ?thesis using assms(2) Some False lex_print_word [of s t r a] keyword_type_plain [of s] by metis
  qed
qed

lemma lex_loop_blank: "lex_loop m (CHR '' '' # p) a toks = lex_loop m p a toks"
  by (simp add: lex_loop.simps [of m "CHR '' '' # p"] lex_loop.simps [of m p] lex_turn_def blank_props)

lemma lex_loop_print:
  assumes "\<forall>t\<in>set ts. printable t" and "roomy (print_toks ts) a" and "length toks + length ts < m"
  shows "\<exists>a'. lex_loop m (print_toks ts) a toks = Ok (rev toks @ ts @ [mk_tok T_EOF 0 None], a')"
  using assms
proof (induction ts arbitrary: a toks)
  case Nil
  then show ?case by (simp add: print_toks_def lex_loop.simps [of m "[]"] lex_turn_def lex_token_def)
next
  case (Cons t ts)
  have p: "print_toks (t # ts) = print_tok t @ CHR '' '' # print_toks ts" by (simp add: print_toks_def)
  have room: "roomy (print_tok t @ CHR '' '' # print_toks ts) a" using Cons.prems(2) p by simp
  obtain a' where a': "lex_turn False (print_tok t @ CHR '' '' # print_toks ts) a = LTok t (CHR '' '' # print_toks ts) a'"
    using lex_print_tok [OF _ room] Cons.prems(1) by auto
  have "roomy (print_toks ts) a'"
    using roomy_suffix [OF lex_turn_roomy [OF room a'], of "print_toks ts"] by (simp add: suffix_ConsI)
  then obtain b where "lex_loop m (print_toks ts) a' (t # toks) = Ok (rev toks @ (t # ts) @ [mk_tok T_EOF 0 None], b)"
    using Cons.IH [of a' "t # toks"] Cons.prems by auto
  moreover have "\<not> m \<le> length toks" using Cons.prems(3) by simp
  ultimately show ?case using a' 
    by (simp add: p lex_loop_blank lex_loop.simps [of m "print_tok t @ CHR '' '' # print_toks ts"])
qed

text \<open>C26 Printing a list of tokens and tokenizing the text gives the tokens back, followed by
  the end token, whenever the token array and the arena are large enough: decimal numbers of the
  full 64-bit range, identifiers and keywords, string literals of up to 255 characters with any
  characters in them, and every operator of the table.\<close>

theorem noc_lex_roundtrip:
  assumes "\<forall>t\<in>set ts. printable t" and "length ts < maxtoks"
    and "ar_base a \<noteq> 0" and "ar_used a + 256 * length (print_toks ts) \<le> ar_cap a"
  shows "\<exists>a'. noc_lex (print_toks ts) a maxtoks = Ok (ts @ [mk_tok T_EOF 0 None], a')"
  using lex_loop_print [of ts a "[]" maxtoks] assms by (simp add: noc_lex_def roomy_def)

theorem noc_lex_roundtrip_witness:
  "\<exists>a'. noc_lex ''while x <= 18446744073709551615 '' demo_arena 8 =
     Ok ([mk_tok T_WHILE 0 (Some ''while''), mk_tok T_IDENT 0 (Some ''x''), mk_tok T_LE 0 None, mk_tok T_NUM (-1) None]
         @ [mk_tok T_EOF 0 None], a')"
proof -
  let ?ts = "[mk_tok T_WHILE 0 (Some ''while''), mk_tok T_IDENT 0 (Some ''x''), mk_tok T_LE 0 None, mk_tok T_NUM (-1) None]"
  have p: "print_toks ?ts = ''while x <= 18446744073709551615 ''" by code_simp
  have "list_all printable ?ts" by code_simp
  then show ?thesis using noc_lex_roundtrip [of ?ts 8 demo_arena]
    by (simp add: p list_all_iff demo_arena_def)
qed
end
