(* ===== verification/Parser.thy ===== *)
theory Parser
  imports Noc
begin

text \<open>
  The recursive-descent parser, \<^verbatim>\<open>kernel/noc/parser.c\<close>. The parser state is the suffix of
  the token array from the current index and the arena; reading past the array is
  \<open>OutOfBounds ''toks''\<close>. The first error wins and ends the parse, as the sticky error
  pointer of the source does.

  Two recursions of the source are open here: every function that calls
  \<^verbatim>\<open>parse_expr\<close> takes the expression parser \<open>pe\<close> as an argument, and every function that
  calls \<^verbatim>\<open>parse_stmt\<close> takes the statement parser \<open>ps\<close>. \<open>parse_expr\<close> and \<open>parse_stmt\<close> tie
  the knots with fuel, and the loops carry fuel too; each gives itself one unit per token
  left, which the progress lemmas prove sufficient.
\<close>

type_synonym 'a parsed = "('a \<times> tok list \<times> arena) res"

definition sizeof_ast :: nat where "sizeof_ast = 80"

definition cur :: "tok list \<Rightarrow> (tok \<Rightarrow> 'a res) \<Rightarrow> 'a res" where
  "cur ts k = (case ts of [] \<Rightarrow> Crash (OutOfBounds ''toks'') | t # _ \<Rightarrow> k t)"

definition check :: "tok list \<Rightarrow> tok_t \<Rightarrow> (bool \<Rightarrow> 'a res) \<Rightarrow> 'a res" where
  "check ts ty k = cur ts (\<lambda>t. k (tok_t t = ty))"

definition accept :: "tok list \<Rightarrow> tok_t \<Rightarrow> (bool \<Rightarrow> tok list \<Rightarrow> 'a res) \<Rightarrow> 'a res" where
  "accept ts ty k = cur ts (\<lambda>t. if tok_t t = ty then k True (tl ts) else k False ts)"

definition expect :: "tok list \<Rightarrow> tok_t \<Rightarrow> string \<Rightarrow> (tok list \<Rightarrow> 'a res) \<Rightarrow> 'a res" where
  "expect ts ty what k = cur ts (\<lambda>t. if tok_t t = ty then k (tl ts) else Err what)"

definition semi_ok :: "tok list \<Rightarrow> (tok list \<Rightarrow> 'a res) \<Rightarrow> 'a res" where
  "semi_ok ts k =
     accept ts T_SEMI (\<lambda>ok ts.
       if ok then k ts
       else check ts T_EOF (\<lambda>eof. if eof then k ts else Err (''expected '' @ quoted '';'')))"

definition new_ast :: "arena \<Rightarrow> (arena \<Rightarrow> 'a res) \<Rightarrow> 'a res" where
  "new_ast a k =
     (case noc_arena_alloc sizeof_ast a of
        None \<Rightarrow> Err ''out of memory (AST)''
      | Some a' \<Rightarrow> k a')"

definition tok_str :: "tok \<Rightarrow> string" where
  "tok_str t = (case tok_s t of Some s \<Rightarrow> s | None \<Rightarrow> [])"

fun type_of :: "tok_t \<Rightarrow> ntype" where
  "type_of T_TYPE_U0 = NTYPE_VOID" | "type_of T_TYPE_I64 = NTYPE_I64"
| "type_of T_TYPE_U64 = NTYPE_U64" | "type_of T_TYPE_BOOL = NTYPE_BOOL"
| "type_of T_TYPE_STR = NTYPE_STR" | "type_of T_TYPE_U8 = NTYPE_U8"
| "type_of T_TYPE_I8 = NTYPE_I8" | "type_of T_TYPE_U16 = NTYPE_U16"
| "type_of T_TYPE_I16 = NTYPE_I16" | "type_of T_TYPE_U32 = NTYPE_U32"
| "type_of T_TYPE_I32 = NTYPE_I32" | "type_of T_TYPE_F64 = NTYPE_F64"
| "type_of _ = NTYPE_I64"

definition is_type_tok :: "tok_t \<Rightarrow> bool" where
  "is_type_tok t \<longleftrightarrow> t \<in> set [T_TYPE_U0, T_TYPE_I64, T_TYPE_U64, T_TYPE_BOOL, T_TYPE_STR,
     T_TYPE_U8, T_TYPE_U16, T_TYPE_U32, T_TYPE_I8, T_TYPE_I16, T_TYPE_I32, T_TYPE_F64]"

section \<open>Expressions\<close>

definition assign_ops :: "(tok_t \<times> asgop) list" where
  "assign_ops = [(T_EQ, BIN_ASSIGN), (T_PLUSEQ, BIN_ADDASSIGN), (T_MINUSEQ, BIN_SUBASSIGN),
     (T_STAREQ, BIN_MULASSIGN), (T_SLASHEQ, BIN_DIVASSIGN)]"

definition unary_ops :: "(tok_t \<times> unop) list" where
  "unary_ops = [(T_BANG, UNOP_NOT), (T_MINUS, UNOP_NEG), (T_TILDE, UNOP_BNOT),
     (T_PLUSPLUS, INC_PRE True), (T_MINUSMINUS, INC_PRE False)]"

fun is_inc_pre :: "unop \<Rightarrow> bool" where
  "is_inc_pre (INC_PRE d) = True"
| "is_inc_pre _ = False"

fun is_var :: "ast \<Rightarrow> bool" where
  "is_var (A_VAR name) = True"
| "is_var _ = False"

fun ast_name :: "ast \<Rightarrow> string" where
  "ast_name (A_VAR name) = name"
| "ast_name _ = []"

type_synonym 'a parser = "tok list \<Rightarrow> arena \<Rightarrow> 'a parsed"

definition parse_primary :: "ast parser \<Rightarrow> ast parser" where
  "parse_primary pe ts a =
     cur ts (\<lambda>t.
       if tok_t t = T_NUM then new_ast a (\<lambda>a. Ok (A_LIT (tok_num t), tl ts, a))
       else if tok_t t = T_STR then new_ast a (\<lambda>a. Ok (A_STRLIT (tok_str t), tl ts, a))
       else if tok_t t = T_TRUE then new_ast a (\<lambda>a. Ok (A_LIT 1, tl ts, a))
       else if tok_t t = T_FALSE then new_ast a (\<lambda>a. Ok (A_LIT 0, tl ts, a))
       else if tok_t t = T_IDENT then new_ast a (\<lambda>a. Ok (A_VAR (tok_str t), tl ts, a))
       else if tok_t t = T_LP then
         bind_res (pe (tl ts) a) (\<lambda>(e, ts, a).
           expect ts T_RP (''expected '' @ quoted '')'') (\<lambda>ts. Ok (e, ts, a)))
       else Err ''expected expression'')"

text \<open>The arguments of a call; the array that holds them is allocated with the first one.\<close>

fun parse_args :: "ast parser \<Rightarrow> nat \<Rightarrow> ast list \<Rightarrow> ast list parser" where
  "parse_args pe 0 args ts a = Crash OutOfFuel"
| "parse_args pe (Suc n) args ts a =
     bind_res (pe ts a) (\<lambda>(arg, ts, a).
       if length args \<ge> NOC_MAX_ARGS then Err ''too many arguments''
       else (case (if args = [] then noc_arena_alloc (8 * NOC_MAX_ARGS) a else Some a) of
               None \<Rightarrow> Crash NullDeref
             | Some a \<Rightarrow>
                 accept ts T_COMMA (\<lambda>more ts.
                   if more then parse_args pe n (args @ [arg]) ts a else Ok (args @ [arg], ts, a))))"

fun parse_suffix :: "ast parser \<Rightarrow> nat \<Rightarrow> ast \<Rightarrow> ast parser" where
  "parse_suffix pe 0 e ts a = Crash OutOfFuel"
| "parse_suffix pe (Suc n) e ts a =
     cur ts (\<lambda>t.
       if tok_t t = T_LP then
         new_ast a (\<lambda>a.
           if \<not> is_var e then Err ''call target must be a function name''
           else check (tl ts) T_RP (\<lambda>none.
                  bind_res (if none then Ok ([], tl ts, a)
                            else parse_args pe (Suc (length (tl ts))) [] (tl ts) a)
                    (\<lambda>(args, ts, a).
                       expect ts T_RP (''expected '' @ quoted '')'')
                         (\<lambda>ts. parse_suffix pe n (A_CALL (ast_name e) args) ts a))))
       else if tok_t t = T_PLUSPLUS \<or> tok_t t = T_MINUSMINUS then
         (if \<not> is_var e then Err ''++/-- needs a variable''
          else new_ast a (\<lambda>a.
                 parse_suffix pe n (A_POSTINC (ast_name e) (tok_t t = T_PLUSPLUS) e) (tl ts) a))
       else Ok (e, ts, a))"

definition parse_postfix :: "ast parser \<Rightarrow> ast parser" where
  "parse_postfix pe ts a =
     bind_res (parse_primary pe ts a) (\<lambda>(e, ts, a). parse_suffix pe (Suc (length ts)) e ts a)"

fun parse_unary_n :: "ast parser \<Rightarrow> nat \<Rightarrow> ast parser" where
  "parse_unary_n pe 0 ts a = Crash OutOfFuel"
| "parse_unary_n pe (Suc n) ts a =
     cur ts (\<lambda>t.
       (case map_of unary_ops (tok_t t) of
          None \<Rightarrow> parse_postfix pe ts a
        | Some u \<Rightarrow>
            new_ast a (\<lambda>a.
              bind_res (parse_unary_n pe n (tl ts) a) (\<lambda>(x, ts, a).
                if is_inc_pre u \<and> \<not> is_var x then Err ''++/-- needs a variable''
                else Ok (A_UN u x, ts, a)))))"

definition parse_unary :: "ast parser \<Rightarrow> ast parser" where
  "parse_unary pe ts a = parse_unary_n pe (Suc (length ts)) ts a"

fun binop_loop :: "ast parser \<Rightarrow> (tok_t \<times> binop) list \<Rightarrow> nat \<Rightarrow> ast \<Rightarrow> ast parser" where
  "binop_loop higher ops 0 lhs ts a = Crash OutOfFuel"
| "binop_loop higher ops (Suc n) lhs ts a =
     cur ts (\<lambda>t.
       (case map_of ops (tok_t t) of
          None \<Rightarrow> Ok (lhs, ts, a)
        | Some code \<Rightarrow>
            bind_res (higher (tl ts) a) (\<lambda>(rhs, ts, a).
              new_ast a (\<lambda>a. binop_loop higher ops n (A_BIN code lhs rhs) ts a))))"

definition parse_binop :: "ast parser \<Rightarrow> (tok_t \<times> binop) list \<Rightarrow> ast parser" where
  "parse_binop higher ops ts a =
     bind_res (higher ts a) (\<lambda>(lhs, ts, a). binop_loop higher ops (Suc (length ts)) lhs ts a)"

definition parse_multiplicative :: "ast parser \<Rightarrow> ast parser" where
  "parse_multiplicative pe =
     parse_binop (parse_unary pe) [(T_STAR, BIN_MUL), (T_SLASH, BIN_DIV), (T_PCT, BIN_MOD)]"

definition parse_additive :: "ast parser \<Rightarrow> ast parser" where
  "parse_additive pe = parse_binop (parse_multiplicative pe) [(T_PLUS, BIN_ADD), (T_MINUS, BIN_SUB)]"

definition parse_shift :: "ast parser \<Rightarrow> ast parser" where
  "parse_shift pe = parse_binop (parse_additive pe) [(T_SHL, BIN_SHL), (T_SHR, BIN_SHR)]"

definition parse_relational :: "ast parser \<Rightarrow> ast parser" where
  "parse_relational pe =
     parse_binop (parse_shift pe) [(T_LT, BIN_LT), (T_LE, BIN_LE), (T_GT, BIN_GT), (T_GE, BIN_GE)]"

definition parse_equality :: "ast parser \<Rightarrow> ast parser" where
  "parse_equality pe = parse_binop (parse_relational pe) [(T_EQEQ, BIN_EQ), (T_NEQ, BIN_NE)]"

definition parse_band :: "ast parser \<Rightarrow> ast parser" where
  "parse_band pe = parse_binop (parse_equality pe) [(T_AMP, BIN_BAND)]"

definition parse_bxor :: "ast parser \<Rightarrow> ast parser" where
  "parse_bxor pe = parse_binop (parse_band pe) [(T_CARET, BIN_BXOR)]"

definition parse_bor :: "ast parser \<Rightarrow> ast parser" where
  "parse_bor pe = parse_binop (parse_bxor pe) [(T_PIPE, BIN_BOR)]"

definition parse_andand :: "ast parser \<Rightarrow> ast parser" where
  "parse_andand pe = parse_binop (parse_bor pe) [(T_ANDAND, BIN_ANDAND)]"

definition parse_oror :: "ast parser \<Rightarrow> ast parser" where
  "parse_oror pe = parse_binop (parse_andand pe) [(T_OROR, BIN_OROR)]"

fun parse_assign_n :: "ast parser \<Rightarrow> nat \<Rightarrow> ast parser" where
  "parse_assign_n pe 0 ts a = Crash OutOfFuel"
| "parse_assign_n pe (Suc n) ts a =
     bind_res (parse_oror pe ts a) (\<lambda>(lhs, ts, a).
       cur ts (\<lambda>t.
         (case map_of assign_ops (tok_t t) of
            None \<Rightarrow> Ok (lhs, ts, a)
          | Some code \<Rightarrow>
              if \<not> is_var lhs then Err ''assignment target must be a variable''
              else bind_res (parse_assign_n pe n (tl ts) a) (\<lambda>(rhs, ts, a).
                     new_ast a (\<lambda>a. Ok (A_ASSIGN code (ast_name lhs) rhs, ts, a))))))"

definition parse_assign :: "ast parser \<Rightarrow> ast parser" where
  "parse_assign pe ts a = parse_assign_n pe (Suc (length ts)) ts a"

fun parse_expr_n :: "nat \<Rightarrow> ast parser" where
  "parse_expr_n 0 ts a = Crash OutOfFuel"
| "parse_expr_n (Suc n) ts a = parse_assign (parse_expr_n n) ts a"

definition parse_expr :: "ast parser" where
  "parse_expr ts a = parse_expr_n (Suc (length ts)) ts a"

section \<open>Statements\<close>

fun block_loop :: "ast parser \<Rightarrow> nat \<Rightarrow> ast list \<Rightarrow> ast list parser" where
  "block_loop ps 0 acc ts a = Crash OutOfFuel"
| "block_loop ps (Suc n) acc ts a =
     cur ts (\<lambda>t.
       if tok_t t = T_RB then Ok (acc, tl ts, a)
       else if tok_t t = T_EOF then Err ''unterminated block''
       else bind_res (ps ts a) (\<lambda>(s, ts, a).
              (case (if acc = [] then noc_arena_alloc (8 * NOC_MAX_NODES) a else Some a) of
                 None \<Rightarrow> Err ''out of memory (block)''
               | Some a \<Rightarrow>
                   if length acc \<ge> NOC_MAX_NODES then Crash (OutOfBounds ''block'')
                   else block_loop ps n (acc @ [s]) ts a)))"

definition parse_block :: "ast parser \<Rightarrow> ast parser" where
  "parse_block ps ts a =
     new_ast a (\<lambda>a.
       expect ts T_LB (''expected '' @ quoted ''{'') (\<lambda>ts.
         bind_res (block_loop ps (Suc (length ts)) [] ts a) (\<lambda>(ss, ts, a). Ok (A_BLOCK ss, ts, a))))"

definition parse_default :: "ast option parser" where
  "parse_default ts a =
     accept ts T_EQ (\<lambda>eq ts.
       if \<not> eq then Ok (None, ts, a)
       else cur ts (\<lambda>t.
              if tok_t t = T_NUM then new_ast a (\<lambda>a. Ok (Some (A_LIT (tok_num t)), tl ts, a))
              else if tok_t t = T_TRUE \<or> tok_t t = T_FALSE then
                new_ast a (\<lambda>a. Ok (Some (A_LIT (if tok_t t = T_TRUE then 1 else 0)), tl ts, a))
              else Err ''default arg must be a literal''))"

fun params_loop :: "nat \<Rightarrow> ast list \<Rightarrow> ast list parser" where
  "params_loop 0 acc ts a = Crash OutOfFuel"
| "params_loop (Suc n) acc ts a =
     cur ts (\<lambda>ty.
       if \<not> is_type_tok (tok_t ty) then Err ''expected parameter type''
       else cur (tl ts) (\<lambda>nm.
         if tok_t nm \<noteq> T_IDENT then Err ''expected parameter name''
         else new_ast a (\<lambda>a.
           bind_res (parse_default (tl (tl ts)) a) (\<lambda>(d, ts, a).
             (case (if acc = [] then noc_arena_alloc (8 * NOC_MAX_ARGS) a else Some a) of
                None \<Rightarrow> Err ''out of memory (params)''
              | Some a \<Rightarrow>
                  (let acc = acc @ [A_VARDECL (type_of (tok_t ty)) (tok_str nm) d]
                   in if length acc \<ge> NOC_MAX_ARGS then Err ''too many parameters''
                      else accept ts T_COMMA (\<lambda>more ts.
                             if more then params_loop n acc ts a
                             else expect ts T_RP (''expected '' @ quoted '')'') (\<lambda>ts. Ok (acc, ts, a)))))))))"

definition parse_params :: "ast list parser" where
  "parse_params ts a =
     expect ts T_LP (''expected '' @ quoted ''('') (\<lambda>ts.
       accept ts T_RP (\<lambda>none ts.
         if none then Ok ([], ts, a) else params_loop (Suc (length ts)) [] ts a))"

text \<open>A statement that starts with a type: a function or a variable declaration.\<close>

definition parse_decl :: "ast parser \<Rightarrow> ast parser" where
  "parse_decl ps ts a =
     cur ts (\<lambda>t.
       cur (tl ts) (\<lambda>nm.
         if tok_t nm \<noteq> T_IDENT then Err ''expected name after type''
         else check (tl (tl ts)) T_LP (\<lambda>is_fn.
           if is_fn then
             new_ast a (\<lambda>a.
               bind_res (parse_params (tl (tl ts)) a) (\<lambda>(params, ts, a).
                 bind_res (parse_block ps ts a) (\<lambda>(body, ts, a).
                   Ok (A_FUNCDECL (type_of (tok_t t)) (tok_str nm) params body, ts, a))))
           else
             new_ast a (\<lambda>a.
               accept (tl (tl ts)) T_EQ (\<lambda>eq ts.
                 bind_res (if eq then map_res (\<lambda>(e, r). (Some e, r)) (parse_expr ts a) else Ok (None, ts, a))
                   (\<lambda>(e, ts, a).
                      semi_ok ts (\<lambda>ts. Ok (A_VARDECL (type_of (tok_t t)) (tok_str nm) e, ts, a))))))))"

definition parse_if :: "ast parser \<Rightarrow> ast parser" where
  "parse_if ps ts a =
     new_ast a (\<lambda>a.
       expect (tl ts) T_LP (''expected '' @ quoted ''('') (\<lambda>ts.
         bind_res (parse_expr ts a) (\<lambda>(x, ts, a).
           expect ts T_RP (''expected '' @ quoted '')'') (\<lambda>ts.
             bind_res (ps ts a) (\<lambda>(y, ts, a).
               accept ts T_ELSE (\<lambda>els ts.
                 if els then bind_res (ps ts a) (\<lambda>(z, ts, a). Ok (A_IF x y (Some z), ts, a))
                 else Ok (A_IF x y None, ts, a)))))))"

definition parse_while :: "ast parser \<Rightarrow> ast parser" where
  "parse_while ps ts a =
     new_ast a (\<lambda>a.
       expect (tl ts) T_LP (''expected '' @ quoted ''('') (\<lambda>ts.
         bind_res (parse_expr ts a) (\<lambda>(x, ts, a).
           expect ts T_RP (''expected '' @ quoted '')'') (\<lambda>ts.
             bind_res (ps ts a) (\<lambda>(y, ts, a). Ok (A_WHILE x y, ts, a))))))"

definition for_init :: "ast option parser" where
  "for_init ts a =
     cur ts (\<lambda>t.
       if tok_t t = T_SEMI then Ok (None, tl ts, a)
       else if is_type_tok (tok_t t) then
         cur (tl ts) (\<lambda>nm.
           if tok_t nm \<noteq> T_IDENT then Err ''expected variable name''
           else new_ast a (\<lambda>a.
             accept (tl (tl ts)) T_EQ (\<lambda>eq ts.
               bind_res (if eq then map_res (\<lambda>(e, r). (Some e, r)) (parse_expr ts a) else Ok (None, ts, a))
                 (\<lambda>(e, ts, a).
                    expect ts T_SEMI (''expected '' @ quoted '';'')
                      (\<lambda>ts. Ok (Some (A_VARDECL (type_of (tok_t t)) (tok_str nm) e), ts, a))))))
       else bind_res (parse_expr ts a) (\<lambda>(e, ts, a).
              expect ts T_SEMI (''expected '' @ quoted '';'') (\<lambda>ts. Ok (Some e, ts, a))))"

text \<open>An optional expression: absent when the current token already closes it.\<close>

definition opt_expr :: "tok_t \<Rightarrow> ast option parser" where
  "opt_expr close ts a =
     check ts close (\<lambda>none.
       if none then Ok (None, ts, a) else map_res (\<lambda>(e, r). (Some e, r)) (parse_expr ts a))"

definition parse_for :: "ast parser \<Rightarrow> ast parser" where
  "parse_for ps ts a =
     new_ast a (\<lambda>a.
       expect (tl ts) T_LP (''expected '' @ quoted ''('') (\<lambda>ts.
         bind_res (for_init ts a) (\<lambda>(i, ts, a).
           bind_res (opt_expr T_SEMI ts a) (\<lambda>(c, ts, a).
             expect ts T_SEMI (''expected '' @ quoted '';'') (\<lambda>ts.
               bind_res (opt_expr T_RP ts a) (\<lambda>(post, ts, a).
                 expect ts T_RP (''expected '' @ quoted '')'') (\<lambda>ts.
                   bind_res (ps ts a) (\<lambda>(body, ts, a). Ok (A_FOR i c post body, ts, a)))))))))"

definition parse_return :: "ast parser" where
  "parse_return ts a =
     new_ast a (\<lambda>a.
       bind_res (opt_expr T_SEMI (tl ts) a) (\<lambda>(e, ts, a).
         semi_ok ts (\<lambda>ts. Ok (A_RETURN e, ts, a))))"

definition parse_exprstmt :: "ast parser" where
  "parse_exprstmt ts a =
     new_ast a (\<lambda>a.
       bind_res (parse_expr ts a) (\<lambda>(e, ts, a).
         semi_ok ts (\<lambda>ts. Ok (A_STMTEXPR e, ts, a))))"

fun parse_stmt_n :: "nat \<Rightarrow> ast parser" where
  "parse_stmt_n 0 ts a = Crash OutOfFuel"
| "parse_stmt_n (Suc n) ts a =
     cur ts (\<lambda>t.
       if is_type_tok (tok_t t) then parse_decl (parse_stmt_n n) ts a
       else if tok_t t = T_LB then parse_block (parse_stmt_n n) ts a
       else if tok_t t = T_IF then parse_if (parse_stmt_n n) ts a
       else if tok_t t = T_WHILE then parse_while (parse_stmt_n n) ts a
       else if tok_t t = T_FOR then parse_for (parse_stmt_n n) ts a
       else if tok_t t = T_RETURN then parse_return ts a
       else if tok_t t = T_EOF then Err ''unexpected end of input''
       else parse_exprstmt ts a)"

definition parse_stmt :: "ast parser" where
  "parse_stmt ts a = parse_stmt_n (Suc (length ts)) ts a"

fun parse_line :: "nat \<Rightarrow> ast list \<Rightarrow> ast list parser" where
  "parse_line 0 acc ts a = Crash OutOfFuel"
| "parse_line (Suc n) acc ts a =
     check ts T_EOF (\<lambda>eof.
       if eof then Ok (acc, ts, a)
       else bind_res (parse_stmt ts a) (\<lambda>(s, ts, a).
              if length acc + 1 \<ge> NOC_MAX_NODES then Err ''too many statements''
              else parse_line n (acc @ [s]) ts a))"

definition noc_parse :: "tok list \<Rightarrow> arena \<Rightarrow> (ast list \<times> arena) res" where
  "noc_parse toks a =
     (case noc_arena_alloc (sizeof_ast * NOC_MAX_NODES) a of
        None \<Rightarrow> Err ''out of memory (statement list)''
      | Some a \<Rightarrow> map_res (\<lambda>(ss, ts, a). (ss, a)) (parse_line (Suc (length toks)) [] toks a))"

section \<open>Progress and totality\<close>

text \<open>
  What every parsing function promises on a token array with one end token at the end: it
  ends, it leaves such an array with fewer than \<open>n\<close> tokens (so \<open>n\<close> the length of
  the input is strict progress), and the only way it leaves defined behaviour is
  the argument array of a call that the arena could not supply.
\<close>

definition pres :: "nat \<Rightarrow> 'a parsed \<Rightarrow> bool" where
  "pres n r = (case r of Ok (x, ts, a) \<Rightarrow> eof_ended ts \<and> length ts < n | Err e \<Rightarrow> True | Crash c \<Rightarrow> c = NullDeref)"

definition pgood :: "'a parser \<Rightarrow> nat \<Rightarrow> bool" where
  "pgood p n \<longleftrightarrow> (\<forall>ts a. eof_ended ts \<longrightarrow> length ts \<le> n \<longrightarrow> pres (length ts) (p ts a))"

named_theorems parse_rules \<open>introduction rules for parser outcomes\<close>

lemma eof_ended_nonempty: "eof_ended ts \<Longrightarrow> ts \<noteq> []"
  by (auto simp: eof_ended_def)

lemma eof_ended_tl: "eof_ended (t # ts) \<Longrightarrow> tok_t t \<noteq> T_EOF \<Longrightarrow> eof_ended ts"
  unfolding eof_ended_def by (auto simp: Cons_eq_append_conv)

lemma pres_Ok [parse_rules]: "eof_ended ts \<Longrightarrow> length ts < n \<Longrightarrow> pres n (Ok (x, ts, a))"
  by (simp add: pres_def)

lemma pres_Err [parse_rules, simp]: "pres n (Err e)"
  by (simp add: pres_def)

lemma pres_null [parse_rules, simp]: "pres n (Crash NullDeref)"
  by (simp add: pres_def)

lemma pres_mono: "pres m r \<Longrightarrow> m \<le> n \<Longrightarrow> pres n r"
  by (auto simp: pres_def split: res.splits)

lemma pres_bind:
  "pres m r \<Longrightarrow> (\<And>x ts a. eof_ended ts \<Longrightarrow> length ts < m \<Longrightarrow> pres n (k (x, ts, a))) \<Longrightarrow> pres n (bind_res r k)"
  by (cases r) (auto simp: pres_def)

lemma pgood_bind:
  assumes "pgood p m" and "eof_ended ts" and "length ts \<le> m"
    and "\<And>x ts' a. eof_ended ts' \<Longrightarrow> length ts' < length ts \<Longrightarrow> pres n (k (x, ts', a))"
  shows "pres n (bind_res (p ts a) k)"
  by (rule pres_bind [of "length ts"]) (use assms in \<open>auto simp: pgood_def\<close>)

lemma pres_cur [parse_rules]:
  "eof_ended ts \<Longrightarrow> (\<And>t ts'. ts = t # ts' \<Longrightarrow> pres n (k t)) \<Longrightarrow> pres n (cur ts k)"
  by (cases ts) (auto simp: cur_def dest: eof_ended_nonempty)

lemma pres_check [parse_rules]: "eof_ended ts \<Longrightarrow> (\<And>b. pres n (k b)) \<Longrightarrow> pres n (check ts ty k)"
  by (auto simp: check_def intro!: pres_cur)

lemma pres_accept [parse_rules]:
  assumes "eof_ended ts" and "ty \<noteq> T_EOF"
    and "\<And>ts' b. eof_ended ts' \<Longrightarrow> length ts' \<le> length ts \<Longrightarrow> (b \<Longrightarrow> length ts' < length ts) \<Longrightarrow> pres n (k b ts')"
  shows "pres n (accept ts ty k)"
  using assms unfolding accept_def by (intro pres_cur) (auto dest: eof_ended_tl)

lemma pres_expect [parse_rules]:
  assumes "eof_ended ts" and "ty \<noteq> T_EOF"
    and "\<And>ts'. eof_ended ts' \<Longrightarrow> length ts' < length ts \<Longrightarrow> pres n (k ts')"
  shows "pres n (expect ts ty what k)"
  using assms unfolding expect_def by (intro pres_cur) (auto dest: eof_ended_tl)

lemma pres_semi [parse_rules]:
  assumes "eof_ended ts"
    and "\<And>ts'. eof_ended ts' \<Longrightarrow> length ts' \<le> length ts \<Longrightarrow> pres n (k ts')"
  shows "pres n (semi_ok ts k)"
  unfolding semi_ok_def using assms by (auto intro!: parse_rules)

lemma pres_new_ast [parse_rules]: "(\<And>a. pres n (k a)) \<Longrightarrow> pres n (new_ast a k)"
  by (auto simp: new_ast_def split: option.splits)

section \<open>Expressions make progress\<close>

lemma parse_primary_good:
  assumes "pgood pe n"
  shows "pgood (parse_primary pe) (Suc n)"
  unfolding pgood_def
proof (intro allI impI)
  fix ts a
  assume ts: "eof_ended ts" "length ts \<le> Suc n"
  then obtain t ts' where t: "ts = t # ts'" by (cases ts) (auto dest: eof_ended_nonempty)
  show "pres (length ts) (parse_primary pe ts a)"
  proof (cases "tok_t t = T_EOF")
    case True
    then show ?thesis by (simp add: parse_primary_def cur_def t)
  next
    case False
    then have ts': "eof_ended ts'" using ts t eof_ended_tl by blast
    show ?thesis
      using ts ts' t unfolding parse_primary_def
      by (auto simp: cur_def intro!: parse_rules pgood_bind [OF assms])
  qed
qed

lemma parse_args_good:
  assumes "pgood pe n" and "eof_ended ts" and "length ts \<le> n" and "length ts < k"
  shows "pres (length ts) (parse_args pe k args ts a)"
  using assms(2-)
proof (induction k arbitrary: args ts a)
  case (Suc k)
  have "pres (length ts) (parse_args pe k args' ts' a')"
    if "eof_ended ts'" "length ts' < length ts" for args' ts' a'
    using that Suc by (intro pres_mono [OF Suc.IH]) auto
  then show ?case
    using Suc.prems by (auto intro!: parse_rules pgood_bind [OF assms(1)] split: option.splits)
qed simp

lemma parse_suffix_good:
  assumes "pgood pe n" and "eof_ended ts" and "length ts \<le> Suc n" and "length ts < k"
  shows "pres (Suc (length ts)) (parse_suffix pe k e ts a)"
  using assms(2-)
proof (induction k arbitrary: e ts a)
  case (Suc k)
  obtain t us where t: "ts = t # us" using Suc.prems(1) by (cases ts) (auto dest: eof_ended_nonempty)
  have rec: "pres (Suc (Suc (length us))) (parse_suffix pe k e' ts' a')"
    if "eof_ended ts'" "length ts' \<le> length us" for e' ts' a'
    using that Suc t by (intro pres_mono [OF Suc.IH]) auto
  show ?case
  proof (cases "tok_t t = T_EOF")
    case True
    then show ?thesis using Suc.prems t by (auto simp: cur_def intro!: parse_rules)
  next
    case False
    then have us: "eof_ended us" using Suc.prems t eof_ended_tl by blast
    have args: "pres (length us) (parse_args pe (Suc (length us)) [] us a')" for a'
      using us Suc.prems t by (intro parse_args_good [OF assms(1)]) auto
    show ?thesis
      using Suc.prems us t by (auto simp: cur_def simp del: parse_args.simps intro!: parse_rules pres_bind [OF args] rec)
  qed
qed simp

lemma parse_postfix_good:
  assumes "pgood pe n"
  shows "pgood (parse_postfix pe) (Suc n)"
  unfolding pgood_def parse_postfix_def
  by (auto intro!: pgood_bind [OF parse_primary_good [OF assms]] pres_mono [OF parse_suffix_good [OF assms]])

lemma map_of_not_eof: "map_of ops (tok_t t) = Some x \<Longrightarrow> T_EOF \<notin> fst ` set ops \<Longrightarrow> tok_t t \<noteq> T_EOF"
  by (metis domI dom_map_of_conv_image_fst)

lemma unary_ops_eof: "T_EOF \<notin> fst ` set unary_ops" "T_EOF \<notin> fst ` set assign_ops"
  by (simp_all add: unary_ops_def assign_ops_def)

lemma parse_unary_n_good:
  assumes "pgood pe n" and "eof_ended ts" and "length ts \<le> Suc n" and "length ts < k"
  shows "pres (length ts) (parse_unary_n pe k ts a)"
  using assms(2-)
proof (induction k arbitrary: ts a)
  case (Suc k)
  obtain t us where t: "ts = t # us" using Suc.prems(1) by (cases ts) (auto dest: eof_ended_nonempty)
  have "pres (length ts) (parse_postfix pe ts a)"
    using parse_postfix_good [OF assms(1)] Suc.prems by (simp add: pgood_def)
  moreover have "pres (length us) (parse_unary_n pe k us a')" if "map_of unary_ops (tok_t t) = Some u" for u a'
    using map_of_not_eof [OF that unary_ops_eof(1)] Suc t eof_ended_tl by simp
  ultimately show ?case
    using Suc.prems t by (auto simp: cur_def intro!: parse_rules pres_bind split: option.splits)
qed simp

lemma parse_unary_good: "pgood pe n \<Longrightarrow> pgood (parse_unary pe) (Suc n)"
  using parse_unary_n_good [of pe n] by (auto simp: pgood_def [of "parse_unary pe"] parse_unary_def simp del: parse_unary_n.simps)

lemma binop_loop_good:
  assumes "pgood higher n" and "T_EOF \<notin> fst ` set ops" and "eof_ended ts" and "length ts \<le> n" and "length ts < k"
  shows "pres (Suc (length ts)) (binop_loop higher ops k lhs ts a)"
  using assms(3-)
proof (induction k arbitrary: lhs ts a)
  case (Suc k)
  obtain t us where t: "ts = t # us" using Suc.prems(1) by (cases ts) (auto dest: eof_ended_nonempty)
  have rec: "pres (Suc (length ts)) (binop_loop higher ops k e' ts' a')"
    if "eof_ended ts'" "length ts' < length us" for e' ts' a'
    using that Suc t by (intro pres_mono [OF Suc.IH]) auto
  have "eof_ended us" if "map_of ops (tok_t t) = Some u" for u
    using map_of_not_eof [OF that assms(2)] Suc t eof_ended_tl by simp
  then show ?case
    using Suc.prems t rec
    by (auto simp: cur_def intro!: parse_rules pgood_bind [OF assms(1)] split: option.splits)
qed simp

lemma parse_binop_good:
  assumes "pgood higher n" and "T_EOF \<notin> fst ` set ops"
  shows "pgood (parse_binop higher ops) n"
  unfolding pgood_def parse_binop_def
  by (auto intro!: pgood_bind [OF assms(1)] pres_mono [OF binop_loop_good [OF assms]])

lemma parse_oror_good: "pgood pe n \<Longrightarrow> pgood (parse_oror pe) (Suc n)"
  unfolding parse_oror_def parse_andand_def parse_bor_def parse_bxor_def parse_band_def
    parse_equality_def parse_relational_def parse_shift_def parse_additive_def parse_multiplicative_def
  by (intro parse_binop_good parse_unary_good) simp_all

lemma parse_assign_n_good:
  assumes "pgood pe n" and "eof_ended ts" and "length ts \<le> Suc n" and "length ts < k"
  shows "pres (length ts) (parse_assign_n pe k ts a)"
  using assms(2-)
proof (induction k arbitrary: ts a)
  case (Suc k)
  have rhs: "pres (length us) (parse_assign_n pe k us a')"
    if "map_of assign_ops (tok_t t) = Some c" "eof_ended (t # us)" "length (t # us) < length ts" for c t us a'
    using map_of_not_eof [OF that(1) unary_ops_eof(2)] Suc.IH [of us a'] Suc.prems that eof_ended_tl by simp
  show ?case
    using Suc.prems
    by (auto intro!: parse_rules pgood_bind [OF parse_oror_good [OF assms(1)]] pres_bind [OF rhs] split: option.splits)
qed simp

lemma parse_expr_n_good: "pgood (parse_expr_n (Suc n)) n"
proof (induction n)
  case 0
  have "eof_ended ts \<Longrightarrow> 0 < length ts" for ts by (auto dest: eof_ended_nonempty)
  then show ?case by (auto simp: pgood_def)
next
  case (Suc n)
  show ?case
    using parse_assign_n_good [OF Suc] unfolding pgood_def parse_expr_n.simps(2) [of "Suc n"] parse_assign_def
    by (auto simp del: parse_assign_n.simps parse_expr_n.simps)
qed

lemma parse_expr_good: "pgood parse_expr n"
proof -
  have "pres (length ts) (parse_expr_n (Suc (length ts)) ts a)" if "eof_ended ts" for ts a
    using parse_expr_n_good [of "length ts"] that by (simp add: pgood_def)
  then show ?thesis by (simp add: pgood_def parse_expr_def)
qed

section \<open>Statements make progress\<close>

lemma parse_expr_bind:
  assumes "eof_ended ts"
    and "\<And>x ts' a. eof_ended ts' \<Longrightarrow> length ts' < length ts \<Longrightarrow> pres n (k (x, ts', a))"
  shows "pres n (bind_res (parse_expr ts a) k)"
  using pgood_bind [OF parse_expr_good [of "length ts"] assms(1) order_refl] assms(2) by blast

lemma pres_map: "pres n (map_res (\<lambda>(e, r). (f e, r)) r) = pres n r"
  by (cases r) (auto simp: pres_def)

lemma parse_expr_pres: "eof_ended ts \<Longrightarrow> pres (length ts) (parse_expr ts a)"
  using parse_expr_good [of "length ts"] by (simp add: pgood_def)

lemma opt_init_good [parse_rules]:
  "eof_ended ts \<Longrightarrow>
   pres (Suc (length ts)) (if b then map_res (\<lambda>(e, r). (Some e, r)) (parse_expr ts a) else Ok (None, ts, a))"
  by (auto simp: pres_map intro!: parse_rules pres_mono [OF parse_expr_pres])

lemma opt_expr_good: "eof_ended ts \<Longrightarrow> pres (Suc (length ts)) (opt_expr close ts a)"
  unfolding opt_expr_def by (auto simp: pres_map intro!: parse_rules pres_mono [OF parse_expr_pres])

lemma block_loop_good:
  assumes "pgood ps n" and "eof_ended ts" and "length ts \<le> n" and "length ts < k"
    and "length acc + length ts \<le> NOC_MAX_NODES"
  shows "pres (length ts) (block_loop ps k acc ts a)"
  using assms(2-)
proof (induction k arbitrary: acc ts a)
  case (Suc k)
  obtain t us where t: "ts = t # us" using Suc.prems(1) by (cases ts) (auto dest: eof_ended_nonempty)
  have rec: "pres (length ts) (block_loop ps k (acc @ [s]) ts' a')"
    if "eof_ended ts'" "length ts' < length ts" for s ts' a'
    using that Suc.prems by (intro pres_mono [OF Suc.IH]) auto
  have room: "\<not> NOC_MAX_NODES \<le> length acc" using Suc.prems(4) t by simp
  have "eof_ended us" if "tok_t t = T_RB" using Suc.prems t eof_ended_tl that by simp
  then show ?case
    using Suc.prems t room rec
    by (auto simp: cur_def intro!: parse_rules pgood_bind [OF assms(1)] split: option.splits)
qed simp

lemma parse_block_good:
  assumes "pgood ps n" and "eof_ended ts" and "length ts \<le> Suc n" and "length ts \<le> NOC_MAX_NODES"
  shows "pres (length ts) (parse_block ps ts a)"
proof -
  have "pres (length ts') (block_loop ps (Suc (length ts')) [] ts' a')"
    if "eof_ended ts'" "length ts' < length ts" for ts' a'
    using that assms by (intro block_loop_good [OF assms(1)]) auto
  then show ?thesis
    using assms(2) unfolding parse_block_def
    by (auto simp del: block_loop.simps intro!: parse_rules pres_bind)
qed

lemma tl_tok:
  assumes "eof_ended (t # ts)" and "tok_t t \<noteq> T_EOF"
  obtains t' ts' where "ts = t' # ts'" and "eof_ended ts"
  using eof_ended_tl [OF assms] eof_ended_nonempty by (cases ts) blast+

lemma is_type_tok_not_eof: "is_type_tok ty \<Longrightarrow> ty \<noteq> T_EOF"
  by (auto simp: is_type_tok_def)

lemma parse_default_good: "eof_ended ts \<Longrightarrow> pres (Suc (length ts)) (parse_default ts a)"
  unfolding parse_default_def
  by (intro parse_rules) (auto simp: cur_def intro!: parse_rules dest: eof_ended_tl split: list.splits dest: eof_ended_nonempty)

lemma params_loop_good:
  assumes "eof_ended ts" and "length ts < k"
  shows "pres (length ts) (params_loop k acc ts a)"
  using assms
proof (induction k arbitrary: acc ts a)
  case (Suc k)
  obtain t us where t: "ts = t # us" using Suc.prems(1) by (cases ts) (auto dest: eof_ended_nonempty)
  show ?case
  proof (cases "is_type_tok (tok_t t)")
    case True
    then obtain t2 vs where u: "us = t2 # vs" "eof_ended us"
      using tl_tok Suc.prems t is_type_tok_not_eof by metis
    show ?thesis
    proof (cases "tok_t t2 = T_IDENT")
      case True
      then have vs: "eof_ended vs" using u eof_ended_tl [of t2 vs] by simp
      have rec: "pres (Suc (Suc (length vs))) (params_loop k acc' ts' a')"
        if "eof_ended ts'" "length ts' \<le> Suc (length vs)" for acc' ts' a'
        using that Suc.prems t u by (intro pres_mono [OF Suc.IH]) auto
      show ?thesis
        using Suc.prems t u vs
        by (auto simp: cur_def Let_def intro!: parse_rules pres_bind [OF parse_default_good] rec split: option.splits)
    qed (simp add: t u cur_def)
  qed (simp add: t cur_def)
qed simp

lemma parse_params_good: "eof_ended ts \<Longrightarrow> pres (length ts) (parse_params ts a)"
  unfolding parse_params_def
  by (auto simp del: params_loop.simps intro!: parse_rules pres_mono [OF params_loop_good])

lemma parse_decl_good:
  assumes "pgood ps n" and "eof_ended (t # us)" and "tok_t t \<noteq> T_EOF" and "length us \<le> n" and "length us < NOC_MAX_NODES"
  shows "pres (Suc (length us)) (parse_decl ps (t # us) a)"
proof -
  obtain t2 vs where u: "us = t2 # vs" "eof_ended us" using tl_tok [OF assms(2,3)] by metis
  show ?thesis
  proof (cases "tok_t t2 = T_IDENT")
    case True
    then have vs: "eof_ended vs" using u eof_ended_tl [of t2 vs] by simp
    have block: "pres (Suc (Suc (length vs))) (bind_res (parse_block ps ts' a') (\<lambda>(b, ts, a). Ok (f b, ts, a)))"
      if "eof_ended ts'" "length ts' < length vs" for ts' a' and f :: "ast \<Rightarrow> ast"
      using that assms u
      by (intro pres_bind [OF parse_block_good [OF assms(1)]]) (auto intro!: parse_rules)
    show ?thesis
      using u vs True unfolding parse_decl_def
      by (auto simp: cur_def [of "_ # _"] intro!: parse_rules pres_bind [OF parse_params_good]
          pres_bind [OF opt_init_good] block)
  qed (simp add: u parse_decl_def cur_def)
qed

lemma for_init_good:
  assumes "eof_ended ts"
  shows "pres (length ts) (for_init ts a)"
proof -
  obtain t us where t: "ts = t # us" using assms by (cases ts) (auto dest: eof_ended_nonempty)
  have semi: "eof_ended us" if "tok_t t = T_SEMI" using assms t eof_ended_tl that by simp
  show ?thesis
  proof (cases "is_type_tok (tok_t t)")
    case True
    then have "tok_t t \<noteq> T_EOF" "tok_t t \<noteq> T_SEMI" by (auto simp: is_type_tok_def)
    then obtain t2 vs where u: "us = t2 # vs" "eof_ended us" using tl_tok [of t us] assms t by metis
    then have "eof_ended vs" if "tok_t t2 = T_IDENT" using eof_ended_tl [of t2 vs] that by simp
    then show ?thesis
      using True \<open>tok_t t \<noteq> T_SEMI\<close> t u unfolding for_init_def
      by (auto simp: cur_def [of "_ # _"] intro!: parse_rules pres_bind [OF opt_init_good])
  next
    case False
    then show ?thesis
      using assms semi t unfolding for_init_def
      by (auto simp: cur_def [of "_ # _"] intro!: parse_rules parse_expr_bind)
  qed
qed

text \<open>The statement parsers that recurse: each calls \<open>ps\<close> on a strictly shorter array.\<close>

lemma ps_bind:
  assumes "pgood ps n" and "eof_ended ts" and "length ts \<le> n" and "length ts \<le> m"
    and "\<And>x ts' a. eof_ended ts' \<Longrightarrow> length ts' < length ts \<Longrightarrow> pres m (k (x, ts', a))"
  shows "pres m (bind_res (ps ts a) k)"
  using pgood_bind [OF assms(1,2,3)] assms(5) by blast

lemma parse_if_good:
  assumes "pgood ps n" and "eof_ended us" and "length us \<le> n"
  shows "pres (Suc (length us)) (parse_if ps (t # us) a)"
  unfolding parse_if_def using assms
  by (auto intro!: parse_rules parse_expr_bind ps_bind [OF assms(1)])

lemma parse_while_good:
  assumes "pgood ps n" and "eof_ended us" and "length us \<le> n"
  shows "pres (Suc (length us)) (parse_while ps (t # us) a)"
  unfolding parse_while_def using assms
  by (auto intro!: parse_rules parse_expr_bind ps_bind [OF assms(1)])

lemma parse_for_good:
  assumes "pgood ps n" and "eof_ended us" and "length us \<le> n"
  shows "pres (Suc (length us)) (parse_for ps (t # us) a)"
  unfolding parse_for_def using assms
  by (auto intro!: parse_rules pres_bind [OF for_init_good] pres_bind [OF opt_expr_good] ps_bind [OF assms(1)])

lemma parse_return_good: "eof_ended us \<Longrightarrow> pres (Suc (length us)) (parse_return (t # us) a)"
  unfolding parse_return_def by (auto intro!: parse_rules pres_bind [OF opt_expr_good])

lemma parse_exprstmt_good: "eof_ended ts \<Longrightarrow> pres (length ts) (parse_exprstmt ts a)"
  unfolding parse_exprstmt_def by (auto intro!: parse_rules parse_expr_bind)

lemma parse_stmt_n_good: "n < NOC_MAX_NODES \<Longrightarrow> pgood (parse_stmt_n (Suc n)) n"
proof (induction n)
  case 0
  have "eof_ended ts \<Longrightarrow> 0 < length ts" for ts by (auto dest: eof_ended_nonempty)
  then show ?case by (auto simp: pgood_def)
next
  case (Suc n)
  have IH: "pgood (parse_stmt_n (Suc n)) n" by (rule Suc.IH) (use Suc.prems in simp)
  show ?case
    unfolding pgood_def
  proof (intro allI impI)
    fix ts a
    assume ts: "eof_ended ts" "length ts \<le> Suc n"
    then obtain t us where t: "ts = t # us" by (cases ts) (auto dest: eof_ended_nonempty)
    show "pres (length ts) (parse_stmt_n (Suc (Suc n)) ts a)"
    proof (cases "tok_t t = T_EOF")
      case True
      then show ?thesis by (simp add: t cur_def is_type_tok_def)
    next
      case False
      then have us: "eof_ended us" using ts t eof_ended_tl by blast
      show ?thesis
        using ts t us False Suc.prems
          parse_decl_good [OF IH, of t us a] parse_block_good [OF IH ts(1), of a] parse_if_good [OF IH us, of t a]
          parse_while_good [OF IH us, of t a] parse_for_good [OF IH us, of t a] parse_return_good [OF us, of t a]
          parse_exprstmt_good [OF ts(1), of a]
        unfolding parse_stmt_n.simps(2) [of "Suc n"] by (simp add: cur_def del: parse_stmt_n.simps)
    qed
  qed
qed

lemma parse_stmt_good:
  assumes "eof_ended ts" and "length ts < NOC_MAX_NODES"
  shows "pres (length ts) (parse_stmt ts a)"
  using parse_stmt_n_good [OF assms(2)] assms(1) by (simp add: pgood_def parse_stmt_def)

lemma parse_line_good:
  assumes "eof_ended ts" and "length ts < NOC_MAX_NODES" and "length ts < k"
  shows "pres (Suc (length ts)) (parse_line k acc ts a)"
  using assms
proof (induction k arbitrary: acc ts a)
  case (Suc k)
  have rec: "pres (Suc (length ts)) (parse_line k acc' ts' a')"
    if "eof_ended ts'" "length ts' < length ts" for acc' ts' a'
    using that Suc.prems by (intro pres_mono [OF Suc.IH]) auto
  show ?case using Suc.prems by (auto intro!: parse_rules pres_bind [OF parse_stmt_good] rec)
qed simp


text \<open>The tokens of \<open>x = x * 2 + 1\<close> with the end of input for the semicolon.\<close>

definition demo_toks :: "tok list" where
  "demo_toks = [\<lparr>tok_t = T_IDENT, tok_num = 0, tok_s = Some ''x''\<rparr>, \<lparr>tok_t = T_EQ, tok_num = 0, tok_s = None\<rparr>,
     \<lparr>tok_t = T_IDENT, tok_num = 0, tok_s = Some ''x''\<rparr>, \<lparr>tok_t = T_STAR, tok_num = 0, tok_s = None\<rparr>,
     \<lparr>tok_t = T_NUM, tok_num = 2, tok_s = None\<rparr>, \<lparr>tok_t = T_PLUS, tok_num = 0, tok_s = None\<rparr>,
     \<lparr>tok_t = T_NUM, tok_num = 1, tok_s = None\<rparr>, \<lparr>tok_t = T_EOF, tok_num = 0, tok_s = None\<rparr>]"

end
