(* ===== verification/Vm.thy ===== *)
theory Vm
  imports Noc
begin

unbundle bit_operations_syntax

text \<open>
  The NOC stack machine, \<^verbatim>\<open>kernel/noc/vm.c\<close>: the value stack, the call frames, the
  instruction interpreter \<^verbatim>\<open>run_loop\<close> and \<^verbatim>\<open>noc_vm_run\<close>. Code is a byte list, and
  every read of an operand past its end is the outcome \<open>OutOfBounds ''code''\<close>; every
  access to the value stack is checked the same way (\<open>OutOfBounds ''vstack''\<close>), so that
  the safety theorems say something the source does not check itself.

  The machine reaches its environment through \<open>vm_env\<close>: the keyboard (which can
  interrupt a run) and the table of builtins, which may also change the registry (a
  builtin can run a script that defines functions). Frames are kept innermost first.
\<close>

definition NOC_STACK_SIZE :: nat where "NOC_STACK_SIZE = 4096"
definition NOC_MAX_FRAMES :: nat where "NOC_MAX_FRAMES = 256"

record frame =
  fr_fn :: noc_fn
  fr_code :: "u8 list"
  fr_pc :: nat
  fr_vbase :: nat
  fr_nlocals :: nat

record 'w vm_env =
  kbd_peek :: "'w \<Rightarrow> int"
  kbd_poll :: "'w \<Rightarrow> 'w"
  call_builtin :: "nat \<Rightarrow> u64 list \<Rightarrow> registry \<Rightarrow> 'w \<Rightarrow> bool \<times> u64 \<times> registry \<times> 'w"

record 'w vm =
  vstack :: "nat \<Rightarrow> u64"
  sp :: nat
  frames :: "frame list"
  vm_err :: string
  has_result :: bool
  result :: u64
  iters :: u64
  funcs :: registry
  world :: 'w

text \<open>
  One turn of the loop either goes on, halts (the loop returns true), stops with the
  runtime error in \<open>vm_err\<close> (it returns false), or leaves defined behaviour.
\<close>

datatype 'w outcome = Next "'w vm" | Halt "'w vm" | Stop "'w vm" | Fault crash

definition vmerr :: "string \<Rightarrow> 'w vm \<Rightarrow> 'w vm" where
  "vmerr msg s = s\<lparr>vm_err := msg\<rparr>"

definition push :: "u64 \<Rightarrow> 'w vm \<Rightarrow> 'w outcome" where
  "push v s =
     (if sp s \<ge> NOC_STACK_SIZE then Stop (vmerr ''stack overflow'' s)
      else Next (s\<lparr>vstack := (vstack s)(sp s := v), sp := sp s + 1\<rparr>))"

text \<open>\<open>pop\<close> hands the popped value and the new state to the rest of the instruction.\<close>

definition pop :: "'w vm \<Rightarrow> (u64 \<Rightarrow> 'w vm \<Rightarrow> 'w outcome) \<Rightarrow> 'w outcome" where
  "pop s k =
     (if sp s = 0 then Stop (vmerr ''stack underflow'' s)
      else if sp s - 1 \<ge> NOC_STACK_SIZE then Fault (OutOfBounds ''vstack'')
      else k (vstack s (sp s - 1)) (s\<lparr>sp := sp s - 1\<rparr>))"

definition stack_get :: "nat \<Rightarrow> 'w vm \<Rightarrow> (u64 \<Rightarrow> 'w outcome) \<Rightarrow> 'w outcome" where
  "stack_get i s k =
     (if i \<ge> NOC_STACK_SIZE then Fault (OutOfBounds ''vstack'') else k (vstack s i))"

definition stack_set :: "nat \<Rightarrow> u64 \<Rightarrow> 'w vm \<Rightarrow> 'w outcome" where
  "stack_set i v s =
     (if i \<ge> NOC_STACK_SIZE then Fault (OutOfBounds ''vstack'')
      else Next (s\<lparr>vstack := (vstack s)(i := v)\<rparr>))"

text \<open>Operands: \<^verbatim>\<open>memcpy\<close> out of the code at the program counter.\<close>

definition fetch8 :: "u8 list \<Rightarrow> nat \<Rightarrow> (u64 \<Rightarrow> 'w outcome) \<Rightarrow> 'w outcome" where
  "fetch8 code pc k =
     (if pc + 8 \<le> length code then k (of_le (take 8 (drop pc code)))
      else Fault (OutOfBounds ''code''))"

definition fetch4 :: "u8 list \<Rightarrow> nat \<Rightarrow> (u32 \<Rightarrow> 'w outcome) \<Rightarrow> 'w outcome" where
  "fetch4 code pc k =
     (if pc + 4 \<le> length code then k (of_le (take 4 (drop pc code)))
      else Fault (OutOfBounds ''code''))"

definition set_pc :: "nat \<Rightarrow> 'w vm \<Rightarrow> 'w vm" where
  "set_pc pc s =
     (case frames s of
        [] \<Rightarrow> s
      | f # fs \<Rightarrow> s\<lparr>frames := f\<lparr>fr_pc := pc\<rparr> # fs\<rparr>)"

definition bool_word :: "bool \<Rightarrow> u64" where
  "bool_word b = (if b then 1 else 0)"

text \<open>
  The two-operand instructions. Division truncates towards zero on the signed views; the
  one quotient that does not fit (the least integer by \<open>-1\<close>) raises the divide trap.
\<close>

fun alu :: "opcode \<Rightarrow> u64 \<Rightarrow> u64 \<Rightarrow> u64 res" where
  "alu OP_ADD a b = Ok (a + b)"
| "alu OP_SUB a b = Ok (a - b)"
| "alu OP_MUL a b = Ok (a * b)"
| "alu OP_DIV a b =
     (if b = 0 then Err ''division by zero''
      else if a = 0x8000000000000000 \<and> b = -1 then Crash DivideTrap
      else Ok (word_of_int (sint a sdiv sint b)))"
| "alu OP_MOD a b =
     (if b = 0 then Err ''division by zero''
      else if a = 0x8000000000000000 \<and> b = -1 then Crash DivideTrap
      else Ok (word_of_int (sint a smod sint b)))"
| "alu OP_EQ a b = Ok (bool_word (a = b))"
| "alu OP_NE a b = Ok (bool_word (a \<noteq> b))"
| "alu OP_LT a b = Ok (bool_word (sint a < sint b))"
| "alu OP_LE a b = Ok (bool_word (sint a \<le> sint b))"
| "alu OP_GT a b = Ok (bool_word (sint a > sint b))"
| "alu OP_GE a b = Ok (bool_word (sint a \<ge> sint b))"
| "alu OP_BAND a b = Ok (a AND b)"
| "alu OP_BOR a b = Ok (a OR b)"
| "alu OP_BXOR a b = Ok (a XOR b)"
| "alu OP_SHL a b = Ok (push_bit (unat (b AND 63)) a)"
| "alu _ a b = Ok (drop_bit (unat (b AND 63)) a)"

definition do_alu :: "opcode \<Rightarrow> 'w vm \<Rightarrow> 'w outcome" where
  "do_alu opc s =
     pop s (\<lambda>b s. pop s (\<lambda>a s.
       (case alu opc a b of
          Ok r \<Rightarrow> push r s
        | Err e \<Rightarrow> Stop (vmerr e s)
        | Crash c \<Rightarrow> Fault c)))"

text \<open>Entering a function: the body of \<^verbatim>\<open>OP_CALL\<close> after the callee is known.\<close>

definition enter_fn :: "noc_fn \<Rightarrow> nat \<Rightarrow> 'w vm \<Rightarrow> 'w outcome" where
  "enter_fn callee count s =
     (let vbase = sp s - count
      in if length (frames s) \<ge> NOC_MAX_FRAMES then Stop (vmerr ''call nesting too deep'' s)
         else if fn_nlocals callee < count then Stop (vmerr ''bad callee frame'' s)
         else if vbase + fn_nlocals callee > NOC_STACK_SIZE then Stop (vmerr ''stack overflow on call'' s)
         else Next (s\<lparr>sp := vbase + fn_nlocals callee,
                vstack := (\<lambda>i. if vbase + count \<le> i \<and> i < vbase + fn_nlocals callee then 0 else vstack s i),
                frames := \<lparr>fr_fn = callee, fr_code = fn_code callee, fr_pc = 0,
                             fr_vbase = vbase, fr_nlocals = fn_nlocals callee\<rparr> # frames s\<rparr>))"

definition do_call :: "'w vm_env \<Rightarrow> noc_fn \<Rightarrow> u32 \<Rightarrow> nat \<Rightarrow> 'w vm \<Rightarrow> 'w outcome" where
  "do_call env fn si count s =
     (if unat si \<ge> length (fn_strings fn) then Stop (vmerr ''bad function index'' s)
      else case noc_lookup (funcs s) (snd (fn_strings fn ! unat si)) of
          None \<Rightarrow> Stop (vmerr ''unknown function at runtime'' s)
        | Some callee \<Rightarrow>
            if sp s < count then Stop (vmerr ''call with too few arguments on stack'' s)
            else if fn_builtin callee \<ge> 0 then
              (let args = map (\<lambda>k. vstack s (sp s - count + k)) [0..<count];
                   (ok, ret, fs, w) = call_builtin env (nat (fn_builtin callee)) args (funcs s) (world s);
                   s' = s\<lparr>funcs := fs, world := w\<rparr>
               in if \<not> ok then Stop (vmerr ''builtin call failed'' s')
                  else push ret (s'\<lparr>sp := sp s - count\<rparr>))
            else enter_fn callee count s)"

definition do_ret :: "'w vm \<Rightarrow> 'w outcome" where
  "do_ret s =
     (if length (frames s) = 1 then Stop (vmerr ''return at top level'' s)
      else pop s (\<lambda>val s.
        (case frames s of
           [] \<Rightarrow> Fault (OutOfBounds ''frames'')
         | cf # fs \<Rightarrow> push val (s\<lparr>sp := fr_vbase cf, frames := fs\<rparr>))))"

text \<open>
  One instruction. \<open>f\<close> is the innermost frame as it was before the opcode byte was
  read and \<open>pc\<close> the counter just after that byte.
\<close>

fun exec_op :: "'w vm_env \<Rightarrow> frame \<Rightarrow> nat \<Rightarrow> opcode \<Rightarrow> 'w vm \<Rightarrow> 'w outcome" where
  "exec_op env f pc OP_PUSH s = fetch8 (fr_code f) pc (\<lambda>v. push v (set_pc (pc + 8) s))"
| "exec_op env f pc OP_PUSHSTR s =
     fetch4 (fr_code f) pc (\<lambda>si.
       let s = set_pc (pc + 4) s
       in if unat si \<ge> length (fn_strings (fr_fn f)) then Stop (vmerr ''bad string index'' s)
          else push (fst (fn_strings (fr_fn f) ! unat si)) s)"
| "exec_op env f pc OP_DUP s =
     (if sp s = 0 then Stop (vmerr ''stack underflow'' s)
      else stack_get (sp s - 1) s (\<lambda>v. push v s))"
| "exec_op env f pc OP_POP s =
     (if sp s = 0 then Stop (vmerr ''stack underflow'' s) else Next (s\<lparr>sp := sp s - 1\<rparr>))"
| "exec_op env f pc OP_LOAD s =
     fetch4 (fr_code f) pc (\<lambda>slot.
       let s = set_pc (pc + 4) s
       in if unat slot \<ge> fr_nlocals f then Stop (vmerr ''bad local slot'' s)
          else stack_get (fr_vbase f + unat slot) s (\<lambda>v. push v s))"
| "exec_op env f pc OP_STORE s =
     fetch4 (fr_code f) pc (\<lambda>slot.
       pop (set_pc (pc + 4) s) (\<lambda>val s.
         if unat slot \<ge> fr_nlocals f then Stop (vmerr ''bad local slot'' s)
         else stack_set (fr_vbase f + unat slot) val s))"
| "exec_op env f pc OP_CALL s =
     fetch4 (fr_code f) pc (\<lambda>si. fetch4 (fr_code f) (pc + 4) (\<lambda>count.
       do_call env (fr_fn f) si (unat count) (set_pc (pc + 8) s)))"
| "exec_op env f pc OP_RET s = do_ret s"
| "exec_op env f pc OP_JMP s = fetch4 (fr_code f) pc (\<lambda>t. Next (set_pc (unat t) s))"
| "exec_op env f pc OP_JMPF s =
     fetch4 (fr_code f) pc (\<lambda>t.
       pop (set_pc (pc + 4) s) (\<lambda>v s. Next (if v = 0 then set_pc (unat t) s else s)))"
| "exec_op env f pc OP_JMPT s =
     fetch4 (fr_code f) pc (\<lambda>t.
       pop (set_pc (pc + 4) s) (\<lambda>v s. Next (if v \<noteq> 0 then set_pc (unat t) s else s)))"
| "exec_op env f pc OP_HALT s = Halt s"
| "exec_op env f pc OP_NOT s = pop s (\<lambda>a s. push (bool_word (a = 0)) s)"
| "exec_op env f pc OP_NEG s = pop s (\<lambda>a s. push (- a) s)"
| "exec_op env f pc OP_BNOT s = pop s (\<lambda>a s. push (NOT a) s)"
| "exec_op env f pc opc s = do_alu opc s"

text \<open>The instruction fetch: a turn of the loop after the keyboard check.\<close>

definition vm_instr :: "'w vm_env \<Rightarrow> 'w vm \<Rightarrow> 'w outcome" where
  "vm_instr env s =
     (case frames s of
        [] \<Rightarrow> Stop (vmerr ''no active frame'' s)
      | f # fs \<Rightarrow>
          if fr_pc f \<ge> length (fr_code f) then Stop (vmerr ''program counter ran off end of code'' s)
          else (case byte_op (fr_code f ! fr_pc f) of
                  None \<Rightarrow> Stop (vmerr ''unknown opcode'' (set_pc (fr_pc f + 1) s))
                | Some opc \<Rightarrow> exec_op env f (fr_pc f + 1) opc (set_pc (fr_pc f + 1) s)))"

text \<open>Every 256th turn looks at the keyboard: Esc or Ctrl+C ends the run.\<close>

definition vm_step :: "'w vm_env \<Rightarrow> 'w vm \<Rightarrow> 'w outcome" where
  "vm_step env s =
     (case frames s of
        [] \<Rightarrow> Stop (vmerr ''no active frame'' s)
      | _ \<Rightarrow>
          (let s' = s\<lparr>iters := iters s + 1\<rparr>; c = kbd_peek env (world s)
           in if iters s AND 0xFF = 0 \<and> (c = 0x1B \<or> c = 0x03)
              then Stop (vmerr ''interrupted'' (s'\<lparr>world := kbd_poll env (world s)\<rparr>))
              else vm_instr env s'))"

text \<open>The loop may run for ever, so it is given fuel: \<open>None\<close> is "still running".\<close>

fun run_loop :: "'w vm_env \<Rightarrow> nat \<Rightarrow> 'w vm \<Rightarrow> 'w outcome option" where
  "run_loop env 0 s = None"
| "run_loop env (Suc n) s =
     (case vm_step env s of
        Next s' \<Rightarrow> run_loop env n s'
      | r \<Rightarrow> Some r)"

definition vm_start :: "noc_fn \<Rightarrow> 'w vm \<Rightarrow> 'w vm" where
  "vm_start f s =
     s\<lparr>vm_err := [], has_result := False, result := 0, iters := 0,
       sp := fn_nlocals f,
       vstack := (\<lambda>i. if i < fn_nlocals f then 0 else vstack s i),
       frames := [\<lparr>fr_fn = f, fr_code = fn_code f, fr_pc = 0, fr_vbase = 0, fr_nlocals = fn_nlocals f\<rparr>]\<rparr>"

definition noc_vm_run :: "'w vm_env \<Rightarrow> nat \<Rightarrow> noc_fn \<Rightarrow> 'w vm \<Rightarrow> 'w outcome option" where
  "noc_vm_run env fuel f s =
     (let s0 = s\<lparr>vm_err := [], has_result := False, result := 0, sp := 0, frames := []\<rparr>
      in if fn_code_ptr f = 0 then Some (Stop (vmerr ''empty program'' s0))
         else if fn_nlocals f > NOC_STACK_SIZE then Some (Stop (vmerr ''too many locals'' s0))
         else (case run_loop env fuel (vm_start f s) of
                 Some (Halt t) \<Rightarrow>
                   if fn_last_expr f then
                     (if fn_nlocals f \<ge> NOC_STACK_SIZE then Some (Fault (OutOfBounds ''vstack''))
                      else Some (Halt (t\<lparr>has_result := True, result := vstack t (fn_nlocals f)\<rparr>)))
                   else Some (Halt t)
               | r \<Rightarrow> r))"

definition noc_vm_take_result :: "'w vm \<Rightarrow> u64 option" where
  "noc_vm_take_result s = (if has_result s then Some (result s) else None)"

section \<open>Stack and frame safety\<close>

text \<open>
  The invariant of the machine: the stack pointer and the number of frames stay within
  the two arrays, and the locals of every frame lie inside the value stack. It does not
  mention the code, so it holds for arbitrary bytes in a code buffer.
\<close>

definition vm_inv :: "'w vm \<Rightarrow> bool" where
  "vm_inv s \<longleftrightarrow> sp s \<le> NOC_STACK_SIZE \<and> length (frames s) \<le> NOC_MAX_FRAMES
     \<and> (\<forall>f\<in>set (frames s). fr_vbase f + fr_nlocals f \<le> NOC_STACK_SIZE)"

fun out_ok :: "('w vm \<Rightarrow> bool) \<Rightarrow> crash set \<Rightarrow> 'w outcome \<Rightarrow> bool" where
  "out_ok P cs (Next s) = P s"
| "out_ok P cs (Halt s) = P s"
| "out_ok P cs (Stop s) = P s"
| "out_ok P cs (Fault c) = (c \<in> cs)"

lemma vmerr_fields [simp]:
  "vstack (vmerr m s) = vstack s" "sp (vmerr m s) = sp s" "frames (vmerr m s) = frames s"
  "vm_err (vmerr m s) = m" "funcs (vmerr m s) = funcs s" "world (vmerr m s) = world s"
  by (simp_all add: vmerr_def)

lemma vm_inv_vmerr [simp]: "vm_inv (vmerr m s) = vm_inv s"
  by (simp add: vm_inv_def vmerr_def)

lemma frames_set_pc: "frames (set_pc pc s) = (case frames s of [] \<Rightarrow> [] | f # fs \<Rightarrow> f\<lparr>fr_pc := pc\<rparr> # fs)"
  by (auto simp: set_pc_def split: list.splits)

lemma set_pc_fields [simp]:
  "vstack (set_pc pc s) = vstack s" "sp (set_pc pc s) = sp s" "vm_err (set_pc pc s) = vm_err s"
  "iters (set_pc pc s) = iters s" "funcs (set_pc pc s) = funcs s" "world (set_pc pc s) = world s"
  "has_result (set_pc pc s) = has_result s" "result (set_pc pc s) = result s"
  by (auto simp: set_pc_def split: list.splits)

lemma vm_inv_set_pc [simp]: "vm_inv (set_pc pc s) = vm_inv s"
  by (auto simp: vm_inv_def frames_set_pc split: list.splits)

lemma push_ok [noos_inv]: "vm_inv s \<Longrightarrow> out_ok vm_inv cs (push v s)"
  by (auto simp: push_def vm_inv_def vmerr_def)

lemma pop_ok:
  assumes "vm_inv s"
    and "\<And>v t. vm_inv t \<Longrightarrow> frames t = frames s \<Longrightarrow> out_ok vm_inv cs (k v t)"
  shows "out_ok vm_inv cs (pop s k)"
  using assms by (auto simp: pop_def vm_inv_def)

lemma fetch8_ok:
  "OutOfBounds ''code'' \<in> cs \<Longrightarrow> (\<And>v. out_ok vm_inv cs (k v)) \<Longrightarrow> out_ok vm_inv cs (fetch8 code pc k)"
  by (simp add: fetch8_def)

lemma fetch4_ok:
  "OutOfBounds ''code'' \<in> cs \<Longrightarrow> (\<And>v. out_ok vm_inv cs (k v)) \<Longrightarrow> out_ok vm_inv cs (fetch4 code pc k)"
  by (simp add: fetch4_def)

lemma stack_get_ok:
  "i < NOC_STACK_SIZE \<Longrightarrow> (\<And>v. out_ok vm_inv cs (k v)) \<Longrightarrow> out_ok vm_inv cs (stack_get i s k)"
  by (simp add: stack_get_def)

lemma stack_set_ok: "i < NOC_STACK_SIZE \<Longrightarrow> vm_inv s \<Longrightarrow> out_ok vm_inv cs (stack_set i v s)"
  by (simp add: stack_set_def vm_inv_def)

lemma alu_crash: "alu opc a b = Crash c \<Longrightarrow> c = DivideTrap"
  by (cases opc) (auto split: if_splits)

lemma do_alu_ok: "vm_inv s \<Longrightarrow> DivideTrap \<in> cs \<Longrightarrow> out_ok vm_inv cs (do_alu opc s)"
  unfolding do_alu_def
  by (intro pop_ok; simp?) (auto split: res.splits intro: push_ok dest: alu_crash)

lemma enter_fn_ok: "vm_inv s \<Longrightarrow> out_ok vm_inv cs (enter_fn callee count s)"
  by (auto simp: enter_fn_def Let_def vm_inv_def vmerr_def)

lemma do_call_ok: "vm_inv s \<Longrightarrow> out_ok vm_inv cs (do_call env fn si count s)"
proof -
  assume s: "vm_inv s"
  then have "vm_inv (s\<lparr>funcs := fs, world := w, sp := sp s - count\<rparr>)" for fs w
    by (auto simp: vm_inv_def)
  moreover from s have "vm_inv (s\<lparr>funcs := fs, world := w\<rparr>)" for fs w
    by (simp add: vm_inv_def)
  ultimately show ?thesis
    using s by (auto simp: do_call_def Let_def split: option.splits prod.splits
      intro: push_ok enter_fn_ok)
qed

lemma do_ret_ok:
  assumes "vm_inv s" and "frames s \<noteq> []"
  shows "out_ok vm_inv cs (do_ret s)"
proof -
  obtain f fs where f: "frames s = f # fs" using assms by (cases "frames s") auto
  have "out_ok vm_inv cs (push v (t\<lparr>sp := fr_vbase f, frames := fs\<rparr>))"
    if "vm_inv t" "frames t = frames s" for v and t :: "'a vm"
    using that f by (intro push_ok) (auto simp: vm_inv_def)
  then show ?thesis
    using assms f unfolding do_ret_def by (auto intro!: pop_ok)
qed

lemma exec_op_ok:
  assumes "vm_inv s" and "frames s = f' # fs" and "fr_vbase f + fr_nlocals f \<le> NOC_STACK_SIZE"
    and "DivideTrap \<in> cs" and "OutOfBounds ''code'' \<in> cs"
  shows "out_ok vm_inv cs (exec_op env f pc opc s)"
proof (cases opc)
  case OP_DUP
  then show ?thesis using assms by (auto simp: vm_inv_def intro!: stack_get_ok push_ok)
next
  case OP_POP
  then show ?thesis using assms by (auto simp: vm_inv_def)
next
  case OP_RET
  then show ?thesis using assms by (simp add: do_ret_ok)
qed (use assms in \<open>auto simp: Let_def intro!: fetch8_ok fetch4_ok pop_ok push_ok do_alu_ok do_call_ok
       stack_get_ok stack_set_ok\<close>)

lemma vm_instr_ok:
  assumes "vm_inv s"
  shows "out_ok vm_inv {DivideTrap, OutOfBounds ''code''} (vm_instr env s)"
proof (cases "frames s")
  case (Cons f fs)
  have "out_ok vm_inv {DivideTrap, OutOfBounds ''code''}
          (exec_op env f (fr_pc f + 1) opc (set_pc (fr_pc f + 1) s))" for opc
    by (rule exec_op_ok [where f' = "f\<lparr>fr_pc := fr_pc f + 1\<rparr>" and fs = fs])
       (use assms Cons in \<open>auto simp: frames_set_pc vm_inv_def\<close>)
  then show ?thesis using assms Cons by (auto simp: vm_instr_def split: option.splits)
qed (use assms in \<open>simp add: vm_instr_def\<close>)

lemma vm_step_ok [noos_inv]:
  assumes "vm_inv s"
  shows "out_ok vm_inv {DivideTrap, OutOfBounds ''code''} (vm_step env s)"
proof -
  have "vm_inv (s\<lparr>iters := i\<rparr>)" "vm_inv (s\<lparr>iters := i, world := w\<rparr>)" for i w
    using assms by (simp_all add: vm_inv_def)
  then show ?thesis
    using assms by (auto simp: vm_step_def Let_def split: list.splits intro!: vm_instr_ok)
qed

lemma run_loop_ok:
  assumes "vm_inv s" and "run_loop env n s = Some r"
  shows "out_ok vm_inv {DivideTrap, OutOfBounds ''code''} r"
  using assms
proof (induction n arbitrary: s)
  case (Suc n)
  then show ?case using vm_step_ok [OF Suc.prems(1), of env]
    by (cases "vm_step env s") auto
qed simp

lemma vm_inv_start: "fn_nlocals f \<le> NOC_STACK_SIZE \<Longrightarrow> vm_inv (vm_start f s)"
  by (simp add: vm_inv_def vm_start_def NOC_MAX_FRAMES_def)

text \<open>C3 Whatever bytes a function's code buffer holds, whatever the registry, the builtins
  and the keyboard do, and however long the program runs, \<^verbatim>\<open>noc_vm_run\<close> never reads or
  writes outside the value stack or the frame array: each way it ends is a halt or a runtime
  error with the stack invariant intact, the divide trap, or a read past the code buffer.
  The one extra condition is that the locals leave room for the result slot.\<close>

theorem noc_vm_run_stack_safe:
  assumes "fn_nlocals f < NOC_STACK_SIZE" and "noc_vm_run env fuel f s = Some r"
  shows "out_ok vm_inv {DivideTrap, OutOfBounds ''code''} r"
proof -
  have inv: "vm_inv (t\<lparr>has_result := True, result := v\<rparr>)" if "vm_inv t" for t :: "'a vm" and v
    using that by (simp add: vm_inv_def)
  have empty: "vm_inv (s\<lparr>vm_err := [], has_result := False, result := 0, sp := 0, frames := []\<rparr>)"
    by (simp add: vm_inv_def)
  have "vm_inv (vm_start f s)" using assms by (simp add: vm_inv_start)
  note loop = run_loop_ok [OF this, of env fuel]
  show ?thesis
    using assms loop inv empty
    by (auto simp: noc_vm_run_def Let_def split: if_splits option.splits outcome.splits)
qed

text \<open>A machine to run examples on: no keyboard input, and builtins that return 0.\<close>

definition quiet_env :: "unit vm_env" where
  "quiet_env = \<lparr>kbd_peek = (\<lambda>_. -1), kbd_poll = (\<lambda>w. w), call_builtin = (\<lambda>i args fs w. (True, 0, fs, w))\<rparr>"

definition blank_vm :: "registry \<Rightarrow> unit vm" where
  "blank_vm fs = \<lparr>vstack = (\<lambda>_. 0), sp = 0, frames = [], vm_err = [], has_result = False, result = 0,
     iters = 0, funcs = fs, world = ()\<rparr>"

text \<open>Bytes that push 7, store it in slot 0 of one local, and then ask for slot 9.\<close>

definition stray_fn :: noc_fn where
  "stray_fn = empty_fn\<lparr>fn_code_ptr := 4096, fn_nlocals := 1, fn_builtin := -1,
     fn_code := [0, 7, 0, 0, 0, 0, 0, 0, 0, 5, 0, 0, 0, 0, 4, 9, 0, 0, 0]\<rparr>"

lemma stray_fn_run:
  "(case noc_vm_run quiet_env 3 stray_fn (blank_vm []) of
      Some (Stop t) \<Rightarrow> vm_err t = ''bad local slot'' \<and> vstack t 0 = 7
    | _ \<Rightarrow> False)"
  by code_simp

theorem noc_vm_run_stack_safe_witness:
  "\<exists>t. noc_vm_run quiet_env 3 stray_fn (blank_vm []) = Some (Stop t) \<and> vm_err t = ''bad local slot''
     \<and> vstack t 0 = 7 \<and> vm_inv t"
proof -
  obtain t where t: "noc_vm_run quiet_env 3 stray_fn (blank_vm []) = Some (Stop t)"
    "vm_err t = ''bad local slot''" "vstack t 0 = 7"
    using stray_fn_run by (auto split: option.splits outcome.splits)
  have "fn_nlocals stray_fn < NOC_STACK_SIZE" by (simp add: stray_fn_def NOC_STACK_SIZE_def)
  from noc_vm_run_stack_safe [OF this t(1)] show ?thesis using t by auto
qed

end
