(* ===== verification/Compiler.thy ===== *)
theory Compiler
  imports Noc
begin

unbundle bit_operations_syntax

text \<open>
  The single-pass compiler, \<^verbatim>\<open>kernel/noc/compiler.c\<close>. The compiler state \<open>ccomp\<close> holds
  the symbol table, the growing code buffer, the function being filled in, and the two
  things the source reaches globally: the function registry and the platform allocator's
  history. An action returns an outcome together with the state, because a failed line
  still keeps what it registered and still releases what it allocated.

  An error with an empty text stands for a failure that sets no message.
\<close>

record ccomp =
  c_syms :: "(string \<times> ntype) list"
  c_data :: u64
  c_cap :: nat
  c_code :: "u8 list"
  c_fn :: noc_fn
  c_arena :: arena
  c_in_fn :: bool
  c_funcs :: registry
  c_log :: os_log

type_synonym 'a comp = "ccomp \<Rightarrow> 'a res \<times> ccomp"

definition retc :: "'a \<Rightarrow> 'a comp" where
  "retc x c = (Ok x, c)"

definition bindc :: "'a comp \<Rightarrow> ('a \<Rightarrow> 'b comp) \<Rightarrow> 'b comp" where
  "bindc m k c =
     (case m c of
        (Ok x, c') \<Rightarrow> k x c'
      | (Err e, c') \<Rightarrow> (Err e, c')
      | (Crash r, c') \<Rightarrow> (Crash r, c'))"

definition thenc :: "'a comp \<Rightarrow> 'b comp \<Rightarrow> 'b comp" where
  "thenc m k = bindc m (\<lambda>_. k)"

definition readc :: "(ccomp \<Rightarrow> 'a) \<Rightarrow> 'a comp" where
  "readc f c = (Ok (f c), c)"

definition cerr :: "string \<Rightarrow> 'a comp" where
  "cerr msg c = (Err msg, c)"

text \<open>
  \<^verbatim>\<open>cerr_name\<close> formats into a 128-byte arena buffer, and keeps the raw format when the
  arena is full. Every format it is given quotes the name between two fixed texts.
\<close>

definition cerr_name :: "string \<Rightarrow> string \<Rightarrow> string \<Rightarrow> 'a comp" where
  "cerr_name pre post name c =
     (case noc_arena_alloc 128 (c_arena c) of
        Some a \<Rightarrow> (Err (take 127 (pre @ quoted name @ post)), c\<lparr>c_arena := a\<rparr>)
      | None \<Rightarrow> (Err (pre @ quoted ''%s'' @ post), c))"

section \<open>Emitting code\<close>

function grow_cap :: "nat \<Rightarrow> nat \<Rightarrow> nat" where
  "grow_cap ncap need = (if 0 < ncap \<and> ncap < need then grow_cap (ncap * 2) need else ncap)"
  by pat_completeness auto
termination
  by (relation "measure (\<lambda>(n, m). m - n)") auto

declare grow_cap.simps [simp del]

definition buf_ensure :: "allocator \<Rightarrow> nat \<Rightarrow> unit comp" where
  "buf_ensure os extra c =
     (let len = length (c_code c)
      in if len + extra \<le> c_cap c then (Ok (), c)
         else (let ncap = grow_cap (if c_cap c \<noteq> 0 then c_cap c * 2 else 1024) (len + extra);
                   (nd, log) = noc_os_alloc os (of_nat ncap) (c_log c)
               in if nd = 0 then (Err ''out of memory (code buffer)'', c\<lparr>c_log := log\<rparr>)
                  else (Ok (), c\<lparr>c_data := nd, c_cap := ncap, c_log := free_if (c_data c) log\<rparr>)))"

definition emit_bytes :: "u8 list \<Rightarrow> unit comp" where
  "emit_bytes bs c = (Ok (), c\<lparr>c_code := c_code c @ bs\<rparr>)"

definition emit1 :: "allocator \<Rightarrow> opcode \<Rightarrow> unit comp" where
  "emit1 os opc = thenc (buf_ensure os 1) (emit_bytes [op_byte opc])"

definition emit1v :: "allocator \<Rightarrow> opcode \<Rightarrow> u64 \<Rightarrow> unit comp" where
  "emit1v os opc v = thenc (buf_ensure os 9) (emit_bytes (op_byte opc # le_bytes 8 v))"

definition emit1u32 :: "allocator \<Rightarrow> opcode \<Rightarrow> u32 \<Rightarrow> unit comp" where
  "emit1u32 os opc v = thenc (buf_ensure os 5) (emit_bytes (op_byte opc # le_bytes 4 v))"

definition code_pc :: "ccomp \<Rightarrow> nat" where
  "code_pc c = length (c_code c)"

definition emit_jump :: "allocator \<Rightarrow> opcode \<Rightarrow> nat comp" where
  "emit_jump os opc =
     thenc (buf_ensure os 5)
       (bindc (readc code_pc) (\<lambda>at.
          thenc (emit_bytes (op_byte opc # le_bytes 4 (0 :: u32))) (retc at)))"

definition patch_bytes :: "nat \<Rightarrow> u8 list \<Rightarrow> u8 list \<Rightarrow> u8 list" where
  "patch_bytes at bs code = take at code @ bs @ drop (at + length bs) code"

definition patch_jump :: "nat \<Rightarrow> nat \<Rightarrow> unit comp" where
  "patch_jump at target c =
     (Ok (), c\<lparr>c_code := patch_bytes (at + 1) (le_bytes 4 (of_nat target :: u32)) (c_code c)\<rparr>)"

definition emit_jump_at :: "allocator \<Rightarrow> opcode \<Rightarrow> nat \<Rightarrow> unit comp" where
  "emit_jump_at os opc target = bindc (emit_jump os opc) (\<lambda>at. patch_jump at target)"

section \<open>Strings and variables\<close>

definition string_idx :: "(u64 \<times> string) list \<Rightarrow> string \<Rightarrow> nat option" where
  "string_idx ss s = first_in (\<lambda>i. snd (ss ! i) = s) 0 (length ss)"

definition add_string :: "allocator \<Rightarrow> string \<Rightarrow> nat comp" where
  "add_string os s c =
     (case string_idx (fn_strings (c_fn c)) s of
        Some i \<Rightarrow> (Ok i, c)
      | None \<Rightarrow>
          if length (fn_strings (c_fn c)) \<ge> NOC_MAX_STRINGS
          then (Err ''too many string constants'', c)
          else (let (p, log) = noc_os_alloc os (of_nat (length s) + 1) (c_log c)
                in if p = 0 then (Err ''out of memory (string constant)'', c\<lparr>c_log := log\<rparr>)
                   else (Ok (length (fn_strings (c_fn c))),
                         c\<lparr>c_log := log,
                           c_fn := (c_fn c)\<lparr>fn_strings := fn_strings (c_fn c) @ [(p, s)]\<rparr>\<rparr>)))"

definition resolve_var :: "(string \<times> ntype) list \<Rightarrow> string \<Rightarrow> nat option" where
  "resolve_var syms name = List.find (\<lambda>i. fst (syms ! i) = name) (rev [0..<length syms])"

definition add_var :: "string \<Rightarrow> ntype \<Rightarrow> nat comp" where
  "add_var name type =
     bindc (readc c_syms) (\<lambda>syms.
       if resolve_var syms name \<noteq> None then cerr_name ''variable '' '' already declared'' name
       else if length syms \<ge> NOC_MAX_LOCALS then cerr ''too many local variables''
       else (\<lambda>c. (Ok (length syms), c\<lparr>c_syms := syms @ [(name, type)]\<rparr>)))"

fun expr_type :: "(string \<times> ntype) list \<Rightarrow> registry \<Rightarrow> ast \<Rightarrow> ntype" where
  "expr_type syms fs (A_LIT v) = NTYPE_I64"
| "expr_type syms fs (A_STRLIT s) = NTYPE_STR"
| "expr_type syms fs (A_VAR name) =
     (case resolve_var syms name of Some i \<Rightarrow> snd (syms ! i) | None \<Rightarrow> NTYPE_I64)"
| "expr_type syms fs (A_CALL name args) =
     (case noc_lookup fs name of Some f \<Rightarrow> fn_ret_type f | None \<Rightarrow> NTYPE_I64)"
| "expr_type syms fs _ = NTYPE_I64"

section \<open>Expressions\<close>

text \<open>
  The helpers take the compilation of the subexpressions as actions, so that the
  recursion of \<open>compile_expr\<close> stays structural.
\<close>

definition need_var :: "string \<Rightarrow> u32 comp" where
  "need_var name =
     bindc (readc c_syms) (\<lambda>syms.
       (case resolve_var syms name of
          Some s \<Rightarrow> retc (of_nat s)
        | None \<Rightarrow> cerr_name ''undeclared variable '' [] name))"

fun push_defaults :: "allocator \<Rightarrow> noc_fn \<Rightarrow> nat list \<Rightarrow> unit comp" where
  "push_defaults os callee [] = retc ()"
| "push_defaults os callee (k # ks) =
     thenc (emit1v os OP_PUSH (fn_defaults callee k)) (push_defaults os callee ks)"

text \<open>How many values a call passes, or the text of the arity error.\<close>

definition call_count :: "noc_fn \<Rightarrow> nat \<Rightarrow> string + nat" where
  "call_count callee nargs =
     (if fn_variadic callee then
        (if nargs < fn_nargs callee then Inl ''too few arguments for '' else Inr nargs)
      else if nargs > fn_nargs callee then Inl ''too many arguments for ''
      else if \<exists>k\<in>set [nargs..<fn_nargs callee]. \<not> fn_has_def callee k then Inl ''too few arguments for ''
      else Inr (fn_nargs callee))"

definition compile_call :: "allocator \<Rightarrow> string \<Rightarrow> nat \<Rightarrow> unit comp \<Rightarrow> unit comp" where
  "compile_call os name nargs args =
     bindc (readc (\<lambda>c. noc_lookup (c_funcs c) name)) (\<lambda>found.
       (case found of
          None \<Rightarrow> cerr_name ''unknown function '' [] name
        | Some callee \<Rightarrow>
            (case call_count callee nargs of
               Inl e \<Rightarrow> cerr_name e [] name
             | Inr callcount \<Rightarrow>
                 thenc args
                   (thenc (push_defaults os callee [nargs..<callcount])
                     (bindc (add_string os name) (\<lambda>si.
                       thenc (buf_ensure os 9)
                         (emit_bytes (op_byte OP_CALL # le_bytes 4 (of_nat si :: u32)
                            @ le_bytes 4 (of_nat callcount :: u32)))))))))"

fun bin_op :: "binop \<Rightarrow> opcode option" where
  "bin_op BIN_ADD = Some OP_ADD" | "bin_op BIN_SUB = Some OP_SUB" | "bin_op BIN_MUL = Some OP_MUL"
| "bin_op BIN_DIV = Some OP_DIV" | "bin_op BIN_MOD = Some OP_MOD" | "bin_op BIN_EQ = Some OP_EQ"
| "bin_op BIN_NE = Some OP_NE" | "bin_op BIN_LT = Some OP_LT" | "bin_op BIN_LE = Some OP_LE"
| "bin_op BIN_GT = Some OP_GT" | "bin_op BIN_GE = Some OP_GE" | "bin_op BIN_BAND = Some OP_BAND"
| "bin_op BIN_BOR = Some OP_BOR" | "bin_op BIN_BXOR = Some OP_BXOR" | "bin_op BIN_SHL = Some OP_SHL"
| "bin_op BIN_SHR = Some OP_SHR" | "bin_op _ = None"

definition compile_logic :: "allocator \<Rightarrow> bool \<Rightarrow> unit comp \<Rightarrow> unit comp \<Rightarrow> unit comp" where
  "compile_logic os is_and ca cb =
     (let jop = (if is_and then OP_JMPF else OP_JMPT)
      in thenc ca
          (bindc (emit_jump os jop) (\<lambda>j1.
            thenc cb
              (bindc (emit_jump os jop) (\<lambda>j2.
                bindc (readc code_pc) (\<lambda>l_false_or_true.
                  thenc (emit1v os OP_PUSH (if is_and then 0 else 1))
                    (bindc (emit_jump os OP_JMP) (\<lambda>j3.
                      bindc (readc code_pc) (\<lambda>l_done.
                        thenc (emit1v os OP_PUSH (if is_and then 1 else 0))
                          (thenc (patch_jump j1 l_false_or_true)
                            (thenc (patch_jump j2 l_false_or_true)
                              (patch_jump j3 l_done)))))))))))) "

definition compile_bin :: "allocator \<Rightarrow> binop \<Rightarrow> unit comp \<Rightarrow> unit comp \<Rightarrow> unit comp" where
  "compile_bin os b ca cb =
     (if b = BIN_ANDAND \<or> b = BIN_OROR then compile_logic os (b = BIN_ANDAND) ca cb
      else thenc ca (thenc cb
        (case bin_op b of
           Some opc \<Rightarrow> emit1 os opc
         | None \<Rightarrow> cerr ''bad binary operator'')))"

fun asg_op :: "asgop \<Rightarrow> opcode option" where
  "asg_op BIN_ADDASSIGN = Some OP_ADD" | "asg_op BIN_SUBASSIGN = Some OP_SUB"
| "asg_op BIN_MULASSIGN = Some OP_MUL" | "asg_op BIN_DIVASSIGN = Some OP_DIV"
| "asg_op BIN_ASSIGN = None"

definition compile_assign :: "allocator \<Rightarrow> asgop \<Rightarrow> string \<Rightarrow> unit comp \<Rightarrow> unit comp" where
  "compile_assign os b name ca =
     bindc (need_var name) (\<lambda>s.
       (case asg_op b of
          None \<Rightarrow> thenc ca (thenc (emit1 os OP_DUP) (emit1u32 os OP_STORE s))
        | Some opc \<Rightarrow>
            thenc (emit1u32 os OP_LOAD s)
              (thenc ca (thenc (emit1 os opc) (thenc (emit1 os OP_DUP) (emit1u32 os OP_STORE s))))))"

definition inc_word :: "bool \<Rightarrow> u64" where
  "inc_word inc = (if inc then 1 else -1)"

fun var_name :: "ast \<Rightarrow> string option" where
  "var_name (A_VAR name) = Some name"
| "var_name _ = None"

definition compile_unop :: "allocator \<Rightarrow> unop \<Rightarrow> string option \<Rightarrow> unit comp \<Rightarrow> unit comp" where
  "compile_unop os u var ca =
     thenc ca
       (case u of
          UNOP_NEG \<Rightarrow> emit1 os OP_NEG
        | UNOP_NOT \<Rightarrow> emit1 os OP_NOT
        | UNOP_BNOT \<Rightarrow> emit1 os OP_BNOT
        | INC_PRE inc \<Rightarrow>
            (case var of
               None \<Rightarrow> cerr ''++/-- needs a variable''
             | Some name \<Rightarrow>
                 bindc (need_var name) (\<lambda>s.
                   thenc (emit1u32 os OP_LOAD s)
                     (thenc (emit1v os OP_PUSH (inc_word inc))
                       (thenc (emit1 os OP_ADD)
                         (thenc (emit1 os OP_DUP) (emit1u32 os OP_STORE s)))))))"

fun compile_expr :: "allocator \<Rightarrow> ast \<Rightarrow> unit comp"
and compile_args :: "allocator \<Rightarrow> ast list \<Rightarrow> unit comp" where
  "compile_expr os (A_LIT v) = emit1v os OP_PUSH v"
| "compile_expr os (A_STRLIT s) =
     bindc (add_string os s) (\<lambda>si. emit1u32 os OP_PUSHSTR (of_nat si))"
| "compile_expr os (A_VAR name) = bindc (need_var name) (\<lambda>s. emit1u32 os OP_LOAD s)"
| "compile_expr os (A_CALL name args) = compile_call os name (length args) (compile_args os args)"
| "compile_expr os (A_BIN b x y) = compile_bin os b (compile_expr os x) (compile_expr os y)"
| "compile_expr os (A_UN u x) = compile_unop os u (var_name x) (compile_expr os x)"
| "compile_expr os (A_POSTINC name inc x) =
     bindc (need_var name) (\<lambda>s.
       thenc (emit1u32 os OP_LOAD s)
         (thenc (emit1 os OP_DUP)
           (thenc (emit1v os OP_PUSH (inc_word inc))
             (thenc (emit1 os OP_ADD) (emit1u32 os OP_STORE s)))))"
| "compile_expr os (A_ASSIGN b name x) = compile_assign os b name (compile_expr os x)"
| "compile_expr os (A_STMTEXPR x) = compile_expr os x"
| "compile_expr os _ = cerr ''bad expression node''"
| "compile_args os [] = retc ()"
| "compile_args os (x # xs) = thenc (compile_expr os x) (compile_args os xs)"

section \<open>Statements\<close>

definition set_last_expr :: "unit comp" where
  "set_last_expr c = (Ok (), c\<lparr>c_fn := (c_fn c)\<lparr>fn_last_expr := True\<rparr>\<rparr>)"

definition finish_expr :: "allocator \<Rightarrow> bool \<Rightarrow> unit comp" where
  "finish_expr os keep =
     bindc (readc c_in_fn) (\<lambda>in_fn. if keep \<and> \<not> in_fn then set_last_expr else emit1 os OP_POP)"

definition bare_call :: "ast \<Rightarrow> ccomp \<Rightarrow> noc_fn option" where
  "bare_call e c =
     (case e of
        A_VAR name \<Rightarrow> if resolve_var (c_syms c) name = None then noc_lookup (c_funcs c) name else None
      | _ \<Rightarrow> None)"

definition compile_exprstmt :: "allocator \<Rightarrow> ast \<Rightarrow> bool \<Rightarrow> unit comp" where
  "compile_exprstmt os e is_last =
     bindc (readc (bare_call e)) (\<lambda>f.
       (case f of
          Some f \<Rightarrow>
            thenc (compile_call os (the (var_name e)) 0 (retc ()))
              (finish_expr os (is_last \<and> fn_ret_type f \<noteq> NTYPE_VOID))
        | None \<Rightarrow>
            bindc (readc (\<lambda>c. expr_type (c_syms c) (c_funcs c) e \<noteq> NTYPE_VOID)) (\<lambda>nonvoid.
              thenc (compile_expr os e) (finish_expr os (is_last \<and> nonvoid)))))"

definition compile_vardecl :: "allocator \<Rightarrow> ntype \<Rightarrow> string \<Rightarrow> ast option \<Rightarrow> unit comp" where
  "compile_vardecl os t name a =
     bindc (add_var name t) (\<lambda>s.
       (case a of
          None \<Rightarrow> retc ()
        | Some e \<Rightarrow> thenc (compile_expr os e) (emit1u32 os OP_STORE (of_nat s))))"

fun compile_stmt :: "allocator \<Rightarrow> ast \<Rightarrow> bool \<Rightarrow> unit comp"
and compile_block :: "allocator \<Rightarrow> ast list \<Rightarrow> unit comp" where
  "compile_stmt os (A_STMTEXPR e) is_last = compile_exprstmt os e is_last"
| "compile_stmt os (A_VARDECL t name a) is_last =
     compile_vardecl os t name a"
| "compile_stmt os (A_BLOCK ss) is_last = compile_block os ss"
| "compile_stmt os (A_IF a b c) is_last =
     thenc (compile_expr os a)
       (bindc (emit_jump os OP_JMPF) (\<lambda>je.
         thenc (compile_stmt os b False)
           (case c of
              None \<Rightarrow> bindc (readc code_pc) (\<lambda>l_else. patch_jump je l_else)
            | Some e \<Rightarrow>
                bindc (emit_jump os OP_JMP) (\<lambda>jd.
                  bindc (readc code_pc) (\<lambda>l_else.
                    thenc (compile_stmt os e False)
                      (bindc (readc code_pc) (\<lambda>l_done.
                        thenc (patch_jump je l_else) (patch_jump jd l_done))))))))"
| "compile_stmt os (A_WHILE a b) is_last =
     bindc (readc code_pc) (\<lambda>l_top.
       thenc (compile_expr os a)
         (bindc (emit_jump os OP_JMPF) (\<lambda>je.
           thenc (compile_stmt os b False)
             (thenc (emit_jump_at os OP_JMP l_top)
               (bindc (readc code_pc) (\<lambda>l_end. patch_jump je l_end))))))"
| "compile_stmt os (A_FOR a b c body) is_last =
     thenc
       (case a of
          None \<Rightarrow> retc ()
        | Some (A_VARDECL t name e) \<Rightarrow> compile_vardecl os t name e
        | Some e \<Rightarrow> thenc (compile_expr os e) (emit1 os OP_POP))
       (bindc (readc code_pc) (\<lambda>l_top.
         bindc
           (case b of
              None \<Rightarrow> retc None
            | Some e \<Rightarrow> thenc (compile_expr os e) (bindc (emit_jump os OP_JMPF) (\<lambda>je. retc (Some je))))
           (\<lambda>je.
             thenc (compile_stmt os body False)
               (thenc
                 (case c of
                    None \<Rightarrow> retc ()
                  | Some e \<Rightarrow> thenc (compile_expr os e) (emit1 os OP_POP))
                 (thenc (emit_jump_at os OP_JMP l_top)
                   (bindc (readc code_pc) (\<lambda>l_end.
                     (case je of None \<Rightarrow> retc () | Some je \<Rightarrow> patch_jump je l_end))))))))"
| "compile_stmt os (A_RETURN a) is_last =
     bindc (readc c_in_fn) (\<lambda>in_fn.
       if \<not> in_fn then cerr ''return outside function''
       else thenc
              (case a of
                 None \<Rightarrow> emit1v os OP_PUSH 0
               | Some e \<Rightarrow> compile_expr os e)
              (emit1 os OP_RET))"
| "compile_stmt os (A_FUNCDECL t name ps body) is_last =
     cerr ''nested function definitions are not supported''"
| "compile_stmt os _ is_last = cerr ''bad statement node''"
| "compile_block os [] = retc ()"
| "compile_block os (s # ss) = thenc (compile_stmt os s False) (compile_block os ss)"

section \<open>Function definitions\<close>

text \<open>A parameter node carries the parameter's name, type and default literal.\<close>

fun param_sym :: "ast \<Rightarrow> string \<times> ntype" where
  "param_sym (A_VARDECL t name a) = (name, t)"
| "param_sym _ = ([], NTYPE_VOID)"

fun ast_val :: "ast \<Rightarrow> u64" where
  "ast_val (A_LIT v) = v"
| "ast_val (A_UN (INC_PRE inc) x) = (if inc then 1 else 0)"
| "ast_val (A_POSTINC name inc x) = (if inc then 1 else 0)"
| "ast_val _ = 0"

fun param_default :: "ast \<Rightarrow> u64 option" where
  "param_default (A_VARDECL t name (Some e)) = Some (ast_val e)"
| "param_default _ = None"

definition fn_header :: "ntype \<Rightarrow> string \<Rightarrow> ast list \<Rightarrow> u64 \<Rightarrow> u64 \<Rightarrow> noc_fn" where
  "fn_header t name ps p nm =
     empty_fn\<lparr>fn_ptr := p, fn_name_ptr := nm, fn_name := name, fn_ret_type := t,
       fn_nargs := length ps, fn_builtin := -1,
       fn_has_def := (\<lambda>k. k < length ps \<and> param_default (ps ! k) \<noteq> None),
       fn_defaults := (\<lambda>k. if k < length ps then (case param_default (ps ! k) of Some v \<Rightarrow> v | None \<Rightarrow> 0) else 0)\<rparr>"

fun body_stmts :: "ast \<Rightarrow> ast list" where
  "body_stmts (A_BLOCK ss) = ss"
| "body_stmts _ = []"

definition free_sub_resources :: "ccomp \<Rightarrow> os_log" where
  "free_sub_resources sub = free_strings (fn_strings (c_fn sub)) (free_if (c_data sub) (c_log sub))"

definition compile_funcdecl :: "allocator \<Rightarrow> ntype \<Rightarrow> string \<Rightarrow> ast list \<Rightarrow> ast \<Rightarrow> unit comp" where
  "compile_funcdecl os t name ps body c =
     (if c_in_fn c then (Err ''nested function definitions are not supported'', c)
      else
        (let (p, l1) = noc_os_alloc os sizeof_noc_fn (c_log c)
         in if p = 0 then (Err ''out of memory (function)'', c\<lparr>c_log := l1\<rparr>)
            else
              (let (nm, l2) = noc_os_alloc os (of_nat (length name) + 1) l1
               in if nm = 0 then (Err ''out of memory (function name)'', c\<lparr>c_log := noc_os_free p l2\<rparr>)
                  else
                    (let sub = \<lparr>c_syms = map param_sym ps, c_data = 0, c_cap = 0, c_code = [],
                            c_fn = fn_header t name ps p nm, c_arena = c_arena c, c_in_fn = True,
                            c_funcs = c_funcs c, c_log = l2\<rparr>
                     in case thenc (compile_block os (body_stmts body))
                               (thenc (emit1v os OP_PUSH 0) (emit1 os OP_RET)) sub of
                          (Ok _, d) \<Rightarrow>
                            (let nf = (c_fn d)\<lparr>fn_code_ptr := c_data d, fn_code := c_code d,
                                        fn_nlocals := length (c_syms d)\<rparr>
                             in case noc_register_user_fn nf (c_funcs c) (c_log d) of
                                  (Some fs, log) \<Rightarrow> (Ok (), c\<lparr>c_funcs := fs, c_log := log, c_arena := c_arena d\<rparr>)
                                | (None, log) \<Rightarrow> (Err [], c\<lparr>c_log := log, c_arena := c_arena d\<rparr>))
                        | (Err e, d) \<Rightarrow>
                            (Err e, c\<lparr>c_log := noc_os_free p (noc_os_free nm (free_sub_resources d)),
                                      c_arena := c_arena d\<rparr>)
                        | (Crash r, d) \<Rightarrow> (Crash r, c\<lparr>c_log := c_log d\<rparr>)))))"

section \<open>Lines\<close>

fun compile_tops :: "allocator \<Rightarrow> ast list \<Rightarrow> unit comp" where
  "compile_tops os [] = retc ()"
| "compile_tops os (A_FUNCDECL t name ps body # ss) =
     thenc (compile_funcdecl os t name ps body) (compile_tops os ss)"
| "compile_tops os (s # ss) = thenc (compile_stmt os s (ss = [])) (compile_tops os ss)"

definition line_fn :: noc_fn where
  "line_fn = empty_fn\<lparr>fn_name := ''<line>'', fn_builtin := -1\<rparr>"

definition line_ccomp :: "arena \<Rightarrow> registry \<Rightarrow> os_log \<Rightarrow> ccomp" where
  "line_ccomp a fs log =
     \<lparr>c_syms = [], c_data = 0, c_cap = 0, c_code = [], c_fn = line_fn, c_arena = a, c_in_fn = False,
      c_funcs = fs, c_log = log\<rparr>"

definition noc_compile ::
  "allocator \<Rightarrow> ast list \<Rightarrow> arena \<Rightarrow> registry \<Rightarrow> os_log \<Rightarrow> noc_fn res \<times> registry \<times> os_log" where
  "noc_compile os stmts a fs log =
     (case thenc (compile_tops os stmts) (emit1 os OP_HALT) (line_ccomp a fs log) of
        (Ok _, c) \<Rightarrow>
          (Ok ((c_fn c)\<lparr>fn_code_ptr := c_data c, fn_code := c_code c, fn_nlocals := length (c_syms c)\<rparr>),
           c_funcs c, c_log c)
      | (Err e, c) \<Rightarrow>
          (Err e, c_funcs c, free_strings (fn_strings (c_fn c)) (free_if (c_data c) (c_log c)))
      | (Crash r, c) \<Rightarrow> (Crash r, c_funcs c, c_log c))"

end
