(* ===== verification/Semantics.thy ===== *)
theory Semantics
  imports Vm Compiler
begin

text \<open>
  What NOC programs mean, independently of the compiler and the machine: a reference
  evaluator over syntax trees. A state is a store of named variables together with the
  world that builtins act on. Evaluation may end in a run-time error (\<open>Err\<close>) or the
  divide trap; \<open>Crash OutOfFuel\<close> only says that the evaluator was given too little fuel, one
  unit of which is spent per function call and per loop turn.

  A call is resolved as the implementation does it: how many values are passed, and which
  defaults fill the missing ones, is fixed by the functions known when the caller was
  compiled (\<open>fc_sigs\<close>), while the body that runs is that of the function found when the
  call happens (\<open>se_funcs\<close>).
\<close>

type_synonym 'w st = "(string \<Rightarrow> u64) \<times> 'w"

text \<open>The static context of a piece of code: known signatures, and where its string
  literals live.\<close>

record fctx =
  fc_sigs :: registry
  fc_strs :: "string \<Rightarrow> u64"

text \<open>
  The dynamic context: the environment of the machine, the registry at run time, and the
  source of each user function in it (its context, its variables in slot order with the
  parameters first, its body).
\<close>

record 'w sem =
  se_env :: "'w vm_env"
  se_funcs :: registry
  se_src :: "noc_fn \<Rightarrow> (fctx \<times> (string \<times> ntype) list \<times> ast list) option"

datatype flow = Normal | Returned u64

definition truth :: "u64 \<Rightarrow> bool" where
  "truth v \<longleftrightarrow> v \<noteq> 0"

fun apply_un :: "unop \<Rightarrow> u64 \<Rightarrow> u64" where
  "apply_un UNOP_NEG v = - v"
| "apply_un UNOP_NOT v = bool_word (v = 0)"
| "apply_un UNOP_BNOT v = not v"
| "apply_un (INC_PRE inc) v = v + inc_word inc"

definition call_values :: "noc_fn \<Rightarrow> nat \<Rightarrow> u64 list \<Rightarrow> u64 list" where
  "call_values sig count vs = vs @ map (fn_defaults sig) [length vs..<count]"

text \<open>The store a function starts with: its parameters in the first slots, 0 elsewhere.\<close>

definition entry_store :: "(string \<times> ntype) list \<Rightarrow> u64 list \<Rightarrow> string \<Rightarrow> u64" where
  "entry_store syms vs x =
     (case resolve_var syms x of
        Some i \<Rightarrow> if i < length vs then vs ! i else 0
      | None \<Rightarrow> 0)"

fun is_inc_un :: "unop \<Rightarrow> bool" where
  "is_inc_un (INC_PRE d) = True"
| "is_inc_un _ = False"

fun is_decl :: "ast \<Rightarrow> bool" where
  "is_decl (A_VARDECL t x a) = True"
| "is_decl _ = False"

fun has_init :: "ast \<Rightarrow> nat" where
  "has_init (A_FOR (Some i) b c d) = 1"
| "has_init _ = 0"

function eval :: "'w sem \<Rightarrow> nat \<Rightarrow> fctx \<Rightarrow> ast \<Rightarrow> 'w st \<Rightarrow> (u64 \<times> 'w st) res"
and evals :: "'w sem \<Rightarrow> nat \<Rightarrow> fctx \<Rightarrow> ast list \<Rightarrow> 'w st \<Rightarrow> (u64 list \<times> 'w st) res"
and exec :: "'w sem \<Rightarrow> nat \<Rightarrow> fctx \<Rightarrow> ast \<Rightarrow> 'w st \<Rightarrow> (flow \<times> 'w st) res"
and execs :: "'w sem \<Rightarrow> nat \<Rightarrow> fctx \<Rightarrow> ast list \<Rightarrow> 'w st \<Rightarrow> (flow \<times> 'w st) res" where
  "eval se n cx (A_LIT v) st = Ok (v, st)"
| "eval se n cx (A_STRLIT s) st = Ok (fc_strs cx s, st)"
| "eval se n cx (A_VAR x) st = Ok (fst st x, st)"
| "eval se n cx (A_BIN b x y) st =
     bind_res (eval se n cx x st) (\<lambda>(u, st).
       if b = BIN_ANDAND \<and> \<not> truth u then Ok (0, st)
       else if b = BIN_OROR \<and> truth u then Ok (1, st)
       else bind_res (eval se n cx y st) (\<lambda>(v, st).
              (case bin_op b of
                 None \<Rightarrow> Ok (bool_word (truth v), st)
               | Some opc \<Rightarrow> bind_res (alu opc u v) (\<lambda>r. Ok (r, st)))))"
| "eval se n cx (A_UN u x) st =
     bind_res (eval se n cx x st) (\<lambda>(v, st).
       (case (is_inc_un u, var_name x) of
          (True, Some name) \<Rightarrow> Ok (apply_un u v, ((fst st)(name := apply_un u v), snd st))
        | _ \<Rightarrow> Ok (apply_un u v, st)))"
| "eval se n cx (A_POSTINC name inc x) st =
     Ok (fst st name, ((fst st)(name := fst st name + inc_word inc), snd st))"
| "eval se n cx (A_ASSIGN b name x) st =
     bind_res (eval se n cx x st) (\<lambda>(v, st').
       (case asg_op b of
          None \<Rightarrow> Ok (v, ((fst st')(name := v), snd st'))
        | Some opc \<Rightarrow>
            bind_res (alu opc (fst st name) v) (\<lambda>r. Ok (r, ((fst st')(name := r), snd st')))))"
| "eval se n cx (A_STMTEXPR x) st = eval se n cx x st"
| "eval se n cx (A_CALL name args) st =
     (case noc_lookup (fc_sigs cx) name of
        None \<Rightarrow> Err ''unknown function''
      | Some sig \<Rightarrow>
          (case call_count sig (length args) of
             Inl e \<Rightarrow> Err e
           | Inr count \<Rightarrow>
               bind_res (evals se n cx args st) (\<lambda>(vs, st).
                 (case noc_lookup (se_funcs se) name of
                    None \<Rightarrow> Err ''unknown function at runtime''
                  | Some callee \<Rightarrow>
                      let vs = call_values sig count vs
                      in if fn_builtin callee \<ge> 0 then
                           (case call_builtin (se_env se) (nat (fn_builtin callee)) vs (se_funcs se) (snd st) of
                              (ok, r, _, w) \<Rightarrow> if ok then Ok (r, (fst st, w)) else Err ''builtin call failed'')
                         else if fn_nlocals callee < count then Err ''bad callee frame''
                         else (case n of
                                 0 \<Rightarrow> Crash OutOfFuel
                               | Suc m \<Rightarrow>
                                   (case se_src se callee of
                                      None \<Rightarrow> Crash NullDeref
                                    | Some (cx', syms, body) \<Rightarrow>
                                        bind_res (execs se m cx' body (entry_store syms vs, snd st)) (\<lambda>(fl, st').
                                          Ok (case fl of Normal \<Rightarrow> 0 | Returned v \<Rightarrow> v, (fst st, snd st')))))))))"
| "eval se n cx (A_BLOCK ss) st = Err ''bad expression node''"
| "eval se n cx (A_VARDECL t x a) st = Err ''bad expression node''"
| "eval se n cx (A_IF a b c) st = Err ''bad expression node''"
| "eval se n cx (A_WHILE a b) st = Err ''bad expression node''"
| "eval se n cx (A_FOR a b c d) st = Err ''bad expression node''"
| "eval se n cx (A_RETURN a) st = Err ''bad expression node''"
| "eval se n cx (A_FUNCDECL t f ps b) st = Err ''bad expression node''"
| "evals se n cx [] st = Ok ([], st)"
| "evals se n cx (x # xs) st =
     bind_res (eval se n cx x st) (\<lambda>(v, st).
       bind_res (evals se n cx xs st) (\<lambda>(vs, st). Ok (v # vs, st)))"
| "exec se n cx (A_STMTEXPR e) st = bind_res (eval se n cx e st) (\<lambda>(v, st). Ok (Normal, st))"
| "exec se n cx (A_VARDECL t x a) st =
     (case a of
        None \<Rightarrow> Ok (Normal, st)
      | Some e \<Rightarrow> bind_res (eval se n cx e st) (\<lambda>(v, st). Ok (Normal, ((fst st)(x := v), snd st))))"
| "exec se n cx (A_BLOCK ss) st = execs se n cx ss st"
| "exec se n cx (A_IF a b c) st =
     bind_res (eval se n cx a st) (\<lambda>(v, st).
       if truth v then exec se n cx b st
       else (case c of None \<Rightarrow> Ok (Normal, st) | Some e \<Rightarrow> exec se n cx e st))"
| "exec se n cx (A_WHILE a b) st =
     bind_res (eval se n cx a st) (\<lambda>(v, st).
       if \<not> truth v then Ok (Normal, st)
       else bind_res (exec se n cx b st) (\<lambda>(fl, st).
              (case fl of
                 Returned r \<Rightarrow> Ok (fl, st)
               | Normal \<Rightarrow> (case n of 0 \<Rightarrow> Crash OutOfFuel | Suc m \<Rightarrow> exec se m cx (A_WHILE a b) st))))"
| "exec se n cx (A_FOR (Some i) b c body) st =
     bind_res
       (if is_decl i then exec se n cx i st
        else bind_res (eval se n cx i st) (\<lambda>(v, st). Ok (Normal, st)))
       (\<lambda>(fl, st). exec se n cx (A_FOR None b c body) st)"
| "exec se n cx (A_FOR None b c body) st =
     bind_res (case b of None \<Rightarrow> Ok (1, st) | Some e \<Rightarrow> eval se n cx e st) (\<lambda>(v, st).
       if \<not> truth v then Ok (Normal, st)
       else bind_res (exec se n cx body st) (\<lambda>(fl, st).
              (case fl of
                 Returned r \<Rightarrow> Ok (fl, st)
               | Normal \<Rightarrow>
                   bind_res (case c of None \<Rightarrow> Ok (0, st) | Some e \<Rightarrow> eval se n cx e st) (\<lambda>(v, st).
                     (case n of 0 \<Rightarrow> Crash OutOfFuel | Suc m \<Rightarrow> exec se m cx (A_FOR None b c body) st)))))"
| "exec se n cx (A_RETURN a) st =
     bind_res (case a of None \<Rightarrow> Ok (0, st) | Some e \<Rightarrow> eval se n cx e st) (\<lambda>(v, st). Ok (Returned v, st))"
| "exec se n cx (A_FUNCDECL t f ps b) st = Err ''nested function definitions are not supported''"
| "exec se n cx (A_LIT v) st = Err ''bad statement node''"
| "exec se n cx (A_STRLIT s) st = Err ''bad statement node''"
| "exec se n cx (A_VAR x) st = Err ''bad statement node''"
| "exec se n cx (A_BIN bo x y) st = Err ''bad statement node''"
| "exec se n cx (A_UN u x) st = Err ''bad statement node''"
| "exec se n cx (A_ASSIGN ao x e) st = Err ''bad statement node''"
| "exec se n cx (A_CALL f args) st = Err ''bad statement node''"
| "exec se n cx (A_POSTINC x inc e) st = Err ''bad statement node''"
| "execs se n cx [] st = Ok (Normal, st)"
| "execs se n cx (s # ss) st =
     bind_res (exec se n cx s st) (\<lambda>(fl, st).
       (case fl of Returned r \<Rightarrow> Ok (fl, st) | Normal \<Rightarrow> execs se n cx ss st))"
  by pat_completeness auto


termination
  by (relation "measures
    [case_sum (case_sum (\<lambda>(se, n, r). n) (\<lambda>(se, n, r). n)) (case_sum (\<lambda>(se, n, r). n) (\<lambda>(se, n, r). n)),
     case_sum (case_sum (\<lambda>(se, n, cx, e, st). size e) (\<lambda>(se, n, cx, es, st). size_list size es))
       (case_sum (\<lambda>(se, n, cx, e, st). size e) (\<lambda>(se, n, cx, es, st). size_list size es)),
     case_sum (\<lambda>_. 0) (case_sum (\<lambda>(se, n, cx, e, st). has_init e) (\<lambda>_. 0))]")
    auto

end
