(* ===== verification/Simulation.thy ===== *)
theory Simulation
  imports Vm Compiler "HOL-Library.Sublist"
begin

text \<open>
  Relating runs of the machine to results: reachability between machine states, and the
  simulation judgement \<open>sim\<close>, which says that from a state the machine behaves as a
  reference computation prescribes, or stops because one of its own limits is reached.
\<close>

section \<open>Runs\<close>

definition steps :: "'w vm_env \<Rightarrow> 'w vm \<Rightarrow> 'w vm \<Rightarrow> bool" where
  "steps env s t \<longleftrightarrow> (\<exists>k. \<forall>n. run_loop env (k + n) s = run_loop env n t)"

definition stops :: "'w vm_env \<Rightarrow> 'w vm \<Rightarrow> string \<Rightarrow> bool" where
  "stops env s m \<longleftrightarrow> (\<exists>k t. vm_err t = m \<and> (\<forall>n. run_loop env (k + n) s = Some (Stop t)))"

definition faults :: "'w vm_env \<Rightarrow> 'w vm \<Rightarrow> crash \<Rightarrow> bool" where
  "faults env s c \<longleftrightarrow> (\<exists>k. \<forall>n. run_loop env (k + n) s = Some (Fault c))"

lemma steps_refl: "steps env s s"
  unfolding steps_def by (rule exI [of _ 0]) simp

lemma steps_run: "steps env s t \<Longrightarrow> (\<And>k. (\<forall>n. run_loop env (k + n) t = R) \<Longrightarrow> \<exists>k. \<forall>n. run_loop env (k + n) s = R)"
proof -
  fix k
  assume "steps env s t" and R: "\<forall>n. run_loop env (k + n) t = R"
  then obtain j where "\<forall>n. run_loop env (j + n) s = run_loop env n t" by (auto simp: steps_def)
  with R have "\<forall>n. run_loop env (j + k + n) s = R" by (metis add.assoc)
  then show "\<exists>k. \<forall>n. run_loop env (k + n) s = R" by blast
qed

lemma steps_trans: "steps env s t \<Longrightarrow> steps env t u \<Longrightarrow> steps env s u"
proof -
  assume "steps env s t" "steps env t u"
  then obtain j k where "\<forall>n. run_loop env (j + n) s = run_loop env n t" "\<forall>n. run_loop env (k + n) t = run_loop env n u"
    by (auto simp: steps_def)
  then have "\<forall>n. run_loop env (j + k + n) s = run_loop env n u" by (metis add.assoc)
  then show ?thesis unfolding steps_def by blast
qed

lemma steps_stops: "steps env s t \<Longrightarrow> stops env t m \<Longrightarrow> stops env s m"
  unfolding stops_def using steps_run by metis

lemma steps_faults: "steps env s t \<Longrightarrow> faults env t c \<Longrightarrow> faults env s c"
  unfolding faults_def using steps_run by metis

lemma step_next: "vm_step env s = Next t \<Longrightarrow> steps env s t"
  unfolding steps_def by (rule exI [of _ 1]) simp

lemma step_stop: "vm_step env s = Stop t \<Longrightarrow> stops env s (vm_err t)"
  unfolding stops_def by (rule exI [of _ 1]) auto

lemma step_fault: "vm_step env s = Fault c \<Longrightarrow> faults env s c"
  unfolding faults_def by (rule exI [of _ 1]) simp

section \<open>The simulation judgement\<close>

definition limits :: "string set" where
  "limits = {''stack overflow'', ''call nesting too deep'', ''stack overflow on call''}"

definition sim :: "'w vm_env \<Rightarrow> 'w vm \<Rightarrow> ('a \<Rightarrow> 'w vm \<Rightarrow> bool) \<Rightarrow> 'a res \<Rightarrow> bool" where
  "sim env s Q r \<longleftrightarrow> (\<exists>m\<in>limits. stops env s m) \<or>
     (case r of
        Ok x \<Rightarrow> \<exists>t. steps env s t \<and> Q x t
      | Err m \<Rightarrow> stops env s m
      | Crash c \<Rightarrow> c = OutOfFuel \<or> faults env s c)"

lemma sim_Ok: "Q x s \<Longrightarrow> sim env s Q (Ok x)"
  unfolding sim_def using steps_refl by auto

lemma sim_steps: "steps env s t \<Longrightarrow> sim env t Q r \<Longrightarrow> sim env s Q r"
  unfolding sim_def by (cases r) (auto dest: steps_trans steps_stops steps_faults)

lemma sim_bind:
  assumes "sim env s Q r" and "\<And>x t. Q x t \<Longrightarrow> sim env t R (f x)"
  shows "sim env s R (bind_res r f)"
proof (cases "\<exists>m\<in>limits. stops env s m")
  case False
  then show ?thesis using assms sim_steps [of env s _ R] by (cases r) (auto simp: sim_def)
qed (auto simp: sim_def)

lemma sim_seq:
  assumes "sim env s (\<lambda>_. P) (Ok ())" and "\<And>t. P t \<Longrightarrow> sim env t R r"
  shows "sim env s R r"
  using sim_bind [of env s "\<lambda>_. P" "Ok ()" R "\<lambda>_. r"] assms by simp

lemma sim_conseq: "sim env s Q r \<Longrightarrow> (\<And>x t. Q x t \<Longrightarrow> R x t) \<Longrightarrow> sim env s R r"
  unfolding sim_def by (cases r) auto

lemma sim_fuel [simp]: "sim env s Q (Crash OutOfFuel)"
  by (simp add: sim_def)

text \<open>The same for one instruction.\<close>

definition osim :: "'w outcome \<Rightarrow> ('a \<Rightarrow> 'w vm \<Rightarrow> bool) \<Rightarrow> 'a res \<Rightarrow> bool" where
  "osim r Q res \<longleftrightarrow> (\<exists>t. r = Stop t \<and> vm_err t \<in> limits) \<or>
     (case res of
        Ok x \<Rightarrow> \<exists>t. r = Next t \<and> Q x t
      | Err m \<Rightarrow> \<exists>t. r = Stop t \<and> vm_err t = m
      | Crash c \<Rightarrow> c = OutOfFuel \<or> r = Fault c)"

lemma sim_osim: "osim (vm_step env s) Q r \<Longrightarrow> sim env s Q r"
  unfolding osim_def sim_def
  by (cases r) (auto dest: step_next step_stop step_fault)

section \<open>Code\<close>

definition code_at :: "u8 list \<Rightarrow> nat \<Rightarrow> u8 list \<Rightarrow> bool" where
  "code_at F pc bs \<longleftrightarrow> take (length bs) (drop pc F) = bs"

lemma code_at_Cons: "code_at F pc (b # bs) \<longleftrightarrow> pc < length F \<and> F ! pc = b \<and> code_at F (Suc pc) bs"
proof (cases "pc < length F")
  case True
  then have "drop pc F = F ! pc # drop (Suc pc) F" by (simp add: Cons_nth_drop_Suc)
  then show ?thesis using True by (simp add: code_at_def)
qed (simp add: code_at_def)

lemma code_at_Nil [simp]: "code_at F pc []"
  by (simp add: code_at_def)

lemma code_at_append: "code_at F pc (as @ bs) \<longleftrightarrow> code_at F pc as \<and> code_at F (pc + length as) bs"
  by (induction as arbitrary: pc) (auto simp: code_at_Cons)

lemma code_at_nth: "code_at F pc bs \<longleftrightarrow> bs = [] \<or> (pc + length bs \<le> length F \<and> (\<forall>i<length bs. F ! (pc + i) = bs ! i))"
proof (induction bs arbitrary: pc)
  case (Cons b bs)
  show ?case
    unfolding code_at_Cons Cons.IH by (cases bs) (auto simp: All_less_Suc2)
qed simp

text \<open>\<open>agree F lo code\<close>: the final code has the bytes of \<open>code\<close> from \<open>lo\<close> on.\<close>

definition agree :: "u8 list \<Rightarrow> nat \<Rightarrow> u8 list \<Rightarrow> bool" where
  "agree F lo code \<longleftrightarrow> length code \<le> length F \<and> (\<forall>i. lo \<le> i \<and> i < length code \<longrightarrow> F ! i = code ! i)"

lemma agree_prefix: "agree F lo code' \<Longrightarrow> prefix code code' \<Longrightarrow> lo \<le> lo' \<Longrightarrow> agree F lo' code"
  by (auto simp: agree_def prefix_def nth_append)

lemma agree_code_at:
  assumes "agree F lo code'" and "prefix (code @ bs) code'" and "lo \<le> length code"
  shows "code_at F (length code) bs"
proof -
  have "agree F (length code) (code @ bs)" using agree_prefix assms by blast
  then show ?thesis by (auto simp: agree_def code_at_nth nth_append)
qed

lemma length_patch [simp]: "at + length bs \<le> length code \<Longrightarrow> length (patch_bytes at bs code) = length code"
  by (simp add: patch_bytes_def)

lemma nth_patch:
  "at + length bs \<le> length code \<Longrightarrow> i < length code \<Longrightarrow>
   patch_bytes at bs code ! i = (if at \<le> i \<and> i < at + length bs then bs ! (i - at) else code ! i)"
  by (auto simp: patch_bytes_def nth_append)

lemma prefix_patch:
  "prefix p code \<Longrightarrow> length p \<le> at \<Longrightarrow> prefix p (patch_bytes at bs code)"
  by (auto simp: patch_bytes_def prefix_def)

lemma agree_patch:
  assumes "agree F lo (patch_bytes at bs code)" and "at + length bs \<le> length code"
    and "lo \<le> lo'" and "at + length bs \<le> lo'"
  shows "agree F lo' code"
  using assms by (auto simp: agree_def nth_patch)

lemma agree_before_patch:
  assumes "agree F lo (patch_bytes at bs code)" and "at + length bs \<le> length code"
    and "prefix code' code" and "length code' \<le> at"
  shows "agree F lo code'"
  using assms by (auto simp: agree_def nth_patch prefix_def nth_append)

lemma agree_patch_at:
  assumes "agree F lo (patch_bytes at bs code)" and "at + length bs \<le> length code" and "lo \<le> at"
  shows "code_at F at bs"
  using assms by (auto simp: agree_def nth_patch code_at_nth)

end
