(* ===== verification/Machine.thy ===== *)
theory Machine
  imports Semantics Simulation
begin

text \<open>
  How the machine executes each instruction, stated over configurations: a machine state
  together with the store, the temporaries and the calling context it represents.
\<close>

section \<open>Configurations\<close>

text \<open>
  \<open>cfg se X pc st stk s\<close>: machine state \<open>s\<close> is in function \<open>x_fn X\<close> at \<open>pc\<close>; the slots of
  its frame hold the variables of the store, the temporaries above them are \<open>stk\<close>, and
  everything below the frame is as the caller left it.
\<close>

record rctx =
  x_fn :: noc_fn
  x_vb :: nat
  x_syms :: "(string \<times> ntype) list"
  x_rest :: "frame list"
  x_bot :: "nat \<Rightarrow> u64"

definition top_frame :: "rctx \<Rightarrow> nat \<Rightarrow> frame" where
  "top_frame X pc = \<lparr>fr_fn = x_fn X, fr_code = fn_code (x_fn X), fr_pc = pc, fr_vbase = x_vb X,
     fr_nlocals = fn_nlocals (x_fn X)\<rparr>"

definition tbase :: "rctx \<Rightarrow> nat" where
  "tbase X = x_vb X + fn_nlocals (x_fn X)"

definition slots_ok :: "rctx \<Rightarrow> bool" where
  "slots_ok X \<longleftrightarrow> (\<forall>x i. resolve_var (x_syms X) x = Some i \<longrightarrow> i < fn_nlocals (x_fn X))"

definition cfg :: "'w sem \<Rightarrow> rctx \<Rightarrow> nat \<Rightarrow> 'w st \<Rightarrow> u64 list \<Rightarrow> 'w vm \<Rightarrow> bool" where
  "cfg se X pc st stk s \<longleftrightarrow>
     frames s = top_frame X pc # x_rest X \<and> sp s = tbase X + length stk
     \<and> (\<forall>i<length stk. vstack s (tbase X + i) = stk ! i)
     \<and> (\<forall>x i. resolve_var (x_syms X) x = Some i \<longrightarrow> vstack s (x_vb X + i) = fst st x)
     \<and> (\<forall>i<x_vb X. vstack s i = x_bot X i)
     \<and> funcs s = se_funcs se \<and> world s = snd st \<and> slots_ok X \<and> vm_inv s"

definition quiet :: "'w vm_env \<Rightarrow> bool" where
  "quiet env \<longleftrightarrow> (\<forall>w. kbd_peek env w \<noteq> 0x1B \<and> kbd_peek env w \<noteq> 0x03)"

lemma vm_inv_indep [simp]:
  "vm_inv (s\<lparr>iters := i\<rparr>) = vm_inv s" "vm_inv (s\<lparr>vstack := st\<rparr>) = vm_inv s"
  "vm_inv (s\<lparr>funcs := fs\<rparr>) = vm_inv s" "vm_inv (s\<lparr>world := w\<rparr>) = vm_inv s"
  by (simp_all add: vm_inv_def)

lemma cfg_iters [simp]: "cfg se X pc st stk (s\<lparr>iters := i\<rparr>) = cfg se X pc st stk s"
  by (simp add: cfg_def)

lemma cfg_set_pc: "cfg se X pc st stk s \<Longrightarrow> cfg se X pc' st stk (set_pc pc' s)"
  by (simp add: cfg_def frames_set_pc top_frame_def)

lemma cfg_frame: "cfg se X pc st stk s \<Longrightarrow> frames s = top_frame X pc # x_rest X"
  by (simp add: cfg_def)

lemma top_frame_sel [simp]:
  "fr_fn (top_frame X pc) = x_fn X" "fr_code (top_frame X pc) = fn_code (x_fn X)" "fr_pc (top_frame X pc) = pc"
  "fr_vbase (top_frame X pc) = x_vb X" "fr_nlocals (top_frame X pc) = fn_nlocals (x_fn X)"
  by (simp_all add: top_frame_def)

text \<open>One turn of the loop executes the instruction at the program counter.\<close>

lemma exec_at:
  assumes "cfg se X pc st stk s" and "quiet env" and "code_at (fn_code (x_fn X)) pc (op_byte opc # bs)"
    and "\<And>t. cfg se X (Suc pc) st stk t \<Longrightarrow> osim (exec_op env (top_frame X pc) (Suc pc) opc t) Q r"
  shows "sim env s Q r"
proof (rule sim_osim)
  let ?t = "set_pc (Suc pc) (s\<lparr>iters := iters s + 1\<rparr>)"
  have "cfg se X (Suc pc) st stk ?t" using assms(1) cfg_set_pc [of se X pc st stk "s\<lparr>iters := iters s + 1\<rparr>"] by simp
  moreover have "vm_step env s = exec_op env (top_frame X pc) (Suc pc) opc ?t"
    using assms(2,3) cfg_frame [OF assms(1)]
    by (simp add: vm_step_def vm_instr_def quiet_def code_at_Cons Let_def)
  ultimately show "osim (vm_step env s) Q r" using assms(4) by simp
qed

lemma cfg_slot_free:
  assumes "cfg se X pc st stk s" and "resolve_var (x_syms X) x = Some i"
  shows "x_vb X + i < tbase X" and "x_vb X + i < NOC_STACK_SIZE" and "i < fn_nlocals (x_fn X)"
proof -
  show "i < fn_nlocals (x_fn X)" using assms by (auto simp: cfg_def slots_ok_def)
  then show "x_vb X + i < tbase X" by (simp add: tbase_def)
  moreover have "tbase X \<le> NOC_STACK_SIZE"
    using assms(1) by (auto simp: cfg_def vm_inv_def tbase_def)
  ultimately show "x_vb X + i < NOC_STACK_SIZE" by simp
qed

lemma cfg_push:
  assumes "cfg se X pc st stk s" and "sp s < NOC_STACK_SIZE"
  shows "cfg se X pc st (stk @ [v]) (s\<lparr>vstack := (vstack s)(sp s := v), sp := sp s + 1\<rparr>)"
proof -
  have sp: "sp s = tbase X + length stk" "x_vb X \<le> tbase X" using assms by (simp_all add: cfg_def tbase_def)
  have "x_vb X + i \<noteq> sp s" if "resolve_var (x_syms X) x = Some i" for x i
    using cfg_slot_free(1) [OF assms(1) that] sp by simp
  then show ?thesis
    using assms sp by (auto simp: cfg_def vm_inv_def nth_append less_Suc_eq)
qed

lemma cfg_pop:
  assumes "cfg se X pc st (stk @ [v]) s"
  shows "cfg se X pc st stk (s\<lparr>sp := sp s - 1\<rparr>)" and "vstack s (sp s - 1) = v" and "0 < sp s"
    and "sp s - 1 < NOC_STACK_SIZE"
proof -
  have sp: "sp s = tbase X + length stk + 1" using assms by (simp add: cfg_def)
  show "vstack s (sp s - 1) = v" "0 < sp s" using assms sp by (auto simp: cfg_def)
  show "sp s - 1 < NOC_STACK_SIZE" using assms sp by (auto simp: cfg_def vm_inv_def)
  have "\<forall>i<length stk. vstack s (tbase X + i) = stk ! i"
    using assms by (auto simp: cfg_def nth_append less_Suc_eq)
  then show "cfg se X pc st stk (s\<lparr>sp := sp s - 1\<rparr>)"
    using assms sp by (auto simp: cfg_def vm_inv_def)
qed

lemma osim_push:
  assumes "cfg se X pc st stk s" and "\<And>t. cfg se X pc st (stk @ [v]) t \<Longrightarrow> Q x t"
  shows "osim (push v s) Q (Ok x)"
proof (cases "sp s \<ge> NOC_STACK_SIZE")
  case True
  then show ?thesis by (auto simp: osim_def push_def limits_def)
next
  case False
  then show ?thesis using assms(2) [OF cfg_push [OF assms(1)]] by (auto simp: osim_def push_def)
qed

lemma osim_pop:
  assumes "cfg se X pc st (stk @ [v]) s" and "\<And>t. cfg se X pc st stk t \<Longrightarrow> osim (k v t) Q r"
  shows "osim (pop s k) Q r"
  using cfg_pop [OF assms(1)] assms(2) by (simp add: pop_def)

lemma le_bytes_eq_Nil [simp]: "le_bytes n v = [] \<longleftrightarrow> n = 0"
  by (simp add: le_bytes_def)

lemma fetch8_at: "code_at F pc (le_bytes 8 v) \<Longrightarrow> fetch8 F pc k = k v"
  using code_at_nth [of F pc "le_bytes 8 v"] of_le_u64 [of v] by (auto simp: fetch8_def code_at_def)

lemma fetch4_at: "code_at F pc (le_bytes 4 v) \<Longrightarrow> fetch4 F pc k = k v"
  using code_at_nth [of F pc "le_bytes 4 v"] of_le_u32 [of v] by (auto simp: fetch4_def code_at_def)

lemma cfg_store:
  assumes "cfg se X pc st stk s" and "resolve_var (x_syms X) x = Some i"
    and inj: "\<And>y. resolve_var (x_syms X) y = Some i \<Longrightarrow> y = x"
  shows "cfg se X pc ((fst st)(x := v), snd st) stk (s\<lparr>vstack := (vstack s)(x_vb X + i := v)\<rparr>)"
proof -
  have "x_vb X + i < tbase X" by (rule cfg_slot_free(1) [OF assms(1,2)])
  moreover have "x_vb X \<le> tbase X" by (simp add: tbase_def)
  moreover have "vstack (s\<lparr>vstack := (vstack s)(x_vb X + i := v)\<rparr>) (x_vb X + j) = ((fst st)(x := v)) y"
    if "resolve_var (x_syms X) y = Some j" for y j
  proof (cases "y = x")
    case False
    then have "j \<noteq> i" using that inj by blast
    then show ?thesis using False that assms(1) by (simp add: cfg_def)
  qed (use that assms(2) in simp)
  ultimately show ?thesis using assms(1) unfolding cfg_def by simp
qed

lemma resolve_var_name: "resolve_var syms x = Some i \<Longrightarrow> i < length syms \<and> fst (syms ! i) = x"
  by (auto simp: resolve_var_def find_Some_iff rev_nth)

lemma resolve_var_inj: "resolve_var syms x = Some i \<Longrightarrow> resolve_var syms y = Some i \<Longrightarrow> y = x"
  using resolve_var_name by blast

section \<open>Instructions\<close>

lemma do_push:
  assumes "cfg se X pc st stk s" and "quiet env" and "code_at (fn_code (x_fn X)) pc (op_byte OP_PUSH # le_bytes 8 v)"
  shows "sim env s (\<lambda>_. cfg se X (pc + 9) st (stk @ [v])) (Ok ())"
proof (rule exec_at [OF assms])
  fix t
  assume t: "cfg se X (Suc pc) st stk t"
  have "cfg se X (pc + 9) st stk (set_pc (pc + 9) t)" by (rule cfg_set_pc [OF t])
  then show "osim (exec_op env (top_frame X pc) (Suc pc) OP_PUSH t) (\<lambda>_. cfg se X (pc + 9) st (stk @ [v])) (Ok ())"
    using assms(3) by (simp add: fetch8_at [of _ _ v] code_at_Cons add.commute [of pc]) (rule osim_push, auto)
qed

lemma do_pushstr:
  assumes "cfg se X pc st stk s" and "quiet env"
    and "code_at (fn_code (x_fn X)) pc (op_byte OP_PUSHSTR # le_bytes 4 (of_nat i :: u32))"
    and "i < length (fn_strings (x_fn X))" and "i < 2 ^ 32"
  shows "sim env s (\<lambda>_. cfg se X (pc + 5) st (stk @ [fst (fn_strings (x_fn X) ! i)])) (Ok ())"
proof (rule exec_at [OF assms(1-3)])
  fix t
  assume t: "cfg se X (Suc pc) st stk t"
  have "cfg se X (pc + 5) st stk (set_pc (pc + 5) t)" by (rule cfg_set_pc [OF t])
  moreover have "unat (of_nat i :: u32) = i" using assms(5) by (simp add: unat_of_nat)
  ultimately show "osim (exec_op env (top_frame X pc) (Suc pc) OP_PUSHSTR t)
      (\<lambda>_. cfg se X (pc + 5) st (stk @ [fst (fn_strings (x_fn X) ! i)])) (Ok ())"
    using assms(3,4) by (simp add: fetch4_at [of _ _ "of_nat i"] code_at_Cons Let_def add.commute [of pc]) (rule osim_push, auto)
qed

lemma do_load:
  assumes "cfg se X pc st stk s" and "quiet env"
    and "code_at (fn_code (x_fn X)) pc (op_byte OP_LOAD # le_bytes 4 (of_nat i :: u32))"
    and "resolve_var (x_syms X) x = Some i" and "i < 2 ^ 32"
  shows "sim env s (\<lambda>_. cfg se X (pc + 5) st (stk @ [fst st x])) (Ok ())"
proof (rule exec_at [OF assms(1-3)])
  fix t
  assume t: "cfg se X (Suc pc) st stk t"
  have t5: "cfg se X (pc + 5) st stk (set_pc (pc + 5) t)" by (rule cfg_set_pc [OF t])
  moreover have "unat (of_nat i :: u32) = i" using assms(5) by (simp add: unat_of_nat)
  moreover have "vstack t (x_vb X + i) = fst st x" using t assms(4) by (simp add: cfg_def)
  ultimately show "osim (exec_op env (top_frame X pc) (Suc pc) OP_LOAD t)
      (\<lambda>_. cfg se X (pc + 5) st (stk @ [fst st x])) (Ok ())"
    using assms(3) cfg_slot_free [OF t assms(4)]
    by (simp add: fetch4_at [of _ _ "of_nat i"] code_at_Cons stack_get_def Let_def add.commute [of pc]) (rule osim_push, auto)
qed

lemma do_store:
  assumes "cfg se X pc st (stk @ [v]) s" and "quiet env"
    and "code_at (fn_code (x_fn X)) pc (op_byte OP_STORE # le_bytes 4 (of_nat i :: u32))"
    and "resolve_var (x_syms X) x = Some i" and "i < 2 ^ 32"
  shows "sim env s (\<lambda>_. cfg se X (pc + 5) ((fst st)(x := v), snd st) stk) (Ok ())"
proof (rule exec_at [OF assms(1-3)])
  fix t
  assume t: "cfg se X (Suc pc) st (stk @ [v]) t"
  have t5: "cfg se X (pc + 5) st (stk @ [v]) (set_pc (pc + 5) t)" by (rule cfg_set_pc [OF t])
  have u: "unat (of_nat i :: u32) = i" using assms(5) by (simp add: unat_of_nat)
  have fin: "osim (stack_set (x_vb X + i) v u) (\<lambda>_. cfg se X (pc + 5) ((fst st)(x := v), snd st) stk) (Ok ())"
    if "cfg se X (pc + 5) st stk u" for u
    using cfg_store [OF that assms(4) resolve_var_inj [OF assms(4)]] cfg_slot_free [OF that assms(4)]
    by (simp add: stack_set_def osim_def)
  show "osim (exec_op env (top_frame X pc) (Suc pc) OP_STORE t)
      (\<lambda>_. cfg se X (pc + 5) ((fst st)(x := v), snd st) stk) (Ok ())"
    using assms(3) cfg_slot_free [OF t assms(4)] u
    by (simp add: fetch4_at [of _ _ "of_nat i"] code_at_Cons add.commute [of _ pc]) (rule osim_pop [OF t5], use fin in simp)
qed

lemma do_dup:
  assumes "cfg se X pc st (stk @ [v]) s" and "quiet env" and "code_at (fn_code (x_fn X)) pc [op_byte OP_DUP]"
  shows "sim env s (\<lambda>_. cfg se X (Suc pc) st (stk @ [v, v])) (Ok ())"
proof (rule exec_at [OF assms])
  fix t
  assume t: "cfg se X (Suc pc) st (stk @ [v]) t"
  show "osim (exec_op env (top_frame X pc) (Suc pc) OP_DUP t) (\<lambda>_. cfg se X (Suc pc) st (stk @ [v, v])) (Ok ())"
    using cfg_pop [OF t] by (simp add: stack_get_def) (rule osim_push [OF t], simp)
qed

lemma do_pop:
  assumes "cfg se X pc st (stk @ [v]) s" and "quiet env" and "code_at (fn_code (x_fn X)) pc [op_byte OP_POP]"
  shows "sim env s (\<lambda>_. cfg se X (Suc pc) st stk) (Ok ())"
proof (rule exec_at [OF assms])
  fix t
  assume t: "cfg se X (Suc pc) st (stk @ [v]) t"
  show "osim (exec_op env (top_frame X pc) (Suc pc) OP_POP t) (\<lambda>_. cfg se X (Suc pc) st stk) (Ok ())"
    using cfg_pop [OF t] by (simp add: osim_def)
qed

lemma do_alu_at:
  assumes "cfg se X pc st (stk @ [a, b]) s" and "quiet env" and "code_at (fn_code (x_fn X)) pc [op_byte opc]"
    and "bin_op bo = Some opc \<or> asg_op ao = Some opc"
  shows "sim env s (\<lambda>r. cfg se X (Suc pc) st (stk @ [r])) (alu opc a b)"
proof (rule exec_at [OF assms(1-3)])
  fix t
  assume t: "cfg se X (Suc pc) st (stk @ [a, b]) t"
  have "exec_op env (top_frame X pc) (Suc pc) opc t = do_alu opc t"
    using assms(4) by (cases bo; cases ao) auto
  moreover have "osim (do_alu opc t) (\<lambda>r. cfg se X (Suc pc) st (stk @ [r])) (alu opc a b)"
    unfolding do_alu_def
  proof (rule osim_pop)
    show "cfg se X (Suc pc) st ((stk @ [a]) @ [b]) t" using t by simp
  next
    fix u
    assume u: "cfg se X (Suc pc) st (stk @ [a]) u"
    show "osim (pop u (\<lambda>a s. case alu opc a b of Ok r \<Rightarrow> push r s | Err e \<Rightarrow> Stop (vmerr e s) | Crash c \<Rightarrow> Fault c))
        (\<lambda>r. cfg se X (Suc pc) st (stk @ [r])) (alu opc a b)"
      by (rule osim_pop [OF u], cases "alu opc a b") (auto intro: osim_push, auto simp: osim_def)
  qed
  ultimately show "osim (exec_op env (top_frame X pc) (Suc pc) opc t) (\<lambda>r. cfg se X (Suc pc) st (stk @ [r])) (alu opc a b)"
    by simp
qed

fun un_opcode :: "unop \<Rightarrow> opcode" where
  "un_opcode UNOP_NEG = OP_NEG" | "un_opcode UNOP_NOT = OP_NOT" | "un_opcode UNOP_BNOT = OP_BNOT"
| "un_opcode (INC_PRE d) = OP_ADD"

lemma do_un_at:
  assumes "cfg se X pc st (stk @ [a]) s" and "quiet env" and "code_at (fn_code (x_fn X)) pc [op_byte (un_opcode u)]"
    and "\<not> is_inc_un u"
  shows "sim env s (\<lambda>_. cfg se X (Suc pc) st (stk @ [apply_un u a])) (Ok ())"
proof (rule exec_at [OF assms(1-3)])
  fix t
  assume t: "cfg se X (Suc pc) st (stk @ [a]) t"
  show "osim (exec_op env (top_frame X pc) (Suc pc) (un_opcode u) t) (\<lambda>_. cfg se X (Suc pc) st (stk @ [apply_un u a])) (Ok ())"
    using assms(4) by (cases u) (auto intro!: osim_pop [OF t] osim_push)
qed

lemma do_jmp:
  assumes "cfg se X pc st stk s" and "quiet env"
    and "code_at (fn_code (x_fn X)) pc (op_byte OP_JMP # le_bytes 4 (of_nat l :: u32))" and "l < 2 ^ 32"
  shows "sim env s (\<lambda>_. cfg se X l st stk) (Ok ())"
proof (rule exec_at [OF assms(1-3)])
  fix t
  assume t: "cfg se X (Suc pc) st stk t"
  have "unat (of_nat l :: u32) = l" using assms(4) by (simp add: unat_of_nat)
  then show "osim (exec_op env (top_frame X pc) (Suc pc) OP_JMP t) (\<lambda>_. cfg se X l st stk) (Ok ())"
    using assms(3) cfg_set_pc [OF t, of l] by (simp add: fetch4_at [of _ _ "of_nat l"] code_at_Cons osim_def)
qed

lemma do_jmpf:
  assumes "cfg se X pc st (stk @ [v]) s" and "quiet env"
    and "code_at (fn_code (x_fn X)) pc (op_byte OP_JMPF # le_bytes 4 (of_nat l :: u32))" and "l < 2 ^ 32"
  shows "sim env s (\<lambda>_. cfg se X (if truth v then pc + 5 else l) st stk) (Ok ())"
proof (rule exec_at [OF assms(1-3)])
  fix t
  assume t: "cfg se X (Suc pc) st (stk @ [v]) t"
  have t5: "cfg se X (pc + 5) st (stk @ [v]) (set_pc (pc + 5) t)" by (rule cfg_set_pc [OF t])
  have "unat (of_nat l :: u32) = l" using assms(4) by (simp add: unat_of_nat)
  then show "osim (exec_op env (top_frame X pc) (Suc pc) OP_JMPF t) (\<lambda>_. cfg se X (if truth v then pc + 5 else l) st stk) (Ok ())"
    using assms(3)
    by (simp add: fetch4_at [of _ _ "of_nat l"] code_at_Cons add.commute [of _ pc])
      (intro conjI impI; rule osim_pop [OF t5]; auto simp: osim_def truth_def intro: cfg_set_pc)
qed

section \<open>Calls and returns\<close>

definition returned :: "'w sem \<Rightarrow> rctx \<Rightarrow> u64 \<Rightarrow> 'w \<Rightarrow> 'w vm \<Rightarrow> bool" where
  "returned se X v w s \<longleftrightarrow> frames s = x_rest X \<and> sp s = x_vb X + 1 \<and> vstack s (x_vb X) = v
     \<and> (\<forall>i<x_vb X. vstack s i = x_bot X i) \<and> funcs s = se_funcs se \<and> world s = w \<and> vm_inv s \<and> x_rest X \<noteq> []"

lemma do_ret_at:
  assumes "cfg se X pc st (stk @ [v]) s" and "quiet env" and "code_at (fn_code (x_fn X)) pc [op_byte OP_RET]"
    and "x_rest X \<noteq> []"
  shows "sim env s (\<lambda>_. returned se X v (snd st)) (Ok ())"
proof (rule exec_at [OF assms(1-3)])
  fix t
  assume t: "cfg se X (Suc pc) st (stk @ [v]) t"
  have vb: "x_vb X < NOC_STACK_SIZE"
    using t by (auto simp: cfg_def vm_inv_def tbase_def)
  have "osim (push v (u\<lparr>sp := x_vb X, frames := x_rest X\<rparr>)) (\<lambda>_. returned se X v (snd st)) (Ok ())"
    if u: "cfg se X (Suc pc) st stk u" for u
    using u vb assms(4) by (auto simp: osim_def push_def returned_def cfg_def vm_inv_def)
  then have "osim (case frames u of [] \<Rightarrow> Fault (OutOfBounds ''frames'') | cf # fs \<Rightarrow> push v (u\<lparr>sp := fr_vbase cf, frames := fs\<rparr>))
      (\<lambda>_. returned se X v (snd st)) (Ok ())" if u: "cfg se X (Suc pc) st stk u" for u
    using that cfg_frame [OF u] by simp
  then show "osim (exec_op env (top_frame X pc) (Suc pc) OP_RET t) (\<lambda>_. returned se X v (snd st)) (Ok ())"
    using cfg_frame [OF t] assms(4) by (simp add: do_ret_def) (rule osim_pop [OF t], auto)
qed

lemma cfg_args:
  assumes "cfg se X pc st (stk @ vs) s"
  shows "map (\<lambda>k. vstack s (sp s - length vs + k)) [0..<length vs] = vs"
proof -
  have "vstack s (sp s - length vs + k) = vs ! k" if "k < length vs" for k
  proof -
    have "vstack s (tbase X + (length stk + k)) = (stk @ vs) ! (length stk + k)"
      using assms that unfolding cfg_def by simp
    moreover have "sp s - length vs = tbase X + length stk" using assms by (simp add: cfg_def)
    ultimately show ?thesis by (simp add: add.assoc)
  qed
  then show ?thesis by (intro nth_equalityI) auto
qed

lemma cfg_drop_args:
  assumes "cfg se X pc st (stk @ vs) s"
  shows "cfg se X pc (fst st, w) stk (s\<lparr>world := w, sp := sp s - length vs\<rparr>)"
proof -
  have "vstack s (tbase X + i) = stk ! i" if "i < length stk" for i
    using assms that by (auto simp: cfg_def nth_append split: if_splits)
  moreover have "sp s - length vs = tbase X + length stk" using assms by (simp add: cfg_def)
  moreover have "vm_inv (s\<lparr>world := w, sp := sp s - length vs\<rparr>)"
    using assms by (auto simp: cfg_def vm_inv_def)
  ultimately show ?thesis using assms unfolding cfg_def by simp
qed

lemma call_at:
  assumes "cfg se X pc st (stk @ vs) s" and "quiet env"
    and "code_at (fn_code (x_fn X)) pc
      (op_byte OP_CALL # le_bytes 4 (of_nat si :: u32) @ le_bytes 4 (of_nat (length vs) :: u32))"
    and "si < length (fn_strings (x_fn X))" and "si < 2 ^ 32" and "length vs < 2 ^ 32"
    and "\<And>t. cfg se X (pc + 9) st (stk @ vs) t \<Longrightarrow> osim (do_call env (x_fn X) (of_nat si) (length vs) t) Q r"
  shows "sim env s Q r"
proof (rule exec_at [OF assms(1-3)])
  fix t
  assume t: "cfg se X (Suc pc) st (stk @ vs) t"
  have "cfg se X (pc + 9) st (stk @ vs) (set_pc (pc + 9) t)" by (rule cfg_set_pc [OF t])
  moreover have "unat (of_nat (length vs) :: u32) = length vs" using assms(6) by (simp add: unat_of_nat)
  moreover have "fetch4 (fn_code (x_fn X)) (Suc pc) k = k (of_nat si)"
    "fetch4 (fn_code (x_fn X)) (Suc pc + 4) k = k (of_nat (length vs))" for k :: "u32 \<Rightarrow> 'a outcome"
    using assms(3) by (auto simp: code_at_Cons code_at_append intro!: fetch4_at)
  ultimately show "osim (exec_op env (top_frame X pc) (Suc pc) OP_CALL t) Q r"
    using assms(7) [of "set_pc (pc + 9) t"] by (simp add: add.commute [of pc])
qed

lemma do_call_builtin:
  assumes "cfg se X pc st (stk @ vs) s" and "si < length (fn_strings (x_fn X))" and "si < 2 ^ 32"
    and "noc_lookup (se_funcs se) (snd (fn_strings (x_fn X) ! si)) = Some callee" and "fn_builtin callee \<ge> 0"
    and "call_builtin env (nat (fn_builtin callee)) vs (se_funcs se) (snd st) = (ok, r, se_funcs se, w)"
  shows "osim (do_call env (x_fn X) (of_nat si) (length vs) s) (\<lambda>r. cfg se X pc (fst st, w) (stk @ [r]))
           (if ok then Ok r else Err ''builtin call failed'')"
proof -
  have u: "unat (of_nat si :: u32) = si" using assms(3) by (simp add: unat_of_nat)
  have s: "funcs s = se_funcs se" "world s = snd st" "length vs \<le> sp s" using assms(1) by (simp_all add: cfg_def)
  have args: "map (\<lambda>k. vstack s (sp s + k - length vs)) [0..<length vs] = vs"
    using cfg_args [OF assms(1)] s(3) by simp
  have same: "s\<lparr>funcs := se_funcs se, world := w, sp := sp s - length vs\<rparr> = s\<lparr>world := w, sp := sp s - length vs\<rparr>"
    using s(1) by simp
  show ?thesis
  proof (cases ok)
    case True
    then show ?thesis
      using assms u s osim_push [OF cfg_drop_args [OF assms(1), of w]]
      by (simp add: do_call_def args same Let_def)
  next
    case False
    then show ?thesis
      using assms u s by (simp add: do_call_def args osim_def Let_def)
  qed
qed

definition callee_ctx :: "rctx \<Rightarrow> nat \<Rightarrow> nat \<Rightarrow> noc_fn \<Rightarrow> (string \<times> ntype) list \<Rightarrow> (nat \<Rightarrow> u64) \<Rightarrow> rctx" where
  "callee_ctx X pc h callee syms below =
     \<lparr>x_fn = callee, x_vb = tbase X + h, x_syms = syms, x_rest = top_frame X pc # x_rest X, x_bot = below\<rparr>"

lemma callee_returned:
  assumes "cfg se X pc st (stk @ vs) s"
    and "returned se (callee_ctx X pc' (length stk) callee syms (vstack s)) v w t"
  shows "cfg se X pc' (fst st, w) (stk @ [v]) t"
proof -
  have below: "vstack t i = vstack s i" if "i < tbase X + length stk" for i
    using assms(2) that by (simp add: returned_def callee_ctx_def)
  have slot: "vstack t (x_vb X + i) = fst st x" if "resolve_var (x_syms X) x = Some i" for x i
    using below [of "x_vb X + i"] cfg_slot_free(1) [OF assms(1) that] assms(1) that by (simp add: cfg_def)
  have tmp: "vstack t (tbase X + i) = stk ! i" if "i < length stk" for i
    using below [of "tbase X + i"] assms(1) that by (simp add: cfg_def nth_append)
  have bot: "vstack t i = x_bot X i" if "i < x_vb X" for i
    using below [of i] assms(1) that by (simp add: cfg_def tbase_def)
  show ?thesis
    using assms slot tmp bot unfolding cfg_def returned_def
    by (auto simp: callee_ctx_def nth_append less_Suc_eq)
qed

lemma do_call_user:
  assumes "cfg se X pc st (stk @ vs) s" and "si < length (fn_strings (x_fn X))" and "si < 2 ^ 32"
    and "noc_lookup (se_funcs se) (snd (fn_strings (x_fn X) ! si)) = Some callee" and "\<not> fn_builtin callee \<ge> 0"
    and "\<not> fn_nlocals callee < length vs" and "fn_nlocals callee = length syms"
  shows "osim (do_call env (x_fn X) (of_nat si) (length vs) s)
           (\<lambda>_. cfg se (callee_ctx X pc (length stk) callee syms (vstack s)) 0 (entry_store syms vs, snd st) []) (Ok ())"
proof -
  let ?Y = "callee_ctx X pc (length stk) callee syms (vstack s)"
  let ?vb = "tbase X + length stk"
  have u: "unat (of_nat si :: u32) = si" using assms(3) by (simp add: unat_of_nat)
  have s: "funcs s = se_funcs se" "world s = snd st" "length vs \<le> sp s" "sp s - length vs = ?vb"
    "frames s = top_frame X pc # x_rest X"
    using assms(1) by (simp_all add: cfg_def)
  have call: "do_call env (x_fn X) (of_nat si) (length vs) s = enter_fn callee (length vs) s"
    using assms u s by (simp add: do_call_def)
  have arg: "vstack s (?vb + k) = vs ! k" if "k < length vs" for k
  proof -
    have "map (\<lambda>k. vstack s (sp s - length vs + k)) [0..<length vs] ! k = vs ! k"
      using cfg_args [OF assms(1)] by simp
    then show ?thesis using that s by simp
  qed
  show ?thesis
  proof (cases "length (frames s) \<ge> NOC_MAX_FRAMES \<or> ?vb + fn_nlocals callee > NOC_STACK_SIZE")
    case True
    then show ?thesis using s assms(6) unfolding call by (auto simp: enter_fn_def osim_def limits_def Let_def)
  next
    case False
    let ?s' = "s\<lparr>sp := ?vb + fn_nlocals callee,
      vstack := (\<lambda>i. if ?vb + length vs \<le> i \<and> i < ?vb + fn_nlocals callee then 0 else vstack s i),
      frames := \<lparr>fr_fn = callee, fr_code = fn_code callee, fr_pc = 0, fr_vbase = ?vb, fr_nlocals = fn_nlocals callee\<rparr> # frames s\<rparr>"
    have ent: "enter_fn callee (length vs) s = Next ?s'"
      using False s assms(6) by (simp add: enter_fn_def Let_def)
    have slots: "(if ?vb + length vs \<le> ?vb + i \<and> ?vb + i < ?vb + fn_nlocals callee then 0 else vstack s (?vb + i))
        = entry_store syms vs x" if "resolve_var syms x = Some i" for x i
      using resolve_var_name [OF that] that arg [of i] assms(7) by (auto simp: entry_store_def)
    have inv: "vm_inv ?s'" using assms(1) False s by (auto simp: cfg_def vm_inv_def)
    have "cfg se ?Y 0 (entry_store syms vs, snd st) [] ?s'"
      using slots inv s assms(7) resolve_var_name [of syms]
      unfolding cfg_def callee_ctx_def top_frame_def tbase_def slots_ok_def by auto
    then show ?thesis unfolding call ent by (simp add: osim_def)
  qed
qed
end
