(* ===== verification/CodeGen.thy ===== *)
theory CodeGen
  imports Machine
begin

text \<open>
  What the compiler leaves behind when it succeeds: inversion rules for its actions, the
  fragment of the language the correctness theorem is about, and the fact that a successful
  action only appends to the code and the tables.
\<close>

section \<open>Inverting the compiler monad\<close>

lemma bindc_Ok: "bindc m k c = (Ok y, c'') \<longleftrightarrow> (\<exists>x c'. m c = (Ok x, c') \<and> k x c' = (Ok y, c''))"
  by (auto simp: bindc_def split: prod.splits res.splits)

lemma thenc_Ok: "thenc m k c = (Ok y, c'') \<longleftrightarrow> (\<exists>x c'. m c = (Ok x, c') \<and> k c' = (Ok y, c''))"
  by (simp add: thenc_def bindc_Ok)

lemma retc_Ok: "retc x c = (Ok y, c') \<longleftrightarrow> y = x \<and> c' = c"
  by (auto simp: retc_def)

lemma readc_Ok: "readc f c = (Ok y, c') \<longleftrightarrow> y = f c \<and> c' = c"
  by (auto simp: readc_def)

lemma cerr_Ok [simp]: "cerr m c \<noteq> (Ok y, c')" "cerr_name a b n c \<noteq> (Ok y, c')"
  by (auto simp: cerr_def cerr_name_def split: option.splits)

lemmas comp_Ok = bindc_Ok thenc_Ok retc_Ok readc_Ok

text \<open>What code generation leaves alone, and what it extends.\<close>

definition same :: "ccomp \<Rightarrow> ccomp \<Rightarrow> bool" where
  "same c c' \<longleftrightarrow> c_syms c' = c_syms c \<and> c_fn c' = c_fn c \<and> c_in_fn c' = c_in_fn c \<and> c_funcs c' = c_funcs c"

definition ext :: "ccomp \<Rightarrow> ccomp \<Rightarrow> bool" where
  "ext c c' \<longleftrightarrow> prefix (c_code c) (c_code c') \<and> prefix (fn_strings (c_fn c)) (fn_strings (c_fn c'))
     \<and> (\<forall>x i. resolve_var (c_syms c) x = Some i \<longrightarrow> resolve_var (c_syms c') x = Some i)
     \<and> c_in_fn c' = c_in_fn c \<and> c_funcs c' = c_funcs c"

lemma ext_refl [simp]: "ext c c"
  by (simp add: ext_def)

lemma ext_trans: "ext c d \<Longrightarrow> ext d e \<Longrightarrow> ext c e"
  unfolding ext_def by (auto intro: prefix_order.trans)

lemma same_ext: "same c c' \<Longrightarrow> prefix (c_code c) (c_code c') \<Longrightarrow> ext c c'"
  by (simp add: same_def ext_def)

lemma buf_ensure_Ok: "buf_ensure os n c = (Ok u, c') \<Longrightarrow> same c c' \<and> c_code c' = c_code c"
  by (auto simp: buf_ensure_def same_def Let_def split: if_splits prod.splits)

lemma emit_bytes_Ok: "emit_bytes bs c = (Ok u, c') \<Longrightarrow> same c c' \<and> c_code c' = c_code c @ bs"
  by (auto simp: emit_bytes_def same_def)

lemma ensure_emit_Ok:
  "thenc (buf_ensure os n) (emit_bytes bs) c = (Ok u, c') \<Longrightarrow> same c c' \<and> c_code c' = c_code c @ bs"
  by (auto simp: thenc_Ok same_def dest!: buf_ensure_Ok emit_bytes_Ok)

lemma emit1_Ok: "emit1 os opc c = (Ok u, c') \<Longrightarrow> same c c' \<and> c_code c' = c_code c @ [op_byte opc]"
  by (simp add: emit1_def ensure_emit_Ok)

lemma emit1v_Ok: "emit1v os opc v c = (Ok u, c') \<Longrightarrow> same c c' \<and> c_code c' = c_code c @ op_byte opc # le_bytes 8 v"
  using ensure_emit_Ok [of os 9 "op_byte opc # le_bytes 8 v"] by (simp add: emit1v_def)

lemma emit1u32_Ok: "emit1u32 os opc v c = (Ok u, c') \<Longrightarrow> same c c' \<and> c_code c' = c_code c @ op_byte opc # le_bytes 4 v"
  using ensure_emit_Ok [of os 5 "op_byte opc # le_bytes 4 v"] by (simp add: emit1u32_def)

lemma emit_jump_Ok:
  assumes "emit_jump os opc c = (Ok at, c')"
  shows "same c c' \<and> at = length (c_code c) \<and> c_code c' = c_code c @ op_byte opc # le_bytes 4 (0 :: u32)"
proof -
  obtain d e where d: "buf_ensure os 5 c = (Ok (), d)" and at: "at = length (c_code d)"
    and e: "emit_bytes (op_byte opc # le_bytes 4 (0 :: u32)) d = (Ok (), c')"
    using assms by (auto simp: emit_jump_def comp_Ok code_pc_def)
  show ?thesis using buf_ensure_Ok [OF d] emit_bytes_Ok [OF e] at by (auto simp: same_def)
qed

lemma patch_jump_Ok:
  "patch_jump at l c = (Ok u, c') \<Longrightarrow>
     same c c' \<and> c_code c' = patch_bytes (Suc at) (le_bytes 4 (of_nat l :: u32)) (c_code c)"
  by (auto simp: patch_jump_def same_def)

lemma emit_jump_at_Ok:
  assumes "emit_jump_at os opc l c = (Ok u, c')"
  shows "same c c' \<and> c_code c' = c_code c @ op_byte opc # le_bytes 4 (of_nat l :: u32)"
proof -
  obtain d at where d: "emit_jump os opc c = (Ok at, d)" and p: "patch_jump at l d = (Ok (), c')"
    using assms by (auto simp: emit_jump_at_def comp_Ok)
  show ?thesis using emit_jump_Ok [OF d] patch_jump_Ok [OF p] by (auto simp: same_def patch_bytes_def)
qed

lemma add_string_Ok:
  assumes "add_string os s c = (Ok i, c')"
  shows "ext c c' \<and> c_code c' = c_code c \<and> i < length (fn_strings (c_fn c')) \<and> snd (fn_strings (c_fn c') ! i) = s"
proof (cases "string_idx (fn_strings (c_fn c)) s")
  case (Some j)
  then have "j < length (fn_strings (c_fn c)) \<and> snd (fn_strings (c_fn c) ! j) = s"
    by (auto simp: string_idx_def first_in_Some_iff)
  moreover have "i = j" "c' = c" using assms Some by (auto simp: add_string_def)
  ultimately show ?thesis by simp
next
  case None
  then show ?thesis using assms by (auto simp: add_string_def ext_def Let_def split: if_splits prod.splits)
qed

lemma need_var_Ok: "need_var x c = (Ok s, c') \<Longrightarrow> c' = c \<and> (\<exists>i. resolve_var (c_syms c) x = Some i \<and> s = of_nat i)"
  by (auto simp: need_var_def comp_Ok split: option.splits)

lemma resolve_var_append:
  assumes "resolve_var syms y = None"
  shows "resolve_var (syms @ [(y, t)]) x = (if x = y then Some (length syms) else resolve_var syms x)"
proof -
  have "rev [0..<length (syms @ [(y, t)])] = length syms # rev [0..<length syms]" by simp
  moreover have "List.find (\<lambda>i. fst ((syms @ [(y, t)]) ! i) = x) (rev [0..<length syms])
      = List.find (\<lambda>i. fst (syms ! i) = x) (rev [0..<length syms])"
    by (rule find_cong) (auto simp: nth_append)
  ultimately show ?thesis by (auto simp: resolve_var_def)
qed

lemma add_var_Ok:
  assumes "add_var x t c = (Ok i, c')"
  shows "ext c c' \<and> c_code c' = c_code c \<and> resolve_var (c_syms c') x = Some i \<and> c_fn c' = c_fn c"
  using assms resolve_var_append [of "c_syms c" x t]
  by (auto simp: add_var_def comp_Ok ext_def split: if_splits)

section \<open>The fragment\<close>

text \<open>
  The programs the correctness theorem is about. Left out are the constructs the compiler
  gets wrong (\<^verbatim>\<open>&&\<close>, \<^verbatim>\<open>||\<close> and prefix \<^verbatim>\<open>++\<close>/\<^verbatim>\<open>--\<close>) and the bare-name statement,
  whose meaning (a variable or a call) depends on what is declared so far.
\<close>

fun plain :: "ast \<Rightarrow> bool" where
  "plain (A_LIT v) = True"
| "plain (A_STRLIT s) = True"
| "plain (A_VAR x) = True"
| "plain (A_BIN b x y) = (b \<noteq> BIN_ANDAND \<and> b \<noteq> BIN_OROR \<and> plain x \<and> plain y)"
| "plain (A_UN u x) = (\<not> is_inc_un u \<and> plain x)"
| "plain (A_POSTINC name inc x) = True"
| "plain (A_ASSIGN b name x) = plain x"
| "plain (A_CALL f args) = (length args \<le> NOC_MAX_ARGS \<and> (\<forall>x\<in>set args. plain x))"
| "plain (A_STMTEXPR e) = (var_name e = None \<and> plain e)"
| "plain (A_VARDECL t x a) = (case a of None \<Rightarrow> True | Some e \<Rightarrow> plain e)"
| "plain (A_BLOCK ss) = (\<forall>s\<in>set ss. plain s)"
| "plain (A_IF a b c) = (plain a \<and> plain b \<and> (case c of None \<Rightarrow> True | Some e \<Rightarrow> plain e))"
| "plain (A_WHILE a b) = (plain a \<and> plain b)"
| "plain (A_FOR i b c body) =
     ((case i of None \<Rightarrow> True | Some e \<Rightarrow> plain e) \<and> (case b of None \<Rightarrow> True | Some e \<Rightarrow> plain e)
      \<and> (case c of None \<Rightarrow> True | Some e \<Rightarrow> plain e) \<and> plain body)"
| "plain (A_RETURN a) = (case a of None \<Rightarrow> True | Some e \<Rightarrow> plain e)"
| "plain (A_FUNCDECL t f ps b) = False"

section \<open>Code only grows\<close>

lemma emits_ext:
  "emit1 os opc c = (Ok u, c') \<Longrightarrow> ext c c'"
  "emit1v os opc v c = (Ok u, c') \<Longrightarrow> ext c c'"
  "emit1u32 os opc w c = (Ok u, c') \<Longrightarrow> ext c c'"
  by (auto dest!: emit1_Ok emit1v_Ok emit1u32_Ok intro!: same_ext)

lemma emit_jump_ext: "emit_jump os opc c = (Ok at, c') \<Longrightarrow> ext c c'"
  by (auto dest!: emit_jump_Ok intro!: same_ext)

lemma push_defaults_ext: "push_defaults os f ks c = (Ok u, c') \<Longrightarrow> ext c c'"
  by (induction ks arbitrary: c) (auto simp: comp_Ok dest: emits_ext intro: ext_trans)

lemma compile_call_Ok:
  assumes "compile_call os name nargs args c = (Ok u, c')"
  obtains callee count d1 d2 d3 si where "noc_lookup (c_funcs c) name = Some callee"
    "call_count callee nargs = Inr count" "args c = (Ok (), d1)"
    "push_defaults os callee [nargs..<count] d1 = (Ok (), d2)" "add_string os name d2 = (Ok si, d3)"
    "same d3 c'" "c_code c' = c_code d3 @ op_byte OP_CALL # le_bytes 4 (of_nat si :: u32) @ le_bytes 4 (of_nat count :: u32)"
proof -
  from assms obtain callee count d1 d2 d3 si where *: "noc_lookup (c_funcs c) name = Some callee"
    "call_count callee nargs = Inr count" "args c = (Ok (), d1)"
    "push_defaults os callee [nargs..<count] d1 = (Ok (), d2)" "add_string os name d2 = (Ok si, d3)"
    "thenc (buf_ensure os 9) (emit_bytes (op_byte OP_CALL # le_bytes 4 (of_nat si :: u32)
        @ le_bytes 4 (of_nat count :: u32))) d3 = (Ok u, c')"
    by (auto simp: compile_call_def bindc_Ok readc_Ok thenc_Ok [of args] thenc_Ok [of "push_defaults _ _ _"]
        split: option.splits sum.splits)
  show ?thesis using that [OF *(1-5)] ensure_emit_Ok [OF *(6)] by blast
qed

lemma compile_call_ext:
  assumes "compile_call os name nargs args c = (Ok u, c')" and "\<And>d. args c = (Ok (), d) \<Longrightarrow> ext c d"
  shows "ext c c'"
  using assms(1)
proof (cases rule: compile_call_Ok)
  case (1 callee count d1 d2 d3 si)
  have "ext c d1" using assms(2) 1(3) .
  moreover have "ext d1 d2" using push_defaults_ext 1(4) .
  moreover have "ext d2 d3" using add_string_Ok [OF 1(5)] by blast
  moreover have "ext d3 c'" using 1(6,7) by (intro same_ext) auto
  ultimately show ?thesis using ext_trans by blast
qed

lemma need_var_ext: "need_var x c = (Ok s, c') \<Longrightarrow> ext c c'"
  using need_var_Ok by fastforce

lemma compile_expr_ext:
  "compile_expr os e c = (Ok u, c') \<Longrightarrow> plain e \<Longrightarrow> ext c c'"
  "compile_args os es c = (Ok u, c') \<Longrightarrow> \<forall>e\<in>set es. plain e \<Longrightarrow> ext c c'"
proof (induction os e and os es arbitrary: c u c' and c u c' rule: compile_expr_compile_args.induct)
  case (2 os s)
  then show ?case by (auto simp: comp_Ok dest!: add_string_Ok dest: emits_ext intro: ext_trans)
next
  case (4 os name args)
  then show ?case using compile_call_ext [of os name "length args" "compile_args os args" c u c'] by auto
next
  case (5 os b x y)
  then show ?case
    by (auto simp: compile_bin_def comp_Ok split: option.splits if_splits; (meson emits_ext ext_trans)?)
next
  case (6 os u x)
  then show ?case
    by (auto simp: compile_unop_def comp_Ok split: unop.splits; (meson emits_ext ext_trans)?)
next
  case (8 os b name x)
  then show ?case
    by (auto simp: compile_assign_def comp_Ok split: option.splits; (meson emits_ext need_var_ext ext_trans)?)
qed (auto simp: comp_Ok dest: emits_ext need_var_ext; (meson emits_ext need_var_ext ext_trans)?)+

lemma expr_pop_ext: "thenc (compile_expr os e) (emit1 os OP_POP) c = (Ok u, c') \<Longrightarrow> plain e \<Longrightarrow> ext c c'"
  by (auto simp: comp_Ok) (meson compile_expr_ext(1) emits_ext(1) ext_trans)

lemma patch_ext:
  assumes "ext c d" and "patch_jump at l d = (Ok u, c')" and "length (c_code c) \<le> Suc at"
  shows "ext c c'"
  using assms patch_jump_Ok [OF assms(2)] by (auto simp: ext_def same_def intro: prefix_patch)

lemma emit_jump_at_ext: "emit_jump_at os opc l c = (Ok u, c') \<Longrightarrow> ext c c'"
  by (auto dest!: emit_jump_at_Ok intro!: same_ext)

lemma ext_length: "ext c d \<Longrightarrow> length (c_code c) \<le> length (c_code d)"
  by (auto simp: ext_def prefix_length_le)

lemma finish_expr_ext: "finish_expr os k c = (Ok u, c') \<Longrightarrow> ext c c'"
  by (auto simp: finish_expr_def comp_Ok set_last_expr_def ext_def split: if_splits dest!: emits_ext(1))

lemma compile_exprstmt_plain:
  assumes "var_name e = None"
  shows "compile_exprstmt os e l = bindc (readc (\<lambda>c. expr_type (c_syms c) (c_funcs c) e \<noteq> NTYPE_VOID)) (\<lambda>nonvoid.
           thenc (compile_expr os e) (finish_expr os (l \<and> nonvoid)))"
proof -
  have "bare_call e c = None" for c using assms by (cases e) (auto simp: bare_call_def)
  then show ?thesis by (simp add: compile_exprstmt_def fun_eq_iff bindc_def readc_def)
qed

lemma compile_exprstmt_ext:
  "compile_exprstmt os e l c = (Ok u, c') \<Longrightarrow> var_name e = None \<Longrightarrow> plain e \<Longrightarrow> ext c c'"
  by (auto simp: compile_exprstmt_plain comp_Ok) (meson compile_expr_ext(1) finish_expr_ext ext_trans)

lemma compile_vardecl_ext:
  assumes "compile_vardecl os t x a c = (Ok u, c')" and "case a of None \<Rightarrow> True | Some e \<Rightarrow> plain e"
  shows "ext c c'"
  using assms by (auto simp: compile_vardecl_def comp_Ok split: option.splits dest!: add_var_Ok)
    (meson compile_expr_ext(1) emits_ext(3) ext_trans)

text \<open>The first part of a \<^verbatim>\<open>for\<close> statement.\<close>

definition for_first :: "allocator \<Rightarrow> ast option \<Rightarrow> unit comp" where
  "for_first os a =
     (case a of
        None \<Rightarrow> retc ()
      | Some (A_VARDECL t name e) \<Rightarrow> compile_vardecl os t name e
      | Some e \<Rightarrow> thenc (compile_expr os e) (emit1 os OP_POP))"

lemma for_first_expr: "\<not> is_decl e \<Longrightarrow> for_first os (Some e) = thenc (compile_expr os e) (emit1 os OP_POP)"
  by (cases e) (auto simp: for_first_def)

lemma for_first_ext:
  assumes "for_first os a c = (Ok u, c')" and "case a of None \<Rightarrow> True | Some e \<Rightarrow> plain e"
  shows "ext c c'"
proof (cases a)
  case (Some e)
  show ?thesis
  proof (cases "is_decl e")
    case True
    then obtain t x i where "e = A_VARDECL t x i" by (cases e) auto
    then show ?thesis using assms Some compile_vardecl_ext by (auto simp: for_first_def)
  next
    case False
    then show ?thesis using assms Some by (auto simp: for_first_expr intro: expr_pop_ext)
  qed
qed (use assms in \<open>simp add: for_first_def retc_Ok\<close>)

lemma compile_for:
  "compile_stmt os (A_FOR a b c body) l =
     thenc (for_first os a)
       (bindc (readc code_pc) (\<lambda>l_top.
         bindc
           (case b of
              None \<Rightarrow> retc None
            | Some e \<Rightarrow> thenc (compile_expr os e) (bindc (emit_jump os OP_JMPF) (\<lambda>je. retc (Some je))))
           (\<lambda>je.
             thenc (compile_stmt os body False)
               (thenc
                 (case c of
                    None \<Rightarrow> retc ()
                  | Some e \<Rightarrow> thenc (compile_expr os e) (emit1 os OP_POP))
                 (thenc (emit_jump_at os OP_JMP l_top)
                   (bindc (readc code_pc) (\<lambda>l_end.
                     (case je of None \<Rightarrow> retc () | Some je \<Rightarrow> patch_jump je l_end))))))))"
  by (simp add: for_first_def)

lemma compile_stmt_ext:
  "compile_stmt os s l c = (Ok u, c') \<Longrightarrow> plain s \<Longrightarrow> ext c c'"
  "compile_block os ss c = (Ok u, c') \<Longrightarrow> \<forall>s\<in>set ss. plain s \<Longrightarrow> ext c c'"
proof (induction os s l and os ss arbitrary: c u c' and c u c' rule: compile_stmt_compile_block.induct)
  case (1 os e l)
  then show ?case using compile_exprstmt_ext by auto
next
  case (2 os t name a l)
  then show ?case using compile_vardecl_ext by simp
next
  case (4 os a b e l)
  then obtain c1 je c2 c3 where c: "compile_expr os a c = (Ok (), c1)" "emit_jump os OP_JMPF c1 = (Ok je, c2)"
    "compile_stmt os b False c2 = (Ok (), c3)"
    and rest: "(case e of
              None \<Rightarrow> bindc (readc code_pc) (\<lambda>l_else. patch_jump je l_else)
            | Some e \<Rightarrow>
                bindc (emit_jump os OP_JMP) (\<lambda>jd.
                  bindc (readc code_pc) (\<lambda>l_else.
                    thenc (compile_stmt os e False)
                      (bindc (readc code_pc) (\<lambda>l_done.
                        thenc (patch_jump je l_else) (patch_jump jd l_done)))))) c3 = (Ok u, c')"
    by (auto simp: bindc_Ok thenc_Ok)
  have ext: "ext c c1" "ext c1 c2" "ext c2 c3"
    using c 4 compile_expr_ext(1) emit_jump_ext by auto
  have je: "length (c_code c) \<le> je" using emit_jump_Ok [OF c(2)] ext_length [OF ext(1)] by simp
  have c3: "ext c c3" using ext ext_trans by blast
  show ?case
  proof (cases e)
    case None
    then show ?thesis using rest patch_ext [OF c3] je by (auto simp: comp_Ok)
  next
    case (Some el)
    then obtain jd c4 c5 c6 where d: "emit_jump os OP_JMP c3 = (Ok jd, c4)"
      "compile_stmt os el False c4 = (Ok (), c5)" "patch_jump je (length (c_code c4)) c5 = (Ok (), c6)"
      "patch_jump jd (length (c_code c5)) c6 = (Ok u, c')"
      using rest by (auto simp: comp_Ok code_pc_def)
    have "ext c4 c5" using 4(2) [OF Some d(2)] 4(4) Some by simp
    then have c5: "ext c c5" using c3 emit_jump_ext [OF d(1)] ext_trans by blast
    have "length (c_code c) \<le> jd" using emit_jump_Ok [OF d(1)] ext_length [OF c3] by simp
    then show ?thesis using patch_ext [OF patch_ext [OF c5 d(3)] d(4)] je by simp
  qed
next
  case (5 os a b l)
  then obtain c1 je c2 c3 c4 where c: "compile_expr os a c = (Ok (), c1)" "emit_jump os OP_JMPF c1 = (Ok je, c2)"
    "compile_stmt os b False c2 = (Ok (), c3)" "emit_jump_at os OP_JMP (length (c_code c)) c3 = (Ok (), c4)"
    "patch_jump je (length (c_code c4)) c4 = (Ok u, c')"
    by (auto simp: comp_Ok code_pc_def)
  have ext: "ext c c1" "ext c1 c2" "ext c2 c3" "ext c3 c4"
    using c 5 compile_expr_ext(1) emit_jump_ext emit_jump_at_ext by auto
  have "length (c_code c) \<le> je" using emit_jump_Ok [OF c(2)] ext_length [OF ext(1)] by simp
  then show ?case using patch_ext [OF _ c(5)] ext ext_trans by (meson le_SucI)
next
  case (6 os a b e body l)
  from 6(2) [unfolded compile_for] obtain c0 je c1 c2 c3 c4 where c: "for_first os a c = (Ok (), c0)"
    "(case b of
              None \<Rightarrow> retc None
            | Some e \<Rightarrow> thenc (compile_expr os e) (bindc (emit_jump os OP_JMPF) (\<lambda>je. retc (Some je)))) c0 = (Ok je, c1)"
    "compile_stmt os body False c1 = (Ok (), c2)"
    "(case e of
                    None \<Rightarrow> retc ()
                  | Some e \<Rightarrow> thenc (compile_expr os e) (emit1 os OP_POP)) c2 = (Ok (), c3)"
    "emit_jump_at os OP_JMP (length (c_code c0)) c3 = (Ok (), c4)"
    "(case je of None \<Rightarrow> retc () | Some je \<Rightarrow> patch_jump je (length (c_code c4))) c4 = (Ok u, c')"
    by (auto simp: bindc_Ok thenc_Ok readc_Ok code_pc_def)
  have 0: "ext c c0" using for_first_ext [OF c(1)] 6(3) by simp
  have 1: "ext c0 c1 \<and> (\<forall>j. je = Some j \<longrightarrow> length (c_code c0) \<le> j)"
  proof (cases b)
    case (Some e)
    then obtain d j where d: "compile_expr os e c0 = (Ok (), d)" "emit_jump os OP_JMPF d = (Ok j, c1)" "je = Some j"
      using c(2) by (auto simp: comp_Ok)
    have "ext c0 d" using compile_expr_ext(1) [OF d(1)] 6(3) Some by simp
    then show ?thesis using emit_jump_ext [OF d(2)] emit_jump_Ok [OF d(2)] d(3) ext_length ext_trans by auto
  qed (use c(2) in \<open>auto simp: retc_Ok\<close>)
  have 2: "ext c1 c2" using 6 c(3) by simp
  have 3: "ext c2 c3" using c(4) 6(3) by (cases e) (auto simp: retc_Ok intro: expr_pop_ext)
  have 4: "ext c c4" using 0 1 2 3 emit_jump_at_ext [OF c(5)] ext_trans by blast
  show ?case
  proof (cases je)
    case (Some j)
    then have "length (c_code c) \<le> Suc j" using 1 ext_length [OF 0] by auto
    then show ?thesis using c(6) Some patch_ext [OF 4] by simp
  qed (use c(6) 4 in \<open>simp add: retc_Ok\<close>)
next
  case (7 os a l)
  then show ?case
    by (auto simp: comp_Ok split: if_splits option.splits; meson compile_expr_ext(1) emits_ext ext_trans)
qed (auto simp: comp_Ok; (meson ext_trans)?)+
end
