(* ===== verification/Correct.thy ===== *)
theory Correct
  imports CodeGen
begin

text \<open>
  Correctness of the compiler against the reference evaluator: from a state that holds the
  variables of a store, the machine running the code of an expression or a statement ends in
  a state that holds what the evaluator computes, stops with the evaluator's error, or stops
  at one of its own limits.
\<close>

section \<open>Static conditions\<close>

definition strs_ok :: "fctx \<Rightarrow> noc_fn \<Rightarrow> bool" where
  "strs_ok cx f \<longleftrightarrow> (\<forall>i<length (fn_strings f). fc_strs cx (snd (fn_strings f ! i)) = fst (fn_strings f ! i))"

text \<open>The finished function has everything the compiler state has promised so far.\<close>

definition fits :: "rctx \<Rightarrow> fctx \<Rightarrow> ccomp \<Rightarrow> bool" where
  "fits X cx c \<longleftrightarrow> prefix (fn_strings (c_fn c)) (fn_strings (x_fn X))
     \<and> (\<forall>x i. resolve_var (c_syms c) x = Some i \<longrightarrow> resolve_var (x_syms X) x = Some i)
     \<and> fc_sigs cx = c_funcs c \<and> strs_ok cx (x_fn X) \<and> length (x_syms X) \<le> NOC_MAX_LOCALS
     \<and> length (fn_strings (x_fn X)) \<le> NOC_MAX_STRINGS \<and> length (fn_code (x_fn X)) < 2 ^ 32
     \<and> (c_in_fn c \<longrightarrow> x_rest X \<noteq> []) \<and> (\<forall>f\<in>set (c_funcs c). fn_nargs f < 2 ^ 32)"

lemma fits_ext: "fits X cx c' \<Longrightarrow> ext c c' \<Longrightarrow> fits X cx c"
  by (auto simp: fits_def ext_def intro: prefix_order.trans)

lemma fits_same: "fits X cx c' \<Longrightarrow> same c c' \<Longrightarrow> fits X cx c"
  by (auto simp: fits_def same_def)

definition placed :: "rctx \<Rightarrow> ccomp \<Rightarrow> ccomp \<Rightarrow> bool" where
  "placed X c c' \<longleftrightarrow> agree (fn_code (x_fn X)) (length (c_code c)) (c_code c')"

lemma placed_before: "placed X c e \<Longrightarrow> ext d e \<Longrightarrow> placed X c d"
  unfolding placed_def ext_def using agree_prefix by blast

lemma placed_after: "placed X c e \<Longrightarrow> ext c d \<Longrightarrow> placed X d e"
  unfolding placed_def using agree_prefix ext_length by blast

lemma placed_code:
  assumes "placed X c e" and "ext d e" and "c_code d = c_code c @ bs"
  shows "code_at (fn_code (x_fn X)) (length (c_code c)) bs"
  using assms agree_code_at [of _ "length (c_code c)" "c_code e" "c_code c" bs]
  by (auto simp: placed_def ext_def)

lemma fits_slot:
  assumes "fits X cx c" and "resolve_var (c_syms c) x = Some i"
  shows "resolve_var (x_syms X) x = Some i" and "i < 2 ^ 32"
proof -
  show "resolve_var (x_syms X) x = Some i" using assms by (simp add: fits_def)
  then have "i < length (x_syms X)" using resolve_var_name by blast
  then show "i < 2 ^ 32" using assms(1) by (simp add: fits_def NOC_MAX_LOCALS_def)
qed

lemma fits_string:
  assumes "fits X cx c" and "i < length (fn_strings (c_fn c))"
  shows "i < length (fn_strings (x_fn X))" and "i < 2 ^ 32"
    and "snd (fn_strings (x_fn X) ! i) = snd (fn_strings (c_fn c) ! i)"
    and "fst (fn_strings (x_fn X) ! i) = fc_strs cx (snd (fn_strings (c_fn c) ! i))"
proof -
  have p: "prefix (fn_strings (c_fn c)) (fn_strings (x_fn X))" using assms(1) by (simp add: fits_def)
  then show i: "i < length (fn_strings (x_fn X))" using assms(2) prefix_length_le by fastforce
  then show "i < 2 ^ 32" using assms(1) by (simp add: fits_def NOC_MAX_STRINGS_def)
  show s: "snd (fn_strings (x_fn X) ! i) = snd (fn_strings (c_fn c) ! i)"
    using p assms(2) by (auto simp: prefix_def nth_append)
  show "fst (fn_strings (x_fn X) ! i) = fc_strs cx (snd (fn_strings (c_fn c) ! i))"
    using assms(1) i s unfolding fits_def strs_ok_def by metis
qed

section \<open>Emitted instructions run\<close>

text \<open>Each rule: what was emitted between \<open>c\<close> and \<open>c'\<close>, run from a configuration at the end of
  \<open>c\<close>, leads to a configuration at the end of \<open>c'\<close>.\<close>

abbreviation at_end :: "'w sem \<Rightarrow> rctx \<Rightarrow> ccomp \<Rightarrow> 'w st \<Rightarrow> u64 list \<Rightarrow> 'w vm \<Rightarrow> bool" where
  "at_end se X c st stk \<equiv> cfg se X (length (c_code c)) st stk"

lemma run_push:
  assumes quiet: "quiet env" and "emit1v os OP_PUSH v c = (Ok u, c')" and "placed X c c'" and "at_end se X c st stk s"
  shows "sim env s (\<lambda>_. at_end se X c' st (stk @ [v])) (Ok ())"
  using do_push [OF assms(4) quiet placed_code [OF assms(3) ext_refl]] emit1v_Ok [OF assms(2)] by auto

lemma run_pushstr:
  assumes quiet: "quiet env" and "emit1u32 os OP_PUSHSTR (of_nat i) c = (Ok u, c')" and "placed X c c'" and "at_end se X c st stk s"
    and "fits X cx c" and "i < length (fn_strings (c_fn c))"
  shows "sim env s (\<lambda>_. at_end se X c' st (stk @ [fc_strs cx (snd (fn_strings (c_fn c) ! i))])) (Ok ())"
  using do_pushstr [OF assms(4) quiet placed_code [OF assms(3) ext_refl], of i] emit1u32_Ok [OF assms(2)]
    fits_string [OF assms(5,6)] by simp

lemma run_load:
  assumes quiet: "quiet env" and "emit1u32 os OP_LOAD (of_nat i) c = (Ok u, c')" and "placed X c c'" and "at_end se X c st stk s"
    and "fits X cx c" and "resolve_var (c_syms c) x = Some i"
  shows "sim env s (\<lambda>_. at_end se X c' st (stk @ [fst st x])) (Ok ())"
  using do_load [OF assms(4) quiet placed_code [OF assms(3) ext_refl]] emit1u32_Ok [OF assms(2)]
    fits_slot [OF assms(5,6)] by auto

lemma run_store:
  assumes quiet: "quiet env" and "emit1u32 os OP_STORE (of_nat i) c = (Ok u, c')" and "placed X c c'" and "at_end se X c st (stk @ [v]) s"
    and "fits X cx c" and "resolve_var (c_syms c) x = Some i"
  shows "sim env s (\<lambda>_. at_end se X c' ((fst st)(x := v), snd st) stk) (Ok ())"
  using do_store [OF assms(4) quiet placed_code [OF assms(3) ext_refl]] emit1u32_Ok [OF assms(2)]
    fits_slot [OF assms(5,6)] by auto

lemma run_dup:
  assumes quiet: "quiet env" and "emit1 os OP_DUP c = (Ok u, c')" and "placed X c c'" and "at_end se X c st (stk @ [v]) s"
  shows "sim env s (\<lambda>_. at_end se X c' st (stk @ [v, v])) (Ok ())"
  using do_dup [OF assms(4) quiet placed_code [OF assms(3) ext_refl]] emit1_Ok [OF assms(2)] by auto

lemma run_pop:
  assumes quiet: "quiet env" and "emit1 os OP_POP c = (Ok u, c')" and "placed X c c'" and "at_end se X c st (stk @ [v]) s"
  shows "sim env s (\<lambda>_. at_end se X c' st stk) (Ok ())"
  using do_pop [OF assms(4) quiet placed_code [OF assms(3) ext_refl]] emit1_Ok [OF assms(2)] by auto

lemma run_alu:
  assumes quiet: "quiet env" and "emit1 os opc c = (Ok u, c')" and "placed X c c'" and "at_end se X c st (stk @ [a, b]) s"
    and "bin_op bo = Some opc \<or> asg_op ao = Some opc"
  shows "sim env s (\<lambda>r. at_end se X c' st (stk @ [r])) (alu opc a b)"
  using do_alu_at [OF assms(4) quiet placed_code [OF assms(3) ext_refl] assms(5)] emit1_Ok [OF assms(2)] by auto

lemma run_un:
  assumes quiet: "quiet env" and "emit1 os (un_opcode u) c = (Ok r, c')" and "placed X c c'" and "at_end se X c st (stk @ [a]) s"
    and "\<not> is_inc_un u"
  shows "sim env s (\<lambda>_. at_end se X c' st (stk @ [apply_un u a])) (Ok ())"
  using do_un_at [OF assms(4) quiet placed_code [OF assms(3) ext_refl] assms(5)] emit1_Ok [OF assms(2)] by auto

lemma run_defaults:
  assumes quiet: "quiet env" and "push_defaults os f ks c = (Ok u, c')" and "placed X c c'" and "at_end se X c st stk s"
  shows "sim env s (\<lambda>_. at_end se X c' st (stk @ map (fn_defaults f) ks)) (Ok ())"
  using assms(2-)
proof (induction ks arbitrary: c stk s)
  case Nil
  then show ?case by (auto simp: retc_Ok intro: sim_Ok)
next
  case (Cons k ks)
  then obtain d where d: "emit1v os OP_PUSH (fn_defaults f k) c = (Ok (), d)" "push_defaults os f ks d = (Ok u, c')"
    by (auto simp: comp_Ok)
  have p: "placed X c d" "placed X d c'"
    using placed_before [OF Cons.prems(2) push_defaults_ext [OF d(2)]] placed_after [OF Cons.prems(2) emits_ext(2) [OF d(1)]] .
  show ?case
  proof (rule sim_seq [OF run_push [OF quiet d(1) p(1) Cons.prems(3)]])
    fix t
    assume "at_end se X d st (stk @ [fn_defaults f k]) t"
    from Cons.IH [OF d(2) p(2) this] show "sim env t (\<lambda>_. at_end se X c' st (stk @ map (fn_defaults f) (k # ks))) (Ok ())"
      by simp
  qed
qed

section \<open>Calls\<close>

text \<open>A user function in the registry is what the compiler made of its source.\<close>

definition fn_src_ok :: "'w sem \<Rightarrow> noc_fn \<Rightarrow> bool" where
  "fn_src_ok se f \<longleftrightarrow> (\<exists>os cx body c0 c1.
     se_src se f = Some (cx, c_syms c1, body) \<and> (\<forall>s\<in>set body. plain s)
     \<and> compile_block os body c0 = (Ok (), c1) \<and> c_code c0 = [] \<and> c_in_fn c0
     \<and> fn_code f = c_code c1 @ op_byte OP_PUSH # le_bytes 8 (0 :: u64) @ [op_byte OP_RET]
     \<and> fn_strings f = fn_strings (c_fn c1) \<and> fn_nlocals f = length (c_syms c1)
     \<and> fc_sigs cx = c_funcs c0 \<and> (\<forall>g\<in>set (c_funcs c0). fn_nargs g < 2 ^ 32)
     \<and> strs_ok cx f \<and> length (c_syms c1) \<le> NOC_MAX_LOCALS
     \<and> length (fn_strings f) \<le> NOC_MAX_STRINGS \<and> length (fn_code f) < 2 ^ 32)"

text \<open>The run is not interrupted, builtins leave the registry alone, and every user function
  has a source.\<close>

definition sem_ok :: "'w sem \<Rightarrow> bool" where
  "sem_ok se \<longleftrightarrow> quiet (se_env se)
     \<and> (\<forall>i args fs w. fst (snd (snd (call_builtin (se_env se) i args fs w))) = fs)
     \<and> (\<forall>f\<in>set (se_funcs se). fn_builtin f < 0 \<longrightarrow> fn_src_ok se f)"

fun flow_post :: "'w sem \<Rightarrow> rctx \<Rightarrow> ccomp \<Rightarrow> flow \<times> 'w st \<Rightarrow> 'w vm \<Rightarrow> bool" where
  "flow_post se X c (Normal, st) t = at_end se X c st [] t"
| "flow_post se X c (Returned v, st) t = returned se X v (snd st) t"

lemma flow_post_fun:
  "flow_post se X c (Normal, st) = at_end se X c st []" "flow_post se X c (Returned v, st) = returned se X v (snd st)"
  by (simp_all add: fun_eq_iff)

lemma flow_post_cong:
  assumes "length (c_code c) = length (c_code c')"
  shows "flow_post se X c = flow_post se X c'"
proof -
  have "flow_post se X c (fl, st) t = flow_post se X c' (fl, st) t" for fl st t using assms by (cases fl) auto
  then show ?thesis by (auto simp: fun_eq_iff)
qed

definition block_sim :: "'w sem \<Rightarrow> nat \<Rightarrow> bool" where
  "block_sim se n \<longleftrightarrow> (\<forall>os ss c c' X cx st s. (\<forall>s\<in>set ss. plain s) \<longrightarrow> compile_block os ss c = (Ok (), c')
     \<longrightarrow> fits X cx c' \<longrightarrow> placed X c c' \<longrightarrow> at_end se X c st [] s
     \<longrightarrow> sim (se_env se) s (flow_post se X c') (execs se n cx ss st))"

lemma sim_then:
  assumes "sim env s Q r" and "\<And>x t. Q x t \<Longrightarrow> sim env t (\<lambda>_. R x) (Ok ())"
  shows "sim env s R r"
proof -
  have "sim env t R (Ok x)" if "Q x t" for x t
    using assms(2) [OF that] by (auto simp: sim_def)
  from sim_bind [OF assms(1) this] show ?thesis by (cases r) auto
qed

lemma sim_bind2:
  assumes "sim env s (\<lambda>(x, y) t. Q x y t) r" and "\<And>x y t. Q x y t \<Longrightarrow> sim env t R (f x y)"
  shows "sim env s R (bind_res r (\<lambda>(x, y). f x y))"
  by (rule sim_bind [OF assms(1)]) (use assms(2) in auto)

lemma sim_bind':
  assumes "sim env s Q r" and "\<And>x t. r = Ok x \<Longrightarrow> Q x t \<Longrightarrow> sim env t R (f x)"
  shows "sim env s R (bind_res r f)"
proof (cases "\<exists>m\<in>limits. stops env s m")
  case False
  then show ?thesis using assms sim_steps [of env s _ R] by (cases r) (auto simp: sim_def)
qed (auto simp: sim_def)

definition flow_value :: "flow \<Rightarrow> u64" where
  "flow_value fl = (case fl of Normal \<Rightarrow> 0 | Returned v \<Rightarrow> v)"

lemma run_body:
  assumes ok: "sem_ok se" and IH: "block_sim se m" and f: "fn_src_ok se (x_fn Y)"
    and src: "se_src se (x_fn Y) = Some (cx, syms, body)" and Y: "x_syms Y = syms" "x_rest Y \<noteq> []"
    and s: "cfg se Y 0 st [] s"
  shows "sim (se_env se) s (\<lambda>(fl, st') t. returned se Y (flow_value fl) (snd st') t) (execs se m cx body st)"
proof -
  from f src obtain os c0 c1 where c: "\<forall>s\<in>set body. plain s" "compile_block os body c0 = (Ok (), c1)"
    "c_code c0 = []" "c_in_fn c0" "syms = c_syms c1" "fc_sigs cx = c_funcs c0" "strs_ok cx (x_fn Y)" "\<forall>g\<in>set (c_funcs c0). fn_nargs g < 2 ^ 32"
    and F: "fn_code (x_fn Y) = c_code c1 @ op_byte OP_PUSH # le_bytes 8 (0 :: u64) @ [op_byte OP_RET]"
      "fn_strings (x_fn Y) = fn_strings (c_fn c1)"
    and lim: "length (c_syms c1) \<le> NOC_MAX_LOCALS" "length (fn_strings (x_fn Y)) \<le> NOC_MAX_STRINGS"
      "length (fn_code (x_fn Y)) < 2 ^ 32"
    unfolding fn_src_ok_def by auto
  have "ext c0 c1" using compile_stmt_ext(2) [OF c(2,1)] .
  then have fits: "fits Y cx c1" using c F lim Y by (simp add: fits_def ext_def)
  have placed: "placed Y c0 c1" using F by (auto simp: placed_def agree_def nth_append)
  have quiet: "quiet (se_env se)" using ok by (simp add: sem_ok_def)
  have code: "code_at (fn_code (x_fn Y)) (length (c_code c1)) (op_byte OP_PUSH # le_bytes 8 (0 :: u64))"
    "code_at (fn_code (x_fn Y)) (length (c_code c1) + 9) [op_byte OP_RET]"
    using F by (simp_all add: code_at_def)
  have "sim (se_env se) s (flow_post se Y c1) (execs se m cx body st)"
    using IH c fits placed s unfolding block_sim_def by (metis list.size(3))
  then show ?thesis
  proof (rule sim_then)
    fix x t
    assume x: "flow_post se Y c1 x t"
    obtain fl st' where fl: "x = (fl, st')" by (cases x)
    show "sim (se_env se) t (\<lambda>_. (\<lambda>(fl, st'). returned se Y (flow_value fl) (snd st')) x) (Ok ())"
    proof (cases fl)
      case Normal
      then have "at_end se Y c1 st' [] t" using x fl by simp
      note push = do_push [OF this quiet code(1)]
      have "sim (se_env se) t (\<lambda>_. returned se Y 0 (snd st')) (Ok ())"
        by (rule sim_seq [OF push]) (rule do_ret_at [OF _ quiet code(2) Y(2)])
      then show ?thesis using fl Normal by (simp add: flow_value_def)
    next
      case (Returned v)
      then show ?thesis using x fl by (auto simp: flow_value_def intro: sim_Ok)
    qed
  qed
qed

definition calls_sim :: "'w sem \<Rightarrow> nat \<Rightarrow> bool" where
  "calls_sim se n \<longleftrightarrow> (\<forall>m. n = Suc m \<longrightarrow> block_sim se m)"

text \<open>What a call does once its arguments are values: the part of \<open>eval\<close> after \<open>evals\<close>.\<close>

definition call_result :: "'w sem \<Rightarrow> nat \<Rightarrow> string \<Rightarrow> nat \<Rightarrow> u64 list \<Rightarrow> 'w st \<Rightarrow> (u64 \<times> 'w st) res" where
  "call_result se n name count vs st =
     (case noc_lookup (se_funcs se) name of
        None \<Rightarrow> Err ''unknown function at runtime''
      | Some callee \<Rightarrow>
          if fn_builtin callee \<ge> 0 then
            (case call_builtin (se_env se) (nat (fn_builtin callee)) vs (se_funcs se) (snd st) of
               (ok, r, _, w) \<Rightarrow> if ok then Ok (r, (fst st, w)) else Err ''builtin call failed'')
          else if fn_nlocals callee < count then Err ''bad callee frame''
          else (case n of
                  0 \<Rightarrow> Crash OutOfFuel
                | Suc m \<Rightarrow>
                    (case se_src se callee of
                       None \<Rightarrow> Crash NullDeref
                     | Some (cx', syms, body) \<Rightarrow>
                         bind_res (execs se m cx' body (entry_store syms vs, snd st)) (\<lambda>(fl, st').
                           Ok (flow_value fl, (fst st, snd st'))))))"

lemma osim_conseq: "osim r Q x \<Longrightarrow> (\<And>x t. Q x t \<Longrightarrow> R x t) \<Longrightarrow> osim r R x"
  by (cases x) (auto simp: osim_def)

lemma eval_call:
  "eval se n cx (A_CALL name args) st =
     (case noc_lookup (fc_sigs cx) name of
        None \<Rightarrow> Err ''unknown function''
      | Some sig \<Rightarrow>
          (case call_count sig (length args) of
             Inl e \<Rightarrow> Err e
           | Inr count \<Rightarrow>
               bind_res (evals se n cx args st) (\<lambda>(vs, st).
                 call_result se n name count (call_values sig count vs) st)))"
  unfolding eval.simps call_result_def Let_def flow_value_def ..

lemma lookup_in: "noc_lookup fs name = Some f \<Longrightarrow> f \<in> set fs"
  by (auto simp: noc_lookup_def find_Some_iff)

lemma run_call:
  assumes ok: "sem_ok se" and IH: "calls_sim se n"
    and c: "same d c'" "c_code c' = c_code d @ op_byte OP_CALL # le_bytes 4 (of_nat si :: u32) @ le_bytes 4 (of_nat count :: u32)"
    and si: "si < length (fn_strings (c_fn d))" "snd (fn_strings (c_fn d) ! si) = name"
    and fits: "fits X cx d" and placed: "placed X d c'" and s: "at_end se X d st (stk @ vs) s"
    and count: "length vs = count" "count < 2 ^ 32"
  shows "sim (se_env se) s (\<lambda>(v, st') t. at_end se X c' st' (stk @ [v]) t) (call_result se n name count vs st)"
proof -
  let ?env = "se_env se"
  have quiet: "quiet ?env" using ok by (simp add: sem_ok_def)
  have code: "code_at (fn_code (x_fn X)) (length (c_code d))
      (op_byte OP_CALL # le_bytes 4 (of_nat si :: u32) @ le_bytes 4 (of_nat (length vs) :: u32))"
    using placed_code [OF placed ext_refl c(2)] count(1) by simp
  note str = fits_string [OF fits si(1)]
  have name: "snd (fn_strings (x_fn X) ! si) = name" using str(3) si(2) by simp
  have pc': "length (c_code c') = length (c_code d) + 9" using c(2) by simp
  have vs32: "length vs < 2 ^ 32" using count by simp
  note call = call_at [OF s quiet code str(1,2) vs32]
  show ?thesis
  proof (cases "noc_lookup (se_funcs se) name")
    case None
    have "osim (do_call ?env (x_fn X) (of_nat si) (length vs) t) Q (Err ''unknown function at runtime'' :: (u64 \<times> 'a st) res)"
      if "cfg se X (length (c_code d) + 9) st (stk @ vs) t" for t Q
      using that None str name by (simp add: do_call_def osim_def cfg_def unat_of_nat)
    from call [OF this] show ?thesis unfolding call_result_def None option.case .
  next
    case (Some callee)
    note lk = Some [folded name]
    show ?thesis
    proof (cases "fn_builtin callee \<ge> 0")
      case True
      obtain b r fs w where b: "call_builtin ?env (nat (fn_builtin callee)) vs (se_funcs se) (snd st) = (b, r, fs, w)"
        by (metis prod_cases4)
      moreover have "fs = se_funcs se"
        using ok b unfolding sem_ok_def by (metis fst_conv snd_conv)
      ultimately have b': "call_builtin ?env (nat (fn_builtin callee)) vs (se_funcs se) (snd st) = (b, r, se_funcs se, w)" by simp
      have "sim ?env s (\<lambda>r. cfg se X (length (c_code d) + 9) (fst st, w) (stk @ [r])) (if b then Ok r else Err ''builtin call failed'')"
        by (rule call) (rule do_call_builtin [OF _ str(1,2) lk True b'])
      from sim_bind [OF this, of "\<lambda>(v, st') t. at_end se X c' st' (stk @ [v]) t" "\<lambda>r. Ok (r, (fst st, w))"]
      have "sim ?env s (\<lambda>(v, st') t. at_end se X c' st' (stk @ [v]) t)
          (bind_res (if b then Ok r else Err ''builtin call failed'') (\<lambda>r. Ok (r, (fst st, w))))"
        using pc' by (simp add: sim_Ok)
      then show ?thesis using True Some b by (cases b) (simp_all add: call_result_def)
    next
      case False
      show ?thesis
      proof (cases "fn_nlocals callee < count")
        case True
        have "osim (do_call ?env (x_fn X) (of_nat si) (length vs) t) Q (Err ''bad callee frame'' :: (u64 \<times> 'a st) res)"
          if "cfg se X (length (c_code d) + 9) st (stk @ vs) t" for t Q
          using that lk str False True count
          by (auto simp: do_call_def enter_fn_def osim_def cfg_def unat_of_nat limits_def Let_def)
        from call [OF this] show ?thesis using Some False True by (simp add: call_result_def)
      next
        case nl: False
        have fok: "fn_src_ok se callee" using ok lookup_in [OF Some] False by (auto simp: sem_ok_def)
        then obtain cx' syms body where src: "se_src se callee = Some (cx', syms, body)" "fn_nlocals callee = length syms"
          unfolding fn_src_ok_def by auto
        show ?thesis
        proof (cases n)
          case 0
          then show ?thesis using Some False nl by (simp add: call_result_def)
        next
          case (Suc m)
          let ?R = "\<lambda>(fl, st') t. at_end se X c' (fst st, snd st') (stk @ [flow_value fl]) t"
          have body: "sim ?env t ?R (execs se m cx' body (entry_store syms vs, snd st))"
            if t: "cfg se (callee_ctx X (length (c_code d) + 9) (length stk) callee syms (vstack u)) 0 (entry_store syms vs, snd st) [] t"
              and u: "cfg se X (length (c_code d) + 9) st (stk @ vs) u" for t u
          proof (rule sim_conseq [OF run_body [OF ok _ _ _ _ _ t]])
            show "block_sim se m" using IH Suc by (simp add: calls_sim_def)
          next
            fix x v
            assume "(\<lambda>(fl, st') t. returned se (callee_ctx X (length (c_code d) + 9) (length stk) callee syms (vstack u))
              (flow_value fl) (snd st') t) x v"
            then show "?R x v" using callee_returned [OF u] pc' by (cases x) simp
          qed (use fok src in \<open>simp_all add: callee_ctx_def\<close>)
          have "sim ?env s ?R (execs se m cx' body (entry_store syms vs, snd st))"
          proof (rule sim_seq)
            show "sim ?env s (\<lambda>_ t. \<exists>u. cfg se X (length (c_code d) + 9) st (stk @ vs) u
                \<and> cfg se (callee_ctx X (length (c_code d) + 9) (length stk) callee syms (vstack u)) 0 (entry_store syms vs, snd st) [] t) (Ok ())"
              by (rule call) (rule osim_conseq [OF do_call_user [OF _ str(1,2) lk False _ src(2)]], use nl count in auto)
          qed (use body in blast)
          from sim_bind [OF this, of "\<lambda>(v, st') t. at_end se X c' st' (stk @ [v]) t" "\<lambda>(fl, st'). Ok (flow_value fl, (fst st, snd st'))"]
          show ?thesis using Some False nl Suc src(1) by (auto simp: call_result_def intro: sim_Ok)
        qed
      qed
    qed
  qed
qed

section \<open>Expressions\<close>

lemma evals_length: "evals se n cx es st = Ok (vs, st') \<Longrightarrow> length vs = length es"
  by (induction es arbitrary: st vs st') (auto simp: bind_res_Ok_iff)

lemma call_count_room: "call_count f n = Inr count \<Longrightarrow> n \<le> count"
  by (auto simp: call_count_def split: if_splits)

lemma sim_value: "sim env s (\<lambda>_. P) (Ok ()) \<Longrightarrow> (\<And>t. P t \<Longrightarrow> Q x t) \<Longrightarrow> sim env s Q (Ok x)"
  by (erule sim_seq) (rule sim_Ok)

lemma split_code:
  assumes "ext c d" and "ext d c'" and "fits X cx c'" and "placed X c c'"
  shows "fits X cx d" and "placed X c d" and "placed X d c'"
  using fits_ext [OF assms(3,2)] placed_before [OF assms(4,2)] placed_after [OF assms(4,1)] .

definition expr_sim :: "'w sem \<Rightarrow> nat \<Rightarrow> allocator \<Rightarrow> ast \<Rightarrow> bool" where
  "expr_sim se n os e \<longleftrightarrow> (\<forall>c c' X cx st stk s. compile_expr os e c = (Ok (), c') \<longrightarrow> fits X cx c' \<longrightarrow> placed X c c'
     \<longrightarrow> at_end se X c st stk s
     \<longrightarrow> sim (se_env se) s (\<lambda>(v, st') t. at_end se X c' st' (stk @ [v]) t) (eval se n cx e st))"

definition args_sim :: "'w sem \<Rightarrow> nat \<Rightarrow> allocator \<Rightarrow> ast list \<Rightarrow> bool" where
  "args_sim se n os es \<longleftrightarrow> (\<forall>c c' X cx st stk s. compile_args os es c = (Ok (), c') \<longrightarrow> fits X cx c' \<longrightarrow> placed X c c'
     \<longrightarrow> at_end se X c st stk s
     \<longrightarrow> sim (se_env se) s (\<lambda>(vs, st') t. at_end se X c' st' (stk @ vs) t) (evals se n cx es st))"

lemma expr_simD:
  "expr_sim se n os e \<Longrightarrow> compile_expr os e c = (Ok (), c') \<Longrightarrow> fits X cx c' \<Longrightarrow> placed X c c' \<Longrightarrow> at_end se X c st stk s
   \<Longrightarrow> sim (se_env se) s (\<lambda>(v, st') t. at_end se X c' st' (stk @ [v]) t) (eval se n cx e st)"
  unfolding expr_sim_def by blast

lemma lit_sim:
  assumes "quiet (se_env se)"
  shows "expr_sim se n os (A_LIT v)"
  unfolding expr_sim_def
proof (intro allI impI)
  fix c c' X cx st stk s
  assume "compile_expr os (A_LIT v) c = (Ok (), c')" "fits X cx c'" "placed X c c'" "at_end se X c st stk s"
  then show "sim (se_env se) s (\<lambda>(v, st') t. at_end se X c' st' (stk @ [v]) t) (eval se n cx (A_LIT v) st)"
    using run_push [OF assms, of os v c "()" c' X se st stk s] by (auto intro: sim_value)
qed

lemma var_sim:
  assumes "quiet (se_env se)"
  shows "expr_sim se n os (A_VAR x)"
  unfolding expr_sim_def
proof (intro allI impI)
  fix c c' X cx st stk s
  assume a: "compile_expr os (A_VAR x) c = (Ok (), c')" "fits X cx c'" "placed X c c'" "at_end se X c st stk s"
  then obtain i where i: "resolve_var (c_syms c) x = Some i" "emit1u32 os OP_LOAD (of_nat i) c = (Ok (), c')"
    by (auto simp: comp_Ok dest!: need_var_Ok)
  have "fits X cx c" using fits_ext [OF a(2) emits_ext(3) [OF i(2)]] .
  from run_load [OF assms i(2) a(3,4) this i(1)]
  show "sim (se_env se) s (\<lambda>(v, st') t. at_end se X c' st' (stk @ [v]) t) (eval se n cx (A_VAR x) st)"
    by (auto intro: sim_value)
qed

lemma strlit_sim:
  assumes "quiet (se_env se)"
  shows "expr_sim se n os (A_STRLIT str)"
  unfolding expr_sim_def
proof (intro allI impI)
  fix c c' X cx st stk s
  assume a: "compile_expr os (A_STRLIT str) c = (Ok (), c')" "fits X cx c'" "placed X c c'" "at_end se X c st stk s"
  then obtain i d where i: "add_string os str c = (Ok i, d)" "emit1u32 os OP_PUSHSTR (of_nat i) d = (Ok (), c')"
    by (auto simp: comp_Ok)
  note ad = add_string_Ok [OF i(1)]
  have d: "fits X cx d" "placed X d c'"
    using split_code(1,3) [of c d c' X cx] ad emits_ext(3) [OF i(2)] a by auto
  have "at_end se X d st stk s" using a(4) ad by simp
  from run_pushstr [OF assms i(2) d(2) this d(1)] ad
  show "sim (se_env se) s (\<lambda>(v, st') t. at_end se X c' st' (stk @ [v]) t) (eval se n cx (A_STRLIT str) st)"
    by (auto intro: sim_value)
qed

lemma bin_sim:
  assumes q: "quiet (se_env se)" and x: "expr_sim se n os x" "plain x" and y: "expr_sim se n os y" "plain y"
    and b: "b \<noteq> BIN_ANDAND" "b \<noteq> BIN_OROR"
  shows "expr_sim se n os (A_BIN b x y)"
  unfolding expr_sim_def
proof (intro allI impI)
  fix c c' X cx st stk s
  assume a: "compile_expr os (A_BIN b x y) c = (Ok (), c')" "fits X cx c'" "placed X c c'" "at_end se X c st stk s"
  obtain opc where opc: "bin_op b = Some opc" using b by (cases b) auto
  obtain d e where d: "compile_expr os x c = (Ok (), d)" "compile_expr os y d = (Ok (), e)" "emit1 os opc e = (Ok (), c')"
    using a(1) b opc by (auto simp: compile_bin_def comp_Ok)
  have exts: "ext c d" "ext d e" "ext e c'"
    using compile_expr_ext(1) d x(2) y(2) emits_ext(1) by auto
  note e = split_code [OF ext_trans [OF exts(1,2)] exts(3) a(2,3)]
  note dd = split_code [OF exts(1,2) e(1,2)]
  have alu: "sim (se_env se) t (\<lambda>(v, st') t. at_end se X c' st' (stk @ [v]) t) (bind_res (alu opc u v) (\<lambda>r. Ok (r, st')))"
    if "at_end se X e st' (stk @ [u, v]) t" for u v st' t
    by (rule sim_bind [OF run_alu [OF q d(3) e(3) that]]) (use opc in \<open>auto intro: sim_Ok\<close>)
  have "sim (se_env se) t (\<lambda>(v, st') t. at_end se X c' st' (stk @ [v]) t)
      (bind_res (eval se n cx y st') (\<lambda>(v, st). bind_res (alu opc u v) (\<lambda>r. Ok (r, st))))"
    if "at_end se X d st' (stk @ [u]) t" for u st' t
    by (rule sim_bind [OF expr_simD [OF y(1) d(2) e(1) dd(3) that]]) (auto intro: alu)
  then show "sim (se_env se) s (\<lambda>(v, st') t. at_end se X c' st' (stk @ [v]) t) (eval se n cx (A_BIN b x y) st)"
    using b opc by (auto intro!: sim_bind [OF expr_simD [OF x(1) d(1) dd(1,2) a(4)]])
qed

lemma un_sim:
  assumes q: "quiet (se_env se)" and x: "expr_sim se n os x" "plain x" and u: "\<not> is_inc_un u"
  shows "expr_sim se n os (A_UN u x)"
  unfolding expr_sim_def
proof (intro allI impI)
  fix c c' X cx st stk s
  assume a: "compile_expr os (A_UN u x) c = (Ok (), c')" "fits X cx c'" "placed X c c'" "at_end se X c st stk s"
  obtain d where d: "compile_expr os x c = (Ok (), d)" "emit1 os (un_opcode u) d = (Ok (), c')"
    using a(1) u by (cases u) (auto simp: compile_unop_def comp_Ok)
  have exts: "ext c d" "ext d c'" using compile_expr_ext(1) d x(2) emits_ext(1) by auto
  note dd = split_code [OF exts a(2,3)]
  have "sim (se_env se) t (\<lambda>(v, st') t. at_end se X c' st' (stk @ [v]) t) (Ok (apply_un u v, st'))"
    if "at_end se X d st' (stk @ [v]) t" for v st' t
    using run_un [OF q d(2) dd(3) that u] by (auto intro: sim_value)
  then show "sim (se_env se) s (\<lambda>(v, st') t. at_end se X c' st' (stk @ [v]) t) (eval se n cx (A_UN u x) st)"
    using u by (auto intro!: sim_bind [OF expr_simD [OF x(1) d(1) dd(1,2) a(4)]])
qed

lemma postinc_sim:
  assumes q: "quiet (se_env se)"
  shows "expr_sim se n os (A_POSTINC name inc x)"
  unfolding expr_sim_def
proof (intro allI impI)
  fix c c' X cx st stk s
  assume a: "compile_expr os (A_POSTINC name inc x) c = (Ok (), c')" "fits X cx c'" "placed X c c'" "at_end se X c st stk s"
  then obtain i d1 d2 d3 d4 where i: "resolve_var (c_syms c) name = Some i"
    and d: "emit1u32 os OP_LOAD (of_nat i) c = (Ok (), d1)" "emit1 os OP_DUP d1 = (Ok (), d2)"
      "emit1v os OP_PUSH (inc_word inc) d2 = (Ok (), d3)" "emit1 os OP_ADD d3 = (Ok (), d4)"
      "emit1u32 os OP_STORE (of_nat i) d4 = (Ok (), c')"
    by (auto simp: comp_Ok dest!: need_var_Ok)
  have exts: "ext c d1" "ext d1 d2" "ext d2 d3" "ext d3 d4" "ext d4 c'" using d emits_ext by auto
  have i': "resolve_var (c_syms d4) name = Some i" using i exts by (simp add: ext_def)
  note p4 = split_code [OF ext_trans [OF ext_trans [OF ext_trans [OF exts(1,2)] exts(3)] exts(4)] exts(5) a(2,3)]
  note p3 = split_code [OF ext_trans [OF ext_trans [OF exts(1,2)] exts(3)] exts(4) p4(1,2)]
  note p2 = split_code [OF ext_trans [OF exts(1,2)] exts(3) p3(1,2)]
  note p1 = split_code [OF exts(1,2) p2(1,2)]
  let ?v = "fst st name"
  have "sim (se_env se) s (\<lambda>_. at_end se X c' ((fst st)(name := ?v + inc_word inc), snd st) (stk @ [?v])) (Ok ())"
  proof (rule sim_seq [OF run_load [OF q d(1) p1(2) a(4) fits_ext [OF p1(1) exts(1)] i]], rule sim_seq)
    fix t assume "at_end se X d1 st (stk @ [?v]) t"
    from run_dup [OF q d(2) p1(3) this] show "sim (se_env se) t (\<lambda>_. at_end se X d2 st ((stk @ [?v]) @ [?v])) (Ok ())" by simp
  next
    fix t assume t: "at_end se X d2 st ((stk @ [?v]) @ [?v]) t"
    show "sim (se_env se) t (\<lambda>_. at_end se X c' ((fst st)(name := ?v + inc_word inc), snd st) (stk @ [?v])) (Ok ())"
    proof (rule sim_seq [OF run_push [OF q d(3) p2(3) t]])
      fix t assume "at_end se X d3 st (((stk @ [?v]) @ [?v]) @ [inc_word inc]) t"
      then have t: "at_end se X d3 st ((stk @ [?v]) @ [?v, inc_word inc]) t" by simp
      have "sim (se_env se) t (\<lambda>r. at_end se X d4 st ((stk @ [?v]) @ [r])) (alu OP_ADD ?v (inc_word inc))"
        by (rule run_alu [OF q d(4) p3(3) t, of BIN_ADD]) simp
      then have "sim (se_env se) t (\<lambda>_. at_end se X d4 st ((stk @ [?v]) @ [?v + inc_word inc])) (Ok ())"
        by (auto simp: sim_def)
      then show "sim (se_env se) t (\<lambda>_. at_end se X c' ((fst st)(name := ?v + inc_word inc), snd st) (stk @ [?v])) (Ok ())"
        by (rule sim_seq) (rule run_store [OF q d(5) p4(3) _ p4(1) i'])
    qed
  qed
  then show "sim (se_env se) s (\<lambda>(v, st') t. at_end se X c' st' (stk @ [v]) t) (eval se n cx (A_POSTINC name inc x) st)"
    by (auto intro: sim_value)
qed

text \<open>The tail of every assignment: keep the value and store a copy.\<close>

lemma dup_store:
  assumes q: "quiet (se_env se)" and d: "emit1 os OP_DUP c = (Ok (), d)" "emit1u32 os OP_STORE (of_nat i) d = (Ok (), c')"
    and f: "fits X cx c'" and p: "placed X c c'" and s: "at_end se X c st (stk @ [v]) s"
    and i: "resolve_var (c_syms c) x = Some i"
  shows "sim (se_env se) s (\<lambda>(v, st') t. at_end se X c' st' (stk @ [v]) t) (Ok (v, ((fst st)(x := v), snd st)))"
proof -
  have exts: "ext c d" "ext d c'" using d emits_ext by auto
  note dd = split_code [OF exts f p]
  have i': "resolve_var (c_syms d) x = Some i" using i exts by (simp add: ext_def)
  have "sim (se_env se) s (\<lambda>_. at_end se X c' ((fst st)(x := v), snd st) (stk @ [v])) (Ok ())"
  proof (rule sim_seq [OF run_dup [OF q d(1) dd(2) s]])
    fix t assume "at_end se X d st (stk @ [v, v]) t"
    then show "sim (se_env se) t (\<lambda>_. at_end se X c' ((fst st)(x := v), snd st) (stk @ [v])) (Ok ())"
      using run_store [OF q d(2) dd(3) _ dd(1) i', where stk = "stk @ [v]" and st = st and v = v and s = t] by simp
  qed
  then show ?thesis by (rule sim_value) simp
qed

lemma assign_sim:
  assumes q: "quiet (se_env se)" and x: "expr_sim se n os x" "plain x"
  shows "expr_sim se n os (A_ASSIGN b name x)"
  unfolding expr_sim_def
proof (intro allI impI)
  fix c c' X cx st stk s
  assume a: "compile_expr os (A_ASSIGN b name x) c = (Ok (), c')" "fits X cx c'" "placed X c c'" "at_end se X c st stk s"
  then obtain i where i: "resolve_var (c_syms c) name = Some i"
    by (auto simp: compile_assign_def comp_Ok dest!: need_var_Ok)
  show "sim (se_env se) s (\<lambda>(v, st') t. at_end se X c' st' (stk @ [v]) t) (eval se n cx (A_ASSIGN b name x) st)"
  proof (cases "asg_op b")
    case None
    obtain d1 d2 where d: "compile_expr os x c = (Ok (), d1)" "emit1 os OP_DUP d1 = (Ok (), d2)"
        "emit1u32 os OP_STORE (of_nat i) d2 = (Ok (), c')"
      using a(1) i None by (auto simp: compile_assign_def comp_Ok dest!: need_var_Ok)
    have exts: "ext c d1" "ext d1 c'"
      using compile_expr_ext(1) [OF d(1) x(2)] emits_ext(1) [OF d(2)] emits_ext(3) [OF d(3)] ext_trans by blast+
    note dd = split_code [OF exts a(2,3)]
    have i': "resolve_var (c_syms d1) name = Some i" using i exts by (simp add: ext_def)
    show ?thesis
      using None by (auto intro!: sim_bind [OF expr_simD [OF x(1) d(1) dd(1,2) a(4)]] dup_store [OF q d(2,3) a(2) dd(3) _ i'])
  next
    case (Some opc)
    obtain d0 d1 d2 d3 where d: "emit1u32 os OP_LOAD (of_nat i) c = (Ok (), d0)" "compile_expr os x d0 = (Ok (), d1)"
        "emit1 os opc d1 = (Ok (), d2)" "emit1 os OP_DUP d2 = (Ok (), d3)"
        "emit1u32 os OP_STORE (of_nat i) d3 = (Ok (), c')"
      using a(1) i Some by (auto simp: compile_assign_def comp_Ok dest!: need_var_Ok)
    have exts: "ext c d0" "ext d0 d1" "ext d1 d2" "ext d2 c'"
      using compile_expr_ext(1) [OF d(2) x(2)] emits_ext(3) [OF d(1)] emits_ext(1) [OF d(3)]
        ext_trans [OF emits_ext(1) [OF d(4)] emits_ext(3) [OF d(5)]] by blast+
    note p2 = split_code [OF ext_trans [OF ext_trans [OF exts(1,2)] exts(3)] exts(4) a(2,3)]
    note p1 = split_code [OF ext_trans [OF exts(1,2)] exts(3) p2(1,2)]
    note p0 = split_code [OF exts(1,2) p1(1,2)]
    have i': "resolve_var (c_syms d2) name = Some i" using i exts by (simp add: ext_def)
    have tail: "sim (se_env se) t (\<lambda>(v, st') t. at_end se X c' st' (stk @ [v]) t)
        (bind_res (alu opc (fst st name) v) (\<lambda>r. Ok (r, ((fst st')(name := r), snd st'))))"
      if "at_end se X d1 st' (stk @ [fst st name, v]) t" for v st' t
      by (rule sim_bind [OF run_alu [OF q d(3) p1(3) that]])
        (use Some in \<open>auto intro!: dup_store [OF q d(4,5) a(2) p2(3) _ i']\<close>)
    have "sim (se_env se) t (\<lambda>(v, st') t. at_end se X c' st' (stk @ [v]) t)
        (bind_res (eval se n cx x st) (\<lambda>(v, st'). bind_res (alu opc (fst st name) v) (\<lambda>r. Ok (r, ((fst st')(name := r), snd st')))))"
      if "at_end se X d0 st (stk @ [fst st name]) t" for t
      by (rule sim_bind [OF expr_simD [OF x(1) d(2) p1(1) p0(3) that]]) (auto intro: tail)
    then show ?thesis
      using Some by (auto intro!: sim_seq [OF run_load [OF q d(1) p0(2) a(4) fits_ext [OF p0(1) exts(1)] i]])
  qed
qed

lemma call_sim:
  assumes ok: "sem_ok se" and IH: "calls_sim se n" and args: "args_sim se n os args" "\<forall>x\<in>set args. plain x" "length args \<le> NOC_MAX_ARGS"
  shows "expr_sim se n os (A_CALL name args)"
  unfolding expr_sim_def
proof (intro allI impI)
  fix c c' X cx st stk s
  assume a: "compile_expr os (A_CALL name args) c = (Ok (), c')" "fits X cx c'" "placed X c c'" "at_end se X c st stk s"
  have q: "quiet (se_env se)" using ok by (simp add: sem_ok_def)
  from a(1) have "compile_call os name (length args) (compile_args os args) c = (Ok (), c')" by simp
  then show "sim (se_env se) s (\<lambda>(v, st') t. at_end se X c' st' (stk @ [v]) t) (eval se n cx (A_CALL name args) st)"
  proof (cases rule: compile_call_Ok)
    case (1 sig count d1 d2 d3 si)
    note str = add_string_Ok [OF 1(5)]
    have exts: "ext c d1" "ext d1 d2" "ext d2 d3" "ext d3 c'"
      using compile_expr_ext(2) [OF 1(3) args(2)] push_defaults_ext [OF 1(4)] str same_ext [OF 1(6)] 1(7) by auto
    note p3 = split_code [OF ext_trans [OF ext_trans [OF exts(1,2)] exts(3)] exts(4) a(2,3)]
    note p2 = split_code [OF ext_trans [OF exts(1,2)] exts(3) p3(1,2)]
    note p1 = split_code [OF exts(1,2) p2(1,2)]
    have sig: "noc_lookup (fc_sigs cx) name = Some sig"
      using 1(1) a(2) exts by (auto simp: fits_def ext_def)
    have "fn_nargs sig < 2 ^ 32" using a(2) sig lookup_in [OF sig] by (simp add: fits_def)
    then have count: "count < 2 ^ 32"
      using 1(2) args(3) by (auto simp: call_count_def NOC_MAX_ARGS_def split: if_splits)
    have "sim (se_env se) t (\<lambda>(v, st') t. at_end se X c' st' (stk @ [v]) t)
        (call_result se n name count (call_values sig count vs) st')"
      if t: "at_end se X d1 st' (stk @ vs) t" and vs: "length vs = length args" for vs st' t
    proof (rule sim_seq [OF run_defaults [OF q 1(4) p1(3) t]])
      fix u
      assume "at_end se X d2 st' ((stk @ vs) @ map (fn_defaults sig) [length args..<count]) u"
      then have "at_end se X d3 st' (stk @ call_values sig count vs) u"
        using str vs by (simp add: call_values_def)
      moreover have "length (call_values sig count vs) = count"
        using vs call_count_room [OF 1(2)] by (simp add: call_values_def)
      ultimately show "sim (se_env se) u (\<lambda>(v, st') t. at_end se X c' st' (stk @ [v]) t)
          (call_result se n name count (call_values sig count vs) st')"
        using run_call [OF ok IH 1(6,7) _ _ p3(1,3)] str count by blast
    qed
    moreover have "sim (se_env se) s (\<lambda>(vs, st') t. at_end se X d1 st' (stk @ vs) t) (evals se n cx args st)"
      using args(1) 1(3) p1(1,2) a(4) unfolding args_sim_def by blast
    ultimately show ?thesis
      unfolding eval_call sig 1(2) option.case sum.case
      by (auto intro!: sim_bind' [where Q = "\<lambda>(vs, st') t. at_end se X d1 st' (stk @ vs) t"] dest: evals_length)
  qed
qed

lemma args_sim_Nil: "args_sim se n os []"
  unfolding args_sim_def by (auto simp: retc_Ok intro: sim_Ok)

lemma args_sim_Cons:
  assumes x: "expr_sim se n os x" "plain x" and xs: "args_sim se n os xs" "\<forall>x\<in>set xs. plain x"
  shows "args_sim se n os (x # xs)"
  unfolding args_sim_def
proof (intro allI impI)
  fix c c' X cx st stk s
  assume a: "compile_args os (x # xs) c = (Ok (), c')" "fits X cx c'" "placed X c c'" "at_end se X c st stk s"
  then obtain d where d: "compile_expr os x c = (Ok (), d)" "compile_args os xs d = (Ok (), c')" by (auto simp: comp_Ok)
  note dd = split_code [OF compile_expr_ext(1) [OF d(1) x(2)] compile_expr_ext(2) [OF d(2) xs(2)] a(2,3)]
  have rest: "sim (se_env se) t (\<lambda>(vs, st') t. at_end se X c' st' (stk @ vs) t)
      (bind_res (evals se n cx xs st') (\<lambda>(vs, st). Ok (v # vs, st)))"
    if t: "at_end se X d st' (stk @ [v]) t" for v st' t
  proof (rule sim_bind)
    show "sim (se_env se) t (\<lambda>(vs, st') t. at_end se X c' st' ((stk @ [v]) @ vs) t) (evals se n cx xs st')"
      using xs(1) d(2) a(2) dd(3) t unfolding args_sim_def by blast
  qed (auto intro: sim_Ok)
  show "sim (se_env se) s (\<lambda>(vs, st') t. at_end se X c' st' (stk @ vs) t) (evals se n cx (x # xs) st)"
    by (auto intro!: sim_bind [OF expr_simD [OF x(1) d(1) dd(1,2) a(4)]] rest)
qed

lemma compile_expr_sim:
  assumes ok: "sem_ok se" and IH: "calls_sim se n"
  shows "plain e \<Longrightarrow> expr_sim se n os e" and "\<forall>e\<in>set es. plain e \<Longrightarrow> args_sim se n os es"
proof (induction os e and os es rule: compile_expr_compile_args.induct)
  case (4 os name args)
  then show ?case using call_sim [OF ok IH] by simp
next
  case (9 os x)
  then have "expr_sim se n os x" by simp
  then show ?case by (simp add: expr_sim_def)
qed (use ok in \<open>auto simp: sem_ok_def intro: lit_sim strlit_sim var_sim bin_sim un_sim postinc_sim assign_sim
       args_sim_Nil args_sim_Cons\<close>, simp_all add: expr_sim_def)

section \<open>Jumps that are patched later\<close>

lemma window:
  assumes "placed X c c'" and "length (c_code c) \<le> lo" and "length code \<le> length (c_code c')"
    and "\<And>i. lo \<le> i \<Longrightarrow> i < length code \<Longrightarrow> c_code c' ! i = code ! i"
  shows "agree (fn_code (x_fn X)) lo code"
  using assms by (auto simp: placed_def agree_def)

lemma prefix_nth: "prefix p q \<Longrightarrow> i < length p \<Longrightarrow> q ! i = p ! i"
  by (auto simp: prefix_def nth_append)

text \<open>A jump emitted at the end of \<open>c1\<close> and patched once the code up to \<open>c3\<close> is known.\<close>

lemma patched_jump:
  assumes j: "emit_jump os opc c1 = (Ok je, c2)" and e: "ext c c1" "ext c2 c3"
    and p: "patch_jump je l c3 = (Ok u, c')" and placed: "placed X c c'"
  shows "placed X c c1" and "placed X c2 c3"
    and "code_at (fn_code (x_fn X)) (length (c_code c1)) (op_byte opc # le_bytes 4 (of_nat l :: u32))"
    and "length (c_code c') = length (c_code c3)" and "same c3 c'"
proof -
  let ?b = "le_bytes 4 (of_nat l :: u32)"
  have c2: "je = length (c_code c1)" "c_code c2 = c_code c1 @ op_byte opc # le_bytes 4 (0 :: u32)"
    using emit_jump_Ok [OF j] by auto
  have pre: "prefix (c_code c2) (c_code c3)" using e(2) by (simp add: ext_def)
  have len: "Suc je + 4 \<le> length (c_code c3)" using prefix_length_le [OF pre] c2 by simp
  have code: "c_code c' = patch_bytes (Suc je) ?b (c_code c3)" and "same c3 c'"
    using patch_jump_Ok [OF p] by auto
  then show same: "same c3 c'" and length: "length (c_code c') = length (c_code c3)" using len by simp_all
  have nth: "c_code c' ! i = (if Suc je \<le> i \<and> i < Suc je + 4 then ?b ! (i - Suc je) else c_code c3 ! i)"
    if "i < length (c_code c3)" for i
    using nth_patch [of "Suc je" ?b "c_code c3" i] len that code by simp
  have old: "c_code c3 ! i = c_code c2 ! i" if "i < length (c_code c2)" for i using prefix_nth [OF pre that] .
  have le: "length (c_code c) \<le> je" using ext_length [OF e(1)] c2 by simp
  show "placed X c c1"
    unfolding placed_def
    by (rule window [OF placed]) (use length len c2 nth old in \<open>auto simp: nth_append\<close>)
  show "placed X c2 c3"
    unfolding placed_def
    by (rule window [OF placed]) (use length len c2 nth le in \<open>auto\<close>)
  have "agree (fn_code (x_fn X)) je (c_code c')"
    by (rule window [OF placed]) (use le in auto)
  moreover have "c_code c' ! je = op_byte opc" using nth [of je] old [of je] c2 len by (simp add: nth_append)
  moreover have "c_code c' ! (Suc je + k) = ?b ! k" if "k < 4" for k using nth [of "Suc je + k"] len that by simp
  ultimately show "code_at (fn_code (x_fn X)) (length (c_code c1)) (op_byte opc # ?b)"
    using len length c2(1) by (auto simp: code_at_nth agree_def nth_Cons split: nat.splits)
qed

text \<open>The two jumps of an \<^verbatim>\<open>if\<close> with an \<^verbatim>\<open>else\<close>, both patched at the end.\<close>

lemma patched_jumps:
  assumes j: "emit_jump os opc c1 = (Ok je, c2)" "emit_jump os opc' c3 = (Ok jd, c4)"
    and e: "ext c c1" "ext c2 c3" "ext c4 c5"
    and p: "patch_jump je l c5 = (Ok u, c6)" "patch_jump jd l' c6 = (Ok u', c')" and placed: "placed X c c'"
  shows "placed X c c1" and "placed X c2 c3" and "placed X c4 c5"
    and "code_at (fn_code (x_fn X)) (length (c_code c1)) (op_byte opc # le_bytes 4 (of_nat l :: u32))"
    and "code_at (fn_code (x_fn X)) (length (c_code c3)) (op_byte opc' # le_bytes 4 (of_nat l' :: u32))"
    and "length (c_code c') = length (c_code c5)" and "same c5 c'"
proof -
  have c4: "jd = length (c_code c3)" "c_code c4 = c_code c3 @ op_byte opc' # le_bytes 4 (0 :: u32)"
    using emit_jump_Ok [OF j(2)] by auto
  have ex: "ext c3 c4" "ext c1 c2" using emit_jump_ext j by auto
  have c3: "ext c c3" using e ex ext_trans by blast
  have c25: "ext c2 c5" using e ex ext_trans by blast
  have je: "Suc je + 4 = length (c_code c2)" using emit_jump_Ok [OF j(1)] by simp
  have lens: "length (c_code c2) \<le> length (c_code c3)" "length (c_code c4) \<le> length (c_code c5)"
    using ext_length e by auto
  have c6: "c_code c6 = patch_bytes (Suc je) (le_bytes 4 (of_nat l :: u32)) (c_code c5)" "same c5 c6"
    using patch_jump_Ok [OF p(1)] by auto
  have pre5: "prefix (c_code c4) (c_code c5)" "prefix (c_code c2) (c_code c5)" using e(3) c25 by (simp_all add: ext_def)
  have len6: "length (c_code c6) = length (c_code c5)" using c6 je lens c4 by simp
  let ?b' = "le_bytes 4 (of_nat l' :: u32)"
  have code': "c_code c' = patch_bytes (Suc jd) ?b' (c_code c6)" "same c6 c'" using patch_jump_Ok [OF p(2)] by auto
  have lend: "Suc jd + 4 \<le> length (c_code c6)" using lens c4 len6 by simp
  then show "length (c_code c') = length (c_code c5)" using code' len6 by simp
  show "same c5 c'" using c6(2) code'(2) by (auto simp: same_def)
  have nth: "c_code c' ! i = (if Suc jd \<le> i \<and> i < Suc jd + 4 then ?b' ! (i - Suc jd) else c_code c6 ! i)"
    if "i < length (c_code c6)" for i
    using nth_patch [of "Suc jd" ?b' "c_code c6" i] lend that code' by simp
  have nth6: "c_code c6 ! i = (if Suc je \<le> i \<and> i < Suc je + 4 then le_bytes 4 (of_nat l :: u32) ! (i - Suc je) else c_code c5 ! i)"
    if "i < length (c_code c5)" for i
    using nth_patch [of "Suc je" "le_bytes 4 (of_nat l :: u32)" "c_code c5" i] je lens c4 that c6 by simp
  have lec: "length (c_code c) \<le> jd" using ext_length [OF c3] c4 by simp
  show "placed X c4 c5"
    unfolding placed_def
    by (rule window [OF placed]) (use len6 lend c4 nth nth6 je lens lec code' in \<open>auto\<close>)
  have "agree (fn_code (x_fn X)) jd (c_code c')"
    by (rule window [OF placed]) (use lec in auto)
  moreover have "c_code c' ! jd = op_byte opc'"
    using nth [of jd] nth6 [of jd] prefix_nth [OF pre5(1), of jd] c4 lend len6 je lens by (simp add: nth_append)
  moreover have "c_code c' ! (Suc jd + k) = ?b' ! k" if "k < 4" for k using nth [of "Suc jd + k"] lend that by simp
  ultimately show "code_at (fn_code (x_fn X)) (length (c_code c3)) (op_byte opc' # ?b')"
    using lend len6 c4(1) \<open>length (c_code c') = length (c_code c5)\<close>
    by (auto simp: code_at_nth agree_def nth_Cons split: nat.splits)
  have c35: "take (length (c_code c3)) (c_code c5) = c_code c3"
    using prefix_order.trans [of "c_code c3" "c_code c4" "c_code c5"] ex(1) pre5(1)
    by (auto simp: ext_def prefix_def)
  obtain d where d: "patch_jump je l c3 = (Ok (), d)" by (simp add: patch_jump_def)
  have dc: "c_code d = patch_bytes (Suc je) (le_bytes 4 (of_nat l :: u32)) (c_code c3)" using patch_jump_Ok [OF d] by simp
  have ld: "length (c_code d) = length (c_code c3)" using dc je lens by simp
  have "placed X c d"
    unfolding placed_def
  proof (rule window [OF placed])
    fix i assume i: "length (c_code c) \<le> i" "i < length (c_code d)"
    have "c_code c5 ! i = c_code c3 ! i" using i ld c35 by (metis nth_take)
    then show "c_code c' ! i = c_code d ! i"
      using nth [of i] nth6 [of i] i ld c4 lend len6 je lens dc
        nth_patch [of "Suc je" "le_bytes 4 (of_nat l :: u32)" "c_code c3" i] by auto
  qed (use ld len6 lend c4 code' in auto)
  from patched_jump [OF j(1) e(1,2) d this]
  show "placed X c c1" "placed X c2 c3"
    "code_at (fn_code (x_fn X)) (length (c_code c1)) (op_byte opc # le_bytes 4 (of_nat l :: u32))"
    by auto
qed

section \<open>Statements\<close>

definition stmt_sim :: "'w sem \<Rightarrow> nat \<Rightarrow> allocator \<Rightarrow> ast \<Rightarrow> bool" where
  "stmt_sim se n os a \<longleftrightarrow> (\<forall>c c' X cx st s. compile_stmt os a False c = (Ok (), c') \<longrightarrow> fits X cx c' \<longrightarrow> placed X c c'
     \<longrightarrow> at_end se X c st [] s \<longrightarrow> sim (se_env se) s (flow_post se X c') (exec se n cx a st))"

definition stmts_sim :: "'w sem \<Rightarrow> nat \<Rightarrow> allocator \<Rightarrow> ast list \<Rightarrow> bool" where
  "stmts_sim se n os ss \<longleftrightarrow> (\<forall>c c' X cx st s. compile_block os ss c = (Ok (), c') \<longrightarrow> fits X cx c' \<longrightarrow> placed X c c'
     \<longrightarrow> at_end se X c st [] s \<longrightarrow> sim (se_env se) s (flow_post se X c') (execs se n cx ss st))"

lemma stmt_simD:
  "stmt_sim se n os a \<Longrightarrow> compile_stmt os a False c = (Ok (), c') \<Longrightarrow> fits X cx c' \<Longrightarrow> placed X c c'
   \<Longrightarrow> at_end se X c st [] s \<Longrightarrow> sim (se_env se) s (flow_post se X c') (exec se n cx a st)"
  unfolding stmt_sim_def by blast

lemma stmts_simD:
  "stmts_sim se n os ss \<Longrightarrow> compile_block os ss c = (Ok (), c') \<Longrightarrow> fits X cx c' \<Longrightarrow> placed X c c'
   \<Longrightarrow> at_end se X c st [] s \<Longrightarrow> sim (se_env se) s (flow_post se X c') (execs se n cx ss st)"
  unfolding stmts_sim_def by blast

lemma expr_simD0:
  "expr_sim se n os e \<Longrightarrow> compile_expr os e c = (Ok (), c') \<Longrightarrow> fits X cx c' \<Longrightarrow> placed X c c' \<Longrightarrow> at_end se X c st [] s
   \<Longrightarrow> sim (se_env se) s (\<lambda>(v, st') t. at_end se X c' st' [v] t) (eval se n cx e st)"
  using expr_simD [of se n os e c c' X cx st "[]" s] by simp

text \<open>An expression whose value is dropped.\<close>

lemma expr_pop_sim:
  assumes q: "quiet (se_env se)" and e: "expr_sim se n os e" "plain e"
    and c: "compile_expr os e c = (Ok (), d)" "emit1 os OP_POP d = (Ok (), c')"
    and f: "fits X cx c'" and p: "placed X c c'" and s: "at_end se X c st [] s"
  shows "sim (se_env se) s (\<lambda>(v, st') t. at_end se X c' st' [] t) (eval se n cx e st)"
proof -
  note dd = split_code [OF compile_expr_ext(1) [OF c(1) e(2)] emits_ext(1) [OF c(2)] f p]
  have "sim (se_env se) t (\<lambda>_. at_end se X c' st' []) (Ok ())" if "at_end se X d st' [v] t" for v st' t
    using run_pop [OF q c(2) dd(3), of se st' "[]" v t] that by simp
  then show ?thesis by (auto intro!: sim_then [OF expr_simD0 [OF e(1) c(1) dd(1,2) s]])
qed

lemma exprstmt_sim:
  assumes q: "quiet (se_env se)" and e: "expr_sim se n os e" "plain e" "var_name e = None"
  shows "stmt_sim se n os (A_STMTEXPR e)"
  unfolding stmt_sim_def
proof (intro allI impI)
  fix c c' X cx st s
  assume a: "compile_stmt os (A_STMTEXPR e) False c = (Ok (), c')" "fits X cx c'" "placed X c c'" "at_end se X c st [] s"
  then obtain d where d: "compile_expr os e c = (Ok (), d)" "emit1 os OP_POP d = (Ok (), c')"
    using e(3) by (auto simp: compile_exprstmt_plain finish_expr_def comp_Ok)
  show "sim (se_env se) s (flow_post se X c') (exec se n cx (A_STMTEXPR e) st)"
    by (auto intro!: sim_bind [OF expr_pop_sim [OF q e(1,2) d a(2-4)]] sim_Ok)
qed

lemma vardecl_run:
  assumes q: "quiet (se_env se)" and e: "\<And>e. a = Some e \<Longrightarrow> expr_sim se n os e \<and> plain e"
    and c: "compile_vardecl os t x a c = (Ok (), c')"
    and f: "fits X cx c'" and p: "placed X c c'" and s: "at_end se X c st [] s"
  shows "sim (se_env se) s (flow_post se X c') (exec se n cx (A_VARDECL t x a) st)"
proof -
  obtain i d where d: "add_var x t c = (Ok i, d)"
    and r: "(case a of None \<Rightarrow> retc () | Some e \<Rightarrow> thenc (compile_expr os e) (emit1u32 os OP_STORE (of_nat i))) d = (Ok (), c')"
    using c by (auto simp: compile_vardecl_def comp_Ok)
  note ad = add_var_Ok [OF d]
  show ?thesis
  proof (cases a)
    case None
    then show ?thesis using r ad s by (auto simp: retc_Ok intro: sim_Ok)
  next
    case (Some e')
    then obtain d2 where d2: "compile_expr os e' d = (Ok (), d2)" "emit1u32 os OP_STORE (of_nat i) d2 = (Ok (), c')"
      using r by (auto simp: comp_Ok)
    have e': "expr_sim se n os e'" "plain e'" using e Some by auto
    have exts: "ext c d" "ext d d2" "ext d2 c'"
      using ad compile_expr_ext(1) [OF d2(1) e'(2)] emits_ext(3) [OF d2(2)] by auto
    note p2 = split_code [OF ext_trans [OF exts(1,2)] exts(3) f p]
    note p1 = split_code [OF exts(1,2) p2(1,2)]
    have i: "resolve_var (c_syms d2) x = Some i" using ad exts by (auto simp: ext_def)
    have s': "at_end se X d st [] s" using s ad by simp
    have "sim (se_env se) t (flow_post se X c') (Ok (Normal, ((fst st')(x := v), snd st')))"
      if "at_end se X d2 st' [v] t" for v st' t
      using run_store [OF q d2(2) p2(3) _ p2(1) i, of se st' "[]" v t] that by (auto intro: sim_value)
    then show ?thesis
      using Some by (auto intro!: sim_bind [OF expr_simD0 [OF e'(1) d2(1) p2(1) p1(3) s']])
  qed
qed

lemma if_sim:
  assumes q: "quiet (se_env se)" and a: "expr_sim se n os a" "plain a" and b: "stmt_sim se n os b" "plain b"
    and e: "\<And>s. e = Some s \<Longrightarrow> stmt_sim se n os s \<and> plain s"
  shows "stmt_sim se n os (A_IF a b e)"
  unfolding stmt_sim_def
proof (intro allI impI)
  fix c c' X cx st s
  assume A: "compile_stmt os (A_IF a b e) False c = (Ok (), c')" "fits X cx c'" "placed X c c'" "at_end se X c st [] s"
  then obtain c1 je c2 c3 where c: "compile_expr os a c = (Ok (), c1)" "emit_jump os OP_JMPF c1 = (Ok je, c2)"
    "compile_stmt os b False c2 = (Ok (), c3)"
    and rest: "(case e of
              None \<Rightarrow> bindc (readc code_pc) (\<lambda>l_else. patch_jump je l_else)
            | Some e \<Rightarrow>
                bindc (emit_jump os OP_JMP) (\<lambda>jd.
                  bindc (readc code_pc) (\<lambda>l_else.
                    thenc (compile_stmt os e False)
                      (bindc (readc code_pc) (\<lambda>l_done.
                        thenc (patch_jump je l_else) (patch_jump jd l_done)))))) c3 = (Ok (), c')"
    by (auto simp: bindc_Ok thenc_Ok)
  have ext: "ext c c1" "ext c1 c2" "ext c2 c3"
    using c a(2) b(2) compile_expr_ext(1) emit_jump_ext compile_stmt_ext(1) by auto
  have len2: "length (c_code c2) = length (c_code c1) + 5" using emit_jump_Ok [OF c(2)] by simp
  have lim: "length (fn_code (x_fn X)) < 2 ^ 32" using A(2) by (simp add: fits_def)
  have fin: "length (c_code c') \<le> length (fn_code (x_fn X))" using A(3) by (simp add: placed_def agree_def)
  show "sim (se_env se) s (flow_post se X c') (exec se n cx (A_IF a b e) st)"
  proof (cases e)
    case None
    then have p: "patch_jump je (length (c_code c3)) c3 = (Ok (), c')" using rest by (simp add: comp_Ok code_pc_def)
    note j = patched_jump [OF c(2) ext(1,3) p A(3)]
    have f3: "fits X cx c3" by (rule fits_same [OF A(2) j(5)])
    have f1: "fits X cx c1" using fits_ext [OF f3] ext_trans [OF ext(2,3)] by blast
    have l: "length (c_code c3) < 2 ^ 32" using j(4) lim fin by simp
    have br: "sim (se_env se) t (flow_post se X c') (if truth v then exec se n cx b st' else Ok (Normal, st'))"
      if "at_end se X c1 st' [v] t" for v st' t
    proof (rule sim_seq [OF do_jmpf [of se X _ st' "[]" v t, OF _ q j(3) l]])
      fix u
      assume u: "cfg se X (if truth v then length (c_code c1) + 5 else length (c_code c3)) st' [] u"
      have "sim (se_env se) u (flow_post se X c3) (exec se n cx b st')" if "truth v"
        using stmt_simD [OF b(1) c(3) f3 j(2)] u that len2 by simp
      moreover have "flow_post se X c3 = flow_post se X c'" using flow_post_cong j(4) by metis
      ultimately show "sim (se_env se) u (flow_post se X c') (if truth v then exec se n cx b st' else Ok (Normal, st'))"
        using u j(4) by (auto intro: sim_Ok)
    qed (use that in simp)
    show ?thesis unfolding exec.simps None option.case
      by (rule sim_bind2 [OF expr_simD0 [OF a(1) c(1) f1 j(1) A(4)]]) (rule br)
  next
    case (Some el)
    then obtain jd c4 c5 c6 where d: "emit_jump os OP_JMP c3 = (Ok jd, c4)"
      "compile_stmt os el False c4 = (Ok (), c5)" "patch_jump je (length (c_code c4)) c5 = (Ok (), c6)"
      "patch_jump jd (length (c_code c5)) c6 = (Ok (), c')"
      using rest by (auto simp: comp_Ok code_pc_def)
    have el: "stmt_sim se n os el" "plain el" using e Some by auto
    have e45: "ext c4 c5" using compile_stmt_ext(1) [OF d(2) el(2)] .
    note j = patched_jumps [OF c(2) d(1) ext(1,3) e45 d(3,4) A(3)]
    have f5: "fits X cx c5" by (rule fits_same [OF A(2) j(7)])
    have f3: "fits X cx c3" using fits_ext [OF f5] ext_trans [OF emit_jump_ext [OF d(1)] e45] by blast
    have f1: "fits X cx c1" using fits_ext [OF f3] ext_trans [OF ext(2,3)] by blast
    have len4: "length (c_code c4) = length (c_code c3) + 5" "length (c_code c4) \<le> length (c_code c5)"
      using emit_jump_Ok [OF d(1)] ext_length [OF e45] by auto
    have l: "length (c_code c4) < 2 ^ 32" "length (c_code c5) < 2 ^ 32" using j(6) lim fin len4 by auto
    have th: "sim (se_env se) u (flow_post se X c') (exec se n cx b st')"
      if "at_end se X c2 st' [] u" for st' u
    proof (rule sim_then [OF stmt_simD [OF b(1) c(3) f3 j(2) that]])
      fix x t
      assume x: "flow_post se X c3 x t"
      obtain fl st'' where fl: "x = (fl, st'')" by (metis surj_pair)
      show "sim (se_env se) t (\<lambda>_. flow_post se X c' x) (Ok ())"
      proof (cases fl)
        case Normal
        then have "at_end se X c3 st'' [] t" using x fl by simp
        from do_jmp [OF this q j(5) l(2)] show ?thesis using fl Normal j(6) by (simp add: flow_post_fun)
      qed (use x fl in \<open>auto intro: sim_Ok\<close>)
    qed
    have br: "sim (se_env se) t (flow_post se X c') (if truth v then exec se n cx b st' else exec se n cx el st')"
      if "at_end se X c1 st' [v] t" for v st' t
    proof (rule sim_seq [OF do_jmpf [of se X _ st' "[]" v t, OF _ q j(4) l(1)]])
      fix u
      assume u: "cfg se X (if truth v then length (c_code c1) + 5 else length (c_code c4)) st' [] u"
      have "sim (se_env se) u (flow_post se X c5) (exec se n cx el st')" if "\<not> truth v"
        using stmt_simD [OF el(1) d(2) f5 j(3)] u that by simp
      moreover have "flow_post se X c5 = flow_post se X c'" using flow_post_cong j(6) by metis
      ultimately show "sim (se_env se) u (flow_post se X c') (if truth v then exec se n cx b st' else exec se n cx el st')"
        using u len2 th [of st' u] by auto
    qed (use that in simp)
    show ?thesis unfolding exec.simps Some option.case
      by (rule sim_bind2 [OF expr_simD0 [OF a(1) c(1) f1 j(1) A(4)]]) (rule br)
  qed
qed

text \<open>The body of a loop and the jump back to its top.\<close>

lemma loop_back:
  assumes q: "quiet (se_env se)" and b: "stmt_sim se n os b" and c: "compile_stmt os b False c2 = (Ok (), c3)"
    and f: "fits X cx c3" and p: "placed X c2 c3" and u: "at_end se X c2 st [] u"
    and again: "\<And>st' t. at_end se X c3 st' [] t \<Longrightarrow> sim (se_env se) t (flow_post se X c') (k st')"
  shows "sim (se_env se) u (flow_post se X c')
    (bind_res (exec se n cx b st) (\<lambda>(fl, st). (case fl of Returned r \<Rightarrow> Ok (fl, st) | Normal \<Rightarrow> k st)))"
proof (rule sim_bind2)
  show "sim (se_env se) u (\<lambda>(fl, st) t. flow_post se X c3 (fl, st) t) (exec se n cx b st)"
    using stmt_simD [OF b c f p u] by simp
next
  fix fl st' t
  assume "flow_post se X c3 (fl, st') t"
  then show "sim (se_env se) t (flow_post se X c') (case fl of Returned r \<Rightarrow> Ok (fl, st') | Normal \<Rightarrow> k st')"
    using again by (cases fl) (auto intro: sim_Ok)
qed

lemma while_sim:
  assumes q: "quiet (se_env se)" and a: "expr_sim se n os a" "plain a" and b: "stmt_sim se n os b" "plain b"
    and loop: "\<And>m. n = Suc m \<Longrightarrow> stmt_sim se m os (A_WHILE a b)"
  shows "stmt_sim se n os (A_WHILE a b)"
  unfolding stmt_sim_def
proof (intro allI impI)
  fix c c' X cx st s
  assume A: "compile_stmt os (A_WHILE a b) False c = (Ok (), c')" "fits X cx c'" "placed X c c'" "at_end se X c st [] s"
  then obtain c1 je c2 c3 c4 where c: "compile_expr os a c = (Ok (), c1)" "emit_jump os OP_JMPF c1 = (Ok je, c2)"
    "compile_stmt os b False c2 = (Ok (), c3)" "emit_jump_at os OP_JMP (length (c_code c)) c3 = (Ok (), c4)"
    "patch_jump je (length (c_code c4)) c4 = (Ok (), c')"
    by (auto simp: comp_Ok code_pc_def)
  have ext: "ext c c1" "ext c1 c2" "ext c2 c3" "ext c3 c4"
    using c a(2) b(2) compile_expr_ext(1) emit_jump_ext emit_jump_at_ext compile_stmt_ext(1) by auto
  note j = patched_jump [OF c(2) ext(1) ext_trans [OF ext(3,4)] c(5) A(3)]
  have f4: "fits X cx c4" by (rule fits_same [OF A(2) j(5)])
  note p3 = split_code [OF ext(3,4) f4 j(2)]
  have f1: "fits X cx c1" using fits_ext [OF p3(1)] ext_trans [OF ext(2,3)] by blast
  have lim: "length (c_code c4) < 2 ^ 32" "length (c_code c) < 2 ^ 32"
    using A(2,3) j(4) ext_length [OF ext(1)] ext_length [OF ext(2)] ext_length [OF ext(3)] ext_length [OF ext(4)]
    by (auto simp: fits_def placed_def agree_def)
  have len2: "length (c_code c2) = length (c_code c1) + 5" using emit_jump_Ok [OF c(2)] by simp
  have jback: "code_at (fn_code (x_fn X)) (length (c_code c3)) (op_byte OP_JMP # le_bytes 4 (of_nat (length (c_code c)) :: u32))"
    using placed_code [OF p3(3) ext_refl] emit_jump_at_Ok [OF c(4)] by blast
  have again: "sim (se_env se) t (flow_post se X c') (case n of 0 \<Rightarrow> Crash OutOfFuel | Suc m \<Rightarrow> exec se m cx (A_WHILE a b) st')"
    if "at_end se X c3 st' [] t" for st' t
  proof (cases n)
    case (Suc m)
    show ?thesis
      by (rule sim_seq [OF do_jmp [OF that q jback lim(2)]]) (use stmt_simD [OF loop [OF Suc] A(1-3)] Suc in simp)
  qed simp
  have br: "sim (se_env se) t (flow_post se X c') (if \<not> truth v then Ok (Normal, st')
      else bind_res (exec se n cx b st') (\<lambda>(fl, st). (case fl of Returned r \<Rightarrow> Ok (fl, st)
        | Normal \<Rightarrow> (case n of 0 \<Rightarrow> Crash OutOfFuel | Suc m \<Rightarrow> exec se m cx (A_WHILE a b) st))))"
    if "at_end se X c1 st' [v] t" for v st' t
  proof (rule sim_seq [OF do_jmpf [of se X _ st' "[]" v t, OF _ q j(3) lim(1)]])
    fix u
    assume u: "cfg se X (if truth v then length (c_code c1) + 5 else length (c_code c4)) st' [] u"
    show "sim (se_env se) u (flow_post se X c') (if \<not> truth v then Ok (Normal, st')
      else bind_res (exec se n cx b st') (\<lambda>(fl, st). (case fl of Returned r \<Rightarrow> Ok (fl, st)
        | Normal \<Rightarrow> (case n of 0 \<Rightarrow> Crash OutOfFuel | Suc m \<Rightarrow> exec se m cx (A_WHILE a b) st))))"
    proof (cases "truth v")
      case True
      then show ?thesis using loop_back [OF q b(1) c(3) p3(1,2) _ again, of st' u] u len2 by simp
    next
      case False
      then show ?thesis using u j(4) by (auto intro: sim_Ok)
    qed
  qed (use that in simp)
  show "sim (se_env se) s (flow_post se X c') (exec se n cx (A_WHILE a b) st)"
    by (subst exec.simps) (rule sim_bind2 [OF expr_simD0 [OF a(1) c(1) f1 j(1) A(4)]], rule br)
qed

lemma return_sim:
  assumes q: "quiet (se_env se)" and e: "\<And>e. a = Some e \<Longrightarrow> expr_sim se n os e \<and> plain e"
  shows "stmt_sim se n os (A_RETURN a)"
  unfolding stmt_sim_def
proof (intro allI impI)
  fix c c' X cx st s
  assume A: "compile_stmt os (A_RETURN a) False c = (Ok (), c')" "fits X cx c'" "placed X c c'" "at_end se X c st [] s"
  then have in_fn: "c_in_fn c" by (auto simp: comp_Ok split: if_splits)
  obtain d where d: "(case a of None \<Rightarrow> emit1v os OP_PUSH 0 | Some e \<Rightarrow> compile_expr os e) c = (Ok (), d)"
    "emit1 os OP_RET d = (Ok (), c')"
    using A(1) in_fn by (auto simp: comp_Ok)
  have e1: "ext c d"
    using d(1) e by (cases a) (auto intro: emits_ext compile_expr_ext(1))
  note dd = split_code [OF e1 emits_ext(1) [OF d(2)] A(2,3)]
  have rest: "x_rest X \<noteq> []" using dd(1) e1 in_fn by (simp add: fits_def ext_def)
  have ret: "code_at (fn_code (x_fn X)) (length (c_code d)) [op_byte OP_RET]"
    using placed_code [OF dd(3) ext_refl] emit1_Ok [OF d(2)] by blast
  have fin: "sim (se_env se) t (flow_post se X c') (Ok (Returned v, st'))" if "at_end se X d st' [v] t" for v st' t
    using do_ret_at [OF _ q ret rest, of se st' "[]" v t] that by (auto intro: sim_value)
  have "sim (se_env se) s (\<lambda>(v, st') t. at_end se X d st' [v] t) (case a of None \<Rightarrow> Ok (0, st) | Some e \<Rightarrow> eval se n cx e st)"
  proof (cases a)
    case None
    then show ?thesis using run_push [OF q _ dd(2) A(4)] d(1) by (auto intro: sim_value)
  next
    case (Some x)
    then show ?thesis using expr_simD0 [OF _ _ dd(1,2) A(4)] e [OF Some] d(1) by auto
  qed
  then show "sim (se_env se) s (flow_post se X c') (exec se n cx (A_RETURN a) st)"
    unfolding exec.simps by (rule sim_bind2) (rule fin)
qed

lemma stmts_sim_Nil: "stmts_sim se n os []"
  unfolding stmts_sim_def by (auto simp: retc_Ok intro: sim_Ok)

lemma stmts_sim_Cons:
  assumes x: "stmt_sim se n os x" "plain x" and xs: "stmts_sim se n os xs" "\<forall>x\<in>set xs. plain x"
  shows "stmts_sim se n os (x # xs)"
  unfolding stmts_sim_def
proof (intro allI impI)
  fix c c' X cx st s
  assume a: "compile_block os (x # xs) c = (Ok (), c')" "fits X cx c'" "placed X c c'" "at_end se X c st [] s"
  then obtain d where d: "compile_stmt os x False c = (Ok (), d)" "compile_block os xs d = (Ok (), c')" by (auto simp: comp_Ok)
  note dd = split_code [OF compile_stmt_ext(1) [OF d(1) x(2)] compile_stmt_ext(2) [OF d(2) xs(2)] a(2,3)]
  have rest: "sim (se_env se) t (flow_post se X c') (case fl of Returned r \<Rightarrow> Ok (fl, st') | Normal \<Rightarrow> execs se n cx xs st')"
    if "flow_post se X d (fl, st') t" for fl st' t
  proof (cases fl)
    case Normal
    then show ?thesis using that stmts_simD [OF xs(1) d(2) a(2) dd(3), of st' t] by simp
  qed (use that in \<open>auto intro: sim_Ok\<close>)
  have "sim (se_env se) s (\<lambda>(fl, st') t. flow_post se X d (fl, st') t) (exec se n cx x st)"
    using stmt_simD [OF x(1) d(1) dd(1,2) a(4)] by simp
  then show "sim (se_env se) s (flow_post se X c') (execs se n cx (x # xs) st)"
    unfolding execs.simps by (rule sim_bind2) (rule rest)
qed

text \<open>The condition of a \<^verbatim>\<open>for\<close> loop, if there is one: its code ends at \<open>c2\<close>, or leaves the
  loop for \<open>c5\<close>.\<close>

definition for_cond :: "allocator \<Rightarrow> ast option \<Rightarrow> nat option comp" where
  "for_cond os b =
     (case b of
        None \<Rightarrow> retc None
      | Some e \<Rightarrow> thenc (compile_expr os e) (bindc (emit_jump os OP_JMPF) (\<lambda>je. retc (Some je))))"

definition for_patch :: "nat option \<Rightarrow> nat \<Rightarrow> unit comp" where
  "for_patch je l = (case je of None \<Rightarrow> retc () | Some je \<Rightarrow> patch_jump je l)"

lemma for_cond_Some:
  assumes "for_cond os (Some e) c = (Ok je, c2)"
  obtains c1 j where "compile_expr os e c = (Ok (), c1)" "emit_jump os OP_JMPF c1 = (Ok j, c2)" "je = Some j"
  using assms by (auto simp: for_cond_def comp_Ok)

lemma for_head_static:
  assumes b: "\<forall>e. b = Some e \<longrightarrow> plain e" and c: "for_cond os b c = (Ok je, c2)" "for_patch je l c5 = (Ok (), c')"
    and e: "ext c2 c5" and f: "fits X cx c'" and p: "placed X c c'"
  shows "fits X cx c5" and "placed X c2 c5" and "length (c_code c') = length (c_code c5)" and "ext c c2"
proof -
  have "fits X cx c5 \<and> placed X c2 c5 \<and> length (c_code c') = length (c_code c5) \<and> ext c c2"
  proof (cases b)
    case None
    then show ?thesis using c f p by (auto simp: for_cond_def for_patch_def retc_Ok)
  next
    case (Some x)
    obtain c1 j where d: "compile_expr os x c = (Ok (), c1)" "emit_jump os OP_JMPF c1 = (Ok j, c2)" "je = Some j"
      using for_cond_Some c(1) Some by metis
    have pj: "patch_jump j l c5 = (Ok (), c')" using c(2) d(3) by (simp add: for_patch_def)
    have ec: "ext c c1" "ext c1 c2" using compile_expr_ext(1) [OF d(1) b [rule_format, OF Some]] emit_jump_ext [OF d(2)] .
    note j = patched_jump [OF d(2) ec(1) e pj p]
    show ?thesis using fits_same [OF f j(5)] j(2,4) ext_trans [OF ec] by simp
  qed
  then show "fits X cx c5" and "placed X c2 c5" and "length (c_code c') = length (c_code c5)" and "ext c c2" by auto
qed

lemma for_head:
  assumes q: "quiet (se_env se)" and b: "\<And>e. b = Some e \<Longrightarrow> expr_sim se n os e \<and> plain e"
    and c: "for_cond os b c = (Ok je, c2)" "for_patch je (length (c_code c5)) c5 = (Ok (), c')"
    and e: "ext c2 c5" and f: "fits X cx c'" and p: "placed X c c'" and s: "at_end se X c st [] s"
    and T: "\<And>v st' t. truth v \<Longrightarrow> at_end se X c2 st' [] t \<Longrightarrow> sim (se_env se) t R (k v st')"
    and F: "\<And>v st' t. \<not> truth v \<Longrightarrow> at_end se X c5 st' [] t \<Longrightarrow> sim (se_env se) t R (k v st')"
  shows "sim (se_env se) s R (bind_res (case b of None \<Rightarrow> Ok (1, st) | Some e \<Rightarrow> eval se n cx e st) (\<lambda>(v, st'). k v st'))"
proof (cases b)
  case None
  then have "c2 = c" using c(1) by (simp add: for_cond_def retc_Ok)
  then show ?thesis using None T [of 1 st s] s by (simp add: truth_def)
next
  case (Some x)
  obtain c1 j where d: "compile_expr os x c = (Ok (), c1)" "emit_jump os OP_JMPF c1 = (Ok j, c2)" "je = Some j"
    using for_cond_Some c(1) Some by metis
  have x: "expr_sim se n os x" "plain x" using b Some by auto
  have pj: "patch_jump j (length (c_code c5)) c5 = (Ok (), c')" using c(2) d(3) by (simp add: for_patch_def)
  have ec: "ext c c1" "ext c1 c2" using compile_expr_ext(1) [OF d(1) x(2)] emit_jump_ext [OF d(2)] .
  note j = patched_jump [OF d(2) ec(1) e pj p]
  have f1: "fits X cx c1" using fits_ext [OF fits_same [OF f j(5)]] ext_trans [OF ec(2) e] by blast
  have lim: "length (c_code c5) < 2 ^ 32" using f p j(4) by (auto simp: fits_def placed_def agree_def)
  have len2: "length (c_code c2) = length (c_code c1) + 5" using emit_jump_Ok [OF d(2)] by simp
  have br: "sim (se_env se) t R (k v st')" if t: "at_end se X c1 st' [v] t" for v st' t
  proof (rule sim_seq [OF do_jmpf [of se X _ st' "[]" v t, OF _ q j(3) lim]])
    fix u
    assume "cfg se X (if truth v then length (c_code c1) + 5 else length (c_code c5)) st' [] u"
    then show "sim (se_env se) u R (k v st')"
      using T [of v st' u] F [of v st' u] len2 by (cases "truth v") simp_all
  qed (use t in simp)
  show ?thesis unfolding Some option.case
    by (rule sim_bind2 [OF expr_simD0 [OF x(1) d(1) f1 j(1) s]]) (rule br)
qed

text \<open>A \<^verbatim>\<open>for\<close> loop after its first part; the condition and the last part may be absent.\<close>

lemma for_loop_sim:
  assumes q: "quiet (se_env se)" and b: "\<And>e. b = Some e \<Longrightarrow> expr_sim se n os e \<and> plain e"
    and p: "\<And>e. p = Some e \<Longrightarrow> expr_sim se n os e \<and> plain e"
    and body: "stmt_sim se n os body" "plain body"
    and loop: "\<And>m. n = Suc m \<Longrightarrow> stmt_sim se m os (A_FOR None b p body)"
  shows "stmt_sim se n os (A_FOR None b p body)"
  unfolding stmt_sim_def
proof (intro allI impI)
  fix c c' X cx st s
  assume A: "compile_stmt os (A_FOR None b p body) False c = (Ok (), c')" "fits X cx c'" "placed X c c'" "at_end se X c st [] s"
  from A(1) [unfolded compile_for, folded for_cond_def for_patch_def] obtain je c2 c3 c4 c5 where
    c: "for_cond os b c = (Ok je, c2)" "compile_stmt os body False c2 = (Ok (), c3)"
    "(case p of None \<Rightarrow> retc () | Some e \<Rightarrow> thenc (compile_expr os e) (emit1 os OP_POP)) c3 = (Ok (), c4)"
    "emit_jump_at os OP_JMP (length (c_code c)) c4 = (Ok (), c5)" "for_patch je (length (c_code c5)) c5 = (Ok (), c')"
    by (auto simp: bindc_Ok thenc_Ok readc_Ok retc_Ok code_pc_def for_first_def)
  have "ext c3 c4" using c(3) p by (cases p) (auto simp: retc_Ok intro: expr_pop_ext)
  then have ext: "ext c2 c3" "ext c3 c4" "ext c4 c5"
    using compile_stmt_ext(1) [OF c(2) body(2)] emit_jump_at_ext [OF c(4)] by auto
  have e25: "ext c2 c5" using ext ext_trans by blast
  have bp: "\<forall>e. b = Some e \<longrightarrow> plain e" using b by blast
  note hd = for_head_static [OF bp c(1,5) e25 A(2,3)]
  note p4 = split_code [OF ext_trans [OF ext(1,2)] ext(3) hd(1,2)]
  note p3 = split_code [OF ext(1,2) p4(1,2)]
  have lim: "length (c_code c) < 2 ^ 32"
    using A(2,3) hd(3) ext_length [OF hd(4)] ext_length [OF e25] by (auto simp: fits_def placed_def agree_def)
  have jback: "code_at (fn_code (x_fn X)) (length (c_code c4)) (op_byte OP_JMP # le_bytes 4 (of_nat (length (c_code c)) :: u32))"
    using placed_code [OF p4(3) ext_refl] emit_jump_at_Ok [OF c(4)] by blast
  let ?next = "\<lambda>st. case n of 0 \<Rightarrow> Crash OutOfFuel | Suc m \<Rightarrow> exec se m cx (A_FOR None b p body) st"
  have again: "sim (se_env se) t (flow_post se X c') (?next st')" if "at_end se X c4 st' [] t" for st' t
  proof (cases n)
    case (Suc m)
    show ?thesis
      by (rule sim_seq [OF do_jmp [OF that q jback lim]]) (use stmt_simD [OF loop [OF Suc] A(1-3)] Suc in simp)
  qed simp
  have post: "sim (se_env se) t (flow_post se X c')
      (bind_res (case p of None \<Rightarrow> Ok (0, st') | Some e \<Rightarrow> eval se n cx e st') (\<lambda>(v, st). ?next st))"
    if t: "at_end se X c3 st' [] t" for st' t
  proof (cases p)
    case None
    then show ?thesis using c(3) again t by (auto simp: retc_Ok)
  next
    case (Some e)
    then obtain d where d: "compile_expr os e c3 = (Ok (), d)" "emit1 os OP_POP d = (Ok (), c4)" using c(3) by (auto simp: comp_Ok)
    have e: "expr_sim se n os e" "plain e" using p Some by auto
    have "sim (se_env se) t (flow_post se X c') (bind_res (eval se n cx e st') (\<lambda>(v, st). ?next st))"
      by (rule sim_bind2 [OF expr_pop_sim [OF q e d p4(1) p3(3) t]]) (rule again)
    then show ?thesis using Some by simp
  qed
  note run = loop_back [OF q body(1) c(2) p3(1,2) _ post]
  show "sim (se_env se) s (flow_post se X c') (exec se n cx (A_FOR None b p body) st)"
    by (subst exec.simps, rule for_head [OF q b c(1,5) e25 A(2-4)])
      (use run hd(3) in \<open>auto intro: sim_Ok\<close>)
qed

lemma for_sim:
  assumes q: "quiet (se_env se)" and i: "plain i" "\<not> is_decl i \<Longrightarrow> expr_sim se n os i" "is_decl i \<Longrightarrow> stmt_sim se n os i"
    and loop: "stmt_sim se n os (A_FOR None b p body)" "plain (A_FOR None b p body)"
  shows "stmt_sim se n os (A_FOR (Some i) b p body)"
  unfolding stmt_sim_def
proof (intro allI impI)
  fix c c' X cx st s
  assume A: "compile_stmt os (A_FOR (Some i) b p body) False c = (Ok (), c')" "fits X cx c'" "placed X c c'" "at_end se X c st [] s"
  obtain d where d: "for_first os (Some i) c = (Ok (), d)" "compile_stmt os (A_FOR None b p body) False d = (Ok (), c')"
    using A(1) [unfolded compile_for] unfolding compile_for [of os None]
    by (auto simp: thenc_Ok for_first_def [of os None] retc_Ok)
  note dd = split_code [OF for_first_ext [OF d(1)] compile_stmt_ext(1) [OF d(2) loop(2)] A(2,3)]
  have rest: "sim (se_env se) t (flow_post se X c') (exec se n cx (A_FOR None b p body) st')"
    if "flow_post se X d (Normal, st') t" for st' t
    using stmt_simD [OF loop(1) d(2) A(2) dd(3)] that i by simp
  show "sim (se_env se) s (flow_post se X c') (exec se n cx (A_FOR (Some i) b p body) st)"
  proof (cases "is_decl i")
    case True
    then obtain t x a where decl: "i = A_VARDECL t x a" by (cases i) auto
    have "sim (se_env se) s (\<lambda>(fl, st') t. flow_post se X d (fl, st') t) (exec se n cx i st)"
      using stmt_simD [OF i(3) _ dd(1,2) A(4)] True d(1) decl i(1) by (simp add: for_first_def)
    moreover have "fl = Normal" if "exec se n cx i st = Ok (fl, st')" for fl st'
      using that decl by (auto simp: bind_res_Ok_iff split: option.splits)
    ultimately show ?thesis
      using True rest by (subst exec.simps) (auto intro!: sim_bind' [where r = "exec se n cx i st"])
  next
    case False
    obtain e where e: "compile_expr os i c = (Ok (), e)" "emit1 os OP_POP e = (Ok (), d)"
      using d(1) False by (auto simp: for_first_expr comp_Ok)
    have "sim (se_env se) s (\<lambda>(fl, st') t. fl = Normal \<and> flow_post se X d (fl, st') t)
        (bind_res (eval se n cx i st) (\<lambda>(v, st). Ok (Normal, st)))"
      by (rule sim_bind2 [OF expr_pop_sim [OF q i(2) [OF False] i(1) e dd(1,2) A(4)]]) (use i in \<open>auto intro: sim_Ok\<close>)
    note first = this
    have eq: "exec se n cx (A_FOR (Some i) b p body) st =
        bind_res (bind_res (eval se n cx i st) (\<lambda>(v, st). Ok (Normal, st)))
          (\<lambda>(fl, st). exec se n cx (A_FOR None b p body) st)"
      by (subst exec.simps) (simp only: False if_False)
    show ?thesis unfolding eq by (rule sim_bind2 [OF first]) (use rest in blast)
  qed
qed

section \<open>Every statement, every fuel\<close>

definition all_sim :: "'w sem \<Rightarrow> nat \<Rightarrow> bool" where
  "all_sim se n \<longleftrightarrow> (\<forall>os a. plain a \<longrightarrow> stmt_sim se n os a)"

lemma all_sim_stmts: "all_sim se n \<Longrightarrow> \<forall>a\<in>set ss. plain a \<Longrightarrow> stmts_sim se n os ss"
  by (induction ss) (auto simp: all_sim_def intro: stmts_sim_Nil stmts_sim_Cons)

lemma all_sim_block: "all_sim se n \<Longrightarrow> block_sim se n"
  unfolding block_sim_def using all_sim_stmts stmts_simD by metis

lemma stmt_sim_step:
  assumes ok: "sem_ok se" and IH: "\<And>m. m < n \<Longrightarrow> all_sim se m"
  shows "plain a \<Longrightarrow> stmt_sim se n os a" and "\<forall>a\<in>set ss. plain a \<Longrightarrow> stmts_sim se n os ss"
proof -
  have q: "quiet (se_env se)" using ok by (simp add: sem_ok_def)
  have "calls_sim se n" unfolding calls_sim_def using IH all_sim_block by blast
  then have ex: "plain e \<Longrightarrow> expr_sim se n os e" for os e using compile_expr_sim(1) [OF ok] by blast
  have decl: "stmt_sim se n os (A_VARDECL t x a)" if "\<forall>e. a = Some e \<longrightarrow> plain e" for os t x a
    unfolding stmt_sim_def using vardecl_run [OF q, of a n os t x] that ex by simp
  show "plain a \<Longrightarrow> stmt_sim se n os a" and "\<forall>a\<in>set ss. plain a \<Longrightarrow> stmts_sim se n os ss"
proof (induction os a l\<equiv>False and os ss rule: compile_stmt_compile_block.induct)
  case (1 os e)
  then show ?case using exprstmt_sim [OF q ex] by simp
next
  case (2 os t name a)
  then show ?case by (intro decl) (simp split: option.splits)
next
  case (3 os ss)
  then have "stmts_sim se n os ss" by simp
  then show ?case by (simp add: stmt_sim_def stmts_sim_def)
next
  case (4 os a b c)
  then show ?case by (intro if_sim [OF q ex]) (auto split: option.splits)
next
  case (5 os a b)
  have "stmt_sim se m os (A_WHILE a b)" if "n = Suc m" for m using IH [of m] that 5(2) by (simp add: all_sim_def)
  then show ?case using 5 by (intro while_sim [OF q ex]) auto
next
  case (6 os a b c body)
  have body: "stmt_sim se n os body" "plain body" using 6 by auto
  have opt: "expr_sim se n os e \<and> plain e" if "x = Some e" "case x of None \<Rightarrow> True | Some e \<Rightarrow> plain e" for x e
    using that ex by simp
  have pl: "case a of None \<Rightarrow> True | Some e \<Rightarrow> plain e" "case b of None \<Rightarrow> True | Some e \<Rightarrow> plain e"
    "case c of None \<Rightarrow> True | Some e \<Rightarrow> plain e" using 6(2) by auto
  have plf: "plain (A_FOR None b c body)" using pl body(2) by simp
  have more: "stmt_sim se m os (A_FOR None b c body)" if "n = Suc m" for m
    using IH [of m] that plf unfolding all_sim_def by blast
  have loop: "stmt_sim se n os (A_FOR None b c body)"
    by (rule for_loop_sim [OF q opt [OF _ pl(2)] opt [OF _ pl(3)] body more])
  show ?case
  proof (cases a)
    case (Some i)
    have "plain i" using pl(1) Some by simp
    moreover have "stmt_sim se n os i" if "is_decl i"
      using that \<open>plain i\<close> decl by (cases i) (auto split: option.splits)
    ultimately show ?thesis unfolding Some using for_sim [OF q _ _ _ loop plf] ex by blast
  qed (use loop in simp)
next
  case (7 os a)
  then have "expr_sim se n os e \<and> plain e" if "a = Some e" for e using that ex by simp
  then show ?case by (rule return_sim [OF q])
qed (auto simp: stmt_sim_def intro: stmts_sim_Nil stmts_sim_Cons)
qed

lemma all_sims: "sem_ok se \<Longrightarrow> all_sim se n"
proof (induction n rule: less_induct)
  case (less n)
  then show ?case using stmt_sim_step(1) [of se n] unfolding all_sim_def by blast
qed
end
