(* ===== verification/CompInv.thy ===== *)
theory CompInv
  imports CodeGen
begin

text \<open>
  Properties of the compiler state that every translation keeps, by success and by failure: shown
  once from what a property owes the primitive actions, and used for the bounds of the tables, for
  what stays fixed in the function being filled in, and for the ownership of memory.
\<close>

section \<open>Invariants of the compiler state\<close>

text \<open>\<open>keeps P m\<close>: the action \<open>m\<close> keeps \<open>P\<close>, whether it succeeds or not.\<close>

definition keeps :: "(ccomp \<Rightarrow> bool) \<Rightarrow> 'a comp \<Rightarrow> bool" where
  "keeps P m \<longleftrightarrow> (\<forall>c. P c \<longrightarrow> P (snd (m c)))"

lemma keepsD: "keeps P m \<Longrightarrow> m c = (r, c') \<Longrightarrow> P c \<Longrightarrow> P c'"
  unfolding keeps_def by (metis snd_conv)

named_theorems keeps_rules \<open>actions that keep a property of the compiler state\<close>

lemma keeps_bind [keeps_rules]: "keeps P m \<Longrightarrow> (\<And>x. keeps P (k x)) \<Longrightarrow> keeps P (bindc m k)"
  unfolding keeps_def bindc_def by (auto split: prod.splits res.splits)

lemma keeps_then [keeps_rules]: "keeps P m \<Longrightarrow> keeps P k \<Longrightarrow> keeps P (thenc m k)"
  unfolding thenc_def by (rule keeps_bind)

lemma keeps_basic [keeps_rules]:
  "keeps P (retc x)" "keeps P (readc f)" "keeps P (cerr e)"
  by (simp_all add: keeps_def retc_def readc_def cerr_def)

lemma keeps_if: "keeps P m \<Longrightarrow> keeps P k \<Longrightarrow> keeps P (if b then m else k)"
  by simp

fun is_exprstmt :: "ast \<Rightarrow> bool" where
  "is_exprstmt (A_STMTEXPR e) = True"
| "is_exprstmt _ = False"

text \<open>
  What a property of the compiler state owes the primitive actions so that every translation
  keeps it. The flag tells whether keeping the value of the last expression is allowed for.
\<close>

locale stable_state =
  fixes P :: "ccomp \<Rightarrow> bool" and b :: bool
  assumes ensure_keeps [keeps_rules]: "keeps P (buf_ensure os n)"
    and bytes_keeps [keeps_rules]: "keeps P (emit_bytes bs)"
    and patch_keeps [keeps_rules]: "keeps P (patch_jump at l)"
    and string_keeps [keeps_rules]: "keeps P (add_string os s)"
    and var_keeps [keeps_rules]: "keeps P (add_var x t)"
    and flag_keeps [keeps_rules]: "b \<Longrightarrow> keeps P set_last_expr"
    and arena_irrelevant: "P (c\<lparr>c_arena := ar\<rparr>) = P c"
begin

lemma cerr_name_keeps [keeps_rules]: "keeps P (cerr_name pre post nm)"
  by (auto simp: keeps_def cerr_name_def arena_irrelevant split: option.splits)

lemma emits_keeps [keeps_rules]:
  "keeps P (emit1 os opc)" "keeps P (emit1v os opc v)" "keeps P (emit1u32 os opc w)"
  "keeps P (emit_jump os opc)" "keeps P (emit_jump_at os opc l)"
  unfolding emit1_def emit1v_def emit1u32_def emit_jump_at_def emit_jump_def by (intro keeps_rules)+

lemma need_var_keeps [keeps_rules]: "keeps P (need_var x)"
  unfolding need_var_def by (intro keeps_rules) (auto split: option.splits intro: keeps_rules)

lemma push_defaults_keeps [keeps_rules]: "keeps P (push_defaults os f ks)"
  by (induction ks) (auto intro: keeps_rules)

lemma compile_call_keeps [keeps_rules]: "keeps P args \<Longrightarrow> keeps P (compile_call os nm n args)"
  unfolding compile_call_def by (intro keeps_rules) (auto split: option.splits sum.splits intro!: keeps_rules)

lemma compile_expr_keeps [keeps_rules]:
  "keeps P (compile_expr os e)" "keeps P (compile_args os es)"
proof (induction os e and os es rule: compile_expr_compile_args.induct)
  case (5 os b x y)
  then show ?case
    by (auto simp: compile_bin_def compile_logic_def Let_def split: option.splits intro!: keeps_rules)
next
  case (6 os u x)
  then show ?case by (auto simp: compile_unop_def split: unop.splits option.splits intro!: keeps_rules)
next
  case (8 os b name x)
  then show ?case by (auto simp: compile_assign_def split: option.splits intro!: keeps_rules)
qed (auto intro!: keeps_rules)

lemma finish_keeps [keeps_rules]: "(k \<Longrightarrow> b) \<Longrightarrow> keeps P (finish_expr os k)"
  unfolding finish_expr_def by (intro keeps_rules) (auto intro: keeps_rules)

lemma exprstmt_keeps [keeps_rules]: "(l \<Longrightarrow> b) \<Longrightarrow> keeps P (compile_exprstmt os e l)"
  unfolding compile_exprstmt_def by (intro keeps_rules) (auto split: option.splits intro!: keeps_rules)

lemma vardecl_keeps [keeps_rules]: "keeps P (compile_vardecl os t x a)"
  unfolding compile_vardecl_def by (intro keeps_rules) (auto split: option.splits intro!: keeps_rules)

lemma for_first_keeps [keeps_rules]: "keeps P (for_first os a)"
proof (cases a)
  case None
  then show ?thesis by (simp add: for_first_def keeps_rules)
next
  case (Some e)
  show ?thesis
  proof (cases "is_decl e")
    case True
    then obtain t x i where "e = A_VARDECL t x i" by (cases e) auto
    then show ?thesis by (simp add: for_first_def Some keeps_rules)
  qed (simp add: Some for_first_expr keeps_rules)
qed

lemma compile_stmt_keeps [keeps_rules]:
  "(l \<Longrightarrow> is_exprstmt s \<Longrightarrow> b) \<Longrightarrow> keeps P (compile_stmt os s l)" "keeps P (compile_block os ss)"
proof (induction os s l and os ss rule: compile_stmt_compile_block.induct)
  case (4 os a b c l)
  then show ?case by (auto split: option.splits intro!: keeps_rules)
next
  case (6 os a b c body l)
  then show ?case unfolding compile_for by (auto split: option.splits intro!: keeps_rules)
next
  case (7 os a l)
  then show ?case by (auto split: option.splits intro!: keeps_rules)
qed (auto intro!: keeps_rules)

end

text \<open>The tables the machine relies on: string constants without repetition, both tables within
  their arrays, and a buffer behind a nonzero capacity. The flag tells whether the value of the
  last expression may have been kept.\<close>

definition tables_ok :: "bool \<Rightarrow> ccomp \<Rightarrow> bool" where
  "tables_ok b c \<longleftrightarrow> (fn_last_expr (c_fn c) \<longrightarrow> b) \<and> distinct (map snd (fn_strings (c_fn c))) \<and> length (fn_strings (c_fn c)) \<le> NOC_MAX_STRINGS
     \<and> length (c_syms c) \<le> NOC_MAX_LOCALS \<and> (0 < c_cap c \<longrightarrow> c_data c \<noteq> 0)"

lemma buf_ensure_tables: "keeps (tables_ok b) (buf_ensure os n)"
  by (auto simp: keeps_def buf_ensure_def tables_ok_def Let_def split: if_splits prod.splits)

lemma emit_bytes_tables: "keeps (tables_ok b) (emit_bytes bs)"
  by (auto simp: keeps_def emit_bytes_def tables_ok_def)

lemma patch_tables: "keeps (tables_ok b) (patch_jump at l)"
  by (auto simp: keeps_def patch_jump_def tables_ok_def)

lemma string_idx_None: "string_idx ss s = None \<longleftrightarrow> s \<notin> snd ` set ss"
proof -
  have "snd ` set ss = {snd (ss ! i) | i. i < length ss}" by (force simp: in_set_conv_nth image_iff)
  then show ?thesis by (auto simp: string_idx_def first_in_None_iff)
qed

lemma add_string_tables: "keeps (tables_ok b) (add_string os s)"
  unfolding keeps_def
proof (intro allI impI)
  fix c
  assume t: "tables_ok b c"
  show "tables_ok b (snd (add_string os s c))"
  proof (cases "string_idx (fn_strings (c_fn c)) s")
    case None
    then have "s \<notin> snd ` set (fn_strings (c_fn c))" by (simp add: string_idx_None)
    then show ?thesis using t None
      by (auto simp: add_string_def tables_ok_def Let_def split: if_splits prod.splits)
  qed (use t in \<open>simp add: add_string_def\<close>)
qed

lemma add_var_tables: "keeps (tables_ok b) (add_var x t)"
  by (auto simp: keeps_def add_var_def bindc_def readc_def cerr_def cerr_name_def tables_ok_def split: if_splits option.splits)

lemma set_last_tables: "b \<Longrightarrow> keeps (tables_ok b) set_last_expr"
  by (auto simp: keeps_def set_last_expr_def tables_ok_def)

interpretation tables: stable_state "tables_ok b" b for b
  by unfold_locales (rule buf_ensure_tables emit_bytes_tables patch_tables add_string_tables add_var_tables set_last_tables | assumption | simp add: tables_ok_def)+

text \<open>What a translation leaves alone in the function it fills in, and in the slots already given.\<close>

definition header_is :: "string \<Rightarrow> nat \<Rightarrow> (string \<times> ntype) list \<Rightarrow> ccomp \<Rightarrow> bool" where
  "header_is nm k syms c \<longleftrightarrow> fn_name (c_fn c) = nm \<and> fn_nargs (c_fn c) = k \<and> prefix syms (c_syms c)"

interpretation header: stable_state "header_is nm k syms" True for nm k syms
proof unfold_locales
  show "keeps (header_is nm k syms) (add_string os s)" for os s
    by (auto simp: keeps_def add_string_def header_is_def Let_def split: if_splits prod.splits option.splits)
  show "keeps (header_is nm k syms) (add_var x t)" for x t
    by (auto simp: keeps_def add_var_def bindc_def readc_def cerr_def cerr_name_def header_is_def prefix_def split: if_splits option.splits)
  show "keeps (header_is nm k syms) (buf_ensure os n)" for os n
    by (auto simp: keeps_def buf_ensure_def header_is_def Let_def split: if_splits prod.splits)
qed (auto simp: keeps_def emit_bytes_def patch_jump_def set_last_expr_def header_is_def)

end
