(* ===== verification/LineCorrect.thy ===== *)
theory LineCorrect
  imports Correct CompInv
begin

text \<open>
  Whole lines: what the prompt compiles and runs. The compiler's tables stay within their arrays,
  the machine started on the code of a line does what the line means, and a function definition
  leaves a registry in which the function has the meaning of its source.
\<close>

lemma grow_cap_pos: "0 < n \<Longrightarrow> 0 < grow_cap n need"
  by (induction n need rule: grow_cap.induct) (simp add: grow_cap.simps)

lemma emit1_data:
  assumes "emit1 os opc c = (Ok u, c')" and "tables_ok b c"
  shows "c_data c' \<noteq> 0"
proof -
  have t: "tables_ok b c'" using tables.emits_keeps(1) assms by (blast dest: keepsD)
  have "0 < c_cap c'"
    using assms(1) grow_cap_pos [of "if c_cap c \<noteq> 0 then c_cap c * 2 else 1024"]
    by (auto simp: emit1_def comp_Ok buf_ensure_def emit_bytes_def Let_def split: if_splits prod.splits)
  then show ?thesis using t by (simp add: tables_ok_def)
qed

section \<open>Lines\<close>

text \<open>The context of a compiled line, and the meaning of a line: its statements in order, and the
  value of the last one when it is kept.\<close>

definition line_ctx :: "registry \<Rightarrow> noc_fn \<Rightarrow> fctx" where
  "line_ctx fs f = \<lparr>fc_sigs = fs,
     fc_strs = (\<lambda>s. case string_idx (fn_strings f) s of Some i \<Rightarrow> fst (fn_strings f ! i) | None \<Rightarrow> 0)\<rparr>"

fun stmt_value :: "ast \<Rightarrow> ast" where
  "stmt_value (A_STMTEXPR e) = e"
| "stmt_value a = a"

definition exec_line :: "'w sem \<Rightarrow> nat \<Rightarrow> fctx \<Rightarrow> ast list \<Rightarrow> bool \<Rightarrow> 'w st \<Rightarrow> (u64 option \<times> 'w st) res" where
  "exec_line se n cx ss keep st =
     (if keep then
        bind_res (execs se n cx (butlast ss) st) (\<lambda>(fl, st).
          bind_res (eval se n cx (stmt_value (last ss)) st) (\<lambda>(v, st). Ok (Some v, st)))
      else bind_res (execs se n cx ss st) (\<lambda>(fl, st). Ok (None, st)))"

lemma strs_ok_ctx:
  assumes "distinct (map snd (fn_strings f))"
  shows "strs_ok (line_ctx fs f) f"
  unfolding strs_ok_def
proof (intro allI impI)
  fix i
  assume i: "i < length (fn_strings f)"
  have "string_idx (fn_strings f) (snd (fn_strings f ! i)) = Some i"
    using i assms by (auto simp: string_idx_def first_in_Some_iff distinct_conv_nth)
  then show "fc_strs (line_ctx fs f) (snd (fn_strings f ! i)) = fst (fn_strings f ! i)"
    by (simp add: line_ctx_def)
qed

lemma compile_tops_snoc:
  assumes "\<forall>a\<in>set (ss @ [z]). plain a"
  shows "compile_tops os (ss @ [z]) = thenc (compile_block os ss) (compile_stmt os z True)"
  using assms
proof (induction ss)
  case Nil
  then show ?case by (cases z) (simp_all add: thenc_def bindc_def retc_def fun_eq_iff split: prod.splits res.splits)
next
  case (Cons a ss)
  have "compile_tops os (a # ss @ [z]) = thenc (compile_stmt os a False) (compile_tops os (ss @ [z]))"
    using Cons.prems by (cases a) simp_all
  also have "\<dots> = thenc (thenc (compile_stmt os a False) (compile_block os ss)) (compile_stmt os z True)"
    using Cons by (simp add: thenc_def bindc_def fun_eq_iff split: prod.splits res.splits)
  finally show ?case by simp
qed

lemma compile_block_snoc:
  "compile_block os (ss @ [z]) = thenc (compile_block os ss) (compile_stmt os z False)"
  by (induction ss) (simp_all add: thenc_def bindc_def retc_def fun_eq_iff split: prod.splits res.splits)

lemma stmt_flag: "\<not> is_exprstmt z \<Longrightarrow> compile_stmt os z l = compile_stmt os z False"
  by (cases z) auto

text \<open>A line is a block, or a block followed by an expression whose value stays on the stack.\<close>

lemma compile_tops_cases:
  assumes c: "compile_tops os ss c = (Ok (), c')" and pl: "\<forall>a\<in>set ss. plain a" and t: "tables_ok False c"
    and top: "\<not> c_in_fn c"
  obtains "\<not> fn_last_expr (c_fn c')" "compile_block os ss c = (Ok (), c')"
  | init e d d' where "fn_last_expr (c_fn c')" "ss = init @ [A_STMTEXPR e]" "compile_block os init c = (Ok (), d)"
      "compile_expr os e d = (Ok (), d')" "c' = d'\<lparr>c_fn := (c_fn d')\<lparr>fn_last_expr := True\<rparr>\<rparr>"
proof (cases ss rule: rev_cases)
  case Nil
  then show ?thesis using c t that(1) by (simp add: retc_Ok tables_ok_def)
next
  case (snoc init z)
  obtain d where d: "compile_block os init c = (Ok (), d)" "compile_stmt os z True d = (Ok (), c')"
    using c pl unfolding snoc by (auto simp: compile_tops_snoc thenc_Ok)
  have dt: "tables_ok False d" using tables.compile_stmt_keeps(2) d(1) t by (blast dest: keepsD)
  have din: "\<not> c_in_fn d" using compile_stmt_ext(2) [OF d(1)] pl top snoc by (auto simp: ext_def)
  have blk: "compile_block os ss c = (Ok (), c')" if "compile_stmt os z False d = (Ok (), c')"
    using that d(1) unfolding snoc compile_block_snoc by (auto simp: thenc_Ok)
  show ?thesis
  proof (cases "is_exprstmt z")
    case False
    have "tables_ok False c'" using tables.compile_stmt_keeps(1) [of True z False os] False d(2) dt by (blast dest: keepsD)
    moreover have "compile_stmt os z False d = (Ok (), c')" using d(2) stmt_flag [OF False, of os True] by simp
    ultimately show ?thesis using that(1) blk by (simp add: tables_ok_def)
  next
    case True
    then obtain e where z: "z = A_STMTEXPR e" by (cases z) auto
    then have e: "var_name e = None" "plain e" using pl snoc by auto
    obtain k d' where d': "compile_expr os e d = (Ok (), d')" "finish_expr os k d' = (Ok (), c')"
      using d(2) e z by (auto simp: compile_exprstmt_plain comp_Ok)
    have d't: "tables_ok False d'" using tables.compile_expr_keeps(1) d'(1) dt by (blast dest: keepsD)
    have "\<not> c_in_fn d'" using compile_expr_ext(1) [OF d'(1) e(2)] din by (simp add: ext_def)
    then have fin: "if k then set_last_expr d' = (Ok (), c') else emit1 os OP_POP d' = (Ok (), c')"
      using d'(2) by (auto simp: finish_expr_def comp_Ok split: if_splits)
    show ?thesis
    proof (cases k)
      case True
      then show ?thesis using that(2) [of init e d d'] fin d d' snoc z by (auto simp: set_last_expr_def)
    next
      case False
      then have pop: "emit1 os OP_POP d' = (Ok (), c')" using fin by simp
      have "compile_stmt os z False d = (Ok (), c')"
        using d'(1) pop e z by (auto simp: compile_exprstmt_plain comp_Ok finish_expr_def)
      moreover have "\<not> fn_last_expr (c_fn c')" using emit1_Ok [OF pop] d't by (auto simp: same_def tables_ok_def)
      ultimately show ?thesis using that(1) blk by blast
    qed
  qed
qed

lemma compile_tops_keeps:
  assumes "compile_tops os ss c = (Ok (), c')" and pl: "\<forall>a\<in>set ss. plain a" and t: "tables_ok False c"
    and "\<not> c_in_fn c"
  shows "ext c c' \<and> tables_ok True c'"
  using assms
proof (cases rule: compile_tops_cases)
  case 1
  have "tables_ok False c'" using tables.compile_stmt_keeps(2) 1(2) t by (blast dest: keepsD)
  then show ?thesis using compile_stmt_ext(2) [OF 1(2) pl] by (simp add: tables_ok_def)
next
  case (2 init e d d')
  have "ext c d" "ext d d'" using compile_stmt_ext(2) [OF 2(3)] compile_expr_ext(1) [OF 2(4)] pl 2(2) by auto
  then have "ext c d'" by (rule ext_trans)
  moreover have "tables_ok False d'" using tables.compile_stmt_keeps(2) tables.compile_expr_keeps(1) 2(3,4) t by (blast dest: keepsD)
  ultimately show ?thesis using 2(5) by (auto simp: ext_def tables_ok_def)
qed

abbreviation kept :: "u64 option \<Rightarrow> u64 list" where
  "kept v \<equiv> (case v of None \<Rightarrow> [] | Some v \<Rightarrow> [v])"

lemma run_line:
  assumes ok: "sem_ok se" and pl: "\<forall>a\<in>set ss. plain a" and c: "compile_tops os ss c = (Ok (), c')"
    and t: "tables_ok False c" and top: "\<not> c_in_fn c" "x_rest X = []"
    and f: "fits X cx c'" and p: "placed X c c'" and s: "at_end se X c st [] s"
  shows "sim (se_env se) s (\<lambda>(v, st') t. at_end se X c' st' (kept v) t \<and> (v \<noteq> None) = fn_last_expr (c_fn c'))
           (exec_line se n cx ss (fn_last_expr (c_fn c')) st)"
  using c pl t top(1)
proof (cases rule: compile_tops_cases)
  case 1
  have "sim (se_env se) s (flow_post se X c') (execs se n cx ss st)"
    using stmts_simD [OF all_sim_stmts [OF all_sims [OF ok] pl] 1(2) f p s] .
  then show ?thesis unfolding exec_line_def using 1(1) top(2)
    by (auto intro!: sim_bind sim_Ok elim!: flow_post.elims simp: returned_def)
next
  case (2 init e d d')
  have pl': "\<forall>a\<in>set init. plain a" "plain e" using pl 2(2) by auto
  have dd: "ext c d" "ext d d'" using compile_stmt_ext(2) [OF 2(3) pl'(1)] compile_expr_ext(1) [OF 2(4) pl'(2)] .
  have f': "fits X cx d'" and p': "placed X c d'" using f p 2(5) by (auto simp: fits_def placed_def)
  note sp = split_code [OF dd f' p']
  have "sim (se_env se) s (flow_post se X d) (execs se n cx init st)"
    using stmts_simD [OF all_sim_stmts [OF all_sims [OF ok] pl'(1)] 2(3) sp(1,2) s] .
  moreover have "calls_sim se n" unfolding calls_sim_def using all_sims [OF ok] all_sim_block by blast
  then have "expr_sim se n os e" using compile_expr_sim(1) [OF ok] pl'(2) by blast
  then have "sim (se_env se) t (\<lambda>(v, st') t. at_end se X c' st' [v] t) (eval se n cx e st')"
    if "at_end se X d st' [] t" for st' t
    using expr_simD0 [OF _ 2(4) f' sp(3) that] 2(5) by simp
  ultimately show ?thesis unfolding exec_line_def using 2(1,2) top(2)
    by (auto intro!: sim_bind [of _ _ "flow_post se X d"] sim_bind [of _ _ "\<lambda>(v, st') t. at_end se X c' st' [v] t"] sim_Ok elim!: flow_post.elims simp: returned_def)
qed

text \<open>
  How a run of a line relates to its meaning: given enough fuel, the machine halts with the value
  and the world the meaning has, stops with its error, or traps as it does, unless one of the
  machine's own limits (value stack, call depth) ends the run first. A meaning that ran out of
  fuel says nothing.
\<close>

definition runs_line :: "'w vm_env \<Rightarrow> noc_fn \<Rightarrow> 'w vm \<Rightarrow> (u64 option \<times> 'w st) res \<Rightarrow> bool" where
  "runs_line env f s r \<longleftrightarrow> (\<exists>k. \<forall>m.
     (\<exists>t. noc_vm_run env (k + m) f s = Some (Stop t) \<and> vm_err t \<in> limits) \<or>
     (case r of
        Ok (v, st) \<Rightarrow> \<exists>t. noc_vm_run env (k + m) f s = Some (Halt t) \<and> noc_vm_take_result t = v \<and> world t = snd st
      | Err e \<Rightarrow> \<exists>t. noc_vm_run env (k + m) f s = Some (Stop t) \<and> vm_err t = e
      | Crash c \<Rightarrow> c = OutOfFuel \<or> noc_vm_run env (k + m) f s = Some (Fault c)))"

lemma noc_vm_run_nonhalt:
  assumes "fn_code_ptr f \<noteq> 0" and "fn_nlocals f \<le> NOC_MAX_LOCALS"
  shows "noc_vm_run env k f s =
    (case run_loop env k (vm_start f s) of
       Some (Halt t) \<Rightarrow> Some (Halt (if fn_last_expr f then t\<lparr>has_result := True, result := vstack t (fn_nlocals f)\<rparr> else t))
     | r \<Rightarrow> r)"
  using assms by (auto simp: noc_vm_run_def Let_def NOC_MAX_LOCALS_def NOC_STACK_SIZE_def split: option.splits outcome.splits)

text \<open>Only the end of a run sets the result.\<close>

abbreviation no_result :: "'w vm \<Rightarrow> bool" where
  "no_result s \<equiv> \<not> has_result s"

lemma set_pc_result [simp]: "has_result (set_pc pc s) = has_result s"
  by (simp add: set_pc_def split: list.splits)

lemma push_result: "no_result s \<Longrightarrow> out_ok no_result UNIV (push v s)"
  by (simp add: push_def vmerr_def)

lemma pop_result:
  "no_result s \<Longrightarrow> (\<And>v t. no_result t \<Longrightarrow> out_ok no_result UNIV (k v t)) \<Longrightarrow> out_ok no_result UNIV (pop s k)"
  by (simp add: pop_def vmerr_def)

lemma exec_op_result: "no_result s \<Longrightarrow> out_ok no_result UNIV (exec_op env f pc opc s)"
  by (cases opc)
    (auto simp: fetch8_def fetch4_def do_alu_def do_ret_def do_call_def enter_fn_def stack_get_def stack_set_def Let_def vmerr_def
      split: res.splits option.splits list.splits prod.splits intro!: push_result pop_result)

lemma vm_step_result: "no_result s \<Longrightarrow> out_ok no_result UNIV (vm_step env s)"
  using exec_op_result [of "set_pc pc (s\<lparr>iters := i\<rparr>)" for pc i]
  by (auto simp: vm_step_def vm_instr_def Let_def vmerr_def split: list.splits option.splits)

lemma run_loop_result: "run_loop env n s = Some (Halt t) \<Longrightarrow> no_result s \<Longrightarrow> no_result t"
proof (induction n arbitrary: s)
  case (Suc n)
  then show ?case using vm_step_result [of s env] by (auto split: outcome.splits)
qed simp

lemma sim_runs_line:
  assumes f: "fn_code_ptr f \<noteq> 0" "fn_nlocals f \<le> NOC_MAX_LOCALS"
    and sim: "sim env (vm_start f s) Q r"
    and Q: "\<And>v st t. Q (v, st) t \<Longrightarrow> \<exists>t'. vm_step env t = Halt t' \<and> world t' = snd st
        \<and> (if fn_last_expr f then v = Some (vstack t' (fn_nlocals f)) else v = None)"
  shows "runs_line env f s r"
proof -
  note run = noc_vm_run_nonhalt [OF f]
  have stop: "\<exists>k. \<forall>m. \<exists>t. noc_vm_run env (k + m) f s = Some (Stop t) \<and> vm_err t = e" if "stops env (vm_start f s) e" for e
    using that unfolding stops_def
  proof (elim exE conjE)
    fix k t
    assume "vm_err t = e" "\<forall>n. run_loop env (k + n) (vm_start f s) = Some (Stop t)"
    then show ?thesis by (intro exI [of _ k]) (simp add: run)
  qed
  have fault: "\<exists>k. \<forall>m. noc_vm_run env (k + m) f s = Some (Fault c)" if "faults env (vm_start f s) c" for c
    using that unfolding faults_def by (metis (no_types, lifting) run option.simps(5) outcome.simps(20))
  have halt: "\<exists>k. \<forall>m. \<exists>t. noc_vm_run env (k + m) f s = Some (Halt t) \<and> noc_vm_take_result t = v \<and> world t = snd st"
    if t: "steps env (vm_start f s) t" "Q (v, st) t" for v st t
  proof -
    obtain t' where t': "vm_step env t = Halt t'" "world t' = snd st"
      "if fn_last_expr f then v = Some (vstack t' (fn_nlocals f)) else v = None"
      using Q [OF t(2)] by blast
    have "\<forall>n. run_loop env (1 + n) t = Some (Halt t')" using t'(1) by simp
    then obtain k where "\<forall>n. run_loop env (k + n) (vm_start f s) = Some (Halt t')" using steps_run [OF t(1)] by blast
    moreover from this have "run_loop env k (vm_start f s) = Some (Halt t')" by (metis add_0_right)
    then have "no_result t'" using run_loop_result by (fastforce simp: vm_start_def)
    ultimately show ?thesis using t'(2-) by (intro exI [of _ k]) (auto simp: run noc_vm_take_result_def split: if_splits)
  qed
  show ?thesis
  proof (cases "\<exists>m\<in>limits. stops env (vm_start f s) m")
    case True
    then obtain m k where m: "m \<in> limits" and k: "\<forall>j. \<exists>t. noc_vm_run env (k + j) f s = Some (Stop t) \<and> vm_err t = m"
      using stop by blast
    then show ?thesis unfolding runs_line_def by (intro exI [of _ k]) auto
  next
    case False
    note r = sim [unfolded sim_def, simplified False simp_thms]
    show ?thesis
    proof (cases r)
      case (Ok x)
      obtain v st where x: "x = (v, st)" by (cases x)
      then obtain t where "steps env (vm_start f s) t" "Q (v, st) t" using r Ok by auto
      from halt [OF this] show ?thesis unfolding runs_line_def Ok x res.case prod.case by blast
    next
      case (Err e)
      then have "stops env (vm_start f s) e" using r by simp
      from stop [OF this] show ?thesis unfolding runs_line_def Err res.case by blast
    next
      case (Crash c)
      then have "c = OutOfFuel \<or> faults env (vm_start f s) c" using r by simp
      then show ?thesis using fault [of c] unfolding runs_line_def Crash res.case by blast
    qed
  qed
qed

lemma do_halt:
  assumes "cfg se X pc st stk s" and "quiet env" and "code_at (fn_code (x_fn X)) pc [op_byte OP_HALT]"
  shows "\<exists>t. vm_step env s = Halt t \<and> cfg se X (Suc pc) st stk t"
proof -
  let ?t = "set_pc (Suc pc) (s\<lparr>iters := iters s + 1\<rparr>)"
  have "cfg se X (Suc pc) st stk ?t" using assms(1) cfg_set_pc [of se X pc st stk "s\<lparr>iters := iters s + 1\<rparr>"] by simp
  moreover have "vm_step env s = Halt ?t"
    using assms(2,3) cfg_frame [OF assms(1)]
    by (simp add: vm_step_def vm_instr_def quiet_def code_at_Cons Let_def del: op_byte.simps)
  ultimately show ?thesis by blast
qed

definition line_run :: "noc_fn \<Rightarrow> (string \<times> ntype) list \<Rightarrow> rctx" where
  "line_run f syms = \<lparr>x_fn = f, x_vb = 0, x_syms = syms, x_rest = [], x_bot = (\<lambda>_. 0)\<rparr>"

lemma cfg_start:
  assumes "fn_nlocals f = length syms" and "length syms \<le> NOC_MAX_LOCALS" and "funcs s = se_funcs se"
  shows "cfg se (line_run f syms) 0 (\<lambda>_. 0, world s) [] (vm_start f s)"
proof -
  have "i < length syms" if "resolve_var syms x = Some i" for x i using resolve_var_name [OF that] by simp
  then show ?thesis using assms
    by (auto simp: cfg_def line_run_def vm_start_def top_frame_def tbase_def slots_ok_def vm_inv_def
        NOC_MAX_LOCALS_def NOC_STACK_SIZE_def NOC_MAX_FRAMES_def)
qed

lemma line_tables: "tables_ok False (line_ccomp a fs log)"
  by (simp add: tables_ok_def line_ccomp_def line_fn_def empty_fn_def)

lemma noc_compile_Ok:
  assumes "noc_compile os ss a fs log = (Ok f, fs', log')"
  obtains c d where "compile_tops os ss (line_ccomp a fs log) = (Ok (), c)" "emit1 os OP_HALT c = (Ok (), d)"
    "f = (c_fn d)\<lparr>fn_code_ptr := c_data d, fn_code := c_code d, fn_nlocals := length (c_syms d)\<rparr>"
    "fs' = c_funcs d" "log' = c_log d"
  using assms by (auto simp: noc_compile_def thenc_Ok split: prod.splits res.splits)


lemma compiled_line_runs:
  assumes ok: "sem_ok se" and fs: "se_funcs se = fs" "funcs s = fs" "\<forall>g\<in>set fs. fn_nargs g < 2 ^ 32"
    and pl: "\<forall>a\<in>set ss. plain a" and c: "noc_compile os ss a fs log = (Ok f, fs', log')"
    and len: "length (fn_code f) < 2 ^ 32"
  shows "fs' = fs \<and> runs_line (se_env se) f s (exec_line se n (line_ctx fs f) ss (fn_last_expr f) (\<lambda>_. 0, world s))"
proof -
  let ?c = "line_ccomp a fs log" and ?cx = "line_ctx fs f"
  obtain c d where cd: "compile_tops os ss ?c = (Ok (), c)" "emit1 os OP_HALT c = (Ok (), d)"
    and f: "f = (c_fn d)\<lparr>fn_code_ptr := c_data d, fn_code := c_code d, fn_nlocals := length (c_syms d)\<rparr>" "fs' = c_funcs d"
    using noc_compile_Ok [OF c] by metis
  have init: "\<not> c_in_fn ?c" "c_code ?c = []" "c_funcs ?c = fs" by (simp_all add: line_ccomp_def)
  have ext: "ext ?c c" and tc: "tables_ok True c" using compile_tops_keeps [OF cd(1) pl line_tables init(1)] by auto
  note halt = emit1_Ok [OF cd(2)]
  have fc: "fn_strings f = fn_strings (c_fn c)" "fn_code f = c_code c @ [op_byte OP_HALT]" "fn_nlocals f = length (c_syms c)"
    "fn_last_expr f = fn_last_expr (c_fn c)" "fn_code_ptr f \<noteq> 0"
    using f halt emit1_data [OF cd(2) tc] by (auto simp: same_def)
  let ?X = "line_run f (c_syms c)"
  have X: "fits ?X ?cx c" "placed ?X ?c c"
    using ext init fs fc tc len strs_ok_ctx [of f fs]
    by (auto simp: fits_def line_run_def line_ctx_def ext_def tables_ok_def placed_def agree_def nth_append)
  have start: "at_end se ?X ?c (\<lambda>_. 0, world s) [] (vm_start f s)"
    using cfg_start [of f "c_syms c" s se] fc(3) fs tc init(2) by (simp add: tables_ok_def)
  have "runs_line (se_env se) f s (exec_line se n ?cx ss (fn_last_expr (c_fn c)) (\<lambda>_. 0, world s))"
  proof (rule sim_runs_line [OF fc(5) _ run_line [OF ok pl cd(1) line_tables init(1) _ X start]])
    fix v st t
    assume t: "(\<lambda>(v, st') t. at_end se ?X c st' (kept v) t \<and> (v \<noteq> None) = fn_last_expr (c_fn c)) (v, st) t"
    have "quiet (se_env se)" using ok by (simp add: sem_ok_def)
    moreover have "code_at (fn_code (x_fn ?X)) (length (c_code c)) [op_byte OP_HALT]"
      using fc(2) by (simp add: line_run_def code_at_def)
    ultimately obtain t' where t': "vm_step (se_env se) t = Halt t'" "cfg se ?X (Suc (length (c_code c))) st (kept v) t'"
      using do_halt [of se ?X "length (c_code c)" st "kept v" t] t by auto
    show "\<exists>t'. vm_step (se_env se) t = Halt t' \<and> world t' = snd st
        \<and> (if fn_last_expr f then v = Some (vstack t' (fn_nlocals f)) else v = None)"
      using t t' fc(3,4) by (intro exI [of _ t']) (auto simp: cfg_def line_run_def tbase_def split: option.splits)
  qed (use fc tc in \<open>auto simp: tables_ok_def line_run_def\<close>)
  then show ?thesis using f fc(4) ext halt init by (auto simp: ext_def same_def)
qed

text \<open>
  C1 The compiler is correct: when a line of plain statements compiles, the machine running the
  code it left does what the statements mean, for every amount of fuel the meaning is given.
\<close>

theorem noc_compile_correct:
  assumes ok: "sem_ok se" and fs: "se_funcs se = fs" "funcs s = fs" "\<forall>g\<in>set fs. fn_nargs g < 2 ^ 32"
    and pl: "\<forall>a\<in>set ss. plain a" and c: "noc_compile os ss a fs log = (Ok f, fs', log')"
    and len: "length (fn_code f) < 2 ^ 32"
  shows "fs' = fs \<and> runs_line (se_env se) f s (exec_line se n (line_ctx fs f) ss (fn_last_expr f) (\<lambda>_. 0, world s))"
  by (rule compiled_line_runs [OF assms])

section \<open>Function definitions\<close>

lemma register_set:
  assumes "noc_register_user_fn f fs log = (Some fs', log')"
  shows "f \<in> set fs' \<and> set fs' \<subseteq> insert f (set fs)"
proof (cases "same_name_idx fs (fn_name f)")
  case (Some i)
  then have "i < length fs" by (auto simp: same_name_idx_def first_in_Some_iff)
  then show ?thesis using assms Some set_update_subset_insert [of fs i f]
    by (auto simp: noc_register_user_fn_def Let_def set_update_memI)
qed (use assms in \<open>auto simp: noc_register_user_fn_def split: if_splits\<close>)

text \<open>The state in which the body of a definition is compiled.\<close>

definition body_ccomp :: "ccomp \<Rightarrow> ast list \<Rightarrow> noc_fn \<Rightarrow> os_log \<Rightarrow> ccomp" where
  "body_ccomp c ps h log = \<lparr>c_syms = map param_sym ps, c_data = 0, c_cap = 0, c_code = [], c_fn = h,
     c_arena = c_arena c, c_in_fn = True, c_funcs = c_funcs c, c_log = log\<rparr>"

lemma compile_funcdecl_Ok:
  assumes "compile_funcdecl os t name ps body c = (Ok (), c')"
  obtains p nm log d f log' where
    "thenc (compile_block os (body_stmts body)) (thenc (emit1v os OP_PUSH 0) (emit1 os OP_RET))
       (body_ccomp c ps (fn_header t name ps p nm) log) = (Ok (), d)"
    "f = (c_fn d)\<lparr>fn_code_ptr := c_data d, fn_code := c_code d, fn_nlocals := length (c_syms d)\<rparr>"
    "noc_register_user_fn f (c_funcs c) (c_log d) = (Some (c_funcs c'), log')"
  using assms
  by (auto simp: compile_funcdecl_def body_ccomp_def Let_def split: if_splits prod.splits res.splits option.splits)

lemma body_tables: "length ps \<le> NOC_MAX_ARGS \<Longrightarrow> tables_ok False (body_ccomp c ps (fn_header t name ps p nm) log)"
  by (simp add: tables_ok_def body_ccomp_def fn_header_def empty_fn_def NOC_MAX_ARGS_def NOC_MAX_LOCALS_def)

text \<open>The meaning of programs once a function is defined.\<close>

definition with_fn :: "'w sem \<Rightarrow> registry \<Rightarrow> noc_fn \<Rightarrow> fctx \<Rightarrow> (string \<times> ntype) list \<Rightarrow> ast list \<Rightarrow> 'w sem" where
  "with_fn se fs f cx syms body = se\<lparr>se_funcs := fs, se_src := (se_src se)(f \<mapsto> (cx, syms, body))\<rparr>"

lemma with_fn_src: "fn_src_ok se g \<Longrightarrow> g \<noteq> f \<Longrightarrow> fn_src_ok (with_fn se fs f cx syms body) g"
  unfolding fn_src_ok_def with_fn_def by simp


section \<open>Concrete lines\<close>

definition bump_os :: allocator where
  "bump_os log n = 0x1000 * (of_nat (length log) + 1)"

definition big_arena :: arena where
  "big_arena = \<lparr>ar_base = 0x100000, ar_used = 0, ar_cap = 65536\<rparr>"

definition demo_sem :: "unit sem" where
  "demo_sem = \<lparr>se_env = quiet_env, se_funcs = [], se_src = Map.empty\<rparr>"

lemma demo_sem_ok: "sem_ok demo_sem"
  by (simp add: sem_ok_def demo_sem_def quiet_def quiet_env_def)

text \<open>\<^verbatim>\<open>I64 x = 2; while (x < 40) { x = x * 21; } x\<close> with its value kept: the loop turns once.\<close>

definition demo_line :: "ast list" where
  "demo_line =
     [A_VARDECL NTYPE_I64 ''x'' (Some (A_LIT 2)),
      A_WHILE (A_BIN BIN_LT (A_VAR ''x'') (A_LIT 40))
        (A_BLOCK [A_STMTEXPR (A_ASSIGN BIN_ASSIGN ''x'' (A_BIN BIN_MUL (A_VAR ''x'') (A_LIT 21)))]),
      A_STMTEXPR (A_BIN BIN_ADD (A_VAR ''x'') (A_LIT 0))]"

lemma demo_line_compiles:
  "case noc_compile bump_os demo_line big_arena [] [] of
     (Ok f, fs', log') \<Rightarrow> fn_last_expr f \<and> length (fn_code f) < 2 ^ 32 | _ \<Rightarrow> False"
  by code_simp

lemma demo_line_means: "exec_line demo_sem 2 cx demo_line True (\<lambda>_. 0, ()) = Ok (Some 42, ((\<lambda>_. 0)(''x'' := 42), ()))"
  by (simp add: exec_line_def demo_line_def exec.simps truth_def bool_word_def)

theorem noc_compile_correct_witness:
  "\<exists>f log'. noc_compile bump_os demo_line big_arena [] [] = (Ok f, [], log')
     \<and> runs_line quiet_env f (blank_vm []) (Ok (Some 42, ((\<lambda>_. 0)(''x'' := 42), ())))"
proof -
  obtain f fs' log' where c: "noc_compile bump_os demo_line big_arena [] [] = (Ok f, fs', log')"
    and f: "fn_last_expr f" "length (fn_code f) < 2 ^ 32"
    using demo_line_compiles by (auto split: prod.splits res.splits)
  have pl: "\<forall>a\<in>set demo_line. plain a" by (simp add: demo_line_def)
  have "fs' = [] \<and> runs_line (se_env demo_sem) f (blank_vm [])
      (exec_line demo_sem 2 (line_ctx [] f) demo_line (fn_last_expr f) (\<lambda>_. 0, world (blank_vm [])))"
    using noc_compile_correct [OF demo_sem_ok _ _ _ pl c f(2), of "blank_vm []" 2]
    by (simp add: demo_sem_def blank_vm_def)
  moreover have "se_env demo_sem = quiet_env" "world (blank_vm []) = ()" by (simp_all add: demo_sem_def)
  ultimately show ?thesis using c f(1) by (simp add: demo_line_means)
qed

text \<open>\<^verbatim>\<open>I64 twice(I64 x) { return x + x; }\<close>\<close>

definition twice_params :: "ast list" where
  "twice_params = [A_VARDECL NTYPE_I64 ''x'' None]"

definition twice_body :: ast where
  "twice_body = A_BLOCK [A_RETURN (Some (A_BIN BIN_ADD (A_VAR ''x'') (A_VAR ''x'')))]"

lemma twice_compiles:
  "case compile_funcdecl bump_os NTYPE_I64 ''twice'' twice_params twice_body (line_ccomp big_arena [] []) of
     (Ok u, c') \<Rightarrow> (\<forall>g\<in>set (c_funcs c'). length (fn_code g) < 2 ^ 32) | _ \<Rightarrow> False"
  by code_simp


section \<open>Constructs outside the fragment\<close>

text \<open>
  The value a line shows at the prompt. On the constructs the fragment leaves out it is not what
  the language means: \<^verbatim>\<open>1 && 1\<close> shows 0, \<^verbatim>\<open>0 || 0\<close> shows 1
  and \<^verbatim>\<open>++x\<close> shows the old value.
\<close>

definition line_value :: "ast list \<Rightarrow> u64 option" where
  "line_value ss =
     (case noc_compile bump_os ss big_arena [] [] of
        (Ok f, fs', log') \<Rightarrow>
          (case noc_vm_run quiet_env 100 f (blank_vm fs') of
             Some (Halt t) \<Rightarrow> noc_vm_take_result t
           | _ \<Rightarrow> None)
      | _ \<Rightarrow> None)"

definition logic_line :: "binop \<Rightarrow> u64 \<Rightarrow> u64 \<Rightarrow> ast list" where
  "logic_line b u v = [A_STMTEXPR (A_BIN b (A_LIT u) (A_LIT v))]"

lemma andand_shows_zero: "line_value (logic_line BIN_ANDAND 1 1) = Some 0"
  by code_simp

lemma oror_shows_one: "line_value (logic_line BIN_OROR 0 0) = Some 1"
  by code_simp

lemma preinc_shows_old:
  "line_value [A_VARDECL NTYPE_I64 ''x'' (Some (A_LIT 5)), A_STMTEXPR (A_UN (INC_PRE True) (A_VAR ''x''))] = Some 5"
  by code_simp
end
