(* ===== verification/Predict.thy ===== *)
theory Predict
  imports Prelude
begin

text \<open>
  The two next-item predictors: the command predictor (\<^verbatim>\<open>kernel/noc/predict.c\<close>) and the page
  predictor (\<^verbatim>\<open>kernel/mm/pgpred.c\<close>). Both keep a ring of the last 256 items and, on demand, tally
  the followers of the most recent item (falling back to all items), so the ring, the tally and
  the choice are defined once over the type of items. Entries are counted backwards: entry 1 is
  the newest.
\<close>

section \<open>Histories\<close>

record 'a hist =
  h_ring :: "'a list"
  h_count :: nat
  h_wr :: nat

definition HIST_MAX :: nat where
  "HIST_MAX = 256"

definition hist_put :: "'a \<Rightarrow> 'a hist \<Rightarrow> 'a hist" where
  "hist_put x s = s\<lparr>h_ring := (h_ring s)[h_wr s := x], h_wr := (h_wr s + 1) mod HIST_MAX,
     h_count := if h_count s < HIST_MAX then h_count s + 1 else h_count s\<rparr>"

definition hist_idx :: "'a hist \<Rightarrow> nat \<Rightarrow> nat" where
  "hist_idx s back = (h_wr s + HIST_MAX - back) mod HIST_MAX"

definition hist_nth :: "'a hist \<Rightarrow> nat \<Rightarrow> 'a" where
  "hist_nth s back = h_ring s ! hist_idx s back"

definition hist_clear :: "'a hist \<Rightarrow> 'a hist" where
  "hist_clear s = s\<lparr>h_count := 0, h_wr := 0\<rparr>"

definition hist_ok :: "'a hist \<Rightarrow> bool" where
  "hist_ok s \<longleftrightarrow> length (h_ring s) = HIST_MAX \<and> h_count s \<le> HIST_MAX \<and> h_wr s < HIST_MAX"

text \<open>What a history stands for: its items, newest first.\<close>

definition items :: "'a hist \<Rightarrow> 'a list" where
  "items s = map (hist_nth s) [1..<h_count s + 1]"

lemma hist_put_ok [noos_inv]: "hist_ok s \<Longrightarrow> hist_ok (hist_put x s)"
  by (simp add: hist_ok_def hist_put_def HIST_MAX_def)

lemma hist_clear_ok [noos_inv]: "hist_ok s \<Longrightarrow> hist_ok (hist_clear s)"
  by (simp add: hist_ok_def hist_clear_def HIST_MAX_def)

lemma length_items [simp]: "length (items s) = h_count s"
  by (simp add: items_def)

lemma items_nth: "i < h_count s \<Longrightarrow> items s ! i = hist_nth s (i + 1)"
  by (simp add: items_def del: upt_Suc)

lemma items_clear [simp]: "items (hist_clear s) = []"
  by (simp add: items_def hist_clear_def)

lemma hist_nth_put_1:
  assumes "hist_ok s"
  shows "hist_nth (hist_put x s) 1 = x"
proof -
  have "((h_wr s + 1) mod HIST_MAX + HIST_MAX - 1) mod HIST_MAX = h_wr s"
    using assms by (auto simp: hist_ok_def HIST_MAX_def mod_if)
  then show ?thesis using assms by (simp add: hist_nth_def hist_idx_def hist_put_def hist_ok_def)
qed

lemma hist_nth_put_Suc:
  assumes "hist_ok s" and "1 \<le> i" and "i < HIST_MAX"
  shows "hist_nth (hist_put x s) (Suc i) = hist_nth s i"
proof -
  have "(Suc (h_wr s) mod 256 + 256 - Suc i) mod 256 = (h_wr s + 256 - i) mod 256"
    using assms by (auto simp: hist_ok_def HIST_MAX_def mod_if)
  moreover have "(h_wr s + 256 - i) mod 256 \<noteq> h_wr s"
    using assms by (auto simp: hist_ok_def HIST_MAX_def mod_if)
  ultimately show ?thesis
    by (simp add: hist_nth_def hist_idx_def hist_put_def HIST_MAX_def)
qed

text \<open>Adding an item to the ring is adding it in front and forgetting the oldest beyond 256.\<close>

lemma items_put:
  assumes "hist_ok s"
  shows "items (hist_put x s) = take HIST_MAX (x # items s)"
proof (rule nth_equalityI)
  show "length (items (hist_put x s)) = length (take HIST_MAX (x # items s))"
    using assms by (auto simp: hist_put_def hist_ok_def)
next
  fix i
  assume "i < length (items (hist_put x s))"
  then have i: "i < h_count (hist_put x s)" by simp
  show "items (hist_put x s) ! i = take HIST_MAX (x # items s) ! i"
  proof (cases i)
    case 0
    then show ?thesis using i assms hist_nth_put_1 [OF assms] by (simp add: items_nth HIST_MAX_def)
  next
    case (Suc j)
    then have j: "j < h_count s" "Suc j < HIST_MAX"
      using i assms by (auto simp: hist_put_def hist_ok_def split: if_splits)
    then show ?thesis using Suc i hist_nth_put_Suc [OF assms, of "Suc j"] by (simp add: items_nth)
  qed
qed


section \<open>Tallies\<close>

record 'a cand =
  cand_item :: 'a
  cand_cnt :: nat
  cand_rec :: nat

text \<open>The inner loop: find the candidate or append it, count it, and overwrite its recency.\<close>

fun note_cand :: "'a \<Rightarrow> nat \<Rightarrow> 'a cand list \<Rightarrow> 'a cand list" where
  "note_cand x r [] = [\<lparr>cand_item = x, cand_cnt = 1, cand_rec = r\<rparr>]"
| "note_cand x r (c # cs) =
     (if cand_item c = x then c\<lparr>cand_cnt := cand_cnt c + 1, cand_rec := r\<rparr> # cs else c # note_cand x r cs)"

definition better :: "'a cand \<Rightarrow> 'a cand \<Rightarrow> bool" where
  "better c b \<longleftrightarrow> cand_cnt c > cand_cnt b \<or> (cand_cnt c = cand_cnt b \<and> cand_rec c > cand_rec b)"

definition pick_best :: "'a cand list \<Rightarrow> 'a option" where
  "pick_best cs =
     (case cs of
        [] \<Rightarrow> None
      | c # cs \<Rightarrow> Some (cand_item (fold (\<lambda>c b. if better c b then c else b) cs c)))"

definition bigrams :: "'a hist \<Rightarrow> 'a cand list" where
  "bigrams s =
     fold (\<lambda>i cs. if hist_nth s (i + 1) = hist_nth s 1 then note_cand (hist_nth s i) (h_count s - i) cs else cs)
       [1..<h_count s] []"

definition unigrams :: "'a hist \<Rightarrow> 'a cand list" where
  "unigrams s = fold (\<lambda>i. note_cand (hist_nth s i) (h_count s - i + 1)) [1..<h_count s + 1] []"

section \<open>The command predictor\<close>

definition CMD_LEN :: nat where
  "CMD_LEN = 128"

definition fold_upper :: "char \<Rightarrow> char" where
  "fold_upper c = (if CHR ''A'' \<le> c \<and> c \<le> CHR ''Z'' then char_of (of_char c + 32 :: nat) else c)"

definition is_meta :: "string \<Rightarrow> bool" where
  "is_meta cmd =
     (let w = (if cmd \<noteq> [] \<and> last cmd = CHR '';'' then butlast cmd else cmd)
      in map fold_upper w \<in> set [''predict'', ''hist'', ''clearhist''])"

definition cmdhist_add :: "string \<Rightarrow> string hist \<Rightarrow> string hist" where
  "cmdhist_add cmd s = (if cmd = [] \<or> is_meta cmd then s else hist_put (take (CMD_LEN - 1) cmd) s)"

definition cmdhist_clear :: "string hist \<Rightarrow> string hist" where
  "cmdhist_clear s = hist_clear s"

definition cmdhist_count :: "string hist \<Rightarrow> nat" where
  "cmdhist_count s = h_count s"

definition cmdhist_entry :: "nat \<Rightarrow> string hist \<Rightarrow> string option" where
  "cmdhist_entry back s = (if back < 1 \<or> back > h_count s then None else Some (hist_nth s back))"

definition cmdhist_predict :: "string hist \<Rightarrow> string option" where
  "cmdhist_predict s =
     (if h_count s = 0 then None
      else case pick_best (bigrams s) of
          Some p \<Rightarrow> Some p
        | None \<Rightarrow> pick_best (unigrams s))"

section \<open>The page predictor\<close>

definition pgpred_fault :: "u64 \<Rightarrow> u64 hist \<Rightarrow> u64 hist" where
  "pgpred_fault vaddr s = hist_put (drop_bit 12 vaddr) s"

definition pgpred_clear :: "u64 hist \<Rightarrow> u64 hist" where
  "pgpred_clear s = hist_clear s"

definition pgpred_count :: "u64 hist \<Rightarrow> nat" where
  "pgpred_count s = h_count s"

definition pgpred_entry :: "nat \<Rightarrow> u64 hist \<Rightarrow> u64" where
  "pgpred_entry back s = (if back < 1 \<or> back > h_count s then 0 else hist_nth s back)"

text \<open>Page 0 stands for "no candidate" as well.\<close>

definition pick_page :: "u64 cand list \<Rightarrow> u64" where
  "pick_page cs = (case pick_best cs of None \<Rightarrow> 0 | Some p \<Rightarrow> p)"

definition pgpred_predict :: "u64 hist \<Rightarrow> u64" where
  "pgpred_predict s =
     (if h_count s = 0 then 0
      else let p = pick_page (bigrams s)
           in if p \<noteq> 0 then p else pick_page (unigrams s))"

section \<open>Logs\<close>

text \<open>The contract of a bounded log: an accepted item goes in front, and only the newest \<open>cap\<close>
  items stay.\<close>

locale bounded_log =
  fixes put :: "'i \<Rightarrow> 's \<Rightarrow> 's" and entries :: "'s \<Rightarrow> 'x list" and ok :: "'s \<Rightarrow> bool"
    and accepts :: "'i \<Rightarrow> 'x option" and cap :: nat
  assumes put_ok: "ok s \<Longrightarrow> ok (put i s)"
    and entries_put: "ok s \<Longrightarrow> entries (put i s) =
      (case accepts i of None \<Rightarrow> entries s | Some x \<Rightarrow> take cap (x # entries s))"
    and entries_cap: "ok s \<Longrightarrow> length (entries s) \<le> cap"
begin

lemma fold_ok: "ok s \<Longrightarrow> ok (fold put is s)"
  by (induction "is" arbitrary: s) (auto intro: put_ok)

text \<open>After any sequence of inputs the log holds the newest accepted items.\<close>

lemma entries_fold:
  "ok s \<Longrightarrow> entries (fold put is s) = take cap (rev (List.map_filter accepts is) @ entries s)"
proof (induction "is" arbitrary: s)
  case Nil
  then show ?case using entries_cap by (simp add: map_filter_simps)
next
  case (Cons i "is")
  have tk: "take n (ys @ take n zs) = take n (ys @ zs)" for n and ys zs :: "'x list"
    by (simp add: min_def)
  show ?case using Cons put_ok [OF Cons.prems] entries_put [OF Cons.prems, of i]
    by (auto simp: map_filter_simps tk take_Cons' split: option.splits)
qed

end

definition cmd_item :: "string \<Rightarrow> string option" where
  "cmd_item cmd = (if cmd = [] \<or> is_meta cmd then None else Some (take (CMD_LEN - 1) cmd))"

lemma items_le: "hist_ok s \<Longrightarrow> h_count s \<le> HIST_MAX"
  by (simp add: hist_ok_def)

interpretation cmds: bounded_log cmdhist_add items hist_ok cmd_item HIST_MAX
  by unfold_locales (auto simp: cmdhist_add_def cmd_item_def items_put items_le intro: hist_put_ok)

interpretation pages: bounded_log pgpred_fault items hist_ok "\<lambda>v. Some (drop_bit 12 v)" HIST_MAX
  by unfold_locales (auto simp: pgpred_fault_def items_put items_le intro: hist_put_ok)


section \<open>What is predicted\<close>

text \<open>A run of \<open>note_cand\<close> over pairs of an item and a rank.\<close>

definition tally :: "('a \<times> nat) list \<Rightarrow> 'a cand list" where
  "tally ps = fold (\<lambda>(x, r). note_cand x r) ps []"

definition last_rank :: "('a \<times> nat) list \<Rightarrow> 'a \<Rightarrow> nat" where
  "last_rank ps x = (let qs = filter (\<lambda>p. fst p = x) ps in if qs = [] then 0 else snd (last qs))"

definition tallied :: "('a \<times> nat) list \<Rightarrow> 'a cand list \<Rightarrow> bool" where
  "tallied ps cs \<longleftrightarrow> distinct (map cand_item cs) \<and> cand_item ` set cs = fst ` set ps
     \<and> (\<forall>c\<in>set cs. cand_cnt c = count_list (map fst ps) (cand_item c) \<and> cand_rec c = last_rank ps (cand_item c))"

lemma note_cand_items: "cand_item ` set (note_cand x r cs) = insert x (cand_item ` set cs)"
  by (induction cs) auto

lemma note_cand_distinct: "distinct (map cand_item cs) \<Longrightarrow> distinct (map cand_item (note_cand x r cs))"
proof (induction cs)
  case (Cons c cs)
  then show ?case using note_cand_items [of x r cs] by auto
qed simp

lemma note_cand_old:
  assumes "c \<in> set (note_cand x r cs)" and "distinct (map cand_item cs)"
  shows "if cand_item c = x
         then cand_rec c = r \<and> (if x \<in> cand_item ` set cs
                then \<exists>b\<in>set cs. cand_item b = x \<and> cand_cnt c = cand_cnt b + 1 else cand_cnt c = 1)
         else c \<in> set cs"
  using assms
proof (induction cs)
  case (Cons a cs)
  have "cand_item c \<noteq> cand_item a" if "c \<in> set cs" using Cons.prems(2) imageI [OF that, of cand_item] by auto
  then show ?case using Cons by (auto split: if_splits)
qed simp

lemma last_rank_snoc: "last_rank (ps @ [(y, r)]) x = (if x = y then r else last_rank ps x)"
  by (simp add: last_rank_def)

lemma tallied_snoc:
  assumes t: "tallied ps cs"
  shows "tallied (ps @ [(x, r)]) (note_cand x r cs)"
proof -
  have d: "distinct (map cand_item cs)" using t by (simp add: tallied_def)
  have "cand_cnt c = count_list (map fst (ps @ [(x, r)])) (cand_item c)
      \<and> cand_rec c = last_rank (ps @ [(x, r)]) (cand_item c)" if c: "c \<in> set (note_cand x r cs)" for c
  proof (cases "cand_item c = x")
    case True
    then show ?thesis using note_cand_old [OF c d] t
      by (cases "x \<in> cand_item ` set cs") (auto simp: tallied_def last_rank_snoc count_list_0_iff)
  next
    case False
    then show ?thesis using note_cand_old [OF c d] t by (simp add: tallied_def last_rank_snoc)
  qed
  then show ?thesis using t note_cand_distinct [OF d] note_cand_items [of x r cs] by (auto simp: tallied_def)
qed

lemma tallied_tally: "tallied ps (tally ps)"
proof (induction ps rule: rev_induct)
  case Nil
  then show ?case by (simp add: tallied_def tally_def)
next
  case (snoc p ps)
  then show ?case using tallied_snoc [OF snoc.IH, of "fst p" "snd p"] by (simp add: tally_def case_prod_beta)
qed

lemma better_trans:
  "better c a \<Longrightarrow> \<not> better c b \<Longrightarrow> \<not> better a b" "\<not> better c a \<Longrightarrow> \<not> better a b \<Longrightarrow> \<not> better c b"
  by (auto simp: better_def)

lemma pick_fold:
  "fold (\<lambda>c b. if better c b then c else b) cs c0 \<in> set (c0 # cs)
   \<and> (\<forall>c\<in>set (c0 # cs). \<not> better c (fold (\<lambda>c b. if better c b then c else b) cs c0))"
proof (induction cs arbitrary: c0)
  case (Cons c cs)
  show ?case
  proof (cases "better c c0")
    case True
    then show ?thesis using Cons [of c] better_trans(1) [OF True] by auto
  next
    case False
    then show ?thesis using Cons [of c0] better_trans(2) [OF False] by auto
  qed
qed (simp add: better_def)

text \<open>The choice: the most frequent item, and among those the one with the highest last rank.\<close>

lemma pick_best_tally:
  assumes "ps \<noteq> []"
  obtains p where "pick_best (tally ps) = Some p" and "p \<in> fst ` set ps"
    and "\<forall>q\<in>fst ` set ps. count_list (map fst ps) q < count_list (map fst ps) p
       \<or> (count_list (map fst ps) q = count_list (map fst ps) p \<and> last_rank ps q \<le> last_rank ps p)"
proof -
  have t: "cand_item ` set (tally ps) = fst ` set ps"
    "\<forall>c\<in>set (tally ps). cand_cnt c = count_list (map fst ps) (cand_item c) \<and> cand_rec c = last_rank ps (cand_item c)"
    using tallied_tally [of ps] by (simp_all add: tallied_def)
  then have "tally ps \<noteq> []" using assms by fastforce
  then obtain c0 cs where cs: "tally ps = c0 # cs" by (cases "tally ps") auto
  let ?b = "fold (\<lambda>c b. if better c b then c else b) cs c0"
  have b: "?b \<in> set (tally ps)" "\<forall>c\<in>set (tally ps). \<not> better c ?b"
    using pick_fold [of cs c0] unfolding cs by blast+
  have "count_list (map fst ps) q < count_list (map fst ps) (cand_item ?b)
       \<or> (count_list (map fst ps) q = count_list (map fst ps) (cand_item ?b) \<and> last_rank ps q \<le> last_rank ps (cand_item ?b))"
    if "q \<in> fst ` set ps" for q
  proof -
    from that t(1) obtain c where "c \<in> set (tally ps)" "cand_item c = q" by force
    then show ?thesis using b t(2) by (force simp: better_def)
  qed
  moreover have "cand_item ?b \<in> fst ` set ps" using b(1) t(1) by blast
  ultimately show thesis using that [of "cand_item ?b"] by (simp add: pick_best_def cs)
qed


text \<open>
  The reference: \<open>followers h\<close> are the items that came right after an occurrence of the newest item,
  newest first. The favourite of a list is its most frequent item; among equally frequent ones it
  is the one whose oldest occurrence is the most recent.
\<close>

definition followers :: "'a list \<Rightarrow> 'a list" where
  "followers h = map (\<lambda>i. h ! (i - 1)) (filter (\<lambda>i. h ! i = h ! 0) [1..<length h])"

definition age :: "'a list \<Rightarrow> 'a \<Rightarrow> nat" where
  "age xs x = length xs - length (takeWhile (\<lambda>y. y \<noteq> x) (rev xs))"

definition favourite :: "'a list \<Rightarrow> 'a \<Rightarrow> bool" where
  "favourite xs p \<longleftrightarrow> p \<in> set xs \<and>
     (\<forall>q\<in>set xs. count_list xs q < count_list xs p \<or> (count_list xs q = count_list xs p \<and> age xs p \<le> age xs q))"

lemma age_snoc: "age (xs @ [y]) x = (if x = y then length xs + 1 else age xs x)"
  by (auto simp: age_def)

lemma age_le: "age xs x \<le> length xs"
  by (simp add: age_def)

lemma last_rank_in: "x \<in> fst ` set ps \<Longrightarrow> last_rank ps x \<in> snd ` set ps"
proof -
  assume "x \<in> fst ` set ps"
  then have "filter (\<lambda>p. fst p = x) ps \<noteq> []" by (auto simp: filter_empty_conv)
  then have "last (filter (\<lambda>p. fst p = x) ps) \<in> set ps" by (metis filter_is_subset last_in_set subsetD)
  then show ?thesis using \<open>filter (\<lambda>p. fst p = x) ps \<noteq> []\<close> by (simp add: last_rank_def)
qed

lemma rank_age:
  assumes "sorted_wrt (>) (map snd ps)" and "x \<in> fst ` set ps" and "y \<in> fst ` set ps"
  shows "last_rank ps x \<le> last_rank ps y \<longleftrightarrow> age (map fst ps) y \<le> age (map fst ps) x"
  using assms
proof (induction ps rule: rev_induct)
  case (snoc p ps)
  obtain z r where p: "p = (z, r)" by (cases p)
  have low: "r < last_rank ps q" if "q \<in> fst ` set ps" for q
    using last_rank_in [OF that] snoc.prems(1) by (auto simp: sorted_wrt_append p)
  have old: "age (map fst ps) q \<le> length ps" for q using age_le [of "map fst ps" q] by simp
  have mem: "q \<in> fst ` set ps" if "q \<in> fst ` set (ps @ [p])" "q \<noteq> z" for q using that p by auto
  have step: "last_rank (ps @ [p]) q = (if q = z then r else last_rank ps q)"
    "age (map fst (ps @ [p])) q = (if q = z then length ps + 1 else age (map fst ps) q)" for q
    by (simp_all add: p last_rank_snoc age_snoc)
  consider "x = z" "y = z" | "x = z" "y \<noteq> z" | "x \<noteq> z" "y = z" | "x \<noteq> z" "y \<noteq> z" by blast
  then show ?case
  proof cases
    case 2
    then show ?thesis using low [OF mem [OF snoc.prems(3)]] old [of y] unfolding step by simp
  next
    case 3
    then show ?thesis using low [OF mem [OF snoc.prems(2)]] old [of x] unfolding step by simp
  next
    case 4
    then show ?thesis using snoc.IH [OF _ mem [OF snoc.prems(2)] mem [OF snoc.prems(3)]] snoc.prems(1)
      unfolding step by (simp add: sorted_wrt_append)
  qed (simp add: step)
qed simp

lemma pick_best_favourite:
  assumes "sorted_wrt (>) (map snd ps)" and "ps \<noteq> []"
  shows "\<exists>p. pick_best (tally ps) = Some p \<and> favourite (map fst ps) p"
proof -
  obtain p where p: "pick_best (tally ps) = Some p" "p \<in> fst ` set ps"
    and best: "\<forall>q\<in>fst ` set ps. count_list (map fst ps) q < count_list (map fst ps) p
       \<or> (count_list (map fst ps) q = count_list (map fst ps) p \<and> last_rank ps q \<le> last_rank ps p)"
    using pick_best_tally [OF assms(2)] by blast
  have "favourite (map fst ps) p"
    using p(2) best rank_age [OF assms(1) _ p(2)] unfolding favourite_def set_map by blast
  then show ?thesis using p(1) by blast
qed

lemma fold_if: "fold (\<lambda>i a. if P i then f i a else a) is a = fold f (filter P is) a"
  by (induction "is" arbitrary: a) auto

lemma fold_tally: "fold (\<lambda>i. note_cand (f i) (g i)) is [] = tally (map (\<lambda>i. (f i, g i)) is)"
  by (simp add: tally_def fold_map comp_def)

lemma ranks_sorted: "sorted_wrt (<) is \<Longrightarrow> \<forall>i\<in>set is. i \<le> n \<Longrightarrow> sorted_wrt (>) (map (\<lambda>i. n - i :: nat) is)"
  by (induction "is") (auto intro: diff_less_mono2 order.strict_trans2)

lemma pick_bigrams:
  assumes "h_count s \<noteq> 0"
  shows "if followers (items s) = [] then pick_best (bigrams s) = None
         else \<exists>p. pick_best (bigrams s) = Some p \<and> favourite (followers (items s)) p"
proof -
  let ?n = "h_count s" and ?is = "filter (\<lambda>i. hist_nth s (i + 1) = hist_nth s 1) [1..<h_count s]"
  let ?ps = "map (\<lambda>i. (hist_nth s i, ?n - i)) ?is"
  have b: "bigrams s = tally ?ps" unfolding bigrams_def by (simp add: fold_if fold_tally)
  have "?is = filter (\<lambda>i. items s ! i = items s ! 0) [1..<length (items s)]"
    using assms by (auto simp: items_nth intro!: filter_cong)
  moreover have "map (\<lambda>i. items s ! (i - 1)) ?is = map (hist_nth s) ?is" by (auto simp: items_nth)
  ultimately have f: "followers (items s) = map fst ?ps" by (simp add: followers_def comp_def)
  have "sorted_wrt (>) (map snd ?ps)"
    using ranks_sorted [of ?is ?n] by (simp add: comp_def sorted_wrt_filter strict_sorted_iff)
  from pick_best_favourite [OF this] show ?thesis unfolding b f by (auto simp: tally_def pick_best_def)
qed

lemma pick_unigrams:
  assumes "h_count s \<noteq> 0"
  shows "\<exists>p. pick_best (unigrams s) = Some p \<and> favourite (items s) p"
proof -
  let ?n = "h_count s" and ?is = "[1..<h_count s + 1]"
  let ?ps = "map (\<lambda>i. (hist_nth s i, ?n - i + 1)) ?is"
  have u: "unigrams s = tally ?ps" unfolding unigrams_def fold_tally ..
  have f: "items s = map fst ?ps" by (simp add: items_def comp_def del: upt_Suc)
  have "sorted_wrt (>) (map (\<lambda>i. ?n - i) ?is)" by (rule ranks_sorted) (auto simp: strict_sorted_iff simp del: upt_Suc)
  then have "sorted_wrt (>) (map snd ?ps)" by (simp add: comp_def sorted_wrt_map del: upt_Suc)
  from pick_best_favourite [OF this] show ?thesis unfolding u f [symmetric] using assms by simp
qed

section \<open>Properties\<close>

definition empty_hist :: "'a \<Rightarrow> 'a hist" where
  "empty_hist x = \<lparr>h_ring = replicate HIST_MAX x, h_count = 0, h_wr = 0\<rparr>"

lemma empty_hist_ok [simp]: "hist_ok (empty_hist x)" "items (empty_hist x) = []"
  by (simp_all add: hist_ok_def empty_hist_def items_def HIST_MAX_def)

text \<open>
  C38 The command ring is a bounded log: whatever is typed, it holds the newest 256 commands
  that are neither empty nor meta commands, cut to 127 characters, and reading entry \<open>k\<close> gives the
  \<open>k\<close>-th newest.
\<close>

theorem cmdhist_refines_log:
  assumes "hist_ok s"
  shows "items (fold cmdhist_add cmds s) = take HIST_MAX (rev (List.map_filter cmd_item cmds) @ items s)
    \<and> cmdhist_entry k s = (if 1 \<le> k \<and> k \<le> length (items s) then Some (items s ! (k - 1)) else None)
    \<and> items (cmdhist_clear s) = []"
  using cmds.entries_fold [OF assms, of cmds]
  by (auto simp: cmdhist_entry_def cmdhist_clear_def items_nth Suc_le_eq)

theorem cmdhist_refines_log_witness:
  "items (fold cmdhist_add [''ListDir;'', ''Hist;'', ''Ps;''] (empty_hist [])) = [''Ps;'', ''ListDir;'']"
proof -
  have "List.map_filter cmd_item [''ListDir;'', ''Hist;'', ''Ps;''] = [''ListDir;'', ''Ps;'']"
    by code_simp
  then show ?thesis using cmdhist_refines_log [of "empty_hist []" "[''ListDir;'', ''Hist;'', ''Ps;'']" 1]
    by (simp add: HIST_MAX_def)
qed

text \<open>
  C39 The command predictor proposes a command exactly when something was typed. It is the
  favourite among the commands that followed earlier occurrences of the newest command, or, when
  there is none, the favourite of the whole history.
\<close>

theorem cmdhist_predict_favourite:
  "case cmdhist_predict s of
     None \<Rightarrow> items s = []
   | Some p \<Rightarrow> items s \<noteq> [] \<and> favourite (if followers (items s) = [] then items s else followers (items s)) p"
proof (cases "h_count s = 0")
  case True
  then show ?thesis by (simp add: cmdhist_predict_def items_def)
next
  case False
  then have "items s \<noteq> []" by (metis length_items length_0_conv)
  then show ?thesis using False pick_bigrams [OF False] pick_unigrams [OF False]
    by (auto simp: cmdhist_predict_def split: option.splits if_splits)
qed

text \<open>
  The page predictor proposes the favourite follower of the newest faulting page; when
  there is no follower, or the favourite is page 0, it proposes the favourite of the whole history,
  and 0 when the history is empty.
\<close>

theorem pgpred_predict_favourite:
  "if items s = [] then pgpred_predict s = 0
   else \<exists>p. favourite (items s) p \<and>
     (if followers (items s) = [] then pgpred_predict s = p
      else \<exists>q. favourite (followers (items s)) q \<and> pgpred_predict s = (if q = 0 then p else q))"
proof (cases "h_count s = 0")
  case True
  then show ?thesis by (simp add: pgpred_predict_def items_def)
next
  case False
  then have ne: "items s \<noteq> []" by (metis length_items length_0_conv)
  obtain p where p: "pick_best (unigrams s) = Some p" "favourite (items s) p" using pick_unigrams [OF False] by blast
  show ?thesis
  proof (cases "followers (items s) = []")
    case True
    then show ?thesis using p ne False pick_bigrams [OF False]
      by (auto simp: pgpred_predict_def pick_page_def)
  next
    case fs: False
    then obtain q where "pick_best (bigrams s) = Some q" "favourite (followers (items s)) q"
      using pick_bigrams [OF False] by auto
    moreover from this have "pgpred_predict s = (if q = 0 then p else q)"
      using p False by (simp add: pgpred_predict_def pick_page_def)
    ultimately show ?thesis using fs p(2) ne by auto
  qed
qed

text \<open>The stated recency, the newest occurrence, would choose differently: after
  \<^verbatim>\<open>a b, a c, a c, a b, a\<close> the newest follower is \<^verbatim>\<open>b\<close>, yet \<^verbatim>\<open>c\<close> is proposed.\<close>

lemma recency_is_oldest:
  "cmdhist_predict (fold cmdhist_add [''a'', ''b'', ''a'', ''c'', ''a'', ''c'', ''a'', ''b'', ''a''] (empty_hist [])) = Some ''c''"
  by code_simp

end
