(* ===== verification/Kbd.thy ===== *)
theory Kbd
  imports Prelude "HOL-Library.Sublist"
begin

unbundle bit_operations_syntax

text \<open>
  The keyboard driver, \<^verbatim>\<open>kernel/drivers/kbd.c\<close>: the interrupt handler decodes scancodes with its
  modifier state and pushes characters into a 256-byte ring; the shell takes them out. The state is
  the driver's static variables; the scancode read from the port is an argument of the handler,
  and the calls into the scheduler and the trainers, which do not touch this state, are left out.
\<close>

section \<open>State\<close>

definition BUF_SIZE :: nat where
  "BUF_SIZE = 256"

record kbd =
  k_buf :: "u8 list"
  k_head :: nat
  k_tail :: nat
  k_shift :: bool
  k_caps :: bool
  k_ext :: bool
  k_ctrl :: bool

text \<open>Scancode tables, indexed by the low seven bits of the scancode.\<close>

definition asc :: "string \<Rightarrow> u8 list" where
  "asc cs = map of_char cs"

definition kb_normal :: "u8 list" where
  "kb_normal =
     [0, 27] @ asc ''1234567890-='' @ [8, 9] @ asc ''qwertyuiop[]'' @ [10, 0]
     @ asc ''asdfghjkl;'' @ [39, 96] @ [0, 92] @ asc ''zxcvbnm,./'' @ [0, 42, 0, 32] @ replicate 70 0"

definition kb_shift :: "u8 list" where
  "kb_shift =
     [0, 27] @ asc ''!@#$%^&*()_+'' @ [8, 9] @ asc ''QWERTYUIOP{}'' @ [10, 0]
     @ asc ''ASDFGHJKL:'' @ [34, 126] @ [0, 124] @ asc ''ZXCVBNM<>?'' @ [0, 42, 0, 32] @ replicate 70 0"

definition KBD_UP :: u8 where "KBD_UP = 0x80"
definition KBD_DOWN :: u8 where "KBD_DOWN = 0x81"
definition KBD_LEFT :: u8 where "KBD_LEFT = 0x82"
definition KBD_RIGHT :: u8 where "KBD_RIGHT = 0x83"
definition KBD_HOME :: u8 where "KBD_HOME = 0x84"
definition KBD_END :: u8 where "KBD_END = 0x85"
definition KBD_DEL :: u8 where "KBD_DEL = 0x86"

section \<open>Operations\<close>

definition kbd_push :: "u8 \<Rightarrow> kbd \<Rightarrow> kbd" where
  "kbd_push c s =
     (let nxt = (k_head s + 1) mod BUF_SIZE
      in if nxt = k_tail s then s
         else s\<lparr>k_buf := (k_buf s)[k_head s := c], k_head := nxt\<rparr>)"

text \<open>The second byte of an \<^verbatim>\<open>E0\<close> sequence.\<close>

definition ext_key :: "u8 \<Rightarrow> kbd \<Rightarrow> kbd" where
  "ext_key sc s =
     (if sc = 0x1D then s\<lparr>k_ctrl := True\<rparr>
      else if sc = 0x9D then s\<lparr>k_ctrl := False\<rparr>
      else if sc = 0x2A then s\<lparr>k_shift := True\<rparr>
      else if sc = 0x36 then s\<lparr>k_shift := True\<rparr>
      else if sc = 0x48 then kbd_push KBD_UP s
      else if sc = 0x50 then kbd_push KBD_DOWN s
      else if sc = 0x4B then kbd_push KBD_LEFT s
      else if sc = 0x4D then kbd_push KBD_RIGHT s
      else if sc = 0x47 then kbd_push KBD_HOME s
      else if sc = 0x4F then kbd_push KBD_END s
      else if sc = 0x53 then kbd_push KBD_DEL s
      else s)"

definition key_char :: "u8 \<Rightarrow> kbd \<Rightarrow> u8" where
  "key_char sc s =
     (let c = (if k_shift s \<noteq> k_caps s then kb_shift ! unat (sc AND 0x7F) else kb_normal ! unat (sc AND 0x7F))
      in if k_ctrl s \<and> 97 \<le> c \<and> c \<le> 122 then c - 97 + 1 else c)"

definition kbd_handler :: "u8 \<Rightarrow> kbd \<Rightarrow> kbd" where
  "kbd_handler sc s =
     (if k_ext s then ext_key sc (s\<lparr>k_ext := False\<rparr>)
      else if sc = 0xE0 then s\<lparr>k_ext := True\<rparr>
      else if sc = 0x2A \<or> sc = 0x36 then s\<lparr>k_shift := True\<rparr>
      else if sc = 0xAA \<or> sc = 0xB6 then s\<lparr>k_shift := False\<rparr>
      else if sc = 0x1D then s\<lparr>k_ctrl := True\<rparr>
      else if sc = 0x9D then s\<lparr>k_ctrl := False\<rparr>
      else if sc = 0x3A then s\<lparr>k_caps := \<not> k_caps s\<rparr>
      else if sc AND 0x80 \<noteq> 0 then s
      else if key_char sc s \<noteq> 0 then kbd_push (key_char sc s) s else s)"

text \<open>\<^verbatim>\<open>kbd_init\<close> leaves the buffer bytes and \<^verbatim>\<open>ctrl\<close> as they are.\<close>

definition kbd_init :: "kbd \<Rightarrow> kbd" where
  "kbd_init s = s\<lparr>k_head := 0, k_tail := 0, k_shift := False, k_caps := False, k_ext := False\<rparr>"

definition kbd_avail :: "kbd \<Rightarrow> bool" where
  "kbd_avail s \<longleftrightarrow> k_head s \<noteq> k_tail s"

definition kbd_getc :: "kbd \<Rightarrow> int \<times> kbd" where
  "kbd_getc s =
     (if k_head s = k_tail s then (-1, s)
      else (uint (k_buf s ! k_tail s), s\<lparr>k_tail := (k_tail s + 1) mod BUF_SIZE\<rparr>))"

definition kbd_peekc :: "kbd \<Rightarrow> int" where
  "kbd_peekc s = (if k_head s = k_tail s then -1 else uint (k_buf s ! k_tail s))"

section \<open>The ring is a bounded queue\<close>

definition kbd_ok :: "kbd \<Rightarrow> bool" where
  "kbd_ok s \<longleftrightarrow> length (k_buf s) = BUF_SIZE \<and> k_head s < BUF_SIZE \<and> k_tail s < BUF_SIZE"

definition pending :: "kbd \<Rightarrow> nat" where
  "pending s = (k_head s + BUF_SIZE - k_tail s) mod BUF_SIZE"

definition queue :: "kbd \<Rightarrow> u8 list" where
  "queue s = map (\<lambda>i. k_buf s ! ((k_tail s + i) mod BUF_SIZE)) [0..<pending s]"

lemma length_queue [simp]: "length (queue s) = pending s"
  by (simp add: queue_def)

lemma pending_less: "pending s < BUF_SIZE"
  by (simp add: pending_def BUF_SIZE_def)

lemma queue_empty: "kbd_ok s \<Longrightarrow> queue s = [] \<longleftrightarrow> k_head s = k_tail s"
proof -
  assume "kbd_ok s"
  then have "pending s = 0 \<longleftrightarrow> k_head s = k_tail s"
    by (auto simp: pending_def kbd_ok_def BUF_SIZE_def mod_if)
  then show ?thesis by (metis length_queue length_0_conv)
qed

lemma full_iff: "kbd_ok s \<Longrightarrow> (k_head s + 1) mod BUF_SIZE = k_tail s \<longleftrightarrow> pending s = BUF_SIZE - 1"
  by (auto simp: pending_def kbd_ok_def BUF_SIZE_def mod_if)

lemma kbd_push_ok [noos_inv]: "kbd_ok s \<Longrightarrow> kbd_ok (kbd_push c s)"
  by (simp add: kbd_ok_def kbd_push_def Let_def BUF_SIZE_def)

lemma queue_push:
  assumes "kbd_ok s"
  shows "queue (kbd_push c s) = take (BUF_SIZE - 1) (queue s @ [c])"
proof (cases "(k_head s + 1) mod BUF_SIZE = k_tail s")
  case True
  then have "pending s = BUF_SIZE - 1" using full_iff [OF assms] by simp
  then show ?thesis using True by (simp add: kbd_push_def)
next
  case False
  let ?t = "kbd_push c s"
  have p: "pending ?t = pending s + 1" "pending s < BUF_SIZE - 1"
    using False assms by (auto simp: kbd_push_def pending_def kbd_ok_def BUF_SIZE_def mod_if split: if_splits)
  have hd: "(k_tail s + pending s) mod BUF_SIZE = k_head s"
    using assms by (auto simp: pending_def kbd_ok_def BUF_SIZE_def mod_if)
  have old: "(k_tail s + i) mod BUF_SIZE \<noteq> k_head s" if "i < pending s" for i
  proof
    assume "(k_tail s + i) mod BUF_SIZE = k_head s"
    then have "BUF_SIZE dvd (k_tail s + pending s) - (k_tail s + i)"
      using hd that mod_eq_dvd_iff_nat [of "k_tail s + i" "k_tail s + pending s" BUF_SIZE] by simp
    then show False using that pending_less [of s] by (auto dest: dvd_imp_le)
  qed
  have "queue ?t ! i = (queue s @ [c]) ! i" if "i < pending s + 1" for i
  proof (cases "i = pending s")
    case True
    then show ?thesis using that p hd assms False by (simp add: queue_def kbd_push_def kbd_ok_def nth_append)
  next
    case i: False
    then have "i < pending s" using that by simp
    then show ?thesis using p old [THEN not_sym] False by (simp add: queue_def kbd_push_def nth_append del: upt_Suc)
  qed
  then have "queue ?t = queue s @ [c]" using p(1) by (intro nth_equalityI) auto
  then show ?thesis using p(2) by simp
qed

lemma queue_getc:
  assumes "kbd_ok s"
  shows "kbd_ok (snd (kbd_getc s))"
    and "kbd_getc s = (case queue s of [] \<Rightarrow> (-1, s) | c # cs \<Rightarrow> (uint c, s\<lparr>k_tail := (k_tail s + 1) mod BUF_SIZE\<rparr>))"
    and "queue (snd (kbd_getc s)) = tl (queue s)"
proof -
  show "kbd_ok (snd (kbd_getc s))" using assms by (simp add: kbd_getc_def kbd_ok_def BUF_SIZE_def)
  have hd: "hd (queue s) = k_buf s ! k_tail s" if "queue s \<noteq> []"
  proof -
    have "0 < pending s" using that by (metis length_queue length_greater_0_conv)
    then show ?thesis using assms by (simp add: queue_def hd_map upt_conv_Cons kbd_ok_def)
  qed
  then show "kbd_getc s = (case queue s of [] \<Rightarrow> (-1, s) | c # cs \<Rightarrow> (uint c, s\<lparr>k_tail := (k_tail s + 1) mod BUF_SIZE\<rparr>))"
    using queue_empty [OF assms] by (auto simp: kbd_getc_def split: list.splits)
  show "queue (snd (kbd_getc s)) = tl (queue s)"
  proof (cases "k_head s = k_tail s")
    case True
    then show ?thesis using queue_empty [OF assms] by (simp add: kbd_getc_def)
  next
    case False
    let ?t = "s\<lparr>k_tail := (k_tail s + 1) mod BUF_SIZE\<rparr>"
    have p: "pending s = pending ?t + 1"
      using False assms by (auto simp: pending_def kbd_ok_def BUF_SIZE_def mod_if split: if_splits)
    have "queue ?t ! i = tl (queue s) ! i" if "i < pending ?t" for i
      using that p by (simp add: queue_def nth_tl mod_add_left_eq add.assoc add.commute [of 1] del: upt_Suc)
    then have "queue ?t = tl (queue s)" using p by (intro nth_equalityI) auto
    then show ?thesis using False by (simp add: kbd_getc_def)
  qed
qed


lemma kbd_mods_push [simp]:
  "k_shift (kbd_push c s) = k_shift s" "k_caps (kbd_push c s) = k_caps s" "k_ext (kbd_push c s) = k_ext s"
  "k_ctrl (kbd_push c s) = k_ctrl s"
  by (simp_all add: kbd_push_def Let_def)

section \<open>Producers and consumers\<close>

text \<open>
  The contract of a bounded queue that is fed through inputs, each standing for some elements, and
  what it gives for any interleaving of inputs and reads: what was read, followed by what is still
  queued, is what was there followed by the accepted elements, in order.
\<close>

datatype 'i qevent = Input 'i | Read

fun play :: "('i \<Rightarrow> 's \<Rightarrow> 's) \<Rightarrow> ('s \<Rightarrow> 's) \<Rightarrow> ('s \<Rightarrow> 'a list) \<Rightarrow> 'i qevent list \<Rightarrow> 's \<Rightarrow> 'a list \<times> 's" where
  "play feed deq elems [] s = ([], s)"
| "play feed deq elems (Input i # es) s = play feed deq elems es (feed i s)"
| "play feed deq elems (Read # es) s =
     (case play feed deq elems es (deq s) of (out, t) \<Rightarrow> (take 1 (elems s) @ out, t))"

fun emitted :: "('i \<Rightarrow> 's \<Rightarrow> 's) \<Rightarrow> ('s \<Rightarrow> 's) \<Rightarrow> ('s \<Rightarrow> 'i \<Rightarrow> 'a list) \<Rightarrow> 'i qevent list \<Rightarrow> 's \<Rightarrow> 'a list" where
  "emitted feed deq emit [] s = []"
| "emitted feed deq emit (Input i # es) s = emit s i @ emitted feed deq emit es (feed i s)"
| "emitted feed deq emit (Read # es) s = emitted feed deq emit es (deq s)"

locale bounded_queue =
  fixes feed :: "'i \<Rightarrow> 's \<Rightarrow> 's" and deq :: "'s \<Rightarrow> 's" and elems :: "'s \<Rightarrow> 'a list"
    and emit :: "'s \<Rightarrow> 'i \<Rightarrow> 'a list" and ok :: "'s \<Rightarrow> bool" and cap :: nat
  assumes feed_ok: "ok s \<Longrightarrow> ok (feed i s)" and deq_ok: "ok s \<Longrightarrow> ok (deq s)"
    and elems_feed: "ok s \<Longrightarrow> elems (feed i s) = take cap (elems s @ emit s i)"
    and elems_deq: "ok s \<Longrightarrow> elems (deq s) = tl (elems s)"
    and elems_cap: "ok s \<Longrightarrow> length (elems s) \<le> cap"
begin

lemma play_fifo:
  assumes "ok s" and "play feed deq elems es s = (out, t)"
  shows "\<exists>acc. out @ elems t = elems s @ acc \<and> subseq acc (emitted feed deq emit es s)
     \<and> (length (elems s) + length (emitted feed deq emit es s) \<le> cap \<longrightarrow> acc = emitted feed deq emit es s)"
  using assms
proof (induction es arbitrary: s out t)
  case (Cons e es)
  show ?case
  proof (cases e)
    case (Input i)
    let ?s = "feed i s" and ?xs = "take (cap - length (elems s)) (emit s i)"
    obtain acc where acc: "out @ elems t = elems ?s @ acc" "subseq acc (emitted feed deq emit es ?s)"
      "length (elems ?s) + length (emitted feed deq emit es ?s) \<le> cap \<longrightarrow> acc = emitted feed deq emit es ?s"
      using Cons.IH [OF feed_ok [OF Cons.prems(1)], of i out t] Cons.prems(2) Input by auto
    have el: "elems ?s = elems s @ ?xs"
      using elems_feed [OF Cons.prems(1), of i] elems_cap [OF Cons.prems(1)] by simp
    have "subseq ?xs (emit s i)" by (rule prefix_imp_subseq) (simp add: take_is_prefix)
    then show ?thesis using acc el Input by (intro exI [of _ "?xs @ acc"]) (auto intro: list_emb_append_mono)
  next
    case Read
    obtain o' where o': "play feed deq elems es (deq s) = (o', t)" "out = take 1 (elems s) @ o'"
      using Cons.prems(2) Read by (auto split: prod.splits)
    obtain acc where acc: "o' @ elems t = tl (elems s) @ acc" "subseq acc (emitted feed deq emit es (deq s))"
      "length (tl (elems s)) + length (emitted feed deq emit es (deq s)) \<le> cap \<longrightarrow> acc = emitted feed deq emit es (deq s)"
      using Cons.IH [OF deq_ok [OF Cons.prems(1)] o'(1)] elems_deq [OF Cons.prems(1)] by auto
    have "elems s = take 1 (elems s) @ tl (elems s)" by (cases "elems s") auto
    then have "out @ elems t = elems s @ acc" using acc(1) o'(2) by (metis append_assoc)
    then show ?thesis using acc(2,3) Read by (intro exI [of _ acc]) auto
  qed
qed simp

end

section \<open>Decoding\<close>

text \<open>What a scancode stream means: the modifier state and the characters it produces.\<close>

type_synonym mods = "bool \<times> bool \<times> bool \<times> bool"

definition mods_of :: "kbd \<Rightarrow> mods" where
  "mods_of s = (k_shift s, k_caps s, k_ext s, k_ctrl s)"

definition nav_keys :: "(u8 \<times> u8) list" where
  "nav_keys = [(0x48, KBD_UP), (0x50, KBD_DOWN), (0x4B, KBD_LEFT), (0x4D, KBD_RIGHT), (0x47, KBD_HOME),
     (0x4F, KBD_END), (0x53, KBD_DEL)]"

definition is_modifier :: "u8 \<Rightarrow> bool" where
  "is_modifier sc \<longleftrightarrow> sc \<in> set [0x2A, 0x36, 0x1D, 0x3A]"

fun chars_of :: "mods \<Rightarrow> u8 \<Rightarrow> u8 list" where
  "chars_of (shift, caps, ext, ctrl) sc =
     (if ext then (case map_of nav_keys sc of None \<Rightarrow> [] | Some c \<Rightarrow> [c])
      else if sc \<ge> 0x80 \<or> is_modifier sc then []
      else let c = (if shift \<noteq> caps then kb_shift else kb_normal) ! unat sc;
               d = (if ctrl \<and> 97 \<le> c \<and> c \<le> 122 then c - 96 else c)
           in if d = 0 then [] else [d])"

fun mods_after :: "mods \<Rightarrow> u8 \<Rightarrow> mods" where
  "mods_after (shift, caps, ext, ctrl) sc =
     (if sc \<in> set [0x2A, 0x36] \<or> (\<not> ext \<and> sc \<in> set [0xAA, 0xB6]) then sc < 0x80 else shift,
      if \<not> ext \<and> sc = 0x3A then \<not> caps else caps,
      \<not> ext \<and> sc = 0xE0,
      if sc \<in> set [0x1D, 0x9D] then sc < 0x80 else ctrl)"

fun decode :: "mods \<Rightarrow> u8 list \<Rightarrow> u8 list" where
  "decode m [] = []"
| "decode m (sc # scs) = chars_of m sc @ decode (mods_after m sc) scs"

definition kbd_take :: "kbd \<Rightarrow> kbd" where
  "kbd_take s = snd (kbd_getc s)"

lemma high_bit: "(sc :: u8) AND 0x80 \<noteq> 0 \<longleftrightarrow> sc \<ge> 0x80"
proof -
  have n: "unat sc < 256" using unsigned_less [of sc] by simp
  have "sc AND 0x80 \<noteq> 0 \<longleftrightarrow> bit sc 7" using and_exp_eq_0_iff_not_bit [of sc 7] by simp
  also have "\<dots> \<longleftrightarrow> bit (unat sc) 7" by (simp add: bit_unsigned_iff)
  also have "\<dots> \<longleftrightarrow> odd (unat sc div 128)" by (simp add: bit_iff_odd)
  also have "\<dots> \<longleftrightarrow> unat sc \<ge> 128"
  proof (cases "unat sc < 128")
    case False
    then have "unat sc div 128 = 1" using n by (intro div_nat_eqI) auto
    then show ?thesis using False by simp
  qed simp
  finally show ?thesis by (simp add: word_le_nat_alt)
qed

lemma low_bits:
  assumes "(sc :: u8) < 0x80"
  shows "sc AND 0x7F = sc"
proof -
  have "unat (take_bit 7 sc) = take_bit 7 (unat sc)" by (rule unsigned_take_bit_eq)
  also have "\<dots> = unat sc" using assms by (simp add: take_bit_nat_eq_self_iff word_less_nat_alt)
  finally have "unat (take_bit 7 sc) = unat sc" .
  then have "take_bit 7 sc = sc" by (rule unsigned_word_eqI)
  moreover have "(0x7F :: u8) = mask 7" by (simp add: mask_eq_exp_minus_1)
  ultimately show ?thesis by (simp add: take_bit_eq_mask)
qed

lemma queue_mods [simp]:
  "queue (s\<lparr>k_shift := b\<rparr>) = queue s" "queue (s\<lparr>k_caps := b\<rparr>) = queue s" "queue (s\<lparr>k_ext := b\<rparr>) = queue s"
  "queue (s\<lparr>k_ctrl := b\<rparr>) = queue s"
  by (simp_all add: queue_def pending_def)

lemma kbd_ok_mods [simp]:
  "kbd_ok (s\<lparr>k_shift := b\<rparr>) = kbd_ok s" "kbd_ok (s\<lparr>k_caps := b\<rparr>) = kbd_ok s" "kbd_ok (s\<lparr>k_ext := b\<rparr>) = kbd_ok s"
  "kbd_ok (s\<lparr>k_ctrl := b\<rparr>) = kbd_ok s"
  by (simp_all add: kbd_ok_def)

lemma queue_full [simp]: "take (BUF_SIZE - 1) (queue s) = queue s"
  using pending_less [of s] by simp

lemma ext_key_decodes:
  assumes "kbd_ok s" and "\<not> k_ext s"
  shows "kbd_ok (ext_key sc s) \<and> mods_of (ext_key sc s) = mods_after (k_shift s, k_caps s, True, k_ctrl s) sc
    \<and> queue (ext_key sc s) = take (BUF_SIZE - 1) (queue s @ chars_of (k_shift s, k_caps s, True, k_ctrl s) sc)"
  using assms queue_push [OF assms(1)] kbd_push_ok [OF assms(1)] queue_full [of s]
  by (simp add: ext_key_def nav_keys_def mods_of_def)

lemma kbd_handler_decodes:
  assumes "kbd_ok s"
  shows "kbd_ok (kbd_handler sc s) \<and> mods_of (kbd_handler sc s) = mods_after (mods_of s) sc
    \<and> queue (kbd_handler sc s) = take (BUF_SIZE - 1) (queue s @ chars_of (mods_of s) sc)"
proof (cases "k_ext s")
  case True
  then show ?thesis using ext_key_decodes [of "s\<lparr>k_ext := False\<rparr>" sc] assms
    by (simp add: kbd_handler_def mods_of_def)
next
  case False
  consider "sc \<in> set [0xE0, 0x2A, 0x36, 0xAA, 0xB6, 0x1D, 0x9D, 0x3A]"
    | "sc \<notin> set [0xE0, 0x2A, 0x36, 0xAA, 0xB6, 0x1D, 0x9D, 0x3A]" "sc \<ge> 0x80"
    | "sc \<notin> set [0xE0, 0x2A, 0x36, 0xAA, 0xB6, 0x1D, 0x9D, 0x3A]" "sc < 0x80"
    by force
  then show ?thesis
  proof cases
    case 1
    then show ?thesis using False assms queue_full [of s] by (auto simp: kbd_handler_def mods_of_def is_modifier_def)
  next
    case 2
    then show ?thesis using False assms queue_full [of s] high_bit [of sc] by (auto simp: kbd_handler_def mods_of_def is_modifier_def)
  next
    case 3
    then show ?thesis using False assms queue_full [of s] high_bit [of sc] low_bits [of sc] queue_push [OF assms] kbd_push_ok [OF assms]
      by (auto simp: kbd_handler_def mods_of_def is_modifier_def key_char_def Let_def)
  qed
qed

text \<open>The driver as a queue of decoded characters, fed by scancodes.\<close>

interpretation kq: bounded_queue kbd_handler kbd_take queue "\<lambda>s. chars_of (mods_of s)" kbd_ok "BUF_SIZE - 1"
proof
  fix s assume s: "kbd_ok s"
  show "kbd_ok (kbd_take s)" "queue (kbd_take s) = tl (queue s)"
    using queue_getc(1,3) [OF s] by (simp_all only: kbd_take_def)
  show "length (queue s) \<le> BUF_SIZE - 1" using pending_less [of s] by simp
qed (use kbd_handler_decodes in blast)+

fun keys :: "u8 qevent list \<Rightarrow> u8 list" where
  "keys [] = []"
| "keys (Input sc # es) = sc # keys es"
| "keys (Read # es) = keys es"

lemma mods_take: "mods_of (kbd_take s) = mods_of s"
  by (simp add: mods_of_def kbd_take_def kbd_getc_def)

lemma emitted_decode:
  "kbd_ok s \<Longrightarrow> emitted kbd_handler kbd_take (\<lambda>s. chars_of (mods_of s)) es s = decode (mods_of s) (keys es)"
proof (induction es arbitrary: s)
  case (Cons e es)
  show ?case
  proof (cases e)
    case (Input sc)
    then show ?thesis using Cons.IH [of "kbd_handler sc s"] kbd_handler_decodes [OF Cons.prems, of sc] by simp
  next
    case Read
    then show ?thesis using Cons.IH [of "kbd_take s"] kq.deq_ok [OF Cons.prems] by (simp add: mods_take)
  qed
qed simp


definition idle_kbd :: kbd where
  "idle_kbd = \<lparr>k_buf = replicate 256 0, k_head = 0, k_tail = 0, k_shift = False, k_caps = False, k_ext = False, k_ctrl = False\<rparr>"

text \<open>Shift down, h, shift up, a read, i, up arrow, two more reads.\<close>

definition demo_keys :: "u8 qevent list" where
  "demo_keys = [Input 0x2A, Input 0x23, Input 0xAA, Read, Input 0x17, Input 0xE0, Input 0x48, Read, Read]"

lemma demo_decode: "decode (mods_of idle_kbd) (keys demo_keys) = [72, 105, 0x80]"
  by code_simp


text \<open>
  The fake shift that keyboards send around navigation keys (\<^verbatim>\<open>E0 2A\<close> ... \<^verbatim>\<open>E0 AA\<close>) leaves
  the driver with shift held down: the press is honoured, its release is not.
\<close>

theorem kbd_fake_shift_sticks:
  assumes "\<not> k_ext s"
  shows "k_shift (fold kbd_handler [0xE0, 0x2A, 0xE0, 0x48, 0xE0, 0xC8, 0xE0, 0xAA] s)"
  using assms by (simp add: kbd_handler_def ext_key_def)

theorem kbd_fake_shift_sticks_witness:
  "\<not> k_shift idle_kbd \<and> k_shift (fold kbd_handler [0xE0, 0x2A, 0xE0, 0x48, 0xE0, 0xC8, 0xE0, 0xAA] idle_kbd)"
  using kbd_fake_shift_sticks [of idle_kbd] by (simp add: idle_kbd_def)

end
