(* ===== verification/Heap.thy ===== *)
theory Heap
  imports Pmm
begin

unbundle bit_operations_syntax

text \<open>
  The kernel heap, \<^verbatim>\<open>kernel/mm/heap.c\<close>: a first-fit allocator over blocks with a 32-byte header,
  linked in one list and carved out of frames from \<^verbatim>\<open>pmm.c\<close>. The linked list is a list of blocks in
  link order, each with the address of its header; the state also holds the frame allocator, because
  \<^verbatim>\<open>kmalloc\<close> extends the heap from it. All sizes and addresses are 64-bit and wrap as in the source.
  The diagnostics (\<^verbatim>\<open>heap_validate\<close>, the log lines) change nothing and are left out.
\<close>

record blk =
  b_addr :: u64
  b_size :: u64
  b_free :: bool

record heap =
  h_blocks :: "blk list"
  h_used :: u64
  h_count :: u64
  h_pmm :: pmm_state

definition sizeof_block :: u64 where
  "sizeof_block = 32"

definition align16 :: "u64 \<Rightarrow> u64" where
  "align16 n = (n + 15) AND NOT 15"

definition adjacent :: "blk \<Rightarrow> blk \<Rightarrow> bool" where
  "adjacent a b \<longleftrightarrow> b_addr b = b_addr a + sizeof_block + b_size a"

definition region_alloc :: "u64 \<Rightarrow> heap \<Rightarrow> heap option" where
  "region_alloc payload s =
     (let need = sizeof_block + payload;
          frames = (need + FRAME_SIZE - 1) div FRAME_SIZE;
          (addr, p) = pmm_alloc_frames frames (h_pmm s)
      in if addr = 0 then None
         else Some (s\<lparr>h_blocks := h_blocks s @ [\<lparr>b_addr = addr, b_size = frames * FRAME_SIZE - sizeof_block, b_free = True\<rparr>],
                h_count := h_count s + 1, h_pmm := p\<rparr>))"

text \<open>The scan of \<^verbatim>\<open>kmalloc\<close>: the first free block that is large enough, split when what is left can
  hold a block of its own. The result is the payload address, the size charged, the number of
  blocks added and the new list.\<close>

fun take_block :: "u64 \<Rightarrow> blk list \<Rightarrow> (u64 \<times> u64 \<times> u64 \<times> blk list) option" where
  "take_block sz [] = None"
| "take_block sz (b # bs) =
     (if \<not> b_free b \<or> b_size b < sz then
        (case take_block sz bs of
           None \<Rightarrow> None
         | Some (p, n, k, bs') \<Rightarrow> Some (p, n, k, b # bs'))
      else if b_size b - sz \<ge> sizeof_block + 16 then
        Some (b_addr b + sizeof_block, sz, 1,
              b\<lparr>b_size := sz, b_free := False\<rparr>
              # \<lparr>b_addr = b_addr b + sizeof_block + sz, b_size = b_size b - sz - sizeof_block, b_free = True\<rparr> # bs)
      else Some (b_addr b + sizeof_block, b_size b, 0, b\<lparr>b_free := False\<rparr> # bs))"

text \<open>
  \<^verbatim>\<open>kmalloc\<close> calls itself after extending the heap; how often is bounded by the free frames, so the
  model is given fuel and the theorems say how much is enough.
\<close>

fun kmalloc :: "nat \<Rightarrow> u64 \<Rightarrow> heap \<Rightarrow> (u64 \<times> heap) option" where
  "kmalloc 0 sz0 s = None"
| "kmalloc (Suc f) sz0 s =
     (let sz = align16 (if sz0 = 0 then 1 else sz0)
      in case take_block sz (h_blocks s) of
           Some (p, n, k, bs) \<Rightarrow> Some (p, s\<lparr>h_blocks := bs, h_used := h_used s + n, h_count := h_count s + k\<rparr>)
         | None \<Rightarrow>
             (case region_alloc sz s of
                None \<Rightarrow> Some (0, s)
              | Some s' \<Rightarrow> kmalloc f sz s'))"

text \<open>The list around the block with a given header address.\<close>

fun find_block :: "u64 \<Rightarrow> blk list \<Rightarrow> (blk list \<times> blk \<times> blk list) option" where
  "find_block a [] = None"
| "find_block a (b # bs) =
     (if b_addr b = a then Some ([], b, bs)
      else case find_block a bs of None \<Rightarrow> None | Some (pre, c, post) \<Rightarrow> Some (b # pre, c, post))"

definition joins :: "blk \<Rightarrow> blk \<Rightarrow> blk" where
  "joins a b = a\<lparr>b_size := b_size a + (sizeof_block + b_size b)\<rparr>"

definition merge_next :: "blk \<Rightarrow> blk list \<Rightarrow> u64 \<times> blk list" where
  "merge_next b post =
     (case post of
        [] \<Rightarrow> (0, [b])
      | n # ps \<Rightarrow> if b_free n \<and> adjacent b n then (1, joins b n # ps) else (0, b # n # ps))"

text \<open>The scan for the previous block gives up after 100000 steps.\<close>

definition merge_prev :: "blk list \<Rightarrow> blk list \<Rightarrow> u64 \<times> blk list" where
  "merge_prev pre rest =
     (case rest of
        [] \<Rightarrow> (0, pre)
      | b # ps \<Rightarrow>
          if pre \<noteq> [] \<and> length pre \<le> 100000 \<and> b_free (last pre) \<and> adjacent (last pre) b
          then (1, butlast pre @ joins (last pre) b # ps)
          else (0, pre @ b # ps))"

text \<open>A pointer that does not follow a header of the list reads memory this model does not have.\<close>

definition kfree :: "u64 \<Rightarrow> heap \<Rightarrow> heap res" where
  "kfree ptr s =
     (if ptr = 0 then Ok s
      else case find_block (ptr - sizeof_block) (h_blocks s) of
          None \<Rightarrow> Crash (OutOfBounds ''header'')
        | Some (pre, b, post) \<Rightarrow>
            if b_free b then Ok s
            else (let (m, rest) = merge_next (b\<lparr>b_free := True\<rparr>) post; (m', bs) = merge_prev pre rest
                  in Ok (s\<lparr>h_used := h_used s - b_size b, h_count := h_count s - m - m', h_blocks := bs\<rparr>)))"

definition heap_used_bytes :: "heap \<Rightarrow> u64" where
  "heap_used_bytes s = h_used s"

definition heap_blocks :: "heap \<Rightarrow> u64" where
  "heap_blocks s = h_count s"

section \<open>Invariant\<close>

definition b_lo :: "blk \<Rightarrow> nat" where
  "b_lo b = unat (b_addr b)"

definition b_hi :: "blk \<Rightarrow> nat" where
  "b_hi b = unat (b_addr b) + 32 + unat (b_size b)"

definition apart :: "blk \<Rightarrow> blk \<Rightarrow> bool" where
  "apart a b \<longleftrightarrow> b_hi a \<le> b_lo b \<or> b_hi b \<le> b_lo a"

definition blk_ok :: "(nat \<Rightarrow> bool) \<Rightarrow> blk \<Rightarrow> bool" where
  "blk_ok used b \<longleftrightarrow> 0 < b_lo b \<and> b_hi b \<le> PMM_MAX_FRAMES * 4096 \<and> 16 dvd b_lo b \<and> 16 dvd unat (b_size b)
     \<and> (\<forall>x. b_lo b \<le> x \<and> x < b_hi b \<longrightarrow> used (x div 4096))"

definition used_sum :: "blk list \<Rightarrow> nat" where
  "used_sum bs = sum_list (map (\<lambda>b. if b_free b then 0 else unat (b_size b)) bs)"

definition heap_ok :: "heap \<Rightarrow> bool" where
  "heap_ok s \<longleftrightarrow> pmm_inv (h_pmm s) \<and> used_frame (h_pmm s) 0
     \<and> (\<forall>b\<in>set (h_blocks s). blk_ok (used_frame (h_pmm s)) b) \<and> sorted_wrt apart (h_blocks s)
     \<and> h_used s = of_nat (used_sum (h_blocks s)) \<and> h_count s = of_nat (length (h_blocks s))"

lemma apart_sym: "apart a b \<Longrightarrow> apart b a"
  by (auto simp: apart_def)

lemma b_hi_gt: "b_lo b + 32 \<le> b_hi b"
  by (simp add: b_lo_def b_hi_def)

lemma blk_okD:
  assumes "blk_ok used b"
  shows "b_hi b \<le> 2 ^ 30" and "unat (b_addr b + sizeof_block) = b_lo b + 32"
    and "b_addr b + sizeof_block \<noteq> 0"
proof -
  show h: "b_hi b \<le> 2 ^ 30" using assms by (simp add: blk_ok_def PMM_MAX_FRAMES_def)
  then have "unat (b_addr b) + 32 < 2 ^ 64" by (simp add: b_hi_def)
  then show u: "unat (b_addr b + sizeof_block) = b_lo b + 32"
    by (simp add: b_lo_def sizeof_block_def unat_word_ariths)
  then show "b_addr b + sizeof_block \<noteq> 0" by (metis add_is_0 unat_0 zero_neq_numeral)
qed

text \<open>Replacing one block by blocks inside it keeps the others apart.\<close>

definition inside :: "blk \<Rightarrow> blk \<Rightarrow> bool" where
  "inside c b \<longleftrightarrow> b_lo b \<le> b_lo c \<and> b_hi c \<le> b_hi b"

lemma inside_apart: "inside c b \<Longrightarrow> apart b d \<Longrightarrow> apart c d"
  using b_hi_gt [of c] by (auto simp: inside_def apart_def)

lemma inside_ok: "inside c b \<Longrightarrow> blk_ok used b \<Longrightarrow> 16 dvd b_lo c \<Longrightarrow> 16 dvd unat (b_size c) \<Longrightarrow> blk_ok used c"
  by (auto simp: inside_def blk_ok_def)

lemma replace_apart:
  assumes "sorted_wrt apart (pre @ b # post)" and "\<forall>c\<in>set cs. inside c b" and "sorted_wrt apart cs"
  shows "sorted_wrt apart (pre @ cs @ post)"
proof -
  have "apart x c" if "x \<in> set pre" "c \<in> set cs" for x c
    using assms(1,2) that inside_apart [of c b x] by (auto simp: sorted_wrt_append apart_sym)
  moreover have "apart c x" if "x \<in> set post" "c \<in> set cs" for x c
    using assms(1,2) that inside_apart [of c b x] by (auto simp: sorted_wrt_append)
  ultimately show ?thesis using assms(1,3) by (auto simp: sorted_wrt_append)
qed

section \<open>Taking a block\<close>

lemma align16_unat: "unat (align16 n) = unat (n + 15) div 16 * 16"
proof -
  have m: "(15 :: u64) = mask 4" by (simp add: mask_eq_exp_minus_1)
  have "align16 n = push_bit 4 (drop_bit 4 (n + 15))"
    unfolding align16_def m by (rule bit_eqI) (auto simp: bit_simps)
  then have "align16 n = (n + 15) div 16 * 16" by (simp add: push_bit_eq_mult drop_bit_eq_div)
  moreover have "unat ((n + 15) div 16 * 16) = unat (n + 15) div 16 * 16"
    using unsigned_less [of "n + 15"] by (simp add: unat_word_ariths unat_div less_mult_imp_div_less)
  ultimately show ?thesis by simp
qed

lemma align16_dvd: "16 dvd unat (align16 n)"
  by (simp add: align16_unat)

lemma align16_ge:
  assumes "unat n \<le> 2 ^ 64 - 16"
  shows "unat n \<le> unat (align16 n)" and "unat (align16 n) < unat n + 16"
proof -
  have "unat (n + 15) = unat n + 15" using assms by (simp add: unat_word_ariths)
  then show "unat n \<le> unat (align16 n)" "unat (align16 n) < unat n + 16" unfolding align16_unat by simp_all
qed

lemma align16_idem: "align16 (align16 n) = align16 n"
proof -
  obtain k where k: "unat (align16 n) = 16 * k" using align16_dvd by (auto simp: dvd_def)
  then have "16 * k < 2 ^ 64" using unsigned_less [of "align16 n", where 'a = nat] by simp
  then have "unat (align16 n + 15) = 16 * k + 15" using k by (simp add: unat_word_ariths)
  then have "unat (align16 (align16 n)) = unat (align16 n)" using k by (simp add: align16_unat [of "align16 n"])
  then show ?thesis by (rule unsigned_word_eqI)
qed

text \<open>What a taken block becomes: the part handed out, and maybe a free rest.\<close>

definition carved :: "u64 \<Rightarrow> blk \<Rightarrow> u64 \<Rightarrow> u64 \<Rightarrow> blk list \<Rightarrow> bool" where
  "carved sz b n k cs \<longleftrightarrow> (\<exists>c rest. cs = c # rest \<and> b_addr c = b_addr b \<and> \<not> b_free c \<and> b_size c = n \<and> sz \<le> n
     \<and> (\<forall>r\<in>set rest. b_free r) \<and> k = of_nat (length rest) \<and> sorted_wrt apart cs
     \<and> (\<forall>d\<in>set cs. inside d b \<and> 16 dvd b_lo d \<and> 16 dvd unat (b_size d)))"

lemma carved_whole: "blk_ok used b \<Longrightarrow> sz \<le> b_size b \<Longrightarrow> carved sz b (b_size b) 0 [b\<lparr>b_free := False\<rparr>]"
  by (simp add: carved_def inside_def blk_ok_def b_lo_def b_hi_def)

lemma carved_split:
  assumes b: "blk_ok used b" and sz: "sz \<le> b_size b" "16 dvd unat sz" and big: "b_size b - sz \<ge> sizeof_block + 16"
  shows "carved sz b sz 1 [b\<lparr>b_size := sz, b_free := False\<rparr>,
    \<lparr>b_addr = b_addr b + sizeof_block + sz, b_size = b_size b - sz - sizeof_block, b_free = True\<rparr>]"
proof -
  have h: "unat (b_addr b) + 32 + unat (b_size b) \<le> 2 ^ 30" using blk_okD(1) [OF b] by (simp add: b_hi_def)
  have le: "unat sz \<le> unat (b_size b)" using sz by (simp add: word_le_nat_alt)
  have d: "unat (b_size b - sz) = unat (b_size b) - unat sz" using sz by (simp add: unat_sub)
  have "unat (b_size b) - unat sz \<ge> 48" using big d by (simp add: word_le_nat_alt sizeof_block_def)
  moreover have "sizeof_block \<le> b_size b - sz" using calculation d by (simp add: word_le_nat_alt sizeof_block_def)
  then have r: "unat (b_size b - sz - sizeof_block) = unat (b_size b) - unat sz - 32"
    using d by (simp add: unat_sub sizeof_block_def)
  moreover have a: "unat (b_addr b + sizeof_block + sz) = unat (b_addr b) + 32 + unat sz"
    using h le by (simp add: unat_word_ariths sizeof_block_def)
  moreover have "16 dvd unat (b_addr b) + 32 + unat sz" "16 dvd unat (b_size b) - unat sz - 32"
    using b sz(2) by (auto simp: blk_ok_def b_lo_def dvd_diff_nat)
  ultimately show ?thesis using b sz h le
    by (simp add: carved_def inside_def apart_def b_lo_def b_hi_def blk_ok_def)
qed

lemma take_block_carves:
  assumes "take_block sz bs = Some (p, n, k, bs')" and "\<forall>b\<in>set bs. blk_ok used b" and "16 dvd unat sz"
  shows "\<exists>pre b post cs. bs = pre @ b # post \<and> bs' = pre @ cs @ post \<and> b_free b \<and> p = b_addr b + sizeof_block
    \<and> carved sz b n k cs \<and> (\<forall>x\<in>set pre. b_free x \<longrightarrow> b_size x < sz)"
  using assms
proof (induction sz bs arbitrary: bs' rule: take_block.induct)
  case (2 sz b bs)
  show ?case
  proof (cases "\<not> b_free b \<or> b_size b < sz")
    case True
    then obtain ds where ds: "take_block sz bs = Some (p, n, k, ds)" "bs' = b # ds"
      using "2.prems"(1) by (auto split: option.splits)
    obtain pre c post cs where "bs = pre @ c # post \<and> ds = pre @ cs @ post \<and> b_free c \<and> p = b_addr c + sizeof_block
      \<and> carved sz c n k cs \<and> (\<forall>x\<in>set pre. b_free x \<longrightarrow> b_size x < sz)"
      using "2.IH" [OF True ds(1)] "2.prems" by auto
    then show ?thesis using ds(2) True by (intro exI [of _ "b # pre"] exI [of _ c] exI [of _ post] exI [of _ cs]) auto
  next
    case False
    then have b: "b_free b" "sz \<le> b_size b" "blk_ok used b" using "2.prems"(2) by auto
    let ?c = "[b\<lparr>b_size := sz, b_free := False\<rparr>,
      \<lparr>b_addr = b_addr b + sizeof_block + sz, b_size = b_size b - sz - sizeof_block, b_free = True\<rparr>]"
    show ?thesis
    proof (cases "b_size b - sz \<ge> sizeof_block + 16")
      case True
      then show ?thesis using "2.prems"(1) False b(1) carved_split [OF b(3,2) "2.prems"(3) True]
        by (intro exI [of _ "[]"] exI [of _ b] exI [of _ bs] exI [of _ ?c]) auto
    next
      case small: False
      then show ?thesis using "2.prems"(1) False b(1) carved_whole [OF b(3,2)]
        by (intro exI [of _ "[]"] exI [of _ b] exI [of _ bs] exI [of _ "[b\<lparr>b_free := False\<rparr>]"]) auto
    qed
  qed
qed simp

lemma take_block_none: "take_block sz bs = None \<longleftrightarrow> (\<forall>b\<in>set bs. b_free b \<longrightarrow> b_size b < sz)"
  by (induction sz bs rule: take_block.induct) (auto split: option.splits)


section \<open>Allocation\<close>

definition live :: "heap \<Rightarrow> blk set" where
  "live s = {b \<in> set (h_blocks s). \<not> b_free b}"

lemma used_sum_append [simp]: "used_sum (xs @ ys) = used_sum xs + used_sum ys"
  by (simp add: used_sum_def)

lemma used_sum_Cons [simp]: "used_sum (b # bs) = (if b_free b then 0 else unat (b_size b)) + used_sum bs"
  by (simp add: used_sum_def)

lemma used_sum_Nil [simp]: "used_sum [] = 0"
  by (simp add: used_sum_def)

lemma used_sum_free: "\<forall>b\<in>set bs. b_free b \<Longrightarrow> used_sum bs = 0"
  by (induction bs) (auto simp: used_sum_def)

text \<open>Handing out a block keeps the heap well formed and adds one live block apart from the others.\<close>

lemma take_block_heap:
  assumes s: "heap_ok s" and sz: "16 dvd unat sz" and t: "take_block sz (h_blocks s) = Some (p, n, k, bs)"
  defines "s' \<equiv> s\<lparr>h_blocks := bs, h_used := h_used s + n, h_count := h_count s + k\<rparr>"
  shows "heap_ok s' \<and> (\<exists>c. p = b_addr c + sizeof_block \<and> sz \<le> b_size c \<and> live s' = insert c (live s) \<and> \<not> b_free c
    \<and> blk_ok (used_frame (h_pmm s)) c \<and> (\<forall>d\<in>live s. apart c d))"
proof -
  let ?used = "used_frame (h_pmm s)"
  have ok: "\<forall>b\<in>set (h_blocks s). blk_ok ?used b" using s by (simp add: heap_ok_def)
  obtain pre b post cs where d: "h_blocks s = pre @ b # post" "bs = pre @ cs @ post" "b_free b"
    "p = b_addr b + sizeof_block" "carved sz b n k cs"
    using take_block_carves [OF t ok sz] by blast
  obtain c rest where c: "cs = c # rest" "b_addr c = b_addr b" "\<not> b_free c" "b_size c = n" "sz \<le> n"
    "\<forall>r\<in>set rest. b_free r" "k = of_nat (length rest)" "sorted_wrt apart cs"
    "\<forall>d\<in>set cs. inside d b \<and> 16 dvd b_lo d \<and> 16 dvd unat (b_size d)"
    using d(5) unfolding carved_def by blast
  have b: "blk_ok ?used b" using ok d(1) by simp
  have cs: "\<forall>d\<in>set cs. blk_ok ?used d" using c(9) inside_ok [OF _ b] by blast
  have srt: "sorted_wrt apart (pre @ b # post)" using s d(1) by (simp add: heap_ok_def)
  have "sorted_wrt apart bs" unfolding d(2) using replace_apart [OF srt _ c(8)] c(9) by blast
  moreover have "\<forall>d\<in>set bs. blk_ok ?used d" using ok cs d(1,2) by auto
  moreover have "used_sum bs = used_sum (h_blocks s) + unat n"
    unfolding d(1,2) c(1) using c(3,4) d(3) used_sum_free [OF c(6)] by simp
  moreover have "length bs = length (h_blocks s) + length rest" unfolding d(1,2) c(1) by simp
  ultimately have ok': "heap_ok s'" using s c(7) unfolding heap_ok_def s'_def by simp
  have lv: "live s' = insert c (live s)" unfolding live_def s'_def using d(1-3) c(1,3,6) by auto
  have "apart b x" if "x \<in> live s" for x
    using srt that d(1,3) by (auto simp: live_def sorted_wrt_append apart_sym)
  then have "\<forall>x\<in>live s. apart c x" using c(1,9) inside_apart [of c b] by auto
  moreover have "p = b_addr c + sizeof_block" using d(4) c(2) by simp
  ultimately show ?thesis using ok' lv c(1,3-5) cs by auto
qed

lemma range_overlap:
  assumes "\<not> apart a b"
  obtains x where "b_lo a \<le> x" "x < b_hi a" "b_lo b \<le> x" "x < b_hi b"
  using assms b_hi_gt [of a] b_hi_gt [of b] that [of "max (b_lo a) (b_lo b)"] by (auto simp: apart_def)

text \<open>The frames a region takes, and the block made of them.\<close>

lemma region_size:
  assumes "unat frames \<le> PMM_MAX_FRAMES" and "0 < frames"
  shows "unat (frames * FRAME_SIZE - sizeof_block) = unat frames * 4096 - 32"
proof -
  have u: "unat (frames * FRAME_SIZE) = unat frames * 4096"
    using assms(1) by (simp add: unat_word_ariths FRAME_SIZE_def PMM_MAX_FRAMES_def)
  moreover have "0 < unat frames" using assms(2) by (simp add: word_less_nat_alt)
  ultimately show ?thesis by (simp add: unat_sub sizeof_block_def word_le_nat_alt)
qed

lemma region_frames_enough:
  assumes "unat sz \<le> 2 ^ 63" and "unat ((sizeof_block + sz + FRAME_SIZE - 1) div FRAME_SIZE) \<le> PMM_MAX_FRAMES"
  shows "unat sz \<le> unat ((sizeof_block + sz + FRAME_SIZE - 1) div FRAME_SIZE) * 4096 - 32"
proof -
  have "unat (sizeof_block + sz + FRAME_SIZE - 1) = unat sz + 4127"
    using assms(1) by (simp add: sizeof_block_def FRAME_SIZE_def unat_word_ariths)
  then have "unat ((sizeof_block + sz + FRAME_SIZE - 1) div FRAME_SIZE) = (unat sz + 4127) div 4096"
    by (simp add: unat_div FRAME_SIZE_def)
  then show ?thesis by simp
qed

lemma region_alloc_heap:
  assumes s: "heap_ok s" and r: "region_alloc sz s = Some t"
  shows "heap_ok t \<and> live t = live s \<and> free_count (h_pmm t) < free_count (h_pmm s)
    \<and> (\<exists>b. h_blocks t = h_blocks s @ [b] \<and> b_free b \<and> (unat sz \<le> 2 ^ 63 \<longrightarrow> sz \<le> b_size b))"
proof -
  let ?n = "(sizeof_block + sz + FRAME_SIZE - 1) div FRAME_SIZE"
  obtain a p where a: "pmm_alloc_frames ?n (h_pmm s) = (a, p)" "a \<noteq> 0"
    using r by (auto simp: region_alloc_def Let_def split: prod.splits if_splits)
  let ?b = "\<lparr>b_addr = a, b_size = ?n * FRAME_SIZE - sizeof_block, b_free = True\<rparr>"
  have t: "t = s\<lparr>h_blocks := h_blocks s @ [?b], h_count := h_count s + 1, h_pmm := p\<rparr>"
    using r a by (simp add: region_alloc_def Let_def)
  have pm: "pmm_inv (h_pmm s) \<and> used_frame (h_pmm s) 0" using s by (simp add: heap_ok_def)
  have "?n \<noteq> 0" using a pmm.none [of "h_pmm s"] by auto
  then have n: "0 < ?n" by (simp add: word_gt_0)
  then have n': "0 < unat ?n" by (simp add: word_less_nat_alt)
  obtain f where f: "pmm_inv p \<and> used_frame p 0" "unat a = f * 4096" "f + unat ?n \<le> PMM_MAX_FRAMES"
    "\<forall>j. f \<le> j \<and> j < f + unat ?n \<longrightarrow> \<not> used_frame (h_pmm s) j"
    "\<forall>j. used_frame p j \<longleftrightarrow> (f \<le> j \<and> j < f + unat ?n) \<or> used_frame (h_pmm s) j"
    using pmm.grant [OF pm n a] by blast
  have sz: "unat (b_size ?b) = unat ?n * 4096 - 32" using region_size [OF _ n] f(3) by simp
  then have rng: "b_lo ?b = f * 4096" "b_hi ?b = (f + unat ?n) * 4096"
    using f(2) n' by (simp_all add: b_lo_def b_hi_def)
  have fr: "f \<le> x div 4096 \<and> x div 4096 < f + unat ?n" if "b_lo ?b \<le> x" "x < b_hi ?b" for x
    using that unfolding rng by (simp add: less_eq_div_iff_mult_less_eq div_less_iff_less_mult)
  have "0 < f" using f(2) a(2) by (cases f) (auto simp: unat_eq_0)
  moreover have "16 dvd unat ?n * 4096 - 32" by (intro dvd_diff_nat) auto
  ultimately have bok: "blk_ok (used_frame p) ?b"
    unfolding blk_ok_def using f(3,5) fr rng sz by auto
  have old: "blk_ok (used_frame p) c" if "blk_ok (used_frame (h_pmm s)) c" for c
    using that f(5) by (auto simp: blk_ok_def)
  have ap: "apart c ?b" if "c \<in> set (h_blocks s)" for c
  proof (rule ccontr)
    assume "\<not> apart c ?b"
    then obtain x where "b_lo c \<le> x" "x < b_hi c" "b_lo ?b \<le> x" "x < b_hi ?b" using range_overlap by metis
    then show False using fr [of x] f(4) s that by (auto simp: heap_ok_def blk_ok_def)
  qed
  have "heap_ok t" unfolding heap_ok_def t using s f(1) bok old ap by (auto simp: heap_ok_def sorted_wrt_append used_sum_def)
  moreover have "free_count p < free_count (h_pmm s)" using pmm_alloc_frames_count [of "h_pmm s" ?n a p] pm a n' by simp
  moreover have "sz \<le> b_size ?b" if "unat sz \<le> 2 ^ 63"
    using region_frames_enough [OF that] f(3) sz by (simp add: word_le_nat_alt)
  ultimately show ?thesis unfolding t by (auto simp: live_def)
qed

lemma not_apart_self: "\<not> apart b b"
  using b_hi_gt [of b] by (simp add: apart_def)

lemma kmalloc_heap:
  "heap_ok s \<Longrightarrow> kmalloc f sz s = Some (p, t) \<Longrightarrow> heap_ok t
     \<and> (if p = 0 then live t = live s
        else \<exists>c. p = b_addr c + sizeof_block \<and> align16 (if sz = 0 then 1 else sz) \<le> b_size c
          \<and> live t = insert c (live s) \<and> (\<forall>d\<in>live s. apart c d))"
proof (induction f arbitrary: sz s)
  case (Suc f)
  let ?n = "align16 (if sz = 0 then 1 else sz)"
  show ?case
  proof (cases "take_block ?n (h_blocks s)")
    case (Some r)
    obtain q n k bs where r: "r = (q, n, k, bs)" by (metis prod_cases4)
    obtain c where c: "p = b_addr c + sizeof_block" "?n \<le> b_size c" "live t = insert c (live s)"
      "blk_ok (used_frame (h_pmm s)) c" "\<forall>d\<in>live s. apart c d" "heap_ok t"
      using take_block_heap [OF Suc.prems(1) align16_dvd Some [unfolded r]] Suc.prems(2) Some r by (auto simp: Let_def)
    then show ?thesis using blk_okD(3) [OF c(4)] by auto
  next
    case None
    show ?thesis
    proof (cases "region_alloc ?n s")
      case None
      then show ?thesis using Suc.prems \<open>take_block ?n (h_blocks s) = None\<close> by (auto simp: Let_def)
    next
      case (Some u)
      have u: "heap_ok u" "live u = live s" using region_alloc_heap [OF Suc.prems(1) Some] by auto
      have "kmalloc f ?n u = Some (p, t)" using Suc.prems(2) None Some by (simp add: Let_def)
      moreover have "?n = 0 \<longrightarrow> (1 :: u64) = 1" by simp
      moreover have "?n \<le> align16 (if ?n = 0 then 1 else ?n)" by (simp add: align16_idem)
      ultimately show ?thesis using Suc.IH [OF u(1), of ?n] u(2) by (auto split: if_splits intro: order.trans)
    qed
  qed
qed simp

text \<open>The recursion ends: every turn takes at least one frame.\<close>

lemma kmalloc_returns: "heap_ok s \<Longrightarrow> free_count (h_pmm s) < f \<Longrightarrow> \<exists>p t. kmalloc f sz s = Some (p, t)"
proof (induction f arbitrary: sz s)
  case (Suc f)
  let ?n = "align16 (if sz = 0 then 1 else sz)"
  show ?case
  proof (cases "take_block ?n (h_blocks s)")
    case None
    show ?thesis
    proof (cases "region_alloc ?n s")
      case (Some u)
      have "heap_ok u" "free_count (h_pmm u) < f" using region_alloc_heap [OF Suc.prems(1) Some] Suc.prems(2) by auto
      then show ?thesis using Suc.IH [of u ?n] None Some by (simp add: Let_def)
    qed (use None in \<open>simp add: Let_def\<close>)
  qed (auto simp: Let_def)
qed simp

text \<open>For sizes that do not wrap, one extension is enough: the new block fits.\<close>

lemma kmalloc_fails_only:
  assumes "heap_ok s" and "unat sz \<le> 2 ^ 62" and "kmalloc f sz s = Some (0, t)"
  defines "n \<equiv> align16 (if sz = 0 then 1 else sz)"
  shows "(\<forall>b\<in>set (h_blocks s). b_free b \<longrightarrow> b_size b < n) \<and> region_alloc n s = None"
proof -
  obtain g where g: "f = Suc g" using assms(3) by (cases f) auto
  have "take_block n (h_blocks s) = None"
  proof (rule ccontr)
    assume "take_block n (h_blocks s) \<noteq> None"
    then obtain q m k bs where r: "take_block n (h_blocks s) = Some (q, m, k, bs)" by (metis not_None_eq prod_cases4)
    then have "q = 0" using assms(3) g by (simp add: Let_def n_def)
    moreover have "heap_ok (s\<lparr>h_blocks := bs, h_used := h_used s + m, h_count := h_count s + k\<rparr>)
        \<and> (\<exists>c. q = b_addr c + sizeof_block \<and> blk_ok (used_frame (h_pmm s)) c)"
      using take_block_heap [OF assms(1) _ r] align16_dvd by (auto simp: n_def)
    ultimately show False using blk_okD(3) by metis
  qed
  note none = this
  have "region_alloc n s = None"
  proof (rule ccontr)
    assume "region_alloc n s \<noteq> None"
    then obtain u where u: "region_alloc n s = Some u" by auto
    have n63: "unat n \<le> 2 ^ 63" using align16_ge(2) [of "if sz = 0 then 1 else sz"] assms(2) by (auto simp: n_def split: if_splits)
    obtain b where b: "heap_ok u" "h_blocks u = h_blocks s @ [b]" "b_free b" "n \<le> b_size b"
      using region_alloc_heap [OF assms(1) u] n63 by auto
    let ?m = "if sz = 0 then 1 else sz"
    have "unat ?m \<noteq> 0" by (simp add: unat_eq_0)
    moreover have "unat ?m \<le> unat n" using align16_ge(1) [of ?m] assms(2) by (auto simp: n_def split: if_splits)
    ultimately have n0: "n \<noteq> 0" by auto
    have k: "kmalloc g n u = Some (0, t)" using assms(3) g none u by (simp add: Let_def n_def)
    then obtain h where h: "g = Suc h" by (cases g) auto
    obtain q m k' bs where r: "take_block n (h_blocks u) = Some (q, m, k', bs)"
      using take_block_none [of n "h_blocks u"] b by (metis not_None_eq prod_cases4 in_set_conv_decomp not_le)
    then have "q = 0" using k h n0 by (simp add: Let_def align16_idem n_def)
    then show False using take_block_heap [OF b(1) _ r] align16_dvd blk_okD(3) by (auto simp: n_def)
  qed
  then show ?thesis using none take_block_none by simp
qed

text \<open>A size just below the end of the address space wraps in the frame computation.\<close>

lemma kmalloc_drains:
  assumes "heap_ok s" and "kmalloc f 0xFFFFFFFFFFFFFFF0 s = Some (p, t)"
  shows "p = 0 \<and> free_count (h_pmm t) = 0"
  using assms
proof (induction f arbitrary: s)
  case (Suc f)
  have al: "align16 0xFFFFFFFFFFFFFFF0 = 0xFFFFFFFFFFFFFFF0" by (simp add: align16_def)
  have "b_size b < 0xFFFFFFFFFFFFFFF0" if "b \<in> set (h_blocks s)" for b
    using blk_okD(1) [of "used_frame (h_pmm s)" b] Suc.prems(1) that by (auto simp: heap_ok_def b_hi_def word_less_nat_alt)
  then have none: "take_block 0xFFFFFFFFFFFFFFF0 (h_blocks s) = None" by (simp add: take_block_none)
  show ?case
  proof (cases "region_alloc 0xFFFFFFFFFFFFFFF0 s")
    case None
    then have "fst (pmm_alloc_frames 1 (h_pmm s)) = 0"
      by (auto simp: region_alloc_def Let_def sizeof_block_def FRAME_SIZE_def split: prod.splits if_splits)
    then obtain q where q: "pmm_alloc_frames 1 (h_pmm s) = (0, q)" by (metis prod.collapse)
    have pm: "pmm_inv (h_pmm s)" "used_frame (h_pmm s) 0" using Suc.prems(1) by (auto simp: heap_ok_def)
    then have "\<forall>b. b + 1 \<le> unat (total_frames (h_pmm s)) \<longrightarrow> used_frame (h_pmm s) b"
      using pmm_alloc_frames_spec [OF pm _ q] by (auto simp: free_run_def)
    then have "{i. i < unat (total_frames (h_pmm s)) \<and> \<not> used_frame (h_pmm s) i} = {}" by (auto simp: Suc_le_eq)
    then have "free_count (h_pmm s) = 0" unfolding free_count_def by (metis card.empty)
    then show ?thesis using Suc.prems(2) None none by (simp add: Let_def al)
  next
    case (Some u)
    then show ?thesis using Suc.IH [of u] Suc.prems none region_alloc_heap [OF Suc.prems(1) Some] by (simp add: Let_def al)
  qed
qed simp


section \<open>Release\<close>

lemma find_block_Some:
  "find_block a bs = Some (pre, b, post) \<Longrightarrow> bs = pre @ b # post \<and> b_addr b = a"
  by (induction bs arbitrary: pre) (auto split: if_splits option.splits)

lemma find_block_None: "find_block a bs = None \<longleftrightarrow> a \<notin> b_addr ` set bs"
  by (induction bs) (auto split: option.splits)

definition good :: "(nat \<Rightarrow> bool) \<Rightarrow> blk list \<Rightarrow> bool" where
  "good used bs \<longleftrightarrow> (\<forall>b\<in>set bs. blk_ok used b) \<and> sorted_wrt apart bs"

lemma joins_range:
  assumes "blk_ok used a" and "blk_ok used b" and "adjacent a b"
  shows "b_lo b = b_hi a" and "b_lo (joins a b) = b_lo a" and "b_hi (joins a b) = b_hi b"
    and "unat (b_size (joins a b)) = unat (b_size a) + 32 + unat (b_size b)"
proof -
  have h: "unat (b_addr a) + 32 + unat (b_size a) \<le> 2 ^ 30" "unat (b_addr b) + 32 + unat (b_size b) \<le> 2 ^ 30"
    using blk_okD(1) assms(1,2) by (simp_all add: b_hi_def)
  have "unat (b_addr b) = unat (b_addr a) + 32 + unat (b_size a)"
    using assms(3) h by (simp add: adjacent_def sizeof_block_def unat_word_ariths)
  then show "b_lo b = b_hi a" by (simp add: b_lo_def b_hi_def)
  show sz: "unat (b_size (joins a b)) = unat (b_size a) + 32 + unat (b_size b)"
    using h by (simp add: joins_def sizeof_block_def unat_word_ariths)
  show "b_lo (joins a b) = b_lo a" by (simp add: joins_def b_lo_def)
  have "b_addr (joins a b) = b_addr a" by (simp add: joins_def)
  then show "b_hi (joins a b) = b_hi b"
    using sz \<open>unat (b_addr b) = unat (b_addr a) + 32 + unat (b_size a)\<close> by (simp add: b_hi_def)
qed

lemma joins_ok:
  assumes "blk_ok used a" and "blk_ok used b" and "adjacent a b"
  shows "blk_ok used (joins a b)" and "apart a x \<Longrightarrow> apart b x \<Longrightarrow> apart (joins a b) x"
proof -
  note r = joins_range [OF assms]
  have "used (x div 4096)" if "b_lo a \<le> x" "x < b_hi b" for x
    using assms that r(1) by (cases "x < b_hi a") (auto simp: blk_ok_def)
  moreover have "16 dvd unat (b_size (joins a b))" using assms(1,2) unfolding r(4) by (simp add: blk_ok_def)
  ultimately show "blk_ok used (joins a b)" using assms(1,2) r by (simp add: blk_ok_def)
  show "apart a x \<Longrightarrow> apart b x \<Longrightarrow> apart (joins a b) x"
    using r b_hi_gt [of x] by (auto simp: apart_def)
qed

lemma good_join:
  assumes "good used (xs @ a # b # ys)" and "adjacent a b"
  shows "good used (xs @ joins a b # ys)"
proof -
  have ok: "blk_ok used a" "blk_ok used b" using assms(1) by (auto simp: good_def)
  note j = joins_ok [OF ok assms(2)]
  have "apart x (joins a b)" if "x \<in> set xs" for x
    using assms(1) that j(2) [of x] by (auto simp: good_def sorted_wrt_append apart_sym)
  moreover have "apart (joins a b) y" if "y \<in> set ys" for y
    using assms(1) that j(2) [of y] by (auto simp: good_def sorted_wrt_append)
  ultimately show ?thesis using assms(1) j(1) by (auto simp: good_def sorted_wrt_append)
qed

definition live_of :: "blk list \<Rightarrow> blk set" where
  "live_of bs = {b \<in> set bs. \<not> b_free b}"

lemma merge_next_good:
  assumes "good used (pre @ b # post)" and "b_free b" and "merge_next b post = (m, rest)"
  shows "good used (pre @ rest) \<and> live_of rest = live_of post \<and> of_nat (length post) + 1 = (m :: u64) + of_nat (length rest)
    \<and> used_sum rest = used_sum post \<and> (\<exists>c ps. rest = c # ps \<and> b_free c \<and> b_addr c = b_addr b)"
proof (cases post)
  case Nil
  then show ?thesis using assms by (auto simp: merge_next_def live_of_def)
next
  case (Cons n ps)
  have j: "b_free (joins b n) = b_free b" "b_addr (joins b n) = b_addr b" by (simp_all add: joins_def)
  show ?thesis
  proof (cases "b_free n \<and> adjacent b n")
    case True
    then show ?thesis using assms Cons j good_join [of used pre b n ps] by (auto simp: merge_next_def live_of_def)
  next
    case False
    then show ?thesis using assms Cons by (auto simp: merge_next_def live_of_def)
  qed
qed

lemma merge_prev_good:
  assumes "good used (pre @ c # ps)" and "b_free c" and "merge_prev pre (c # ps) = (m, bs)"
  shows "good used bs \<and> live_of bs = live_of (pre @ c # ps) \<and> of_nat (length (pre @ c # ps)) = (m :: u64) + of_nat (length bs)
    \<and> used_sum bs = used_sum (pre @ c # ps)"
proof (cases "pre \<noteq> [] \<and> length pre \<le> 100000 \<and> b_free (last pre) \<and> adjacent (last pre) c")
  case True
  then obtain xs a where pre: "pre = xs @ [a]" "b_free a" "adjacent a c" by (metis append_butlast_last_id)
  have "b_free (joins a c)" using pre(2) by (simp add: joins_def)
  then show ?thesis using True assms pre good_join [of used xs a c ps] by (auto simp: merge_prev_def live_of_def)
next
  case False
  then show ?thesis using assms by (auto simp: merge_prev_def)
qed

lemma kfree_heap:
  assumes s: "heap_ok s" and b: "b \<in> live s"
  shows "\<exists>t. kfree (b_addr b + sizeof_block) s = Ok t \<and> heap_ok t \<and> live t = live s - {b} \<and> h_pmm t = h_pmm s"
proof -
  let ?used = "used_frame (h_pmm s)" and ?ptr = "b_addr b + sizeof_block"
  have ok: "blk_ok ?used b" "b \<in> set (h_blocks s)" "\<not> b_free b" using s b by (auto simp: heap_ok_def live_def)
  obtain pre c post where f: "find_block (b_addr b) (h_blocks s) = Some (pre, c, post)"
    using find_block_None [of "b_addr b" "h_blocks s"] ok(2) by (metis image_eqI not_None_eq prod_cases3)
  have dec: "h_blocks s = pre @ c # post" "b_addr c = b_addr b" using find_block_Some [OF f] by auto
  have gd: "good ?used (pre @ c # post)" using s dec(1) by (simp add: heap_ok_def good_def)
  have ap: "apart c x" if "x \<in> set pre \<union> set post" for x
    using gd that by (auto simp: good_def sorted_wrt_append apart_sym)
  have "\<not> apart c b" using dec(2) b_hi_gt [of c] b_hi_gt [of b] by (auto simp: apart_def b_lo_def)
  then have cb: "c = b" using ok(2) ap dec(1) by auto
  let ?c = "b\<lparr>b_free := True\<rparr>"
  obtain m rest where mn: "merge_next ?c post = (m, rest)" by (metis surj_pair)
  have eqs: "b_lo ?c = b_lo b" "b_hi ?c = b_hi b" by (simp_all add: b_lo_def b_hi_def)
  have gd': "good ?used (pre @ ?c # post)"
    using gd cb eqs by (auto simp: good_def sorted_wrt_append apart_def blk_ok_def)
  note n = merge_next_good [OF gd' _ mn, simplified]
  obtain d ps where d: "rest = d # ps" "b_free d" using n by auto
  obtain m' bs where mp: "merge_prev pre (d # ps) = (m', bs)" by (metis surj_pair)
  have "good ?used (pre @ d # ps)" using n d(1) by auto
  note p = merge_prev_good [OF this d(2) mp]
  let ?t = "s\<lparr>h_used := h_used s - b_size b, h_count := h_count s - m - m', h_blocks := bs\<rparr>"
  have "unat (b_size b) \<le> used_sum (h_blocks s)" using dec(1) cb ok(3) by simp
  moreover have sum: "used_sum (h_blocks s) = used_sum bs + unat (b_size b)" using p n d dec(1) cb ok(3) by simp
  ultimately have "heap_ok ?t"
    using s p n d(1) dec(1) cb unfolding heap_ok_def good_def
    by (simp add: algebra_simps)
  moreover have "live ?t = live s - {b}"
    using p n d dec(1) cb ok(3) ap not_apart_self by (auto simp: live_def live_of_def)
  moreover have "?ptr \<noteq> 0" "?ptr - sizeof_block = b_addr b" using blk_okD(3) [OF ok(1)] by auto
  moreover have "kfree ?ptr s = Ok ?t" using f cb ok(3) mn mp d(1) calculation(3,4) by (simp add: kfree_def)
  ultimately show ?thesis by (intro exI [of _ ?t]) simp
qed


section \<open>Properties\<close>

text \<open>
  C6 \<^verbatim>\<open>kmalloc\<close> hands out memory nobody else has: given fuel beyond the number of free frames
  it returns, the heap stays well formed, and a nonzero result is 16-aligned and the payload of a
  new live block of at least the requested size, inside frames the allocator holds and apart from
  every block that was live before; a zero result leaves the live blocks alone, and for sizes up to
  \<open>2 ^ 62\<close> it means that no free block is large enough and the frames for a new region are not there.
\<close>

theorem kmalloc_correct:
  assumes "heap_ok s" and "free_count (h_pmm s) < f" and "unat sz \<le> 2 ^ 62"
  shows "\<exists>p t. kmalloc f sz s = Some (p, t) \<and> heap_ok t
    \<and> (if p = 0
       then live t = live s \<and> (\<forall>b\<in>set (h_blocks s). b_free b \<longrightarrow> b_size b < align16 (if sz = 0 then 1 else sz))
         \<and> region_alloc (align16 (if sz = 0 then 1 else sz)) s = None
       else 16 dvd unat p \<and> (\<exists>b. p = b_addr b + sizeof_block \<and> unat sz \<le> unat (b_size b)
         \<and> live t = insert b (live s) \<and> (\<forall>d\<in>live s. apart b d)))"
proof -
  obtain p t where k: "kmalloc f sz s = Some (p, t)" using kmalloc_returns [OF assms(1,2)] by blast
  note h = kmalloc_heap [OF assms(1) k]
  have "16 dvd unat p" if "p = b_addr b + sizeof_block" "live t = insert b (live s)" for b
  proof -
    have b: "blk_ok (used_frame (h_pmm t)) b" using h that(2) by (auto simp: heap_ok_def live_def)
    then have "16 dvd b_lo b + 32" by (simp add: blk_ok_def)
    then show ?thesis unfolding that(1) blk_okD(2) [OF b] .
  qed
  moreover have "unat sz \<le> unat n" if "align16 (if sz = 0 then 1 else sz) \<le> n" for n
    using that align16_ge(1) [of sz] assms(3) by (cases "sz = 0") (auto simp: word_le_nat_alt)
  ultimately show ?thesis
    using h k kmalloc_fails_only [OF assms(1,3), of f t] by (cases "p = 0") auto
qed

definition empty_heap :: heap where
  "empty_heap = \<lparr>h_blocks = [], h_used = 0, h_count = 0, h_pmm = demo_pmm\<rparr>"

lemma empty_heap_ok: "heap_ok empty_heap"
  using demo_inv demo_used [of 0] by (simp add: heap_ok_def empty_heap_def)

lemma empty_heap_frames: "free_count (h_pmm empty_heap) = 2"
  using demo_inv by (simp add: pmm_inv_def empty_heap_def) (simp add: demo_pmm_def)

theorem kmalloc_correct_witness:
  "\<exists>p t. kmalloc 3 100 empty_heap = Some (p, t) \<and> heap_ok t"
  using kmalloc_correct [OF empty_heap_ok, of 3 100] empty_heap_frames by auto



text \<open>
  C35 A request of \<open>2 ^ 64 - 16\<close> bytes wraps in the frame computation: every turn of \<^verbatim>\<open>kmalloc\<close> takes
  one frame that is too small, until none is left; then it fails, with all physical memory taken.
\<close>

theorem kmalloc_huge_drains:
  assumes "heap_ok s" and "free_count (h_pmm s) < f"
  shows "\<exists>t. kmalloc f 0xFFFFFFFFFFFFFFF0 s = Some (0, t) \<and> free_count (h_pmm t) = 0 \<and> live t = live s"
proof -
  obtain p t where k: "kmalloc f 0xFFFFFFFFFFFFFFF0 s = Some (p, t)" using kmalloc_returns [OF assms] by blast
  then show ?thesis using kmalloc_drains [OF assms(1) k] kmalloc_heap [OF assms(1) k] by auto
qed

theorem kmalloc_huge_drains_witness:
  "free_count (h_pmm empty_heap) = 2
   \<and> (\<exists>t. kmalloc 3 0xFFFFFFFFFFFFFFF0 empty_heap = Some (0, t) \<and> free_count (h_pmm t) = 0)"
  using kmalloc_huge_drains [OF empty_heap_ok, of 3] empty_heap_frames by auto

end
