(* ===== verification/Format.thy ===== *)
theory Format
  imports Prelude
begin

unbundle bit_operations_syntax

text \<open>
  Formatted output, \<^verbatim>\<open>kernel/kern/format.c\<close>. A destination buffer is the list of characters written
  so far: the write index \<^verbatim>\<open>w\<close> is its length, and the terminating NUL is not part of it. Variadic
  arguments are a list; \<^verbatim>\<open>va_arg(ap, int)\<close> takes the low 32 bits of a word, and an argument of the
  wrong kind, or a missing one, is outside defined behaviour.
\<close>

section \<open>Integer helpers\<close>

function floor_log2_loop :: "u64 \<Rightarrow> u64 \<Rightarrow> u64" where
  "floor_log2_loop v r = (if v > 1 then floor_log2_loop (drop_bit 1 v) (r + 1) else r)"
  by pat_completeness auto
termination
proof (relation "measure (\<lambda>(v, r). unat v)", simp)
  fix v r :: u64
  assume "v > 1"
  then have "unat (v div 2) < unat v" by (simp add: unat_div word_less_nat_alt)
  then show "((drop_bit 1 v, r + 1), v, r) \<in> measure (\<lambda>(v, r). unat v)" by (simp add: drop_bit_eq_div)
qed

declare floor_log2_loop.simps [simp del]

definition floor_log2 :: "u64 \<Rightarrow> u64" where
  "floor_log2 v = floor_log2_loop v 0"

text \<open>The loop of \<^verbatim>\<open>upow\<close>: \<open>e\<close> turns left.\<close>

fun upow_loop :: "u64 \<Rightarrow> nat \<Rightarrow> u64 \<Rightarrow> u64" where
  "upow_loop base 0 r = r"
| "upow_loop base (Suc e) r =
     (if base \<noteq> 0 \<and> r > (-1) div base then -1 else upow_loop base e (r * base))"

definition upow :: "u64 \<Rightarrow> u64 \<Rightarrow> u64" where
  "upow base e = upow_loop base (unat e) 1"

section \<open>Digits\<close>

definition ldig :: string where "ldig = ''0123456789abcdef''"
definition udig :: string where "udig = ''0123456789ABCDEF''"

text \<open>Digits of \<open>v\<close>, lowest first, as the temporary array holds them. The array has room for every
  64-bit number (65 digits in base 2, 24 in base 10).\<close>

function digits_rev :: "string \<Rightarrow> u64 \<Rightarrow> u64 \<Rightarrow> string" where
  "digits_rev dig base v =
     (if v = 0 \<or> base < 2 then [] else dig ! unat (v mod base) # digits_rev dig base (v div base))"
  by pat_completeness auto
termination
proof (relation "measure (\<lambda>(dig, base, v). unat v)", simp)
  fix dig :: string and base v :: u64
  assume "\<not> (v = 0 \<or> base < 2)"
  then have "0 < unat v" "1 < unat base" by (auto simp: word_less_nat_alt unat_gt_0)
  then show "((dig, base, v div base), dig, base, v) \<in> measure (\<lambda>(dig, base, v). unat v)" by (simp add: unat_div)
qed

declare digits_rev.simps [simp del]

definition num_text :: "string \<Rightarrow> u64 \<Rightarrow> u64 \<Rightarrow> string" where
  "num_text dig base v = (if v = 0 then ''0'' else rev (digits_rev dig base v))"

text \<open>A base between 17 and 36 indexes past the digit table.\<close>

definition aformat :: "u64 \<Rightarrow> u64 \<Rightarrow> u64 \<Rightarrow> bool \<Rightarrow> string res" where
  "aformat n base0 v upper =
     (let base = (if base0 < 2 \<or> base0 > 36 then 10 else base0)
      in if base > 16 \<and> v \<noteq> 0 then Crash (OutOfBounds ''dig'')
         else Ok (take (unat n - 1) (num_text (if upper then udig else ldig) base v)))"

section \<open>Formatting\<close>

datatype varg = VWord u64 | VStr "string option"

text \<open>\<^verbatim>\<open>room cap w\<close> is the guard \<^verbatim>\<open>cap == 0 || w + 1 < cap\<close>.\<close>

definition room :: "nat \<Rightarrow> string \<Rightarrow> bool" where
  "room cap out \<longleftrightarrow> cap = 0 \<or> length out + 1 < cap"

definition put_char :: "nat \<Rightarrow> char \<Rightarrow> string \<Rightarrow> string" where
  "put_char cap c out = (if room cap out then out @ [c] else out)"

definition put_text :: "nat \<Rightarrow> string \<Rightarrow> string \<Rightarrow> string" where
  "put_text cap s out = fold (put_char cap) s out"

definition arg_word :: "varg list \<Rightarrow> (u64 \<Rightarrow> varg list \<Rightarrow> 'a res) \<Rightarrow> 'a res" where
  "arg_word as k = (case as of VWord v # as \<Rightarrow> k v as | _ \<Rightarrow> Crash (OutOfBounds ''va_arg''))"

definition arg_str :: "varg list \<Rightarrow> (string option \<Rightarrow> varg list \<Rightarrow> 'a res) \<Rightarrow> 'a res" where
  "arg_str as k = (case as of VStr s # as \<Rightarrow> k s as | _ \<Rightarrow> Crash (OutOfBounds ''va_arg''))"

definition signed_arg :: "nat \<Rightarrow> u64 \<Rightarrow> u64" where
  "signed_arg len v = (if len = 2 then v else scast (ucast v :: u32))"

definition unsigned_arg :: "nat \<Rightarrow> u64 \<Rightarrow> u64" where
  "unsigned_arg len v = (if len = 2 then v else ucast (ucast v :: u32))"

definition put_signed :: "nat \<Rightarrow> u64 \<Rightarrow> string \<Rightarrow> string" where
  "put_signed cap v out =
     (let neg = (sint v < 0); u = (if neg then - v else v)
      in put_text cap (num_text ldig 10 u) (if neg then put_char cap CHR ''-'' out else out))"

text \<open>\<^verbatim>\<open>aformat(buf + w, cap > w ? cap - w : 0, 16, v, false)\<close>: with \<^verbatim>\<open>cap == 0\<close> it writes nothing.\<close>

definition put_hex :: "nat \<Rightarrow> u64 \<Rightarrow> string \<Rightarrow> string res" where
  "put_hex cap v out =
     bind_res (aformat (of_nat (cap - length out)) 16 v False) (\<lambda>s. Ok (out @ s))"

text \<open>One conversion: the length modifier and the character after it, the arguments and the text so
  far; the result is the new text and the arguments left.\<close>

definition convert :: "nat \<Rightarrow> nat \<Rightarrow> char \<Rightarrow> varg list \<Rightarrow> string \<Rightarrow> (string \<times> varg list) res" where
  "convert cap len c as out =
     (if c = CHR ''%'' then Ok (out @ ''%'', as)
      else if c = CHR ''c'' then arg_word as (\<lambda>v as. Ok (out @ [char_of (unat (take_bit 8 v))], as))
      else if c = CHR ''s'' then
        arg_str as (\<lambda>s as. Ok (put_text cap (case s of None \<Rightarrow> ''(null)'' | Some s \<Rightarrow> s) out, as))
      else if c = CHR ''d'' then arg_word as (\<lambda>v as. Ok (put_signed cap (signed_arg len v) out, as))
      else if c = CHR ''u'' then
        arg_word as (\<lambda>v as. Ok (put_text cap (num_text ldig 10 (unsigned_arg len v)) out, as))
      else if c = CHR ''x'' then
        arg_word as (\<lambda>v as. map_res (\<lambda>o'. (o', as)) (put_hex cap (unsigned_arg len v) out))
      else if c = CHR ''p'' then
        arg_word as (\<lambda>v as. map_res (\<lambda>o'. (o', as)) (put_hex cap v (put_char cap CHR ''x'' (out @ ''0''))))
      else Ok (put_char cap c (out @ ''%''), as))"

text \<open>The length modifier: \<^verbatim>\<open>l\<close> or \<^verbatim>\<open>ll\<close>.\<close>

definition modifier :: "string \<Rightarrow> nat \<times> string" where
  "modifier fmt =
     (if take 2 fmt = ''ll'' then (2, drop 2 fmt) else if take 1 fmt = ''l'' then (1, drop 1 fmt) else (0, fmt))"

lemma modifier_shorter: "modifier fmt = (len, d # rest) \<Longrightarrow> length rest < length fmt"
  by (auto simp: modifier_def split: if_splits dest!: arg_cong [where f = length])

function vsprintk_loop :: "nat \<Rightarrow> string \<Rightarrow> varg list \<Rightarrow> string \<Rightarrow> string res" where
  "vsprintk_loop cap fmt as out =
     (case fmt of
        [] \<Rightarrow> Ok out
      | c # rest \<Rightarrow>
          if \<not> room cap out then Ok out
          else if c \<noteq> CHR ''%'' then vsprintk_loop cap rest as (out @ [c])
          else (case modifier rest of
                  (len, []) \<Rightarrow> Ok out
                | (len, d # rest') \<Rightarrow>
                    bind_res (convert cap len d as out) (\<lambda>(out, as). vsprintk_loop cap rest' as out)))"
  by pat_completeness auto
termination
  by (relation "measure (\<lambda>(cap, fmt, as, out). length fmt)") (auto dest!: modifier_shorter [OF sym] intro: less_SucI)

declare vsprintk_loop.simps [simp del]

definition sprintk :: "u64 \<Rightarrow> string \<Rightarrow> varg list \<Rightarrow> string res" where
  "sprintk cap fmt as = vsprintk_loop (unat cap) fmt as []"

section \<open>Integer helpers are exact\<close>

lemma unat_half: "unat (drop_bit 1 (v :: u64)) = unat v div 2"
  by (simp add: drop_bit_eq_div unat_div)

lemma floor_log2_loop_spec:
  "v \<noteq> 0 \<Longrightarrow> \<exists>k. floor_log2_loop v r = r + of_nat k \<and> 2 ^ k \<le> unat v \<and> unat v < 2 ^ Suc k"
proof (induction v r rule: floor_log2_loop.induct)
  case (1 v r)
  have pos: "0 < unat v" using "1.prems" by (simp add: unat_gt_0)
  show ?case
  proof (cases "v > 1")
    case False
    then have "unat v = 1" using pos by (simp add: word_less_nat_alt)
    then show ?thesis using False by (subst floor_log2_loop.simps) (auto intro!: exI [of _ 0])
  next
    case True
    then have gt: "1 < unat v" by (simp add: word_less_nat_alt)
    then have "0 < unat (drop_bit 1 v)" unfolding unat_half by simp
    then have "drop_bit 1 v \<noteq> 0" by (simp add: unat_gt_0)
    from "1.IH" [OF True this] obtain k where k: "floor_log2_loop (drop_bit 1 v) (r + 1) = r + 1 + of_nat k"
      "2 ^ k \<le> unat v div 2" "unat v div 2 < 2 ^ Suc k" unfolding unat_half by blast
    then have "floor_log2_loop v r = r + of_nat (Suc k)" using True by (subst floor_log2_loop.simps) simp
    moreover have "2 ^ Suc k \<le> unat v" "unat v < 2 ^ Suc (Suc k)" using k(2,3) by auto
    ultimately show ?thesis by blast
  qed
qed

lemma floor_log2_spec:
  assumes "v \<noteq> 0"
  shows "2 ^ unat (floor_log2 v) \<le> unat v \<and> unat v < 2 ^ Suc (unat (floor_log2 v))"
proof -
  obtain k where k: "floor_log2 v = of_nat k" "2 ^ k \<le> unat v" "unat v < 2 ^ Suc k"
    using floor_log2_loop_spec [OF assms, of 0] unfolding floor_log2_def by auto
  have "(2 :: nat) ^ k < 2 ^ 64" using k(2) unat_less_2p64 [of v] by simp
  then have "k < 64" using power_less_imp_less_exp [of "2 :: nat" k 64] by simp
  then have "unat (of_nat k :: u64) = k" by (simp add: unsigned_of_nat take_bit_nat_eq_self)
  with k show ?thesis by simp
qed

lemma word_max_nat: "unat (- 1 :: u64) = 2 ^ 64 - 1"
  by (simp add: unsigned_minus_1_eq_mask mask_eq_exp_minus_1)

text \<open>The overflow test of the loop is exact: \<^verbatim>\<open>r > MAX / base\<close> says that the product does not fit.\<close>

lemma upow_guard:
  assumes "base \<noteq> 0"
  shows "r > (- 1 :: u64) div base \<longleftrightarrow> 2 ^ 64 \<le> unat r * unat base"
proof -
  have b: "0 < unat base" using assms by (simp add: unat_gt_0)
  have "r > (- 1) div base \<longleftrightarrow> (2 ^ 64 - 1) div unat base < unat r"
    by (simp add: word_less_nat_alt unat_div word_max_nat)
  also have "\<dots> \<longleftrightarrow> 2 ^ 64 - 1 < unat r * unat base"
    using b by (simp add: div_less_iff_less_mult)
  also have "\<dots> \<longleftrightarrow> 2 ^ 64 \<le> unat r * unat base" by auto
  finally show ?thesis .
qed

lemma unat_mult_fits: "unat r * unat b < 2 ^ 64 \<Longrightarrow> unat (r * b :: u64) = unat r * unat b"
  by (simp add: unat_word_ariths)

lemma power_keeps_overflow:
  fixes M r b :: nat
  assumes "M \<le> r * b" and "0 < b"
  shows "M \<le> r * b ^ Suc e"
proof -
  have "r * b * 1 \<le> r * b * b ^ e" using assms(2) by (intro mult_le_mono2) simp
  with assms(1) show ?thesis by (metis mult.assoc mult_1_right order_trans power_Suc)
qed

lemma upow_loop_spec:
  "unat (upow_loop base e r) = (if r = 0 \<or> base = 0 \<and> 0 < e then 0 else min (2 ^ 64 - 1) (unat r * unat base ^ e))"
proof (induction e arbitrary: r)
  case 0
  then show ?case using unat_less_2p64 [of r] by simp
next
  case (Suc e)
  show ?case
  proof (cases "base = 0 \<or> r = 0")
    case True
    have z: "upow_loop b e 0 = 0" for b e by (induction e) auto
    show ?thesis using True by (auto simp: z)
  next
    case False
    then have pos: "0 < unat base" "0 < unat r" by (simp_all add: unat_gt_0)
    show ?thesis
    proof (cases "2 ^ 64 \<le> unat r * unat base")
      case True
      have "2 ^ 64 \<le> unat r * unat base ^ Suc e" by (rule power_keeps_overflow [OF True pos(1)])
      then have "min (2 ^ 64 - 1) (unat r * unat base ^ Suc e) = 2 ^ 64 - 1"
        by (intro min_absorb1 order_trans [OF diff_le_self])
      moreover have "upow_loop base (Suc e) r = - 1"
        using False True upow_guard [of base r] by (simp only: upow_loop.simps) simp
      ultimately show ?thesis using False word_max_nat by metis
    next
      case fits: False
      then have m: "unat (r * base) = unat r * unat base" by (intro unat_mult_fits) simp
      then have "r * base \<noteq> 0" using pos by (metis mult_pos_pos unat_0 less_irrefl)
      moreover have "upow_loop base (Suc e) r = upow_loop base e (r * base)"
        using False fits upow_guard [of base r] by (simp only: upow_loop.simps) simp
      moreover have "unat (r * base) * unat base ^ e = unat r * unat base ^ Suc e" by (simp add: m)
      ultimately show ?thesis using False Suc.IH [of "r * base"] by metis
    qed
  qed
qed

lemma upow_spec: "unat (upow base e) = min (2 ^ 64 - 1) (unat base ^ unat e)"
  unfolding upow_def upow_loop_spec
  by (cases "base = 0"; cases "unat e") (simp_all add: unat_gt_0)

section \<open>Digits\<close>

definition char_digit :: "char \<Rightarrow> nat" where
  "char_digit c = (let n = of_char c in if n < 58 then n - 48 else if n < 71 then n - 55 else n - 87)"

definition text_val :: "nat \<Rightarrow> string \<Rightarrow> nat" where
  "text_val b s = foldl (\<lambda>a c. a * b + char_digit c) 0 s"

lemma text_val_snoc [simp]: "text_val b (s @ [c]) = text_val b s * b + char_digit c"
  by (simp add: text_val_def)

lemma char_digit_ldig: "i < 16 \<Longrightarrow> char_digit (ldig ! i) = i"
  unfolding less_eq_Suc_le by (simp add: eval_nat_numeral le_Suc_eq) (auto simp: ldig_def char_digit_def)

lemma char_digit_udig: "i < 16 \<Longrightarrow> char_digit (udig ! i) = i"
  unfolding less_eq_Suc_le by (simp add: eval_nat_numeral le_Suc_eq) (auto simp: udig_def char_digit_def)

lemma digits_value:
  assumes "\<And>i. i < 16 \<Longrightarrow> char_digit (dig ! i) = i" and "2 \<le> base" and "base \<le> 16"
  shows "text_val (unat base) (rev (digits_rev dig base v)) = unat v"
proof (induction dig\<equiv>dig base\<equiv>base v rule: digits_rev.induct)
  case (1 v)
  have b: "2 \<le> unat base" "unat base \<le> 16" using assms(2,3) by (simp_all add: word_le_nat_alt)
  show ?case
  proof (cases "v = 0 \<or> base < 2")
    case True
    then have "v = 0" using assms(2) by auto
    then show ?thesis by (simp add: digits_rev.simps text_val_def)
  next
    case False
    have "unat v mod unat base < 16" using b mod_less_divisor [of "unat base" "unat v"] by linarith
    then have "char_digit (dig ! unat (v mod base)) = unat v mod unat base" by (simp add: unat_mod assms(1))
    moreover have "text_val (unat base) (rev (digits_rev dig base (v div base))) = unat v div unat base"
      using 1 [OF False] by (simp add: unat_div)
    ultimately show ?thesis using False by (subst digits_rev.simps) simp
  qed
qed

lemma num_text_value:
  assumes "dig = ldig \<or> dig = udig" and "2 \<le> base" and "base \<le> 16"
  shows "text_val (unat base) (num_text dig base v) = unat v"
proof -
  have "text_val (unat base) (rev (digits_rev dig base v)) = unat v"
    using assms char_digit_ldig char_digit_udig by (intro digits_value) auto
  then show ?thesis by (simp add: num_text_def text_val_def char_digit_def)
qed

lemma digits_length: "unat v < unat base ^ n \<Longrightarrow> length (digits_rev dig base v) \<le> n"
proof (induction n arbitrary: v)
  case 0
  then have "v = 0" by (simp add: unat_eq_zero)
  then show ?case by (simp add: digits_rev.simps)
next
  case (Suc n)
  have "unat (v div base) < unat base ^ n"
    using Suc.prems by (simp add: unat_div less_mult_imp_div_less mult.commute)
  from Suc.IH [OF this] show ?case by (subst digits_rev.simps) simp
qed

lemma num_text_length: "unat v < unat base ^ n \<Longrightarrow> 0 < n \<Longrightarrow> length (num_text dig base v) \<le> n"
  using digits_length [of v base n dig] by (auto simp: num_text_def)

lemma num_text_dec_length: "length (num_text dig 10 v) \<le> 20"
  by (rule num_text_length) (use unat_less_2p64 [of v] in auto)

lemma num_text_hex_length: "length (num_text dig 16 v) \<le> 16"
  by (rule num_text_length) (use unat_less_2p64 [of v] in auto)

section \<open>Truncation\<close>

lemma put_text_eq: "put_text cap s out = out @ (if cap = 0 then s else take (cap - 1 - length out) s)"
proof (induction s arbitrary: out)
  case Nil
  then show ?case by (simp add: put_text_def)
next
  case (Cons c s)
  have "put_text cap (c # s) out = put_text cap s (put_char cap c out)" by (simp add: put_text_def)
  also have "\<dots> = out @ (if cap = 0 then c # s else take (cap - 1 - length out) (c # s))"
    unfolding Cons.IH by (cases "cap - 1 - length out") (auto simp: put_char_def room_def Suc_diff_Suc [symmetric])
  finally show ?case .
qed

lemma put_char_eq: "put_char cap c out = out @ (if cap = 0 then [c] else take (cap - 1 - length out) [c])"
  by (cases "cap - 1 - length out") (auto simp: put_char_def room_def)

lemma put_hex_eq:
  assumes "cap < 2 ^ 64"
  shows "put_hex cap v out = Ok (out @ take (cap - length out - 1) (num_text ldig 16 v))"
proof -
  have "unat (of_nat (cap - length out) :: u64) = cap - length out"
    using assms by (simp add: unsigned_of_nat take_bit_nat_eq_self)
  then show ?thesis by (simp add: put_hex_def aformat_def)
qed

text \<open>What one conversion writes when nothing is cut off, and the arguments it leaves.\<close>

definition conv_text :: "nat \<Rightarrow> char \<Rightarrow> varg list \<Rightarrow> (string \<times> varg list) res" where
  "conv_text len c as =
     (if c = CHR ''%'' then Ok (''%'', as)
      else if c = CHR ''c'' then arg_word as (\<lambda>v as. Ok ([char_of (unat (take_bit 8 v))], as))
      else if c = CHR ''s'' then arg_str as (\<lambda>s as. Ok (case s of None \<Rightarrow> ''(null)'' | Some s \<Rightarrow> s, as))
      else if c = CHR ''d'' then
        arg_word as (\<lambda>v as. let n = signed_arg len v in
          Ok (if sint n < 0 then CHR ''-'' # num_text ldig 10 (- n) else num_text ldig 10 n, as))
      else if c = CHR ''u'' then arg_word as (\<lambda>v as. Ok (num_text ldig 10 (unsigned_arg len v), as))
      else if c = CHR ''x'' then arg_word as (\<lambda>v as. Ok (num_text ldig 16 (unsigned_arg len v), as))
      else if c = CHR ''p'' then arg_word as (\<lambda>v as. Ok (''0x'' @ num_text ldig 16 v, as))
      else Ok ([CHR ''%'', c], as))"

function full_text :: "string \<Rightarrow> varg list \<Rightarrow> string res" where
  "full_text fmt as =
     (case fmt of
        [] \<Rightarrow> Ok []
      | c # rest \<Rightarrow>
          if c \<noteq> CHR ''%'' then map_res ((#) c) (full_text rest as)
          else (case modifier rest of
                  (len, []) \<Rightarrow> Ok []
                | (len, d # rest') \<Rightarrow>
                    bind_res (conv_text len d as) (\<lambda>(t, as). map_res ((@) t) (full_text rest' as))))"
  by pat_completeness auto
termination
  by (relation "measure (\<lambda>(fmt, as). length fmt)") (auto dest!: modifier_shorter [OF sym] intro: less_SucI)

declare full_text.simps [simp del]

lemma put_signed_eq:
  "put_signed cap n out =
     put_text cap (if sint n < 0 then CHR ''-'' # num_text ldig 10 (- n) else num_text ldig 10 n) out"
  by (simp add: put_signed_def put_text_def Let_def)

lemma convert_eq:
  assumes "0 < cap" and "cap < 2 ^ 64" and "room cap out"
  shows "convert cap len c as out =
    bind_res (conv_text len c as) (\<lambda>(t, as). Ok (out @ take (cap - 1 - length out) t, as))"
proof -
  obtain n where n: "cap - 1 - length out = Suc n" "cap - Suc (length out) = Suc n"
    using assms(1,3) by (cases "cap - 1 - length out") (auto simp: room_def)
  then have n': "cap - Suc (Suc (length out)) = n" by simp
  show ?thesis
    unfolding convert_def conv_text_def put_hex_eq [OF assms(2)] put_signed_eq
    using assms(1) n n'
    by (cases "cap - Suc (Suc (length out))")
      (auto simp: put_text_eq put_char_eq arg_word_def arg_str_def Let_def Suc_diff_Suc split: list.splits varg.splits)
qed

lemma vsprintk_loop_full:
  assumes "0 < cap" and "cap < 2 ^ 64"
  shows "full_text fmt as = Ok t \<Longrightarrow> length out < cap \<Longrightarrow>
    vsprintk_loop cap fmt as out = Ok (take (cap - 1) (out @ t))"
proof (induction fmt as arbitrary: out t rule: full_text.induct)
  case (1 fmt as)
  note full = "1.prems"(1) and len = "1.prems"(2)
  show ?case
  proof (cases fmt)
    case Nil
    then show ?thesis using full len by (auto simp: full_text.simps vsprintk_loop.simps)
  next
    case (Cons c rest)
    show ?thesis
    proof (cases "room cap out")
      case False
      then have "length out = cap - 1" using len assms(1) by (simp add: room_def)
      then show ?thesis using False Cons by (subst vsprintk_loop.simps) simp
    next
      case True
      then have sp: "length out < cap - 1" using assms(1) by (simp add: room_def)
      show ?thesis
      proof (cases "c = CHR ''%''")
        case False
        obtain t' where t': "full_text rest as = Ok t'" "t = c # t'"
          using full False Cons by (subst (asm) full_text.simps) (cases "full_text rest as", auto)
        have "vsprintk_loop cap rest as (out @ [c]) = Ok (take (cap - 1) ((out @ [c]) @ t'))"
          by (rule "1.IH"(1) [OF Cons False t'(1)]) (use sp in simp)
        then show ?thesis using False True Cons t' by (subst vsprintk_loop.simps) simp
      next
        case pct: True
        obtain len spec where m: "modifier rest = (len, spec)" by fastforce
        show ?thesis
        proof (cases spec)
          case Nil
          then show ?thesis using full pct m Cons True sp
            by (subst vsprintk_loop.simps) (auto simp: full_text.simps)
        next
          case spec: (Cons d rest')
          obtain u as' t' where u: "conv_text len d as = Ok (u, as')" "full_text rest' as' = Ok t'" "t = u @ t'"
            using full pct m Cons spec
            by (subst (asm) full_text.simps)
               (cases "conv_text len d as", auto, case_tac "full_text rest' b", auto)
          let ?out = "out @ take (cap - 1 - length out) u"
          have "vsprintk_loop cap rest' as' ?out = Ok (take (cap - 1) (?out @ t'))"
            by (rule "1.IH"(2) [OF Cons _ m [symmetric] spec u(1) refl u(2)]) (use pct sp in auto)
          moreover have "take (cap - 1) (?out @ t') = take (cap - 1) (out @ t)"
            using sp u(3) by (simp add: min_def)
          ultimately show ?thesis using True pct m Cons spec u convert_eq [OF assms True, of len d as]
            by (subst vsprintk_loop.simps) simp
        qed
      qed
    qed
  qed
qed

lemma sprintk_full:
  assumes "0 < cap" and "full_text fmt as = Ok t"
  shows "sprintk cap fmt as = Ok (take (unat cap - 1) t)"
proof -
  have "0 < unat cap" using assms(1) by (simp add: unat_gt_0)
  then show ?thesis using vsprintk_loop_full [of "unat cap" fmt as t "[]"] assms(2) unat_less_2p64 [of cap]
    by (simp add: sprintk_def)
qed

definition within :: "nat \<Rightarrow> string res \<Rightarrow> bool" where
  "within cap r = (case r of Ok out \<Rightarrow> length out < cap | Err e \<Rightarrow> False | Crash c \<Rightarrow> c = OutOfBounds ''va_arg'')"

lemma conv_text_missing_arg: "conv_text len c as = Crash e \<Longrightarrow> e = OutOfBounds ''va_arg''"
  by (auto simp: conv_text_def arg_word_def arg_str_def Let_def split: if_splits list.splits varg.splits)

lemma conv_text_no_Err: "conv_text len c as \<noteq> Err e"
  by (auto simp: conv_text_def arg_word_def arg_str_def Let_def split: if_splits list.splits varg.splits)

lemma vsprintk_loop_within:
  "0 < cap \<Longrightarrow> cap < 2 ^ 64 \<Longrightarrow> length out < cap \<Longrightarrow> within cap (vsprintk_loop cap fmt as out)"
proof (induction cap fmt as out rule: vsprintk_loop.induct)
  case (1 cap fmt as out)
  show ?case
  proof (cases "fmt = [] \<or> \<not> room cap out")
    case True
    then show ?thesis using "1.prems" by (subst vsprintk_loop.simps) (auto simp: within_def split: list.splits)
  next
    case False
    then obtain c rest where f: "fmt = c # rest" and r: "room cap out" by (cases fmt) auto
    then have sp: "length out < cap - 1" using "1.prems"(1) by (simp add: room_def)
    obtain len spec where m: "modifier rest = (len, spec)" by fastforce
    have rr: "\<not> \<not> room cap out" using r by simp
    consider "c \<noteq> CHR ''%''" | "c = CHR ''%''" "spec = []" | d rest' where "c = CHR ''%''" "spec = d # rest'"
      by (cases spec) auto
    then show ?thesis
    proof cases
      case 1
      have "within cap (vsprintk_loop cap rest as (out @ [c]))"
        by (rule "1.IH"(1) [OF f rr 1 "1.prems"(1,2)]) (use sp in simp)
      then show ?thesis using 1 f r by (subst vsprintk_loop.simps) simp
    next
      case 2
      then show ?thesis using "1.prems" f r m by (subst vsprintk_loop.simps) (simp add: within_def)
    next
      case 3
      note conv = convert_eq [OF "1.prems"(1,2) r, of len d as]
      show ?thesis
      proof (cases "conv_text len d as")
        case (Ok x)
        obtain u as' where x: "x = (u, as')" by fastforce
        let ?out = "out @ take (cap - 1 - length out) u"
        have "within cap (vsprintk_loop cap rest' as' ?out)"
          by (rule "1.IH"(2) [OF f rr _ m [symmetric] 3(2) _ refl "1.prems"(1,2)]) (use 3 conv Ok x sp in auto)
        then show ?thesis using 3 f r m conv Ok x by (subst vsprintk_loop.simps) simp
      next
        case (Err e)
        then show ?thesis using conv_text_no_Err by blast
      next
        case (Crash e)
        then show ?thesis using 3 f r m conv conv_text_missing_arg [OF Crash]
          by (subst vsprintk_loop.simps) (simp add: within_def)
      qed
    qed
  qed
qed

section \<open>Numbers\<close>

definition int_text :: "string \<Rightarrow> int" where
  "int_text s = (if take 1 s = ''-'' then - int (text_val 10 (drop 1 s)) else int (text_val 10 s))"

lemma digits_set: "base \<le> 16 \<Longrightarrow> length dig = 16 \<Longrightarrow> set (digits_rev dig base v) \<subseteq> set dig"
proof (induction dig base v rule: digits_rev.induct)
  case (1 dig base v)
  show ?case
  proof (cases "v = 0 \<or> base < 2")
    case True
    then show ?thesis by (simp add: digits_rev.simps)
  next
    case False
    have "unat (v mod base) < unat base" using False by (simp add: unat_mod word_less_nat_alt)
    also have "\<dots> \<le> 16" using "1.prems"(1) by (simp add: word_le_nat_alt)
    finally have "dig ! unat (v mod base) \<in> set dig" using "1.prems"(2) by simp
    then show ?thesis using 1 False by (subst digits_rev.simps) simp
  qed
qed

lemma num_text_unsigned: "take 1 (num_text ldig 10 v) \<noteq> ''-''"
proof
  assume "take 1 (num_text ldig 10 v) = ''-''"
  then have "CHR ''-'' \<in> set (num_text ldig 10 v)" by (cases "num_text ldig 10 v") auto
  then have "CHR ''-'' \<in> insert CHR ''0'' (set ldig)"
    using digits_set [of 10 ldig v] by (auto simp: num_text_def ldig_def split: if_splits)
  then show False by (simp add: ldig_def)
qed

lemma int_text_num: "int_text (num_text ldig 10 v) = uint v"
  using num_text_unsigned [of v] num_text_value [of ldig 10 v] by (simp add: int_text_def)

lemma sint_cases: "sint (n :: u64) = uint n - 2 ^ 64 * of_bool (bit n 63)"
proof -
  have "sint n = signed_take_bit 63 (uint n)" using sint_uint [of n] by simp
  also have "\<dots> = take_bit 64 (uint n) - 2 ^ 64 * of_bool (bit (uint n) 63)"
    by (simp add: signed_take_bit_eq_take_bit_minus)
  also have "take_bit 64 (uint n) = uint n" using uint_bounded [of n] by (simp add: take_bit_int_eq_self_iff)
  finally show ?thesis by (simp add: bit_uint_iff)
qed

lemma sint_neg_magnitude:
  assumes "sint (n :: u64) < 0"
  shows "uint (- n) = - sint n"
proof -
  have s: "sint n = uint n - 2 ^ 64" using assms sint_cases [of n] by (cases "bit n 63") auto
  have "n \<noteq> 0" using assms by auto
  then have "uint n \<noteq> 0" by (simp add: word_uint_eq_iff)
  then have "0 < uint n" using uint_ge_0 [of n] by linarith
  moreover have "uint n < 2 ^ 64" using uint_bounded [of n] by simp
  ultimately have "(2 ^ 64 - uint n) mod 2 ^ 64 = 2 ^ 64 - uint n" by (intro mod_pos_pos_trivial) simp_all
  moreover have "uint (- n) = (- uint n) mod 2 ^ 64" by (simp add: uint_word_ariths)
  moreover have "(2 ^ 64 - uint n) mod 2 ^ 64 = (- uint n) mod 2 ^ 64"
    using mod_add_self1 [of "2 ^ 64 :: int" "- uint n"] by (simp only: diff_conv_add_uminus)
  ultimately show ?thesis using s by linarith
qed

lemma int_text_signed:
  "int_text (if sint n < 0 then CHR ''-'' # num_text ldig 10 (- n) else num_text ldig 10 n) = sint n"
proof (cases "sint n < 0")
  case True
  then show ?thesis using num_text_value [of ldig 10 "- n"] sint_neg_magnitude [OF True] by (simp add: int_text_def)
next
  case False
  then have "sint n = uint n" using sint_cases [of n] uint_bounded [of n] by (cases "bit n 63") auto
  then show ?thesis using False int_text_num [of n] by simp
qed

lemma full_text_d:
  assumes "fmt = ''%d'' \<and> l = 0 \<or> fmt = ''%ld'' \<and> l = 1 \<or> fmt = ''%lld'' \<and> l = 2" and "n = signed_arg l v"
  shows "full_text fmt [VWord v] =
    Ok (if sint n < 0 then CHR ''-'' # num_text ldig 10 (- n) else num_text ldig 10 n)"
proof -
  have "full_text [] [] = Ok []" by (simp add: full_text.simps)
  then show ?thesis using assms
    by (elim disjE conjE; subst full_text.simps)
       (simp_all add: modifier_def conv_text_def arg_word_def Let_def)
qed

lemma signed_arg_int: "sint (signed_arg 0 v) = sint (ucast v :: u32)"
proof -
  have "sint (scast x :: u64) = sint x" for x :: u32
    by (simp add: signed_scast_eq sint_uint [of x] signed_take_bit_signed_take_bit)
  then show ?thesis by (simp add: signed_arg_def)
qed

lemma sprintk_d:
  assumes "22 \<le> cap" and "fmt = ''%d'' \<and> l = 0 \<or> fmt = ''%ld'' \<and> l = 1 \<or> fmt = ''%lld'' \<and> l = 2"
  shows "\<exists>t. sprintk cap fmt [VWord v] = Ok t \<and> int_text t = sint (signed_arg l v)"
proof -
  let ?n = "signed_arg l v"
  let ?t = "if sint ?n < 0 then CHR ''-'' # num_text ldig 10 (- ?n) else num_text ldig 10 ?n"
  have c: "22 \<le> unat cap" using assms(1) by (simp add: word_le_nat_alt)
  then have pos: "0 < cap" by (metis unat_gt_0 word_gt_0 not_numeral_le_zero unat_0)
  have "length ?t \<le> 21" using num_text_dec_length [of ldig "- ?n"] num_text_dec_length [of ldig ?n] by simp
  then have whole: "take (unat cap - 1) ?t = ?t" using c by (intro take_all) linarith
  have "sprintk cap fmt [VWord v] = Ok (take (unat cap - 1) ?t)"
    by (rule sprintk_full [OF pos full_text_d [OF assms(2) refl]])
  then have "sprintk cap fmt [VWord v] = Ok ?t" unfolding whole .
  then show ?thesis using int_text_signed [of ?n] by blast
qed

lemma aformat_whole:
  assumes "2 \<le> base" and "base \<le> 16" and "65 \<le> unat n"
  shows "aformat n base v upper = Ok (num_text (if upper then udig else ldig) base v)"
proof -
  have "(2 :: nat) ^ 64 \<le> unat base ^ 64" using assms(1) by (intro power_mono) (simp_all add: word_le_nat_alt)
  then have l: "length (num_text dig base v) \<le> 64" for dig
    using unat_less_2p64 [of v] by (intro num_text_length) simp_all
  have "take (unat n - 1) (num_text dig base v) = num_text dig base v" for dig
    using l [of dig] assms(3) by (intro take_all) linarith
  moreover have "\<not> base < 2" "\<not> 36 < base" "\<not> 16 < base"
    using assms by (auto simp: word_less_nat_alt word_le_nat_alt)
  ultimately show ?thesis by (simp add: aformat_def)
qed

text \<open>
  C36 Formatting into a buffer never writes beyond it. Whatever the format and the arguments, a
  buffer of \<open>cap > 0\<close> bytes receives fewer than \<open>cap\<close> characters, so that the terminating NUL fits;
  the only undefined behaviour left is a missing argument. When the arguments match the format, the text
  written is the complete text (\<open>full_text\<close>, formatting without a limit) cut to \<open>cap - 1\<close> characters:
  never garbled, never shorter than it could be.
\<close>

theorem sprintk_truncates:
  assumes "0 < cap"
  shows "within (unat cap) (sprintk cap fmt as) \<and>
    (\<forall>t. full_text fmt as = Ok t \<longrightarrow> sprintk cap fmt as = Ok (take (unat cap - 1) t))"
proof -
  have "0 < unat cap" using assms by (simp add: unat_gt_0)
  then have "within (unat cap) (sprintk cap fmt as)"
    unfolding sprintk_def by (intro vsprintk_loop_within) (use unat_less_2p64 [of cap] in auto)
  then show ?thesis using sprintk_full [OF assms] by blast
qed

theorem sprintk_truncates_witness:
  "within 8 (sprintk 8 ''id=%d,%s'' [VWord (- 42), VStr (Some ''abc'')]) \<and>
   sprintk 8 ''id=%d,%s'' [VWord (- 42), VStr (Some ''abc'')] = Ok ''id=-42,''"
proof -
  let ?as = "[VWord (- 42), VStr (Some ''abc'')]"
  have "full_text ''id=%d,%s'' ?as = Ok ''id=-42,abc''" by code_simp
  then show ?thesis using sprintk_truncates [of 8 "''id=%d,%s''" ?as] by (simp add: within_def)
qed

text \<open>
  C37 Numbers survive being printed. In a buffer of at least 22 bytes \<^verbatim>\<open>%lld\<close> writes a text that reads
  back as the signed 64-bit argument; plain \<^verbatim>\<open>%d\<close> reads back as its low 32 bits only, whatever was passed;
  \<^verbatim>\<open>aformat\<close> in any base its digit table covers writes a text that reads back as the number.
\<close>

theorem sprintk_number_roundtrip:
  assumes "22 \<le> cap" and "65 \<le> n" and "2 \<le> base" and "base \<le> 16"
  shows "\<exists>t u w. sprintk cap ''%lld'' [VWord v] = Ok t \<and> int_text t = sint v
     \<and> sprintk cap ''%d'' [VWord v] = Ok u \<and> int_text u = sint (ucast v :: u32)
     \<and> aformat n base v upper = Ok w \<and> text_val (unat base) w = unat v"
proof -
  have d: "\<exists>t. sprintk cap fmt [VWord v] = Ok t \<and> int_text t = sint (signed_arg l v)"
    if f: "fmt = ''%d'' \<and> l = 0 \<or> fmt = ''%ld'' \<and> l = 1 \<or> fmt = ''%lld'' \<and> l = 2" for fmt l
    using sprintk_d [OF assms(1) f] by blast
  have "65 \<le> unat n" using assms(2) by (simp add: word_le_nat_alt)
  then have "aformat n base v upper = Ok (num_text (if upper then udig else ldig) base v)"
    by (rule aformat_whole [OF assms(3,4)])
  moreover have "text_val (unat base) (num_text (if upper then udig else ldig) base v) = unat v"
    by (rule num_text_value) (use assms in auto)
  ultimately show ?thesis using d [of "''%lld''" 2] d [of "''%d''" 0] signed_arg_int [of v] signed_arg_def [of 2 v] by auto
qed

theorem sprintk_number_roundtrip_witness:
  "\<exists>t u w. sprintk 32 ''%lld'' [VWord 4294967298] = Ok t \<and> int_text t = 4294967298
     \<and> sprintk 32 ''%d'' [VWord 4294967298] = Ok u \<and> int_text u = 2
     \<and> aformat 65 2 4294967298 False = Ok w \<and> text_val 2 w = 4294967298"
  using sprintk_number_roundtrip [of 32 65 2 4294967298 False] by simp

text \<open>
  The integer helpers are exact over the whole 64-bit range. \<^verbatim>\<open>floor_log2\<close> of a non-zero number is
  the position of its highest bit; \<^verbatim>\<open>upow\<close> is the power where it fits and saturates at the largest
  64-bit number where it does not, so a wrapped result is never returned.
\<close>

theorem integer_helpers_exact:
  "(v \<noteq> 0 \<longrightarrow> 2 ^ unat (floor_log2 v) \<le> unat v \<and> unat v < 2 ^ Suc (unat (floor_log2 v)))
   \<and> unat (upow base e) = min (2 ^ 64 - 1) (unat base ^ unat e)"
  using floor_log2_spec upow_spec by blast

theorem integer_helpers_exact_witness:
  "2 ^ unat (floor_log2 1000) \<le> (1000 :: nat) \<and> (1000 :: nat) < 2 ^ Suc (unat (floor_log2 1000))
   \<and> unat (upow 10 3) = 1000"
  using integer_helpers_exact [of 1000 10 3] by simp

end
