(* ===== verification/Exec.thy ===== *)
theory Exec
  imports LineCorrect Lexer Parser Format
begin

text \<open>
  Running one line of NOC, \<^verbatim>\<open>kernel/noc/exec.c\<close>: the pipeline of tokenizer, parser, compiler and
  machine, with the arena the line is translated in, the messages it prints and the memory it
  gives back. The platform layer is a parameter, as everywhere: an allocator and a character output.
\<close>

section \<open>The pipeline\<close>

record 'w shell =
  sh_vm :: "'w vm"
  sh_log :: os_log

text \<open>How a line ends: it returns, it is still running when the fuel is used up, or it leaves
  defined behaviour.\<close>

datatype 'w ended = Ended bool "'w shell" | Running | Broken crash

definition NOC_ARENA_SIZE :: nat where "NOC_ARENA_SIZE = 1024 * 1024"
definition sizeof_tok :: nat where "sizeof_tok = 24"

definition line_arena :: "u64 \<Rightarrow> arena" where
  "line_arena base = \<lparr>ar_base = base, ar_used = 0, ar_cap = NOC_ARENA_SIZE\<rparr>"

definition noc_os_puts :: "(char \<Rightarrow> 'w \<Rightarrow> 'w) \<Rightarrow> string \<Rightarrow> 'w \<Rightarrow> 'w" where
  "noc_os_puts putc s w = fold putc s w"

definition free_chunk :: "noc_fn \<Rightarrow> os_log \<Rightarrow> os_log" where
  "free_chunk f log = free_strings (fn_strings f) (free_if (fn_code_ptr f) log)"

definition noc_report :: "(char \<Rightarrow> 'w \<Rightarrow> 'w) \<Rightarrow> string \<Rightarrow> 'w vm \<Rightarrow> 'w vm" where
  "noc_report putc msg s =
     s\<lparr>world := putc (CHR 0x0A) (noc_os_puts putc msg (noc_os_puts putc ''NOC: '' (world s)))\<rparr>"

text \<open>The message behind \<^verbatim>\<open>err ? err : dflt\<close>: an error without a message is the empty text here.\<close>

definition or_default :: "string \<Rightarrow> string \<Rightarrow> string" where
  "or_default dflt e = (if e = [] then dflt else e)"

text \<open>The result of an expression is shown with \<^verbatim>\<open>sprintk(buf, 32, "%d\n", res)\<close>, unless it is 0.\<close>

definition show_result :: "(char \<Rightarrow> 'w \<Rightarrow> 'w) \<Rightarrow> bool \<Rightarrow> 'w vm \<Rightarrow> 'w vm res" where
  "show_result putc keep s =
     (case (if keep then noc_vm_take_result s else None) of
        None \<Rightarrow> Ok s
      | Some v \<Rightarrow>
          if v = 0 then Ok s
          else map_res (\<lambda>t. s\<lparr>world := noc_os_puts putc t (world s)\<rparr>) (sprintk 32 (''%d'' @ [CHR 0x0A]) [VWord v]))"

definition finish_run :: "(char \<Rightarrow> 'w \<Rightarrow> 'w) \<Rightarrow> u64 \<Rightarrow> noc_fn \<Rightarrow> os_log \<Rightarrow> 'w outcome option \<Rightarrow> 'w ended" where
  "finish_run putc base f log r =
     (case r of
        None \<Rightarrow> Running
      | Some (Fault c) \<Rightarrow> Broken c
      | Some (Stop t) \<Rightarrow>
          Ended True \<lparr>sh_vm = noc_report putc (vm_err t) t, sh_log = noc_os_free base (free_chunk f log)\<rparr>
      | Some (Halt t) \<Rightarrow>
          (case show_result putc (fn_last_expr f) t of
             Ok t \<Rightarrow> Ended True \<lparr>sh_vm = t, sh_log = noc_os_free base (free_chunk f log)\<rparr>
           | Err e \<Rightarrow> Broken OutOfFuel
           | Crash c \<Rightarrow> Broken c)
      | Some (Next t) \<Rightarrow> Running)"

definition refuse_line :: "(char \<Rightarrow> 'w \<Rightarrow> 'w) \<Rightarrow> u64 \<Rightarrow> string \<Rightarrow> 'w vm \<Rightarrow> os_log \<Rightarrow> 'w ended" where
  "refuse_line putc base msg s log = Ended False \<lparr>sh_vm = noc_report putc msg s, sh_log = noc_os_free base log\<rparr>"

definition noc_exec_line ::
  "allocator \<Rightarrow> 'w vm_env \<Rightarrow> (char \<Rightarrow> 'w \<Rightarrow> 'w) \<Rightarrow> nat \<Rightarrow> string option \<Rightarrow> 'w shell \<Rightarrow> 'w ended" where
  "noc_exec_line os env putc fuel line sh =
     (case line of
        None \<Rightarrow> Ended True sh
      | Some [] \<Rightarrow> Ended True sh
      | Some src \<Rightarrow>
          (let s = sh_vm sh; (base, l1) = noc_os_alloc os (of_nat NOC_ARENA_SIZE) (sh_log sh)
           in if base = 0 then
                Ended True \<lparr>sh_vm = noc_report putc ''out of memory (line arena)'' s, sh_log = l1\<rparr>
              else
                (case noc_arena_alloc (sizeof_tok * NOC_MAX_TOKS) (line_arena base) of
                   None \<Rightarrow>
                     Ended True \<lparr>sh_vm = noc_report putc ''out of memory (tokens)'' s, sh_log = noc_os_free base l1\<rparr>
                 | Some a1 \<Rightarrow>
                     (case noc_lex src a1 NOC_MAX_TOKS of
                        Crash c \<Rightarrow> Broken c
                      | Err e \<Rightarrow> refuse_line putc base (or_default ''lex error'' e) s l1
                      | Ok (toks, a2) \<Rightarrow>
                          (case noc_parse toks a2 of
                             Crash c \<Rightarrow> Broken c
                           | Err e \<Rightarrow> refuse_line putc base (or_default ''parse error'' e) s l1
                           | Ok (stmts, a3) \<Rightarrow>
                               (case noc_compile os stmts a3 (funcs s) l1 of
                                  (Crash c, fs, l2) \<Rightarrow> Broken c
                                | (Err e, fs, l2) \<Rightarrow>
                                    refuse_line putc base (or_default ''compile error'' e) (s\<lparr>funcs := fs\<rparr>) l2
                                | (Ok f, fs, l2) \<Rightarrow>
                                    finish_run putc base f l2 (noc_vm_run env fuel f (s\<lparr>funcs := fs\<rparr>))))))))"

text \<open>\<^verbatim>\<open>noc_check_syntax\<close> stops before the machine; what compiling did to the registry stays.\<close>

definition noc_check_syntax :: "allocator \<Rightarrow> string option \<Rightarrow> registry \<Rightarrow> os_log \<Rightarrow> (bool \<times> registry \<times> os_log) res" where
  "noc_check_syntax os line fs log =
     (case line of
        None \<Rightarrow> Ok (False, fs, log)
      | Some [] \<Rightarrow> Ok (False, fs, log)
      | Some src \<Rightarrow>
          (let (base, l1) = noc_os_alloc os (of_nat NOC_ARENA_SIZE) log
           in if base = 0 then Ok (False, fs, l1)
              else
                (case noc_arena_alloc (sizeof_tok * NOC_MAX_TOKS) (line_arena base) of
                   None \<Rightarrow> Ok (False, fs, noc_os_free base l1)
                 | Some a1 \<Rightarrow>
                     (case noc_lex src a1 NOC_MAX_TOKS of
                        Crash c \<Rightarrow> Crash c
                      | Err e \<Rightarrow> Ok (False, fs, noc_os_free base l1)
                      | Ok (toks, a2) \<Rightarrow>
                          (case noc_parse toks a2 of
                             Crash c \<Rightarrow> Crash c
                           | Err e \<Rightarrow> Ok (False, fs, noc_os_free base l1)
                           | Ok (stmts, a3) \<Rightarrow>
                               (case noc_compile os stmts a3 fs l1 of
                                  (Crash c, fs', l2) \<Rightarrow> Crash c
                                | (Err e, fs', l2) \<Rightarrow> Ok (False, fs', noc_os_free base l2)
                                | (Ok f, fs', l2) \<Rightarrow> Ok (True, fs', noc_os_free base (free_chunk f l2))))))))"

section \<open>Memory is given back\<close>

text \<open>The balance of an address: how many times it was handed out less how many times it came back.\<close>

fun bal :: "os_log \<Rightarrow> u64 \<Rightarrow> int" where
  "bal [] p = 0"
| "bal (OsAlloc n q # log) p = bal log p + of_bool (q = p)"
| "bal (OsFree q # log) p = bal log p - of_bool (q = p)"

definition strings_own :: "(u64 \<times> string) list \<Rightarrow> u64 \<Rightarrow> int" where
  "strings_own ss p = int (count_list (map fst ss) p)"

definition fn_own :: "noc_fn \<Rightarrow> u64 \<Rightarrow> int" where
  "fn_own f p = of_bool (fn_ptr f = p) + of_bool (fn_name_ptr f = p) + of_bool (fn_code_ptr f = p) + strings_own (fn_strings f) p"

definition reg_own :: "registry \<Rightarrow> u64 \<Rightarrow> int" where
  "reg_own fs p = (\<Sum>f\<leftarrow>fs. fn_own f p)"

text \<open>What the state of the compiler holds, and the invariant: everything handed out since is held
  by the code buffer, a string constant or a registered function.\<close>

definition comp_own :: "ccomp \<Rightarrow> u64 \<Rightarrow> int" where
  "comp_own c p = of_bool (c_data c = p) + strings_own (fn_strings (c_fn c)) p + reg_own (c_funcs c) p"

definition balanced :: "(u64 \<Rightarrow> int) \<Rightarrow> ccomp \<Rightarrow> bool" where
  "balanced L c \<longleftrightarrow> (\<forall>p. p \<noteq> 0 \<longrightarrow> bal (c_log c) p = L p + comp_own c p)"

lemma bal_free_if [simp]: "p \<noteq> 0 \<Longrightarrow> bal (free_if q log) p = bal log p - of_bool (q = p)"
  by (simp add: free_if_def noc_os_free_def)

lemma bal_free [simp]: "bal (noc_os_free q log) p = bal log p - of_bool (q = p)"
  by (simp add: noc_os_free_def)

lemma bal_alloc: "noc_os_alloc os n log = (q, log') \<Longrightarrow> bal log' p = bal log p + of_bool (q = p)"
  by (auto simp: noc_os_alloc_def Let_def)

lemma strings_own_simps [simp]:
  "strings_own [] p = 0" "strings_own (ss @ ts) p = strings_own ss p + strings_own ts p"
  "strings_own (x # ss) p = of_bool (fst x = p) + strings_own ss p"
  by (simp_all add: strings_own_def)

lemma bal_free_strings [simp]: "p \<noteq> 0 \<Longrightarrow> bal (free_strings ss log) p = bal log p - strings_own ss p"
proof (induction ss arbitrary: log)
  case (Cons x ss)
  then show ?case by (cases x) (auto simp: free_strings_def)
qed (simp add: free_strings_def)

lemma reg_own_simps [simp]:
  "reg_own [] p = 0" "reg_own (f # fs) p = fn_own f p + reg_own fs p" "reg_own (fs @ gs) p = reg_own fs p + reg_own gs p"
  by (simp_all add: reg_own_def)

lemma reg_own_update: "i < length fs \<Longrightarrow> reg_own (fs[i := f]) p = reg_own fs p - fn_own (fs ! i) p + fn_own f p"
  by (induction fs arbitrary: i) (auto split: nat.splits)

interpretation balance: stable_state "balanced L" True for L
proof unfold_locales
  show "keeps (balanced L) (buf_ensure os n)" for os n
    by (auto simp: keeps_def buf_ensure_def balanced_def comp_own_def Let_def bal_alloc split: if_splits prod.splits)
  show "keeps (balanced L) (add_string os s)" for os s
    by (auto simp: keeps_def add_string_def balanced_def comp_own_def Let_def bal_alloc split: if_splits prod.splits option.splits)
  show "keeps (balanced L) (add_var x t)" for x t
    by (auto simp: keeps_def add_var_def bindc_def readc_def cerr_def cerr_name_def balanced_def comp_own_def split: if_splits option.splits)
qed (auto simp: keeps_def emit_bytes_def patch_jump_def set_last_expr_def balanced_def comp_own_def)

text \<open>What belongs to the definition as a whole stays as it is while its body is compiled.\<close>

definition frame_is :: "u64 \<Rightarrow> u64 \<Rightarrow> registry \<Rightarrow> ccomp \<Rightarrow> bool" where
  "frame_is p nm fs c \<longleftrightarrow> fn_ptr (c_fn c) = p \<and> fn_name_ptr (c_fn c) = nm \<and> c_funcs c = fs"

interpretation owner: stable_state "frame_is p nm fs" True for p nm fs
proof unfold_locales
  show "keeps (frame_is p nm fs) (buf_ensure os n)" for os n
    by (auto simp: keeps_def buf_ensure_def frame_is_def Let_def split: if_splits prod.splits)
  show "keeps (frame_is p nm fs) (add_string os s)" for os s
    by (auto simp: keeps_def add_string_def frame_is_def Let_def split: if_splits prod.splits option.splits)
  show "keeps (frame_is p nm fs) (add_var x t)" for x t
    by (auto simp: keeps_def add_var_def bindc_def readc_def cerr_def cerr_name_def frame_is_def split: if_splits option.splits)
qed (auto simp: keeps_def emit_bytes_def patch_jump_def set_last_expr_def frame_is_def)

lemma register_balanced:
  assumes "noc_register_user_fn f fs log = (Some fs', log')"
  shows "(\<forall>p. p \<noteq> 0 \<longrightarrow> bal log' p - reg_own fs' p = bal log p - reg_own fs p - fn_own f p)
    \<and> length fs' \<le> Suc (length fs)"
proof (cases "same_name_idx fs (fn_name f)")
  case (Some i)
  then have "i < length fs" by (auto simp: same_name_idx_def first_in_Some_iff)
  then show ?thesis using assms Some reg_own_update [of i fs f]
    by (auto simp: noc_register_user_fn_def Let_def fn_own_def)
qed (use assms in \<open>auto simp: noc_register_user_fn_def split: if_splits\<close>)

lemma register_room: "length fs < NOC_MAX_FUNCS \<Longrightarrow> noc_register_user_fn f fs log \<noteq> (None, log')"
  by (auto simp: noc_register_user_fn_def Let_def split: option.splits if_splits)

lemma body_balanced:
  assumes "balanced L c" and "noc_os_alloc os n (c_log c) = (q, l1)" and "noc_os_alloc os m l1 = (nm, l2)"
    and "thenc (compile_block os (body_stmts body)) (thenc (emit1v os OP_PUSH 0) (emit1 os OP_RET))
       (body_ccomp c ps (fn_header t name ps q nm) l2) = (r, d)"
  shows "p \<noteq> 0 \<Longrightarrow> bal (c_log d) p = L p + comp_own c p + of_bool (q = p) + of_bool (nm = p)
      + of_bool (c_data d = p) + strings_own (fn_strings (c_fn d)) p"
    and "frame_is q nm (c_funcs c) d"
proof -
  let ?m = "thenc (compile_block os (body_stmts body)) (thenc (emit1v os OP_PUSH 0) (emit1 os OP_RET))"
  let ?sub = "body_ccomp c ps (fn_header t name ps q nm) l2"
  let ?L = "\<lambda>p. L p + comp_own c p - reg_own (c_funcs c) p + of_bool (q = p) + of_bool (nm = p)"
  have "frame_is q nm (c_funcs c) ?sub" by (simp add: frame_is_def body_ccomp_def fn_header_def empty_fn_def)
  moreover have "keeps (frame_is q nm (c_funcs c)) ?m"
    by (intro keeps_rules owner.compile_stmt_keeps owner.emits_keeps)
  ultimately show fr: "frame_is q nm (c_funcs c) d" using assms(4) by (blast dest: keepsD)
  have "bal l2 p = bal (c_log c) p + of_bool (q = p) + of_bool (nm = p)" for p
    using bal_alloc [OF assms(2), of p] bal_alloc [OF assms(3), of p] by simp
  then have "balanced ?L ?sub"
    using assms(1) by (simp add: balanced_def comp_own_def body_ccomp_def fn_header_def empty_fn_def)
  moreover have "keeps (balanced ?L) ?m"
    by (intro keeps_rules balance.compile_stmt_keeps balance.emits_keeps)
  ultimately have "balanced ?L d" using assms(4) by (blast dest: keepsD)
  then show "bal (c_log d) p = L p + comp_own c p + of_bool (q = p) + of_bool (nm = p)
      + of_bool (c_data d = p) + strings_own (fn_strings (c_fn d)) p" if "p \<noteq> 0"
    using fr that by (simp add: balanced_def comp_own_def frame_is_def)
qed

lemma funcdecl_balanced:
  assumes "balanced L c" and "length (c_funcs c) < NOC_MAX_FUNCS"
    and "compile_funcdecl os t name ps body c = (r, c')" and "\<And>e. r \<noteq> Crash e"
  shows "balanced L c' \<and> length (c_funcs c') \<le> Suc (length (c_funcs c))"
proof (cases "c_in_fn c")
  case True
  then show ?thesis using assms by (simp add: compile_funcdecl_def)
next
  case False
  obtain q l1 where q: "noc_os_alloc os sizeof_noc_fn (c_log c) = (q, l1)" by fastforce
  obtain nm l2 where nm: "noc_os_alloc os (of_nat (length name) + 1) l1 = (nm, l2)" by fastforce
  obtain r' d where d: "thenc (compile_block os (body_stmts body)) (thenc (emit1v os OP_PUSH 0) (emit1 os OP_RET))
       (body_ccomp c ps (fn_header t name ps q nm) l2) = (r', d)" by fastforce
  note b = body_balanced [OF assms(1) q nm d]
  note eq = assms(3) [unfolded compile_funcdecl_def q nm Let_def prod.case body_ccomp_def [symmetric] d, simplified False if_False]
  consider "q = 0" | "q \<noteq> 0" "nm = 0" | "q \<noteq> 0" "nm \<noteq> 0" by blast
  then show ?thesis
  proof cases
    case 1
    then show ?thesis using assms(1) eq bal_alloc [OF q] by (auto simp: balanced_def comp_own_def)
  next
    case 2
    then show ?thesis using assms(1) eq bal_alloc [OF q] bal_alloc [OF nm] by (auto simp: balanced_def comp_own_def)
  next
    case 3
    note eq3 = eq [simplified 3 if_False]
    show ?thesis
    proof (cases r')
      case (Ok u)
      define nf where "nf = (c_fn d)\<lparr>fn_code_ptr := c_data d, fn_code := c_code d, fn_nlocals := length (c_syms d)\<rparr>"
      obtain fs log where reg: "noc_register_user_fn nf (c_funcs c) (c_log d) = (Some fs, log)"
        using register_room [OF assms(2), of nf "c_log d"] by (metis not_None_eq surj_pair)
      have c': "c' = c\<lparr>c_funcs := fs, c_log := log, c_arena := c_arena d\<rparr>"
        using eq3 Ok reg by (simp add: nf_def)
      have own: "fn_own nf p = of_bool (q = p) + of_bool (nm = p) + of_bool (c_data d = p) + strings_own (fn_strings (c_fn d)) p" for p
        using b(2) by (simp add: fn_own_def nf_def frame_is_def)
      have "bal log p = L p + comp_own c p - reg_own (c_funcs c) p + reg_own fs p" if "p \<noteq> 0" for p
        using register_balanced [OF reg] b(1) [OF that] own [of p] that by fastforce
      then show ?thesis using register_balanced [OF reg] c' by (simp add: balanced_def comp_own_def)
    next
      case (Err e)
      then have "c' = c\<lparr>c_log := noc_os_free q (noc_os_free nm (free_sub_resources d)), c_arena := c_arena d\<rparr>"
        using eq3 by simp
      then show ?thesis using b(1) by (simp add: balanced_def comp_own_def free_sub_resources_def)
    next
      case (Crash e)
      then show ?thesis using eq3 assms(4) by auto
    qed
  qed
qed

definition compile_top :: "allocator \<Rightarrow> ast \<Rightarrow> bool \<Rightarrow> unit comp" where
  "compile_top os a l = (case a of A_FUNCDECL t name ps body \<Rightarrow> compile_funcdecl os t name ps body | _ \<Rightarrow> compile_stmt os a l)"

lemma compile_tops_Cons: "compile_tops os (a # ss) = thenc (compile_top os a (ss = [])) (compile_tops os ss)"
  by (cases a) (simp_all add: compile_top_def)

lemma top_balanced:
  assumes "balanced L c" and "length (c_funcs c) < NOC_MAX_FUNCS"
    and "compile_top os a l c = (r, c')" and "\<And>e. r \<noteq> Crash e"
  shows "balanced L c' \<and> length (c_funcs c') \<le> Suc (length (c_funcs c))"
proof (cases "\<exists>t name ps body. a = A_FUNCDECL t name ps body")
  case True
  then show ?thesis using funcdecl_balanced [OF assms(1,2) _ assms(4)] assms(3) by (auto simp: compile_top_def)
next
  case False
  then have st: "compile_stmt os a l c = (r, c')" using assms(3) by (cases a) (simp_all add: compile_top_def)
  have "frame_is (fn_ptr (c_fn c)) (fn_name_ptr (c_fn c)) (c_funcs c) c'"
    by (rule keepsD [OF owner.compile_stmt_keeps(1) st]) (simp_all add: frame_is_def)
  then show ?thesis using keepsD [OF balance.compile_stmt_keeps(1) st assms(1)] by (simp add: frame_is_def)
qed

lemma tops_balanced:
  "balanced L c \<Longrightarrow> length (c_funcs c) + length ss \<le> NOC_MAX_FUNCS \<Longrightarrow> compile_tops os ss c = (r, c') \<Longrightarrow>
    (\<And>e. r \<noteq> Crash e) \<Longrightarrow> balanced L c'"
proof (induction ss arbitrary: c)
  case (Cons a ss)
  obtain r1 c1 where f: "compile_top os a (ss = []) c = (r1, c1)" by fastforce
  note run = Cons.prems(3) [unfolded compile_tops_Cons thenc_def bindc_def f prod.case]
  have nc: "r1 \<noteq> Crash e" for e using run Cons.prems(4) [of e] by auto
  have b: "balanced L c1" "length (c_funcs c1) \<le> Suc (length (c_funcs c))"
    using top_balanced [OF Cons.prems(1) _ f nc] Cons.prems(2) by auto
  show ?case
  proof (cases r1)
    case (Ok u)
    then have "compile_tops os ss c1 = (r, c')" using run by simp
    then show ?thesis using Cons.IH [OF b(1)] Cons.prems(2,4) b(2) by simp
  qed (use run b nc in auto)
qed (simp add: retc_def)

lemma noc_compile_balanced:
  assumes "noc_compile os ss a fs log = (r, fs', log')" and "length fs + length ss \<le> NOC_MAX_FUNCS"
    and "\<And>e. r \<noteq> Crash e" and "p \<noteq> 0"
  shows "bal log' p - reg_own fs' p - (case r of Ok f \<Rightarrow> of_bool (fn_code_ptr f = p) + strings_own (fn_strings f) p | _ \<Rightarrow> 0)
    = bal log p - reg_own fs p"
proof -
  let ?L = "\<lambda>p. bal log p - reg_own fs p"
  obtain r1 c1 where t: "compile_tops os ss (line_ccomp a fs log) = (r1, c1)" by fastforce
  have "balanced ?L (line_ccomp a fs log)" by (simp add: balanced_def comp_own_def line_ccomp_def line_fn_def empty_fn_def)
  moreover have nc: "r1 \<noteq> Crash e" for e using assms(1) assms(3) [of e] t by (auto simp: noc_compile_def thenc_def bindc_def)
  ultimately have b1: "balanced ?L c1" using tops_balanced [OF _ _ t nc] assms(2) by (simp add: line_ccomp_def)
  obtain r2 c2 where h: "thenc (compile_tops os ss) (emit1 os OP_HALT) (line_ccomp a fs log) = (r2, c2)" by fastforce
  have b2: "balanced ?L c2"
  proof (cases r1)
    case (Ok u)
    then have "emit1 os OP_HALT c1 = (r2, c2)" using h t by (simp add: thenc_def bindc_def)
    then show ?thesis using keepsD [OF balance.emits_keeps(1) _ b1] by blast
  qed (use h t b1 nc in \<open>auto simp: thenc_def bindc_def\<close>)
  show ?thesis
    using assms(1,3,4) h b2 by (cases r2) (auto simp: noc_compile_def balanced_def comp_own_def)
qed

text \<open>Running code leaves the registry alone when the builtins do.\<close>

definition keeps_registry :: "'w vm_env \<Rightarrow> bool" where
  "keeps_registry env \<longleftrightarrow> (\<forall>i as fs w. fst (snd (snd (call_builtin env i as fs w))) = fs)"

abbreviation same_funcs :: "registry \<Rightarrow> 'w outcome \<Rightarrow> bool" where
  "same_funcs fs r \<equiv> out_ok (\<lambda>t. funcs t = fs) UNIV r"

named_theorems funcs_rules \<open>machine actions that leave the registry alone\<close>

lemma machine_funcs [funcs_rules]:
  "funcs s = fs \<Longrightarrow> same_funcs fs (push v s)"
  "funcs s = fs \<Longrightarrow> (\<And>v t. funcs t = fs \<Longrightarrow> same_funcs fs (k v t)) \<Longrightarrow> same_funcs fs (pop s k)"
  "(\<And>v. same_funcs fs (h v)) \<Longrightarrow> same_funcs fs (stack_get i s h)"
  "funcs s = fs \<Longrightarrow> same_funcs fs (stack_set i v s)"
  "(\<And>v. same_funcs fs (k4 v)) \<Longrightarrow> same_funcs fs (fetch4 code pc k4)"
  "(\<And>v. same_funcs fs (h v)) \<Longrightarrow> same_funcs fs (fetch8 code pc h)"
  by (simp_all add: push_def pop_def stack_get_def stack_set_def fetch4_def fetch8_def)

lemma do_alu_funcs [funcs_rules]: "funcs s = fs \<Longrightarrow> same_funcs fs (do_alu opc s)"
  unfolding do_alu_def by (intro funcs_rules; simp?) (auto split: res.splits intro: funcs_rules)

lemma do_ret_funcs [funcs_rules]: "funcs s = fs \<Longrightarrow> same_funcs fs (do_ret s)"
  unfolding do_ret_def by (auto split: list.splits intro!: funcs_rules)

lemma do_call_funcs [funcs_rules]:
  assumes "keeps_registry env" and "funcs s = fs"
  shows "same_funcs fs (do_call env fn si count s)"
proof -
  have "fs' = fs" if "call_builtin env i as fs w = (ok, ret, fs', w')" for i as w ok ret fs' w'
    using assms(1) that unfolding keeps_registry_def by (metis fst_conv snd_conv)
  then show ?thesis using assms(2)
    by (auto simp: do_call_def enter_fn_def Let_def split: option.splits prod.splits intro!: funcs_rules)
qed

lemma exec_op_funcs:
  assumes "keeps_registry env" and "funcs s = fs"
  shows "same_funcs fs (exec_op env f pc opc s)"
  by (cases opc) (use assms in \<open>auto simp: Let_def intro!: funcs_rules\<close>)

lemma vm_step_funcs: "keeps_registry env \<Longrightarrow> funcs s = fs \<Longrightarrow> same_funcs fs (vm_step env s)"
  by (auto simp: vm_step_def vm_instr_def Let_def split: list.splits option.splits intro!: exec_op_funcs)

lemma run_loop_funcs:
  "keeps_registry env \<Longrightarrow> funcs s = fs \<Longrightarrow> run_loop env n s = Some r \<Longrightarrow> same_funcs fs r"
proof (induction n arbitrary: s)
  case (Suc n)
  then show ?case using vm_step_funcs [OF Suc.prems(1,2)] by (cases "vm_step env s") auto
qed simp

lemma noc_vm_run_funcs:
  assumes "keeps_registry env" and "funcs s = fs" and "noc_vm_run env n f s = Some r"
  shows "same_funcs fs r"
proof -
  have "funcs (vm_start f s) = fs" using assms(2) by (simp add: vm_start_def)
  note loop = run_loop_funcs [OF assms(1) this, of n]
  show ?thesis using assms(2,3) loop
    by (auto simp: noc_vm_run_def Let_def split: if_splits option.splits outcome.splits)
qed

text \<open>Reporting and showing touch neither the registry nor the memory.\<close>

lemma show_result_funcs: "show_result putc k s = Ok t \<Longrightarrow> funcs t = funcs s"
  by (cases "sprintk 32 (''%d'' @ [CHR 0x0A]) [VWord (result s)]")
    (auto simp: show_result_def noc_vm_take_result_def split: if_splits option.splits)

lemma noc_report_funcs [simp]: "funcs (noc_report putc msg s) = funcs s"
  by (simp add: noc_report_def)

lemma free_chunk_bal [simp]:
  "p \<noteq> 0 \<Longrightarrow> bal (free_chunk f log) p = bal log p - of_bool (fn_code_ptr f = p) - strings_own (fn_strings f) p"
  by (simp add: free_chunk_def)

lemma finish_run_bal:
  assumes "finish_run putc base f log (noc_vm_run env fuel f s) = Ended b sh" and "keeps_registry env" and "p \<noteq> 0"
  shows "bal (sh_log sh) p = bal log p - of_bool (fn_code_ptr f = p) - strings_own (fn_strings f) p - of_bool (base = p)
    \<and> funcs (sh_vm sh) = funcs s"
  using assms noc_vm_run_funcs [OF assms(2) refl, of fuel f s] show_result_funcs
  by (fastforce simp: finish_run_def split: option.splits outcome.splits res.splits)

text \<open>The statements of a line, as far as the parser brings them.\<close>

definition line_stmts :: "u64 \<Rightarrow> string \<Rightarrow> (ast list \<times> arena) res" where
  "line_stmts base src =
     (case noc_arena_alloc (sizeof_tok * NOC_MAX_TOKS) (line_arena base) of
        None \<Rightarrow> Err ''out of memory (tokens)''
      | Some a \<Rightarrow> bind_res (noc_lex src a NOC_MAX_TOKS) (\<lambda>(toks, a). noc_parse toks a))"

definition line_base :: "allocator \<Rightarrow> 'w shell \<Rightarrow> u64" where
  "line_base os sh = fst (noc_os_alloc os (of_nat NOC_ARENA_SIZE) (sh_log sh))"

definition fits_registry :: "allocator \<Rightarrow> string \<Rightarrow> 'w shell \<Rightarrow> bool" where
  "fits_registry os src sh =
     (case line_stmts (line_base os sh) src of
        Ok (ss, a) \<Rightarrow> length (funcs (sh_vm sh)) + length ss \<le> NOC_MAX_FUNCS
      | _ \<Rightarrow> True)"

lemma exec_balanced:
  assumes env: "keeps_registry env" and fit: "fits_registry os src sh" and "p \<noteq> 0"
    and run: "noc_exec_line os env putc fuel (Some src) sh = Ended b sh'"
  shows "bal (sh_log sh') p - reg_own (funcs (sh_vm sh')) p = bal (sh_log sh) p - reg_own (funcs (sh_vm sh)) p"
proof (cases "src = []")
  case True
  then show ?thesis using run by (simp add: noc_exec_line_def)
next
  case False
  then obtain x xs where src: "src = x # xs" by (cases src) auto
  let ?s = "sh_vm sh"
  obtain base l1 where base: "noc_os_alloc os (of_nat NOC_ARENA_SIZE) (sh_log sh) = (base, l1)" by fastforce
  note l1 = bal_alloc [OF base, of p]
  note run' = run [unfolded noc_exec_line_def src base option.case list.case Let_def prod.case, folded src]
  show ?thesis
  proof (cases "line_stmts base src")
    case (Ok x)
    obtain ss a where x: "x = (ss, a)" by fastforce
    have fs: "length (funcs ?s) + length ss \<le> NOC_MAX_FUNCS" using fit Ok x base by (simp add: fits_registry_def line_base_def)
    obtain r fs' l2 where c: "noc_compile os ss a (funcs ?s) l1 = (r, fs', l2)" by (metis surj_pair)
    have go: "base = 0 \<and> Ended b sh' = Ended True \<lparr>sh_vm = noc_report putc ''out of memory (line arena)'' ?s, sh_log = l1\<rparr>
      \<or> (case r of Crash c \<Rightarrow> Broken c | Err e \<Rightarrow> refuse_line putc base (or_default ''compile error'' e) (?s\<lparr>funcs := fs'\<rparr>) l2
         | Ok f \<Rightarrow> finish_run putc base f l2 (noc_vm_run env fuel f (?s\<lparr>funcs := fs'\<rparr>))) = Ended b sh'"
      using run' Ok x c
      by (auto simp: line_stmts_def bind_res_Ok_iff split: if_splits option.splits res.splits prod.splits)
    have crash: "r \<noteq> Crash e" if "base \<noteq> 0" for e using go that by auto
    show ?thesis
    proof (cases "base = 0")
      case True
      then show ?thesis using run' l1 assms(3) by auto
    next
      case False
      note comp = noc_compile_balanced [OF c fs crash [OF False] assms(3)]
      show ?thesis
      proof (cases r)
        case (Ok f)
        then have "finish_run putc base f l2 (noc_vm_run env fuel f (?s\<lparr>funcs := fs'\<rparr>)) = Ended b sh'"
          using go False by simp
        from finish_run_bal [OF this env assms(3)] show ?thesis using comp l1 Ok by simp
      next
        case (Err e)
        then show ?thesis using go False comp l1 by (auto simp: refuse_line_def)
      qed (use crash False in blast)
    qed
  next
    case (Err e)
    then show ?thesis using run' l1 assms(3)
      by (auto simp: line_stmts_def refuse_line_def split: if_splits option.splits res.splits prod.splits)
  next
    case (Crash e)
    then show ?thesis using run' l1 assms(3)
      by (auto simp: line_stmts_def refuse_line_def split: if_splits option.splits res.splits prod.splits)
  qed
qed

text \<open>
  C5 Running a line leaks nothing and frees nothing twice. For every allocator, whatever the line
  is and however it ends (a syntax error, memory running out anywhere, a runtime error, a result),
  every address is afterwards as often handed out and not given back as before, up to what the
  registry holds: the functions the line defined, less those it replaced. The one hypothesis on the
  line is that the registry does not run full, where the source does leak.
\<close>

theorem noc_exec_line_balanced:
  assumes "keeps_registry env" and "fits_registry os src sh" and "p \<noteq> 0"
    and "noc_exec_line os env putc fuel (Some src) sh = Ended b sh'"
  shows "bal (sh_log sh') p - reg_own (funcs (sh_vm sh')) p = bal (sh_log sh) p - reg_own (funcs (sh_vm sh)) p"
  by (rule exec_balanced [OF assms])

definition demo_shell :: "string shell" where
  "demo_shell = \<lparr>sh_vm = \<lparr>vstack = (\<lambda>_. 0), sp = 0, frames = [], vm_err = [], has_result = False, result = 0,
     iters = 0, funcs = [], world = []\<rparr>, sh_log = []\<rparr>"

definition demo_env :: "string vm_env" where
  "demo_env = \<lparr>kbd_peek = (\<lambda>_. -1), kbd_poll = id, call_builtin = (\<lambda>i as fs w. (True, 0, fs, w))\<rparr>"

definition to_screen :: "char \<Rightarrow> string \<Rightarrow> string" where
  "to_screen c w = w @ [c]"

definition screen_of :: "string ended \<Rightarrow> (bool \<times> string \<times> os_log) option" where
  "screen_of e = (case e of Ended b sh \<Rightarrow> Some (b, world (sh_vm sh), sh_log sh) | _ \<Rightarrow> None)"


lemma demo_runs:
  "fits_registry bump_os ''40+2;'' demo_shell \<and>
   map_option (\<lambda>(b, w, log). (b, w)) (screen_of (noc_exec_line bump_os demo_env to_screen 20 (Some ''40+2;'') demo_shell))
     = Some (True, ''42'' @ [CHR 0x0A])"
  by code_simp

lemma demo_env_keeps: "keeps_registry demo_env"
  by (simp add: keeps_registry_def demo_env_def)

theorem noc_exec_line_balanced_witness:
  "\<exists>sh'. noc_exec_line bump_os demo_env to_screen 20 (Some ''40+2;'') demo_shell = Ended True sh'
     \<and> world (sh_vm sh') = ''42'' @ [CHR 0x0A]
     \<and> bal (sh_log sh') 0x1000 - reg_own (funcs (sh_vm sh')) 0x1000 = 0"
proof -
  obtain sh' where sh': "noc_exec_line bump_os demo_env to_screen 20 (Some ''40+2;'') demo_shell = Ended True sh'"
    "world (sh_vm sh') = ''42'' @ [CHR 0x0A]"
    using demo_runs by (auto simp: screen_of_def split: ended.splits)
  show ?thesis
    using noc_exec_line_balanced [where p = "0x1000", OF demo_env_keeps _ _ sh'(1)] sh' demo_runs
    by (simp add: demo_shell_def)
qed

section \<open>What a line shows\<close>

lemma show_text:
  "\<exists>t. sprintk 32 (''%d'' @ [CHR 0x0A]) [VWord v] = Ok (t @ [CHR 0x0A]) \<and> int_text t = sint (ucast v :: u32)"
proof -
  let ?n = "signed_arg 0 v"
  let ?t = "if sint ?n < 0 then CHR ''-'' # num_text ldig 10 (- ?n) else num_text ldig 10 ?n"
  have "full_text [CHR 0x0A] [] = Ok [CHR 0x0A]" "full_text [] [] = Ok []" by code_simp+
  then have full: "full_text (''%d'' @ [CHR 0x0A]) [VWord v] = Ok (?t @ [CHR 0x0A])"
    by (subst full_text.simps) (simp add: modifier_def conv_text_def arg_word_def Let_def)
  have "length (?t @ [CHR 0x0A]) \<le> 31"
    using num_text_dec_length [of ldig "- ?n"] num_text_dec_length [of ldig ?n] by simp
  then have "take 31 (?t @ [CHR 0x0A]) = ?t @ [CHR 0x0A]" by (rule take_all)
  moreover have "sprintk 32 (''%d'' @ [CHR 0x0A]) [VWord v] = Ok (take (unat (32 :: u64) - 1) (?t @ [CHR 0x0A]))"
    by (rule sprintk_full [OF _ full]) simp
  ultimately have "sprintk 32 (''%d'' @ [CHR 0x0A]) [VWord v] = Ok (?t @ [CHR 0x0A])" by simp
  moreover have "int_text ?t = sint (ucast v :: u32)" using int_text_signed [of ?n] signed_arg_int [of v] by simp
  ultimately show ?thesis by blast
qed

text \<open>\<open>shows putc v w w'\<close>: the console \<open>w'\<close> is \<open>w\<close> with the value of the line shown.\<close>

definition shows_value :: "(char \<Rightarrow> 'w \<Rightarrow> 'w) \<Rightarrow> u64 option \<Rightarrow> 'w \<Rightarrow> 'w \<Rightarrow> bool" where
  "shows_value putc v w w' \<longleftrightarrow>
     (case v of
        None \<Rightarrow> w' = w
      | Some r \<Rightarrow> if r = 0 then w' = w
                  else (\<exists>t. int_text t = sint (ucast r :: u32) \<and> w' = noc_os_puts putc (t @ [CHR 0x0A]) w))"

lemma show_result_shows:
  assumes "noc_vm_take_result s = v" and "v \<noteq> None \<longrightarrow> keep"
  shows "\<exists>t. show_result putc keep s = Ok t \<and> shows_value putc v (world s) (world t)"
proof (cases "v = None \<or> v = Some 0")
  case True
  then show ?thesis using assms by (auto simp: show_result_def shows_value_def)
next
  case False
  then obtain r where r: "v = Some r" "r \<noteq> 0" by auto
  obtain t where "sprintk 32 (''%d'' @ [CHR 0x0A]) [VWord r] = Ok (t @ [CHR 0x0A])" "int_text t = sint (ucast r :: u32)"
    using show_text by blast
  then show ?thesis using r assms by (auto simp: show_result_def shows_value_def)
qed


lemma exec_line_value: "exec_line se n cx ss keep st = Ok (v, st') \<Longrightarrow> v \<noteq> None \<longrightarrow> keep"
  by (auto simp: exec_line_def bind_res_Ok_iff split: if_splits)

text \<open>A line that parses and compiles is run and its outcome reported.\<close>

lemma exec_line_accepted:
  assumes "line_base os sh \<noteq> 0" and "src \<noteq> []" and "line_stmts (line_base os sh) src = Ok (ss, a)"
    and "noc_compile os ss a (funcs (sh_vm sh)) (snd (noc_os_alloc os (of_nat NOC_ARENA_SIZE) (sh_log sh))) = (Ok f, fs', l2)"
  shows "noc_exec_line os env putc fuel (Some src) sh =
    finish_run putc (line_base os sh) f l2 (noc_vm_run env fuel f ((sh_vm sh)\<lparr>funcs := fs'\<rparr>))"
proof -
  obtain x xs where src: "src = x # xs" using assms(2) by (cases src) auto
  obtain base l1 where base: "noc_os_alloc os (of_nat NOC_ARENA_SIZE) (sh_log sh) = (base, l1)" by fastforce
  have lb: "line_base os sh = base" by (simp add: line_base_def base)
  obtain a1 toks a2 where "noc_arena_alloc (sizeof_tok * NOC_MAX_TOKS) (line_arena base) = Some a1"
    "noc_lex src a1 NOC_MAX_TOKS = Ok (toks, a2)" "noc_parse toks a2 = Ok (ss, a)"
    using assms(3) by (auto simp: lb line_stmts_def bind_res_Ok_iff split: option.splits)
  then show ?thesis using assms(1,4) unfolding noc_exec_line_def base lb src by (simp add: base src)
qed

lemma exec_line_shows:
  assumes ok: "sem_ok se" and fs: "se_funcs se = funcs (sh_vm sh)" "\<forall>g\<in>set (funcs (sh_vm sh)). fn_nargs g < 2 ^ 32"
    and src: "line_base os sh \<noteq> 0" "src \<noteq> []" "line_stmts (line_base os sh) src = Ok (ss, a)" and pl: "\<forall>a\<in>set ss. plain a"
    and c: "noc_compile os ss a (funcs (sh_vm sh)) (snd (noc_os_alloc os (of_nat NOC_ARENA_SIZE) (sh_log sh))) = (Ok f, fs', l2)"
    and len: "length (fn_code f) < 2 ^ 32"
    and means: "exec_line se n (line_ctx (funcs (sh_vm sh)) f) ss (fn_last_expr f) (\<lambda>_. 0, world (sh_vm sh)) = Ok (v, st)"
  shows "\<exists>k. \<forall>m. \<exists>sh'. noc_exec_line os (se_env se) putc (k + m) (Some src) sh = Ended True sh' \<and>
    (shows_value putc v (snd st) (world (sh_vm sh')) \<or> (\<exists>msg t. msg \<in> limits \<and> sh_vm sh' = noc_report putc msg t))"
proof -
  let ?s = "(sh_vm sh)\<lparr>funcs := fs'\<rparr>"
  have "fs' = funcs (sh_vm sh) \<and> runs_line (se_env se) f (sh_vm sh) (Ok (v, st))"
    using compiled_line_runs [OF ok fs(1) refl fs(2) pl c len, of n] means by simp
  then have r: "runs_line (se_env se) f ?s (Ok (v, st))" by simp
  then obtain k where k: "(\<exists>t. noc_vm_run (se_env se) (k + m) f ?s = Some (Stop t) \<and> vm_err t \<in> limits) \<or>
      (\<exists>t. noc_vm_run (se_env se) (k + m) f ?s = Some (Halt t) \<and> noc_vm_take_result t = v \<and> world t = snd st)" for m
    unfolding runs_line_def by auto
  have "\<exists>sh'. finish_run putc base f l2 (noc_vm_run (se_env se) (k + m) f ?s) = Ended True sh' \<and>
    (shows_value putc v (snd st) (world (sh_vm sh')) \<or> (\<exists>msg t. msg \<in> limits \<and> sh_vm sh' = noc_report putc msg t))" for m base
    using k [of m]
  proof (elim disjE exE conjE)
    fix t
    assume t: "noc_vm_run (se_env se) (k + m) f ?s = Some (Stop t)" "vm_err t \<in> limits"
    then show ?thesis by (auto simp: finish_run_def)
  next
    fix t
    assume t: "noc_vm_run (se_env se) (k + m) f ?s = Some (Halt t)" "noc_vm_take_result t = v" "world t = snd st"
    then show ?thesis using show_result_shows [OF t(2) exec_line_value [OF means], of putc] by (auto simp: finish_run_def)
  qed
  then show ?thesis unfolding exec_line_accepted [OF src c] by blast
qed


definition screen_sem :: "string sem" where
  "screen_sem = \<lparr>se_env = demo_env, se_funcs = [], se_src = Map.empty\<rparr>"

lemma screen_sem_ok: "sem_ok screen_sem"
  by (simp add: sem_ok_def screen_sem_def quiet_def demo_env_def)

lemma demo_stages:
  "line_base bump_os demo_shell \<noteq> 0 \<and>
   (case line_stmts (line_base bump_os demo_shell) ''40+2;'' of
      Ok (ss, a) \<Rightarrow> ss = [A_STMTEXPR (A_BIN BIN_ADD (A_LIT 40) (A_LIT 2))] \<and>
        (case noc_compile bump_os ss a (funcs (sh_vm demo_shell))
             (snd (noc_os_alloc bump_os (of_nat NOC_ARENA_SIZE) (sh_log demo_shell))) of
           (Ok f, fs', l2) \<Rightarrow> fn_last_expr f \<and> length (fn_code f) < 2 ^ 32 | _ \<Rightarrow> False)
    | _ \<Rightarrow> False)"
  by code_simp


section \<open>Checking without running\<close>

lemma tok_array_fits: "base \<noteq> 0 \<Longrightarrow> noc_arena_alloc (sizeof_tok * NOC_MAX_TOKS) (line_arena base) \<noteq> None"
  by (simp add: noc_arena_alloc_def line_arena_def sizeof_tok_def NOC_MAX_TOKS_def NOC_ARENA_SIZE_def)

lemma exec_line_eq:
  assumes "noc_os_alloc os (of_nat NOC_ARENA_SIZE) (sh_log sh) = (base, l1)" and "base \<noteq> 0" and "src \<noteq> []"
  shows "\<exists>msg. noc_exec_line os env putc fuel (Some src) sh =
    (case line_stmts base src of
       Crash c \<Rightarrow> Broken c
     | Err e \<Rightarrow> refuse_line putc base msg (sh_vm sh) l1
     | Ok (ss, a) \<Rightarrow>
         (case noc_compile os ss a (funcs (sh_vm sh)) l1 of
            (Crash c, fs, l2) \<Rightarrow> Broken c
          | (Err e, fs, l2) \<Rightarrow> refuse_line putc base (or_default ''compile error'' e) ((sh_vm sh)\<lparr>funcs := fs\<rparr>) l2
          | (Ok f, fs, l2) \<Rightarrow> finish_run putc base f l2 (noc_vm_run env fuel f ((sh_vm sh)\<lparr>funcs := fs\<rparr>))))"
proof -
  obtain x xs where src: "src = x # xs" using assms(3) by (cases src) auto
  obtain a1 where "noc_arena_alloc (sizeof_tok * NOC_MAX_TOKS) (line_arena base) = Some a1"
    using tok_array_fits [OF assms(2)] by blast
  then show ?thesis using assms(2)
    unfolding noc_exec_line_def assms(1) src option.case list.case Let_def prod.case
    by (cases "noc_lex (x # xs) a1 NOC_MAX_TOKS") (auto simp: line_stmts_def split: res.splits prod.splits)
qed

lemma check_syntax_eq:
  assumes "noc_os_alloc os (of_nat NOC_ARENA_SIZE) log = (base, l1)" and "base \<noteq> 0" and "src \<noteq> []"
  shows "noc_check_syntax os (Some src) fs log =
    (case line_stmts base src of
       Crash c \<Rightarrow> Crash c
     | Err e \<Rightarrow> Ok (False, fs, noc_os_free base l1)
     | Ok (ss, a) \<Rightarrow>
         (case noc_compile os ss a fs l1 of
            (Crash c, fs', l2) \<Rightarrow> Crash c
          | (Err e, fs', l2) \<Rightarrow> Ok (False, fs', noc_os_free base l2)
          | (Ok f, fs', l2) \<Rightarrow> Ok (True, fs', noc_os_free base (free_chunk f l2))))"
proof -
  obtain x xs where src: "src = x # xs" using assms(3) by (cases src) auto
  obtain a1 where "noc_arena_alloc (sizeof_tok * NOC_MAX_TOKS) (line_arena base) = Some a1"
    using tok_array_fits [OF assms(2)] by blast
  then show ?thesis using assms(2)
    unfolding noc_check_syntax_def assms(1) src option.case list.case Let_def prod.case
    by (cases "noc_lex (x # xs) a1 NOC_MAX_TOKS") (auto simp: line_stmts_def split: res.splits prod.splits)
qed

lemma finish_run_accepts: "finish_run putc base f l r \<noteq> Ended False sh"
  by (auto simp: finish_run_def split: option.splits outcome.splits res.splits)

lemma finish_run_registry:
  assumes "keeps_registry env" and "finish_run putc base f l (noc_vm_run env fuel f s) = Ended b sh"
  shows "funcs (sh_vm sh) = funcs s"
  using finish_run_bal [OF assms(2,1), of 1] by simp

text \<open>
  C34 \<^verbatim>\<open>noc_check_syntax\<close> accepts exactly the lines \<^verbatim>\<open>noc_exec_line\<close> would not refuse, it gives back all
  the memory it took, and it leaves the registry as running the line would: a checked line that
  defines a function has defined it.
\<close>

theorem noc_check_syntax_agrees:
  assumes "src \<noteq> []" and "line_base os sh \<noteq> 0" and "keeps_registry env" and "fits_registry os src sh"
  shows "case noc_check_syntax os (Some src) (funcs (sh_vm sh)) (sh_log sh) of
      Ok (ok, fs', log') \<Rightarrow>
        (ok \<longleftrightarrow> (\<forall>sh'. noc_exec_line os env putc fuel (Some src) sh \<noteq> Ended False sh'))
        \<and> (\<forall>b sh'. noc_exec_line os env putc fuel (Some src) sh = Ended b sh' \<longrightarrow> funcs (sh_vm sh') = fs')
        \<and> (\<forall>p. p \<noteq> 0 \<longrightarrow> bal log' p - reg_own fs' p = bal (sh_log sh) p - reg_own (funcs (sh_vm sh)) p)
    | Err e \<Rightarrow> False
    | Crash c \<Rightarrow> noc_exec_line os env putc fuel (Some src) sh = Broken c"
proof -
  obtain base l1 where base: "noc_os_alloc os (of_nat NOC_ARENA_SIZE) (sh_log sh) = (base, l1)" by fastforce
  have lb: "line_base os sh = base" by (simp add: line_base_def base)
  note nz = assms(2) [unfolded lb]
  obtain msg where ex: "noc_exec_line os env putc fuel (Some src) sh =
    (case line_stmts base src of
       Crash c \<Rightarrow> Broken c
     | Err e \<Rightarrow> refuse_line putc base msg (sh_vm sh) l1
     | Ok (ss, a) \<Rightarrow>
         (case noc_compile os ss a (funcs (sh_vm sh)) l1 of
            (Crash c, fs, l2) \<Rightarrow> Broken c
          | (Err e, fs, l2) \<Rightarrow> refuse_line putc base (or_default ''compile error'' e) ((sh_vm sh)\<lparr>funcs := fs\<rparr>) l2
          | (Ok f, fs, l2) \<Rightarrow> finish_run putc base f l2 (noc_vm_run env fuel f ((sh_vm sh)\<lparr>funcs := fs\<rparr>))))"
    using exec_line_eq [OF base nz assms(1)] by blast
  note ck = check_syntax_eq [OF base nz assms(1), of "funcs (sh_vm sh)"]
  show ?thesis
  proof (cases "line_stmts base src")
    case (Ok x)
    obtain ss a where x: "x = (ss, a)" by fastforce
    obtain r fs' l2 where c: "noc_compile os ss a (funcs (sh_vm sh)) l1 = (r, fs', l2)" by (metis surj_pair)
    have fit: "length (funcs (sh_vm sh)) + length ss \<le> NOC_MAX_FUNCS" using assms(4) Ok x by (simp add: fits_registry_def lb)
    have bal: "bal l2 p - reg_own fs' p - (case r of Ok f \<Rightarrow> of_bool (fn_code_ptr f = p) + strings_own (fn_strings f) p | _ \<Rightarrow> 0)
        = bal (sh_log sh) p + of_bool (base = p) - reg_own (funcs (sh_vm sh)) p" if "p \<noteq> 0" "\<And>e. r \<noteq> Crash e" for p
      using noc_compile_balanced [OF c fit that(2,1)] bal_alloc [OF base, of p] by simp
    note ex' = ex [unfolded Ok x c res.case prod.case] and ck' = ck [unfolded Ok x c res.case prod.case]
    show ?thesis
    proof (cases r)
      case r: (Ok f)
      have "bal (noc_os_free base (free_chunk f l2)) p - reg_own fs' p = bal (sh_log sh) p - reg_own (funcs (sh_vm sh)) p"
        if "p \<noteq> 0" for p using bal [OF that] r that by simp
      then show ?thesis unfolding ex' ck' r res.case prod.case
        using finish_run_accepts [of putc base f l2]
          finish_run_registry [OF assms(3), of putc base f l2 fuel "(sh_vm sh)\<lparr>funcs := fs'\<rparr>"] by auto
    next
      case r: (Err e)
      have "bal (noc_os_free base l2) p - reg_own fs' p = bal (sh_log sh) p - reg_own (funcs (sh_vm sh)) p"
        if "p \<noteq> 0" for p using bal [OF that] r that by simp
      then show ?thesis unfolding ex' ck' r res.case prod.case by (auto simp: refuse_line_def)
    next
      case r: (Crash c)
      show ?thesis unfolding ex' ck' r by simp
    qed
  next
    case (Err e)
    then show ?thesis unfolding ex ck using bal_alloc [OF base] by (simp add: refuse_line_def)
  next
    case (Crash c)
    then show ?thesis unfolding ex ck by simp
  qed
qed

lemma demo_checks:
  "map_res fst (noc_check_syntax bump_os (Some ''40+2;'') (funcs (sh_vm demo_shell)) (sh_log demo_shell)) = Ok True"
  by code_simp

theorem noc_check_syntax_agrees_witness:
  "\<exists>fs' log'. noc_check_syntax bump_os (Some ''40+2;'') (funcs (sh_vm demo_shell)) (sh_log demo_shell) = Ok (True, fs', log')
     \<and> bal log' 0x1000 - reg_own fs' 0x1000 = 0"
proof -
  let ?c = "noc_check_syntax bump_os (Some ''40+2;'') (funcs (sh_vm demo_shell)) (sh_log demo_shell)"
  obtain fs' log' where c: "?c = Ok (True, fs', log')" using demo_checks by (cases ?c) auto
  have "line_base bump_os demo_shell \<noteq> 0" "fits_registry bump_os ''40+2;'' demo_shell" using demo_stages demo_runs by blast+
  from noc_check_syntax_agrees [where putc = to_screen and fuel = "20", OF _ this(1) demo_env_keeps this(2)]
  have "\<forall>p. p \<noteq> 0 \<longrightarrow> bal log' p - reg_own fs' p = bal (sh_log demo_shell) p - reg_own (funcs (sh_vm demo_shell)) p"
    unfolding c res.case prod.case by blast
  from spec [OF this, of "0x1000"] c show ?thesis by (simp add: demo_shell_def)
qed

end
