(* ===== verification/Vmm.thy ===== *)
theory Vmm
  imports Pmm "HOL-Library.Sublist"
begin

unbundle bit_operations_syntax

text \<open>
  Page tables, \<^verbatim>\<open>kernel/mm/vmm.c\<close>: four levels of 512-entry tables in physical frames. Physical memory
  is identity-mapped for the kernel; as page tables and pages are only ever accessed through page-aligned
  pointers, it is a function from page address to the 512 words of the page. The frame
  allocator is part of the state, because mapping a page may take frames for new tables.
\<close>

section \<open>Operations\<close>

record mmu =
  m_pmm :: pmm_state
  m_mem :: "u64 \<Rightarrow> nat \<Rightarrow> u64"

definition VMM_WRITE :: u8 where "VMM_WRITE = 2"
definition VMM_USER :: u8 where "VMM_USER = 4"

definition USER_IMAGE_BASE :: u64 where "USER_IMAGE_BASE = 0x0000010000000000"
definition USER_SCRIPT_BASE :: u64 where "USER_SCRIPT_BASE = 0x00000100C0000000"
definition USER_HEAP_BASE :: u64 where "USER_HEAP_BASE = 0x00000100D0000000"
definition USER_STACK_BASE :: u64 where "USER_STACK_BASE = 0x00000100F0000000"
definition USER_MODEL_BASE :: u64 where "USER_MODEL_BASE = 0x00000100F1000000"
definition USER_MODEL_MAX :: u64 where "USER_MODEL_MAX = 0x40000000"
definition USER_REGION_END :: u64 where "USER_REGION_END = 0x0000010100000000"

text \<open>The index into the table of level \<open>k\<close>: 3 for the PML4, 0 for the last level.\<close>

definition idx :: "nat \<Rightarrow> u64 \<Rightarrow> nat" where
  "idx k va = unat (drop_bit (12 + 9 * k) va AND 0x1FF)"

definition present :: "u64 \<Rightarrow> bool" where
  "present e \<longleftrightarrow> e AND 1 \<noteq> 0"

definition frame_of :: "u64 \<Rightarrow> u64" where
  "frame_of e = e AND NOT 0xFFF"

definition poke :: "u64 \<Rightarrow> nat \<Rightarrow> u64 \<Rightarrow> mmu \<Rightarrow> mmu" where
  "poke t i e s = s\<lparr>m_mem := (m_mem s)(t := (m_mem s t)(i := e))\<rparr>"

definition zero_page :: "u64 \<Rightarrow> mmu \<Rightarrow> mmu" where
  "zero_page f s = s\<lparr>m_mem := (m_mem s)(f := (\<lambda>_. 0))\<rparr>"

definition pt_new :: "u64 \<Rightarrow> nat \<Rightarrow> u8 \<Rightarrow> mmu \<Rightarrow> u64 \<times> mmu" where
  "pt_new t i flags s =
     (let (f, p) = pmm_alloc_frame (m_pmm s)
      in if f = 0 then (0, s\<lparr>m_pmm := p\<rparr>)
         else (f, poke t i (f OR ucast flags) (zero_page f (s\<lparr>m_pmm := p\<rparr>))))"

definition vmm_new_address_space :: "u64 \<Rightarrow> mmu \<Rightarrow> u64 \<times> mmu" where
  "vmm_new_address_space kernel_pml4 s =
     (let (f, p) = pmm_alloc_frame (m_pmm s)
      in if f = 0 then (0, s\<lparr>m_pmm := p\<rparr>)
         else (let s1 = zero_page f (s\<lparr>m_pmm := p\<rparr>) in (f, poke f 0 (m_mem s1 kernel_pml4 0) s1)))"

text \<open>One level of the walk of \<^verbatim>\<open>vmm_map\<close>: make the next table if there is none.\<close>

definition descend :: "u64 \<Rightarrow> nat \<Rightarrow> u8 \<Rightarrow> mmu \<Rightarrow> u64 option \<times> mmu" where
  "descend t i ient s =
     (if present (m_mem s t i) then (Some (frame_of (m_mem s t i)), s)
      else (let (f, s1) = pt_new t i ient s
            in if f = 0 then (None, s1) else (Some (frame_of (m_mem s1 t i)), s1)))"

definition vmm_map :: "u64 \<Rightarrow> u64 \<Rightarrow> u64 \<Rightarrow> u8 \<Rightarrow> mmu \<Rightarrow> mmu" where
  "vmm_map cr3 va pa flags s =
     (let entry_flags = 1 OR (ucast (flags AND 6) :: u64);
          ient = 3 OR (if flags AND VMM_USER \<noteq> 0 then VMM_USER else 0)
      in case descend cr3 (idx 3 va) ient s of
           (None, s) \<Rightarrow> s
         | (Some pdpt, s) \<Rightarrow>
             (case descend pdpt (idx 2 va) ient s of
                (None, s) \<Rightarrow> s
              | (Some pd, s) \<Rightarrow>
                  (case descend pd (idx 1 va) ient s of
                     (None, s) \<Rightarrow> s
                   | (Some pt, s) \<Rightarrow> poke pt (idx 0 va) (frame_of pa OR entry_flags) s)))"

text \<open>One level of a walk that only looks.\<close>

definition walk1 :: "mmu \<Rightarrow> u64 \<Rightarrow> nat \<Rightarrow> u64 option" where
  "walk1 s t i = (if present (m_mem s t i) then Some (frame_of (m_mem s t i)) else None)"

definition leaf_table :: "mmu \<Rightarrow> u64 \<Rightarrow> u64 \<Rightarrow> u64 option" where
  "leaf_table s cr3 va =
     Option.bind (walk1 s cr3 (idx 3 va)) (\<lambda>pdpt.
       Option.bind (walk1 s pdpt (idx 2 va)) (\<lambda>pd. walk1 s pd (idx 1 va)))"

definition vmm_unmap :: "u64 \<Rightarrow> u64 \<Rightarrow> mmu \<Rightarrow> mmu" where
  "vmm_unmap cr3 va s = (case leaf_table s cr3 va of None \<Rightarrow> s | Some pt \<Rightarrow> poke pt (idx 0 va) 0 s)"

definition vmm_translate :: "mmu \<Rightarrow> u64 \<Rightarrow> u64 \<Rightarrow> u64" where
  "vmm_translate s cr3 va =
     (case leaf_table s cr3 va of
        None \<Rightarrow> 0
      | Some pt \<Rightarrow> if present (m_mem s pt (idx 0 va)) then frame_of (m_mem s pt (idx 0 va)) else 0)"

fun alloc_pages :: "u64 \<Rightarrow> u64 \<Rightarrow> nat list \<Rightarrow> mmu \<Rightarrow> bool \<times> mmu" where
  "alloc_pages cr3 va [] s = (True, s)"
| "alloc_pages cr3 va (i # is) s =
     (let (f, p) = pmm_alloc_frame (m_pmm s)
      in if f = 0 then (False, s\<lparr>m_pmm := p\<rparr>)
         else alloc_pages cr3 va is
                (vmm_map cr3 (va + of_nat i * 4096) f (VMM_USER OR VMM_WRITE) (s\<lparr>m_pmm := p\<rparr>)))"

definition vmm_alloc_user_pages :: "u64 \<Rightarrow> u64 \<Rightarrow> u64 \<Rightarrow> mmu \<Rightarrow> u64 \<times> mmu" where
  "vmm_alloc_user_pages cr3 pages va s =
     (let (ok, s) = alloc_pages cr3 va [0..<unat pages] s in (if ok then va else 0, s))"

text \<open>Freeing an address space: the frames in the order the loops free them. The tables are read while
  frames go back to the allocator, whose state is apart from the memory.\<close>

definition sub_frames :: "mmu \<Rightarrow> u64 \<Rightarrow> (u64 \<Rightarrow> u64 list) \<Rightarrow> u64 list" where
  "sub_frames s t below =
     concat (map (\<lambda>i. if present (m_mem s t i) then below (frame_of (m_mem s t i)) else []) [0..<512]) @ [t]"

definition space_frames :: "mmu \<Rightarrow> u64 \<Rightarrow> u64 list" where
  "space_frames s pdpt = sub_frames s pdpt (\<lambda>pd. sub_frames s pd (\<lambda>pt. sub_frames s pt (\<lambda>f. [f])))"

definition vmm_free_address_space :: "u64 \<Rightarrow> mmu \<Rightarrow> mmu" where
  "vmm_free_address_space cr3 s =
     (if \<not> present (m_mem s cr3 2) then s
      else s\<lparr>m_pmm := fold pmm_free_frame (space_frames s (frame_of (m_mem s cr3 2)) @ [cr3]) (m_pmm s)\<rparr>)"

section \<open>Tables as a tree\<close>

text \<open>The table a path of indices leads to.\<close>

fun tab :: "mmu \<Rightarrow> u64 \<Rightarrow> nat list \<Rightarrow> u64 option" where
  "tab s t [] = Some t"
| "tab s t (i # is) = (case walk1 s t i of None \<Rightarrow> None | Some u \<Rightarrow> tab s u is)"

lemma tab_append: "tab s t (p @ q) = Option.bind (tab s t p) (\<lambda>u. tab s u q)"
  by (induction p arbitrary: t) (auto split: option.splits)

lemma tab_snoc: "tab s t (p @ [i]) = Option.bind (tab s t p) (\<lambda>u. walk1 s u i)"
  by (cases "tab s t p") (auto simp: tab_append split: option.splits)

lemma leaf_table_tab: "leaf_table s cr3 va = tab s cr3 [idx 3 va, idx 2 va, idx 1 va]"
  by (auto simp: leaf_table_def split: option.splits bind_split)

text \<open>A path depends only on the entries it passes.\<close>

lemma tab_cong:
  assumes "\<And>r i a. prefix (r @ [i]) q \<Longrightarrow> tab s t r = Some a \<Longrightarrow> m_mem s' a i = m_mem s a i"
  shows "tab s' t q = tab s t q"
  using assms
proof (induction q rule: rev_induct)
  case (snoc i q)
  have "tab s' t q = tab s t q" by (rule snoc.IH) (meson prefix_snoc snoc.prems)
  moreover have "walk1 s' a i = walk1 s a i" if "tab s t q = Some a" for a
    using snoc.prems [of q i a] that by (simp add: walk1_def)
  ultimately show ?case by (cases "tab s t q") (simp_all add: tab_snoc)
qed simp

section \<open>Address spaces\<close>

text \<open>
  A set of address spaces is in order when every table of their own parts (all but the kernel's half,
  entry 0 of the PML4, which they share) is an allocated frame that is reached on one path of one
  space only.
\<close>

definition is_frame :: "pmm_state \<Rightarrow> u64 \<Rightarrow> bool" where
  "is_frame p a \<longleftrightarrow> (\<exists>f. f < unat (total_frames p) \<and> used_frame p f \<and> a = of_nat f * FRAME_SIZE)"

definition upath :: "nat list \<Rightarrow> bool" where
  "upath p \<longleftrightarrow> length p \<le> 3 \<and> (p = [] \<or> hd p \<noteq> 0)"

definition spaces :: "mmu \<Rightarrow> u64 set \<Rightarrow> bool" where
  "spaces s C \<longleftrightarrow> pmm_inv (m_pmm s) \<and> used_frame (m_pmm s) 0
     \<and> (\<forall>c\<in>C. \<forall>p a. upath p \<longrightarrow> tab s c p = Some a \<longrightarrow> is_frame (m_pmm s) a)
     \<and> (\<forall>c\<in>C. \<forall>d\<in>C. \<forall>p q a. upath p \<longrightarrow> upath q \<longrightarrow> tab s c p = Some a \<longrightarrow> tab s d q = Some a \<longrightarrow> c = d \<and> p = q)"

lemma upath_prefix: "upath q \<Longrightarrow> prefix p q \<Longrightarrow> upath p"
  by (cases p) (auto simp: upath_def prefix_def)

lemma spaces_frame: "spaces s C \<Longrightarrow> c \<in> C \<Longrightarrow> upath p \<Longrightarrow> tab s c p = Some a \<Longrightarrow> is_frame (m_pmm s) a"
  by (auto simp: spaces_def)

lemma spaces_inj:
  "spaces s C \<Longrightarrow> c \<in> C \<Longrightarrow> d \<in> C \<Longrightarrow> upath p \<Longrightarrow> upath q \<Longrightarrow> tab s c p = Some a \<Longrightarrow> tab s d q = Some a \<Longrightarrow> c = d \<and> p = q"
  unfolding spaces_def by blast

lemma present_bit: "present e \<longleftrightarrow> bit e 0"
  by (simp add: present_def and_one_eq bit_0 odd_iff_mod_2_eq_one mod2_eq_if)

lemma frame_of_mask: "frame_of e = e AND NOT (mask 12)"
  by (simp add: frame_of_def mask_eq_exp_minus_1)

lemma bit_frame_of: "bit (frame_of e) n \<longleftrightarrow> bit e n \<and> 12 \<le> n"
  by (auto simp: frame_of_mask bit_simps dest: bit_imp_le_length)

lemma frame_of_idem [simp]: "frame_of (frame_of e) = frame_of e"
  by (rule bit_eqI) (auto simp: bit_frame_of)

lemma frame_of_or_flags: "frame_of (frame_of e OR ucast (x :: u8)) = frame_of e"
  by (rule bit_eqI) (auto simp: bit_frame_of bit_simps dest: bit_imp_le_length)

lemma frame_of_frame [simp]: "frame_of (of_nat k * FRAME_SIZE) = of_nat k * FRAME_SIZE"
proof -
  have "of_nat k * FRAME_SIZE = push_bit 12 (of_nat k :: u64)" by (simp add: FRAME_SIZE_def push_bit_eq_mult)
  then show ?thesis by (auto intro!: bit_eqI simp: bit_frame_of bit_simps)
qed

lemma poke_mem: "m_mem (poke t i e s) a j = (if a = t \<and> j = i then e else m_mem s a j)"
  by (simp add: poke_def)

lemma poke_pmm [simp]: "m_pmm (poke t i e s) = m_pmm s"
  by (simp add: poke_def)

text \<open>A fresh frame is not a table yet.\<close>

lemma alloc_fresh:
  assumes "pmm_inv p" and "used_frame p 0" and "pmm_alloc_frame p = (f, p')" and "f \<noteq> 0"
  shows "pmm_inv p' \<and> used_frame p' 0 \<and> is_frame p' f \<and> \<not> is_frame p f \<and> frame_of f = f
    \<and> (\<forall>a. is_frame p a \<longrightarrow> is_frame p' a) \<and> free_count p = Suc (free_count p')"
  using assms(1,3)
proof (cases rule: pmm_alloc_frame_cases)
  case (some i)
  have lim: "unat (total_frames p) \<le> PMM_MAX_FRAMES" using assms(1) by (simp add: pmm_inv_def)
  have inj: "k = i" if "k < unat (total_frames p)" "of_nat k * FRAME_SIZE = (of_nat i * FRAME_SIZE :: u64)" for k
  proof -
    have "unat (of_nat k * FRAME_SIZE :: u64) = k * 4096" by (rule frame_addr(1)) (use that lim in linarith)
    moreover have "unat (of_nat i * FRAME_SIZE :: u64) = i * 4096" by (rule frame_addr(1)) (use some(1) lim in linarith)
    ultimately have "k * 4096 = i * 4096" unfolding that(2) by linarith
    then show ?thesis by simp
  qed
  have "\<not> is_frame p f"
  proof
    assume "is_frame p f"
    then obtain k where k: "k < unat (total_frames p)" "used_frame p k" "f = of_nat k * FRAME_SIZE"
      unfolding is_frame_def by blast
    have "k = i" by (rule inj [OF k(1)]) (simp only: k(3) [symmetric] some(4))
    then show False using k(2) some(2) by simp
  qed
  moreover have "is_frame p' f"
    unfolding is_frame_def by (rule exI [of _ i]) (use some(1,4,5) in simp)
  moreover have "\<forall>a. is_frame p a \<longrightarrow> is_frame p' a"
    unfolding is_frame_def some(5) by (simp only: take_frame_simps) blast
  moreover have "frame_of f = f" unfolding some(4) by (rule frame_of_frame)
  ultimately show ?thesis using some(5,6) assms(2) free_count_take [OF some(1,2)] by simp
qed (use assms(4) in simp)

lemma alloc_none:
  assumes "pmm_inv p" and "used_frame p 0" and "pmm_alloc_frame p = (0, p')"
  shows "p' = p \<and> free_count p = 0"
  using assms(1,3)
proof (cases rule: pmm_alloc_frame_cases)
  case none
  then have e: "{i. i < unat (total_frames p) \<and> \<not> used_frame p i} = {}" by auto
  show ?thesis using none(2) unfolding free_count_def e by simp
next
  case (some i)
  have "unat (of_nat i * FRAME_SIZE :: u64) = i * 4096"
    using some(1) assms(1) by (intro frame_addr(1)) (simp add: pmm_inv_def)
  then have "i = 0" using some(4) by (metis mult_is_0 unat_0 zero_neq_numeral)
  then show ?thesis using some(2) assms(2) by simp
qed

section \<open>A new table\<close>

lemma new_table_tabs:
  assumes sp: "spaces s C" and c: "c \<in> C" "tab s c p = Some t" "upath (p @ [i])" "length p \<le> 2"
    and np: "\<not> present (m_mem s t i)" and new: "pt_new t i fl s = (f, s')" "f \<noteq> 0" and fl: "bit fl 0"
    and d: "d \<in> C" "upath q"
  shows "tab s' d q = (if d = c \<and> prefix (p @ [i]) q then (if q = p @ [i] then Some f else None) else tab s d q)"
proof -
  obtain pm where al: "pmm_alloc_frame (m_pmm s) = (f, pm)"
    and s': "s' = poke t i (f OR ucast fl) (zero_page f (s\<lparr>m_pmm := pm\<rparr>))"
    using new by (auto simp: pt_new_def Let_def split: prod.splits if_splits)
  have fr: "\<not> is_frame (m_pmm s) f" "frame_of f = f"
    using alloc_fresh [OF _ _ al new(2)] sp by (auto simp: spaces_def)
  have p: "upath p" using c(3) by (rule upath_prefix) simp
  have ft: "t \<noteq> f" using spaces_frame [OF sp c(1) p c(2)] fr by auto
  have mem: "m_mem s' a j = (if a = t \<and> j = i then f OR ucast fl else if a = f then 0 else m_mem s a j)" for a j
    by (simp add: s' poke_mem zero_page_def)
  have same: "tab s' d r = tab s d r" if "upath r" "\<not> (d = c \<and> prefix (p @ [i]) r)" for r
  proof (rule tab_cong)
    fix r' j a
    assume r': "prefix (r' @ [j]) r" "tab s d r' = Some a"
    have u: "upath r'" using that(1) r'(1) by (meson append_prefixD upath_prefix)
    have "a \<noteq> f" using spaces_frame [OF sp d(1) u r'(2)] fr by auto
    moreover have "\<not> (a = t \<and> j = i)"
      using spaces_inj [OF sp d(1) c(1) u p r'(2)] c(2) r'(1) that(2) by auto
    ultimately show "m_mem s' a j = m_mem s a j" by (auto simp: mem)
  qed
  show ?thesis
  proof (cases "d = c \<and> prefix (p @ [i]) q")
    case True
    then obtain r where q: "q = p @ i # r" by (auto simp: prefix_def)
    have "\<not> prefix (p @ [i]) p" by (simp add: prefix_def)
    then have "tab s' c p = Some t" using same [OF p] True c(2) by auto
    moreover have "present (f OR ucast fl)" using fl by (simp add: present_bit bit_simps)
    moreover have "frame_of (f OR ucast fl) = f" using frame_of_or_flags [of f fl] fr(2) by simp
    ultimately have "tab s' c q = tab s' f r" by (simp add: q tab_append walk1_def mem)
    also have "\<dots> = (if r = [] then Some f else None)" using ft by (cases r) (auto simp: walk1_def mem present_def)
    finally show ?thesis using True q by auto
  qed (use same d in auto)
qed

lemma new_table_spaces:
  assumes sp: "spaces s C" and c: "c \<in> C" "tab s c p = Some t" "upath (p @ [i])" "length p \<le> 2"
    and np: "\<not> present (m_mem s t i)" and new: "pt_new t i fl s = (f, s')" "f \<noteq> 0" and fl: "bit fl 0"
  shows "spaces s' C" and "free_count (m_pmm s) = Suc (free_count (m_pmm s'))"
proof -
  obtain pm where al: "pmm_alloc_frame (m_pmm s) = (f, pm)" and pm: "m_pmm s' = pm"
    using new by (auto simp: pt_new_def Let_def zero_page_def split: prod.splits if_splits)
  have fr: "pmm_inv pm" "used_frame pm 0" "is_frame pm f" "\<not> is_frame (m_pmm s) f"
    "\<And>a. is_frame (m_pmm s) a \<Longrightarrow> is_frame pm a" "free_count (m_pmm s) = Suc (free_count pm)"
    using alloc_fresh [OF _ _ al new(2)] sp by (auto simp: spaces_def)
  note tabs = new_table_tabs [OF sp c np new fl]
  have old: "tab s' d q = Some a \<Longrightarrow> tab s d q = Some a \<or> d = c \<and> q = p @ [i] \<and> a = f" if "d \<in> C" "upath q" for d q a
    using tabs [OF that] by (auto split: if_splits)
  have used: "is_frame (m_pmm s) a" if "d \<in> C" "upath q" "tab s d q = Some a" for d q a
    using spaces_frame [OF sp that] .
  have frames: "is_frame pm a" if "d \<in> C" "upath q" "tab s' d q = Some a" for d q a
    using old [OF that] used that fr(3,5) by blast
  have inj: "d = e \<and> q = r" if "d \<in> C" "e \<in> C" "upath q" "upath r" "tab s' d q = Some a" "tab s' e r = Some a" for d e q r a
    using old [OF that(1,3,5)] old [OF that(2,4,6)] used [OF that(1,3)] used [OF that(2,4)] fr(4) spaces_inj [OF sp that(1-4)] by blast
  show "spaces s' C" unfolding spaces_def pm using fr(1,2) frames inj by blast
  show "free_count (m_pmm s) = Suc (free_count (m_pmm s'))" using fr(6) pm by simp
qed

text \<open>What a walk reads at the end.\<close>

definition vpath :: "u64 \<Rightarrow> nat list" where
  "vpath va = [idx 3 va, idx 2 va, idx 1 va]"

lemma translate_vpath:
  "vmm_translate s c va = (case tab s c (vpath va) of None \<Rightarrow> 0
     | Some pt \<Rightarrow> if present (m_mem s pt (idx 0 va)) then frame_of (m_mem s pt (idx 0 va)) else 0)"
  by (simp add: vmm_translate_def leaf_table_tab vpath_def)

lemma upath_vpath: "idx 3 va \<noteq> 0 \<Longrightarrow> upath (vpath va)"
  by (simp add: upath_def vpath_def)

lemma new_table_view:
  assumes sp: "spaces s C" and c: "c \<in> C" "tab s c p = Some t" "upath (p @ [i])" "length p \<le> 2"
    and np: "\<not> present (m_mem s t i)" and new: "pt_new t i fl s = (f, s')" "f \<noteq> 0" and fl: "bit fl 0"
    and d: "d \<in> C" "idx 3 va \<noteq> 0"
  shows "vmm_translate s' d va = vmm_translate s d va"
proof -
  obtain pm where al: "pmm_alloc_frame (m_pmm s) = (f, pm)"
    and s': "s' = poke t i (f OR ucast fl) (zero_page f (s\<lparr>m_pmm := pm\<rparr>))"
    using new by (auto simp: pt_new_def Let_def split: prod.splits if_splits)
  have fr: "\<not> is_frame (m_pmm s) f" using alloc_fresh [OF _ _ al new(2)] sp by (auto simp: spaces_def)
  have mem: "m_mem s' a j = (if a = t \<and> j = i then f OR ucast fl else if a = f then 0 else m_mem s a j)" for a j
    by (simp add: s' poke_mem zero_page_def)
  have p: "upath p" using c(3) by (rule upath_prefix) simp
  have ft: "f \<noteq> t" using spaces_frame [OF sp c(1) p c(2)] fr by auto
  note q = upath_vpath [OF d(2)]
  note tabs = new_table_tabs [OF sp c np new fl d(1) q]
  show ?thesis
  proof (cases "d = c \<and> prefix (p @ [i]) (vpath va)")
    case True
    then obtain r where r: "vpath va = (p @ [i]) @ r" by (auto simp: prefix_def)
    have "tab s c (p @ [i]) = None" using c(2) np by (simp add: tab_snoc walk1_def)
    then have none: "tab s d (vpath va) = None" using True r by (simp add: tab_append del: append_assoc)
    have "present 0 = False" by (simp add: present_def)
    then show ?thesis using tabs True none ft by (auto simp: translate_vpath mem split: if_splits)
  next
    case False
    then have same: "tab s' d (vpath va) = tab s d (vpath va)" using tabs by auto
    show ?thesis
    proof (cases "tab s d (vpath va)")
      case (Some a)
      have "a \<noteq> f" using spaces_frame [OF sp d(1) q Some] fr by auto
      moreover have "a \<noteq> t"
        using spaces_inj [OF sp d(1) c(1) q p Some] c(2,4) by (auto simp: vpath_def)
      ultimately show ?thesis using same Some by (simp add: translate_vpath mem)
    qed (simp add: translate_vpath same)
  qed
qed

section \<open>The walk of a mapping\<close>

lemma descend_ok:
  assumes sp: "spaces s C" and c: "c \<in> C" "tab s c p = Some t" "upath (p @ [i])" "length p \<le> 2" and fl: "bit fl 0"
    and d: "descend t i fl s = (r, s')"
  shows "spaces s' C \<and> (\<forall>d\<in>C. \<forall>va. idx 3 va \<noteq> 0 \<longrightarrow> vmm_translate s' d va = vmm_translate s d va)
    \<and> free_count (m_pmm s) \<le> Suc (free_count (m_pmm s'))
    \<and> (case r of None \<Rightarrow> free_count (m_pmm s) = 0 | Some u \<Rightarrow> tab s' c (p @ [i]) = Some u)"
proof (cases "present (m_mem s t i)")
  case True
  then show ?thesis using d sp c(2) by (auto simp: descend_def tab_snoc walk1_def)
next
  case False
  obtain f s1 where f: "pt_new t i fl s = (f, s1)" by fastforce
  show ?thesis
  proof (cases "f = 0")
    case True
    have inv: "pmm_inv (m_pmm s)" "used_frame (m_pmm s) 0" using sp by (simp_all add: spaces_def)
    obtain pm where "pmm_alloc_frame (m_pmm s) = (0, pm)" "s1 = s\<lparr>m_pmm := pm\<rparr>"
      using f True by (auto simp: pt_new_def Let_def split: prod.splits if_splits)
    moreover from this have "pm = m_pmm s \<and> free_count (m_pmm s) = 0" using alloc_none [OF inv] by blast
    ultimately show ?thesis using d False f True sp by (auto simp: descend_def)
  next
    case ok: False
    note new = sp c False f ok fl
    have r: "r = Some (frame_of (m_mem s1 t i))" "s' = s1" using d False f ok by (auto simp: descend_def)
    have p: "upath p" using c(3) by (rule upath_prefix) simp
    have t1: "tab s1 c (p @ [i]) = Some f" using new_table_tabs [OF new c(1,3)] by simp
    have "\<not> prefix (p @ [i]) p" by (simp add: prefix_def)
    then have "tab s1 c p = Some t" using new_table_tabs [OF new c(1) p] c(2) by simp
    then have "frame_of (m_mem s1 t i) = f" using t1 by (simp add: tab_snoc walk1_def split: if_splits)
    then show ?thesis using r t1 new_table_spaces [OF new] new_table_view [OF new] by simp
  qed
qed

lemma poke_leaf:
  assumes sp: "spaces s C" and c: "c \<in> C" "tab s c p = Some t" "upath p" "length p = 3"
  shows "spaces (poke t i e s) C"
    and "d \<in> C \<Longrightarrow> upath q \<Longrightarrow> tab (poke t i e s) d q = tab s d q"
    and "d \<in> C \<Longrightarrow> idx 3 va \<noteq> 0 \<Longrightarrow> vmm_translate (poke t i e s) d va =
      (if d = c \<and> vpath va = p \<and> idx 0 va = i then (if present e then frame_of e else 0) else vmm_translate s d va)"
proof -
  have tabs: "tab (poke t i e s) d q = tab s d q" if "d \<in> C" "upath q" for d q
  proof (rule tab_cong)
    fix r j a
    assume r: "prefix (r @ [j]) q" "tab s d r = Some a"
    have "length r < 3" using r(1) that(2) by (auto simp: upath_def prefix_def)
    moreover have "upath r" using that(2) r(1) by (meson append_prefixD upath_prefix)
    ultimately have "a \<noteq> t" using spaces_inj [OF sp that(1) c(1) _ c(3) r(2)] c(2,4) by auto
    then show "m_mem (poke t i e s) a j = m_mem s a j" by (simp add: poke_mem)
  qed
  then show "spaces (poke t i e s) C" using sp unfolding spaces_def by simp
  show "d \<in> C \<Longrightarrow> upath q \<Longrightarrow> tab (poke t i e s) d q = tab s d q" by (rule tabs)
  assume d: "d \<in> C" "idx 3 va \<noteq> 0"
  note q = upath_vpath [OF d(2)]
  show "vmm_translate (poke t i e s) d va =
      (if d = c \<and> vpath va = p \<and> idx 0 va = i then (if present e then frame_of e else 0) else vmm_translate s d va)"
  proof (cases "tab s d (vpath va)")
    case None
    then have "\<not> (d = c \<and> vpath va = p)" using c(2) by auto
    then show ?thesis using None tabs [OF d(1) q] by (auto simp: translate_vpath)
  next
    case (Some a)
    have "a = t \<longleftrightarrow> d = c \<and> vpath va = p" using spaces_inj [OF sp d(1) c(1) q c(3) Some] Some c(2) by auto
    then show ?thesis using Some tabs [OF d(1) q] by (auto simp: translate_vpath poke_mem)
  qed
qed

lemma leaf_entry: "present (frame_of pa OR (1 OR ucast (x :: u8)))" "frame_of (frame_of pa OR (1 OR ucast (x :: u8))) = frame_of pa"
proof -
  show "present (frame_of pa OR (1 OR ucast (x :: u8)))" by (simp add: present_bit bit_simps)
  show "frame_of (frame_of pa OR (1 OR ucast (x :: u8))) = frame_of pa"
    by (rule bit_eqI) (auto simp: bit_frame_of bit_simps bit_1_iff dest: bit_imp_le_length)
qed

lemma ient_present: "bit (3 OR (if b then VMM_USER else 0) :: u8) 0"
  by (simp add: bit_simps)

text \<open>The page a virtual address lies in, as far as the tables can tell.\<close>

definition page_of :: "u64 \<Rightarrow> nat list \<times> nat" where
  "page_of va = (vpath va, idx 0 va)"

definition view_but :: "u64 set \<Rightarrow> u64 \<Rightarrow> u64 \<Rightarrow> mmu \<Rightarrow> mmu \<Rightarrow> bool" where
  "view_but C c va s s' \<longleftrightarrow>
     (\<forall>d\<in>C. \<forall>va'. idx 3 va' \<noteq> 0 \<longrightarrow> d \<noteq> c \<or> page_of va' \<noteq> page_of va \<longrightarrow> vmm_translate s' d va' = vmm_translate s d va')"

lemma view_but_all:
  "\<forall>d\<in>C. \<forall>va. idx 3 va \<noteq> 0 \<longrightarrow> vmm_translate s' d va = vmm_translate s d va \<Longrightarrow> view_but C c va s s'"
  by (simp add: view_but_def)

lemma view_but_trans: "view_but C c va s s' \<Longrightarrow> view_but C c va s' s'' \<Longrightarrow> view_but C c va s s''"
  by (simp add: view_but_def)

lemma vmm_map_spaces:
  assumes sp: "spaces s C" and c: "c \<in> C" "idx 3 va \<noteq> 0"
  shows "spaces (vmm_map c va pa fl s) C \<and> view_but C c va s (vmm_map c va pa fl s)
    \<and> (3 \<le> free_count (m_pmm s) \<longrightarrow> vmm_translate (vmm_map c va pa fl s) c va = frame_of pa)"
proof -
  define ient where "ient = (3 OR (if fl AND VMM_USER \<noteq> 0 then VMM_USER else 0) :: u8)"
  have fl: "bit ient 0" unfolding ient_def by (rule ient_present)
  have paths: "upath ([] @ [idx 3 va])" "upath ([idx 3 va] @ [idx 2 va])" "upath ([idx 3 va, idx 2 va] @ [idx 1 va])"
    using c(2) by (simp_all add: upath_def)
  obtain r1 s1 where d1: "descend c (idx 3 va) ient s = (r1, s1)" by fastforce
  note ok1 = descend_ok [OF sp c(1) _ paths(1) _ fl d1, simplified]
  show ?thesis
  proof (cases r1)
    case None
    then show ?thesis using d1 ok1 view_but_all [of C s1 s c va] by (simp add: vmm_map_def ient_def [symmetric])
  next
    case r1: (Some t1)
    obtain r2 s2 where d2: "descend t1 (idx 2 va) ient s1 = (r2, s2)" by fastforce
    note ok2 = descend_ok [OF _ c(1) _ paths(2) _ fl d2, simplified]
    show ?thesis
    proof (cases r2)
      case None
      then show ?thesis using d1 d2 ok1 ok2 r1 view_but_all [of C s1 s c va] view_but_all [of C s2 s1 c va] view_but_trans
        by (simp add: vmm_map_def ient_def [symmetric])
    next
      case r2: (Some t2)
      obtain r3 s3 where d3: "descend t2 (idx 1 va) ient s2 = (r3, s3)" by fastforce
      note ok3 = descend_ok [OF _ c(1) _ paths(3) _ fl d3, simplified]
      have v: "view_but C c va s s1" "view_but C c va s1 s2" "view_but C c va s2 s3" "spaces s3 C"
        using ok1 ok2 ok3 r1 r2 by (auto intro: view_but_all)
      have v3: "view_but C c va s s3" using v(1-3) view_but_trans by blast
      show ?thesis
      proof (cases r3)
        case None
        then show ?thesis using d1 d2 d3 ok1 ok2 ok3 r1 r2 v v3 by (simp add: vmm_map_def ient_def [symmetric])
      next
        case r3: (Some t3)
        let ?e = "frame_of pa OR (1 OR ucast (fl AND 6))"
        have m: "vmm_map c va pa fl s = poke t3 (idx 0 va) ?e s3"
          using d1 d2 d3 r1 r2 r3 by (simp add: vmm_map_def ient_def [symmetric])
        have t3: "tab s3 c (vpath va) = Some t3" using ok1 ok2 ok3 r1 r2 r3 by (simp add: vpath_def)
        note leaf = poke_leaf [OF v(4) c(1) t3 upath_vpath [OF c(2)], where i = "idx 0 va" and e = ?e]
        have "view_but C c va s3 (poke t3 (idx 0 va) ?e s3)"
          using leaf(3) by (auto simp: view_but_def page_of_def vpath_def)
        then have "view_but C c va s (poke t3 (idx 0 va) ?e s3)" using v3 view_but_trans by blast
        moreover have "vmm_translate (poke t3 (idx 0 va) ?e s3) c va = frame_of pa"
          using leaf(3) [OF _ c] leaf_entry [of pa "fl AND 6"] by (simp add: vpath_def)
        ultimately show ?thesis using m leaf(1) by (simp add: vpath_def)
      qed
    qed
  qed
qed

lemma vmm_unmap_spaces:
  assumes sp: "spaces s C" and c: "c \<in> C" "idx 3 va \<noteq> 0"
  shows "spaces (vmm_unmap c va s) C \<and> view_but C c va s (vmm_unmap c va s) \<and> vmm_translate (vmm_unmap c va s) c va = 0"
proof (cases "tab s c (vpath va)")
  case None
  then show ?thesis using sp by (simp add: vmm_unmap_def leaf_table_tab vpath_def view_but_def translate_vpath)
next
  case (Some t)
  then have m: "vmm_unmap c va s = poke t (idx 0 va) 0 s" by (simp add: vmm_unmap_def leaf_table_tab vpath_def)
  have "present 0 = False" by (simp add: present_def)
  then show ?thesis
    using poke_leaf [OF sp c(1) Some upath_vpath [OF c(2)], where i = "idx 0 va" and e = 0] c
    by (auto simp: m vpath_def view_but_def page_of_def)
qed

lemma new_space:
  assumes sp: "spaces s C" and new: "vmm_new_address_space k s = (c, s')" "c \<noteq> 0"
  shows "spaces s' (insert c C) \<and> c \<notin> C
    \<and> (\<forall>d\<in>C. \<forall>va. idx 3 va \<noteq> 0 \<longrightarrow> vmm_translate s' d va = vmm_translate s d va)
    \<and> (\<forall>va. idx 3 va \<noteq> 0 \<longrightarrow> vmm_translate s' c va = 0)"
proof -
  obtain pm where al: "pmm_alloc_frame (m_pmm s) = (c, pm)"
    and s': "s' = (let s1 = zero_page c (s\<lparr>m_pmm := pm\<rparr>) in poke c 0 (m_mem s1 k 0) s1)"
    using new by (auto simp: vmm_new_address_space_def Let_def split: prod.splits if_splits)
  have fr: "pmm_inv pm" "used_frame pm 0" "is_frame pm c" "\<not> is_frame (m_pmm s) c"
    "\<And>a. is_frame (m_pmm s) a \<Longrightarrow> is_frame pm a"
    using alloc_fresh [OF _ _ al new(2)] sp by (auto simp: spaces_def)
  have pm: "m_pmm s' = pm" by (simp add: s' Let_def zero_page_def)
  have mem: "m_mem s' a j = m_mem s a j" if "a \<noteq> c" for a j using that by (simp add: s' Let_def zero_page_def poke_mem)
  have zero: "m_mem s' c j = 0" if "j \<noteq> 0" for j using that by (simp add: s' Let_def zero_page_def poke_mem)
  have notc: "a \<noteq> c" if "d \<in> C" "upath q" "tab s d q = Some a" for d q a
    using spaces_frame [OF sp that] fr(4) by auto
  have cC: "c \<notin> C" using notc [of c "[]" c] by (auto simp: upath_def)
  have old: "tab s' d q = tab s d q" if "d \<in> C" "upath q" for d q
  proof (rule tab_cong)
    fix r i a
    assume r: "prefix (r @ [i]) q" "tab s d r = Some a"
    have "upath r" using that(2) r(1) by (meson append_prefixD upath_prefix)
    then show "m_mem s' a i = m_mem s a i" using notc [OF that(1) _ r(2)] mem by blast
  qed
  have own: "tab s' c q = (if q = [] then Some c else None)" if "upath q" for q
    using that zero by (cases q) (auto simp: upath_def walk1_def present_def)
  have frames: "is_frame pm a" if "d \<in> insert c C" "upath q" "tab s' d q = Some a" for d q a
    using that old own spaces_frame [OF sp] fr(3,5) by (auto split: if_splits)
  have inj: "d = e \<and> q = r"
    if "d \<in> insert c C" "e \<in> insert c C" "upath q" "upath r" "tab s' d q = Some a" "tab s' e r = Some a" for d e q r a
  proof (cases "a = c")
    case True
    have "x = c \<and> y = []" if "x \<in> insert c C" "upath y" "tab s' x y = Some c" for x y
      using that own [of y] old [of x y] notc [of x y c] by (auto split: if_splits)
    then show ?thesis using that True by blast
  next
    case False
    have "x \<in> C \<and> tab s x y = Some a" if "x \<in> insert c C" "upath y" "tab s' x y = Some a" for x y
      using that own [of y] old [of x y] False by (auto split: if_splits)
    then show ?thesis using that spaces_inj [OF sp, of d e q r a] by blast
  qed
  have "spaces s' (insert c C)" unfolding spaces_def pm using fr(1,2) frames inj by blast
  moreover have "vmm_translate s' d va = vmm_translate s d va" if "d \<in> C" "idx 3 va \<noteq> 0" for d va
    using old [OF that(1) upath_vpath [OF that(2)]] notc [OF that(1) upath_vpath [OF that(2)]] mem
    by (auto simp: translate_vpath split: option.splits)
  moreover have "vmm_translate s' c va = 0" if "idx 3 va \<noteq> 0" for va
    using own [OF upath_vpath [OF that]] by (simp add: translate_vpath vpath_def)
  ultimately show ?thesis using cC by blast
qed

section \<open>Freeing an address space\<close>

lemma idx_less: "idx k va < 512"
proof -
  have "drop_bit (12 + 9 * k) va AND 0x1FF \<le> 0x1FF" by (rule word_and_le1)
  then have "idx k va \<le> unat (0x1FF :: u64)" unfolding idx_def by (rule word_le_nat_alt [THEN iffD1])
  then show ?thesis by simp
qed

lemma used_fold_free:
  "used_frame (fold pmm_free_frame as p) j \<longleftrightarrow>
     used_frame p j \<and> (\<forall>a\<in>set as. j \<noteq> unat (a div FRAME_SIZE) \<or> \<not> a div FRAME_SIZE < total_frames p)"
  by (induction as arbitrary: p) (auto simp: used_pmm_free_frame)

lemma fold_free_total: "total_frames (fold pmm_free_frame as p) = total_frames p"
  by (induction as arbitrary: p) simp_all

lemma fold_free_inv: "pmm_inv p \<Longrightarrow> pmm_inv (fold pmm_free_frame as p)"
  by (rule fold_invariant) (auto intro: pmm_free_frame_inv)

lemma sub_frames_mem:
  "a \<in> set (sub_frames s t below) \<longleftrightarrow> a = t \<or> (\<exists>i<512. \<exists>u. walk1 s t i = Some u \<and> a \<in> set (below u))"
  by (auto simp: sub_frames_def walk1_def split: if_splits)

lemma frame_index:
  assumes "pmm_inv p" and "is_frame p a"
  shows "a div FRAME_SIZE < total_frames p \<and> unat a = unat (a div FRAME_SIZE) * 4096"
proof -
  obtain f where f: "f < unat (total_frames p)" "a = of_nat f * FRAME_SIZE" using assms(2) by (auto simp: is_frame_def)
  have le: "f \<le> PMM_MAX_FRAMES" using assms(1) f(1) by (simp add: pmm_inv_def)
  show ?thesis unfolding f(2) frame_addr(2) [OF le] frame_addr(1) [OF le]
    using f(1) frame_addr(3) [OF le] by (simp add: word_less_nat_alt)
qed

lemma sub_frames_root: "t \<in> set (sub_frames s t below)"
  by (simp add: sub_frames_mem)

lemma sub_frames_step: "walk1 s t i = Some v \<Longrightarrow> i < 512 \<Longrightarrow> u \<in> set (below v) \<Longrightarrow> u \<in> set (sub_frames s t below)"
  by (auto simp: sub_frames_mem)

lemma space_frames_tab:
  assumes "tab s t p = Some u" and "\<forall>i\<in>set p. i < 512" and "length p \<le> 3"
  shows "u \<in> set (space_frames s t)"
proof -
  consider "p = []" | i where "p = [i]" | i j where "p = [i, j]" | i j k where "p = [i, j, k]"
    using assms(3) by (metis (no_types, lifting) Suc_le_mono le_zero_eq length_0_conv length_Cons list.exhaust numeral_3_eq_3)
  then show ?thesis
  proof cases
    case 4
    then obtain v w where vw: "walk1 s t i = Some v" "walk1 s v j = Some w" "walk1 s w k = Some u" "i < 512" "j < 512" "k < 512"
      using assms(1,2) by (auto split: option.splits)
    show ?thesis unfolding space_frames_def
      by (rule sub_frames_step [OF vw(1,4)], rule sub_frames_step [OF vw(2,5)], rule sub_frames_step [OF vw(3,6)]) simp
  qed (use assms(1,2) in \<open>auto simp: space_frames_def split: option.splits intro: sub_frames_root sub_frames_step\<close>)
qed

text \<open>The pages and tables below an entry of the PML4.\<close>

lemma freed_frames:
  assumes "tab s c (2 # p) = Some a" and "\<forall>i\<in>set p. i < 512" and "length p \<le> 3"
    and "a div FRAME_SIZE < total_frames (m_pmm s)"
  shows "\<not> used_frame (m_pmm (vmm_free_address_space c s)) (unat (a div FRAME_SIZE))"
proof -
  obtain t where t: "walk1 s c 2 = Some t" "tab s t p = Some a" using assms(1) by (auto split: option.splits)
  then have "present (m_mem s c 2)" "t = frame_of (m_mem s c 2)" by (auto simp: walk1_def split: if_splits)
  moreover have "a \<in> set (space_frames s t)" by (rule space_frames_tab [OF t(2) assms(2,3)])
  ultimately show ?thesis using assms(4) by (auto simp: vmm_free_address_space_def used_fold_free simp del: fold_append)
qed

lemma translate_tab:
  "vmm_translate s c va \<noteq> 0 \<Longrightarrow> tab s c (vpath va @ [idx 0 va]) = Some (vmm_translate s c va)"
  by (auto simp: translate_vpath tab_snoc walk1_def split: option.splits if_splits)

lemma space_frames_tabs:
  assumes "a \<in> set (space_frames s t)"
  obtains p where "tab s t p = Some a" "length p \<le> 3"
proof -
  have "\<exists>p. tab s t p = Some a \<and> length p \<le> 3"
    using assms unfolding space_frames_def sub_frames_mem
    apply (elim disjE exE conjE)
    subgoal by (intro exI [of _ "[]"]) simp
    subgoal for i u by (intro exI [of _ "[i]"]) simp
    subgoal for i u j v by (intro exI [of _ "[i, j]"]) simp
    subgoal for i u j v k w by (intro exI [of _ "[i, j, k]"]) simp
    done
  then show thesis using that by blast
qed

text \<open>The pages a space maps below entry 2 are not tables of another space.\<close>

definition pages_apart :: "mmu \<Rightarrow> u64 \<Rightarrow> u64 set \<Rightarrow> bool" where
  "pages_apart s c D \<longleftrightarrow> (\<forall>p a. length p = 3 \<longrightarrow> tab s c (2 # p) = Some a \<longrightarrow> (\<forall>d\<in>D. \<forall>q. upath q \<longrightarrow> tab s d q \<noteq> Some a))"

lemma tab_aligned: "tab s t p = Some a \<Longrightarrow> frame_of t = t \<Longrightarrow> frame_of a = a"
  by (induction p arbitrary: t) (auto simp: walk1_def split: option.splits if_splits)

lemma aligned_index:
  assumes "frame_of x = x"
  shows "x = of_nat (unat (x div FRAME_SIZE)) * FRAME_SIZE"
proof -
  have low: "12 \<le> n" if "bit x n" for n using bit_frame_of [of x n] that unfolding assms by simp
  have "bit x n \<longleftrightarrow> bit (push_bit 12 (drop_bit 12 x)) n" for n
    using low [of n] bit_imp_le_length [of x n] by (cases "12 \<le> n") (auto simp: bit_push_bit_iff bit_drop_bit_eq)
  then have "x = push_bit 12 (drop_bit 12 x)" by (intro bit_eqI) blast
  also have "\<dots> = (x div FRAME_SIZE) * FRAME_SIZE" by (simp add: FRAME_SIZE_def push_bit_eq_mult drop_bit_eq_div)
  finally show ?thesis by simp
qed

lemma free_others:
  assumes sp: "spaces s C" and c: "c \<in> C" and pages: "pages_apart s c (C - {c})"
    and d: "d \<in> C - {c}" "upath q" "tab s d q = Some a"
  shows "is_frame (m_pmm (vmm_free_address_space c s)) a"
proof (cases "present (m_mem s c 2)")
  case False
  then show ?thesis using spaces_frame [OF sp _ d(2,3)] d(1) by (simp add: vmm_free_address_space_def)
next
  case True
  let ?t = "frame_of (m_mem s c 2)"
  have cf: "is_frame (m_pmm s) c" using spaces_frame [OF sp c, of "[]" c] by (simp add: upath_def)
  obtain f where f: "f < unat (total_frames (m_pmm s))" "used_frame (m_pmm s) f" "a = of_nat f * FRAME_SIZE"
    using spaces_frame [OF sp _ d(2,3)] d(1) unfolding is_frame_def by blast
  have "x \<noteq> a \<and> frame_of x = x" if x: "x \<in> set (space_frames s ?t @ [c])" for x
  proof (cases "x = c")
    case True
    have "c \<noteq> a" using spaces_inj [OF sp c _ _ d(2), of d "[]" a] d by (auto simp: upath_def)
    moreover have "frame_of c = c" using cf by (auto simp: is_frame_def)
    ultimately show ?thesis using True by simp
  next
    case False
    then have "x \<in> set (space_frames s ?t)" using x by simp
    then obtain p where p: "tab s ?t p = Some x" "length p \<le> 3" by (rule space_frames_tabs)
    then have tx: "tab s c (2 # p) = Some x" using True by (simp add: walk1_def)
    have "x \<noteq> a"
    proof (cases "length p = 3")
      case True
      then show ?thesis using pages tx d unfolding pages_apart_def by blast
    next
      case False
      then have "upath (2 # p)" using p(2) by (simp add: upath_def)
      then show ?thesis using spaces_inj [OF sp c _ _ d(2) tx, of d] d by auto
    qed
    then show ?thesis using tab_aligned [OF p(1)] by simp
  qed
  then have "f \<noteq> unat (x div FRAME_SIZE)" if "x \<in> set (space_frames s ?t @ [c])" for x
    using aligned_index [of x] that f(3) by metis
  then have "used_frame (m_pmm (vmm_free_address_space c s)) f"
    using True f(2) by (simp add: vmm_free_address_space_def used_fold_free del: fold_append)
  moreover have "total_frames (m_pmm (vmm_free_address_space c s)) = total_frames (m_pmm s)"
    using True by (simp add: vmm_free_address_space_def fold_free_total del: fold_append)
  ultimately show ?thesis using f unfolding is_frame_def by metis
qed

lemma free_space_spaces:
  assumes sp: "spaces s C" and c: "c \<in> C" and pages: "pages_apart s c (C - {c})" and fr0: "used_frame (m_pmm (vmm_free_address_space c s)) 0"
  shows "spaces (vmm_free_address_space c s) (C - {c})"
proof -
  have mem: "m_mem (vmm_free_address_space c s) = m_mem s" by (simp add: vmm_free_address_space_def)
  have tabs: "tab (vmm_free_address_space c s) d q = tab s d q" for d q
    by (rule tab_cong) (simp add: mem)
  have "pmm_inv (m_pmm (vmm_free_address_space c s))"
    using sp fold_free_inv by (simp add: vmm_free_address_space_def spaces_def del: fold_append)
  moreover have "is_frame (m_pmm (vmm_free_address_space c s)) a" if "d \<in> C - {c}" "upath q" "tab s d q = Some a" for d q a
    using free_others [OF sp c pages that] .
  moreover have "d = e \<and> q = r" if "d \<in> C - {c}" "e \<in> C - {c}" "upath q" "upath r" "tab s d q = Some a" "tab s e r = Some a" for d e q r a
    using spaces_inj [OF sp _ _ that(3-6)] that(1,2) by blast
  ultimately show ?thesis using fr0 unfolding spaces_def tabs by blast
qed

section \<open>Memory of data frames\<close>

text \<open>A frame that is allocated and is not a table of any space: mapping pages does not write to it.\<close>

definition is_data :: "mmu \<Rightarrow> u64 set \<Rightarrow> u64 \<Rightarrow> bool" where
  "is_data s C a \<longleftrightarrow> is_frame (m_pmm s) a \<and> (\<forall>c\<in>C. \<forall>p. upath p \<longrightarrow> tab s c p \<noteq> Some a)"

lemma alloc_data:
  assumes sp: "spaces s C" and al: "pmm_alloc_frame (m_pmm s) = (f, p)" "f \<noteq> 0"
  shows "spaces (s\<lparr>m_pmm := p\<rparr>) C" "is_data (s\<lparr>m_pmm := p\<rparr>) C f" "frame_of f = f" "free_count (m_pmm s) = Suc (free_count p)"
proof -
  have inv: "pmm_inv (m_pmm s)" "used_frame (m_pmm s) 0" using sp by (simp_all add: spaces_def)
  have fr: "pmm_inv p" "used_frame p 0" "is_frame p f" "\<not> is_frame (m_pmm s) f" "frame_of f = f"
    "\<And>a. is_frame (m_pmm s) a \<Longrightarrow> is_frame p a" "free_count (m_pmm s) = Suc (free_count p)"
    using alloc_fresh [OF inv al] by blast+
  have t: "tab (s\<lparr>m_pmm := p\<rparr>) c q = tab s c q" for c q by (rule tab_cong) simp
  show "spaces (s\<lparr>m_pmm := p\<rparr>) C" using sp fr(1,2,6) unfolding spaces_def t by simp
  have "tab s c q \<noteq> Some f" if "c \<in> C" "upath q" for c q using spaces_frame [OF sp that] fr(4) by blast
  then show "is_data (s\<lparr>m_pmm := p\<rparr>) C f" using fr(3) by (simp add: is_data_def t)
  show "frame_of f = f" "free_count (m_pmm s) = Suc (free_count p)" by (fact fr)+
qed

lemma write_tab:
  assumes "is_data s C f" "c \<in> C" "upath q"
  shows "tab (s\<lparr>m_mem := (m_mem s)(f := page)\<rparr>) c q = tab s c q"
proof (rule tab_cong)
  fix r i a
  assume r: "prefix (r @ [i]) q" "tab s c r = Some a"
  have "upath r" using assms(3) r(1) by (meson append_prefixD upath_prefix)
  then have "a \<noteq> f" using assms(1,2) r(2) by (auto simp: is_data_def)
  then show "m_mem (s\<lparr>m_mem := (m_mem s)(f := page)\<rparr>) a i = m_mem s a i" by simp
qed

lemma write_data:
  assumes "spaces s C" "is_data s C f"
  shows "spaces (s\<lparr>m_mem := (m_mem s)(f := page)\<rparr>) C" "is_data (s\<lparr>m_mem := (m_mem s)(f := page)\<rparr>) C a \<longleftrightarrow> is_data s C a"
proof -
  note t = write_tab [OF assms(2), where page = page]
  show "spaces (s\<lparr>m_mem := (m_mem s)(f := page)\<rparr>) C" using assms(1) t unfolding spaces_def by simp
  show "is_data (s\<lparr>m_mem := (m_mem s)(f := page)\<rparr>) C a \<longleftrightarrow> is_data s C a" using t by (auto simp: is_data_def)
qed

lemma free_data:
  assumes sp: "spaces s C" and f: "is_data s C f" "f \<noteq> 0"
  shows "spaces (s\<lparr>m_pmm := pmm_free_frame f (m_pmm s)\<rparr>) C"
proof -
  obtain n where n: "n < unat (total_frames (m_pmm s))" "f = of_nat n * FRAME_SIZE"
    using f(1) unfolding is_data_def is_frame_def by blast
  have lim: "unat (total_frames (m_pmm s)) \<le> PMM_MAX_FRAMES" using sp by (simp add: spaces_def pmm_inv_def)
  have le: "n \<le> PMM_MAX_FRAMES" using n(1) lim by linarith
  have idx: "unat (f div FRAME_SIZE) = n" unfolding n(2) frame_addr(2) [OF le] by (rule frame_addr(3) [OF le])
  have t: "tab (s\<lparr>m_pmm := p\<rparr>) c q = tab s c q" for c q p by (rule tab_cong) simp
  have keep: "is_frame (pmm_free_frame f (m_pmm s)) a" if fr: "is_frame (m_pmm s) a" and ne: "a \<noteq> f" for a
  proof -
    obtain m where m: "m < unat (total_frames (m_pmm s))" "used_frame (m_pmm s) m" "a = of_nat m * FRAME_SIZE"
      using fr unfolding is_frame_def by blast
    have "m \<noteq> n" using ne unfolding m(3) n(2) by blast
    then have "used_frame (pmm_free_frame f (m_pmm s)) m" using m(2) by (simp add: used_pmm_free_frame idx)
    then show ?thesis using m(1,3) unfolding is_frame_def pmm_free_frame_total by blast
  qed
  have "n \<noteq> 0" using f(2) unfolding n(2) by (rule contrapos_nn) simp
  then have "used_frame (pmm_free_frame f (m_pmm s)) 0" using sp by (simp add: used_pmm_free_frame idx spaces_def)
  moreover have "a \<noteq> f" if "c \<in> C" "upath q" "tab s c q = Some a" for c q a using f(1) that unfolding is_data_def by blast
  moreover have "pmm_inv (pmm_free_frame f (m_pmm s))" using sp pmm_free_frame_inv by (simp add: spaces_def)
  moreover have "m_pmm (s\<lparr>m_pmm := p\<rparr>) = p" for p by simp
  ultimately show ?thesis using sp keep unfolding spaces_def t by metis
qed

lemma unmap_data:
  assumes sp: "spaces s C" and c: "c \<in> C" "idx 3 va \<noteq> 0" and a: "is_data s C a"
  shows "is_data (vmm_unmap c va s) C a"
proof (cases "tab s c (vpath va)")
  case None
  then show ?thesis using a by (simp add: vmm_unmap_def leaf_table_tab vpath_def)
next
  case (Some t)
  then show ?thesis using poke_leaf(2) [OF sp c(1) Some upath_vpath [OF c(2)]] a
    by (simp add: vmm_unmap_def leaf_table_tab vpath_def is_data_def)
qed

lemma descend_data:
  assumes sp: "spaces s C" and c: "c \<in> C" "tab s c p = Some t" "upath (p @ [i])" "length p \<le> 2" and fl: "bit fl 0"
    and d: "descend t i fl s = (r, s')" and a: "is_data s C a"
  shows "is_data s' C a \<and> m_mem s' a = m_mem s a"
proof (cases "present (m_mem s t i)")
  case True
  then show ?thesis using d a by (simp add: descend_def)
next
  case False
  obtain f s1 where f: "pt_new t i fl s = (f, s1)" by fastforce
  have s1: "s' = s1" using d False f by (simp add: descend_def split: if_split_asm)
  have p: "upath p" using c(3) by (rule upath_prefix) simp
  have at: "a \<noteq> t" using a c p by (auto simp: is_data_def)
  obtain pm where al: "pmm_alloc_frame (m_pmm s) = (f, pm)" by (cases "pmm_alloc_frame (m_pmm s)") (use f in \<open>auto simp: pt_new_def split: if_splits\<close>)
  have inv: "pmm_inv (m_pmm s)" "used_frame (m_pmm s) 0" using sp by (simp_all add: spaces_def)
  show ?thesis
  proof (cases "f = 0")
    case True
    then have "pm = m_pmm s" using alloc_none [OF inv] al by simp
    then show ?thesis using f al True a s1 by (auto simp: pt_new_def)
  next
    case ok: False
    have fr: "\<not> is_frame (m_pmm s) f" "\<And>a. is_frame (m_pmm s) a \<Longrightarrow> is_frame pm a" using alloc_fresh [OF inv al ok] by blast+
    have af: "a \<noteq> f" using a fr(1) by (auto simp: is_data_def)
    have s': "s1 = poke t i (f OR ucast fl) (zero_page f (s\<lparr>m_pmm := pm\<rparr>))" using f al ok by (simp add: pt_new_def)
    have "tab s1 d q \<noteq> Some a" if "d \<in> C" "upath q" for d q
      using new_table_tabs [OF sp c False f ok fl that] a af that by (auto simp: is_data_def split: if_splits)
    then show ?thesis using a at af fr(2) s1 s' by (auto simp: is_data_def poke_mem zero_page_def)
  qed
qed

lemma vmm_map_data:
  assumes sp: "spaces s C" and c: "c \<in> C" "idx 3 va \<noteq> 0" and a: "is_data s C a"
  shows "is_data (vmm_map c va pa fl s) C a \<and> m_mem (vmm_map c va pa fl s) a = m_mem s a"
proof -
  define ient where "ient = (3 OR (if fl AND VMM_USER \<noteq> 0 then VMM_USER else 0) :: u8)"
  have fl: "bit ient 0" unfolding ient_def by (rule ient_present)
  have paths: "upath ([] @ [idx 3 va])" "upath ([idx 3 va] @ [idx 2 va])" "upath ([idx 3 va, idx 2 va] @ [idx 1 va])"
    using c(2) by (simp_all add: upath_def)
  obtain r1 s1 where d1: "descend c (idx 3 va) ient s = (r1, s1)" by fastforce
  note ok1 = descend_ok [OF sp c(1) _ paths(1) _ fl d1, simplified] and da1 = descend_data [OF sp c(1) _ paths(1) _ fl d1 a, simplified]
  show ?thesis
  proof (cases r1)
    case None
    then show ?thesis using d1 da1 by (simp add: vmm_map_def ient_def [symmetric])
  next
    case r1: (Some t1)
    obtain r2 s2 where d2: "descend t1 (idx 2 va) ient s1 = (r2, s2)" by fastforce
    have sp1: "spaces s1 C" "tab s1 c [idx 3 va] = Some t1" using ok1 r1 by auto
    note ok2 = descend_ok [OF sp1(1) c(1) sp1(2) paths(2) _ fl d2, simplified]
      and da2 = descend_data [OF sp1(1) c(1) sp1(2) paths(2) _ fl d2, of a, simplified]
    show ?thesis
    proof (cases r2)
      case None
      then show ?thesis using d1 d2 r1 da1 da2 by (simp add: vmm_map_def ient_def [symmetric])
    next
      case r2: (Some t2)
      obtain r3 s3 where d3: "descend t2 (idx 1 va) ient s2 = (r3, s3)" by fastforce
      have sp2: "spaces s2 C" "tab s2 c [idx 3 va, idx 2 va] = Some t2" using ok2 r2 by auto
      note ok3 = descend_ok [OF sp2(1) c(1) sp2(2) paths(3) _ fl d3, simplified]
        and da3 = descend_data [OF sp2(1) c(1) sp2(2) paths(3) _ fl d3, of a, simplified]
      show ?thesis
      proof (cases r3)
        case None
        then show ?thesis using d1 d2 d3 r1 r2 da1 da2 da3 by (simp add: vmm_map_def ient_def [symmetric])
      next
        case r3: (Some t3)
        have t3: "tab s3 c (vpath va) = Some t3" "spaces s3 C" using ok3 r3 by (auto simp: vpath_def)
        have a3: "is_data s3 C a" "m_mem s3 a = m_mem s a" using da1 da2 da3 by auto
        have "a \<noteq> t3" using a3(1) t3(1) c upath_vpath [OF c(2)] by (auto simp: is_data_def)
        moreover have "is_data (poke t3 i e s3) C a" for i e
          using a3(1) poke_leaf(2) [OF t3(2) c(1) t3(1) upath_vpath [OF c(2)]] by (simp add: is_data_def vpath_def)
        ultimately show ?thesis using d1 d2 d3 r1 r2 r3 a3 by (auto simp: vmm_map_def ient_def [symmetric] poke_mem)
      qed
    qed
  qed
qed

section \<open>Properties\<close>

text \<open>
  C15 Mapping a page does just that. In a system of address spaces in order, \<^verbatim>\<open>vmm_map\<close> of a user
  address makes the address translate to the given frame whenever three frames are free for tables, and
  whether it succeeds or not no other page of this space and no page of any other space changes its
  translation, and the spaces stay in order. \<^verbatim>\<open>vmm_unmap\<close> takes exactly that one translation away again.
\<close>

theorem vmm_map_correct:
  assumes "spaces s C" and "c \<in> C" and "idx 3 va \<noteq> 0"
  shows "spaces (vmm_map c va pa fl s) C \<and> view_but C c va s (vmm_map c va pa fl s)
    \<and> (3 \<le> free_count (m_pmm s) \<longrightarrow> vmm_translate (vmm_map c va pa fl s) c va = frame_of pa)
    \<and> spaces (vmm_unmap c va s) C \<and> view_but C c va s (vmm_unmap c va s) \<and> vmm_translate (vmm_unmap c va s) c va = 0"
  using vmm_map_spaces [OF assms] vmm_unmap_spaces [OF assms] by blast

text \<open>Operations of processes, each on its own space.\<close>

datatype vm_op = MapPage u64 u64 u64 u8 | UnmapPage u64 u64

fun op_space :: "vm_op \<Rightarrow> u64" where
  "op_space (MapPage c va pa fl) = c"
| "op_space (UnmapPage c va) = c"

fun op_addr :: "vm_op \<Rightarrow> u64" where
  "op_addr (MapPage c va pa fl) = va"
| "op_addr (UnmapPage c va) = va"

fun vm_do :: "vm_op \<Rightarrow> mmu \<Rightarrow> mmu" where
  "vm_do (MapPage c va pa fl) s = vmm_map c va pa fl s"
| "vm_do (UnmapPage c va) s = vmm_unmap c va s"

lemma vm_do_spaces:
  assumes "spaces s C" and "op_space o' \<in> C" and "idx 3 (op_addr o') \<noteq> 0"
  shows "spaces (vm_do o' s) C \<and> view_but C (op_space o') (op_addr o') s (vm_do o' s)"
  using assms vmm_map_spaces vmm_unmap_spaces by (cases o') auto

text \<open>
  C16 Address spaces are isolated. Whatever sequence of mappings and unmappings of user pages other
  processes run, also when frames run out in the middle, every translation of a process that did none
  of them is what it was; and a new address space starts with no user page at all and changes none.
\<close>

theorem vmm_isolation:
  assumes "spaces s C" and "\<forall>o'\<in>set ops. op_space o' \<in> C \<and> idx 3 (op_addr o') \<noteq> 0"
    and "d \<in> C" and "\<forall>o'\<in>set ops. op_space o' \<noteq> d" and "idx 3 va \<noteq> 0"
  shows "spaces (fold vm_do ops s) C \<and> vmm_translate (fold vm_do ops s) d va = vmm_translate s d va"
  using assms(1,2,4)
proof (induction ops arbitrary: s)
  case (Cons x ops)
  have st: "spaces (vm_do x s) C" "view_but C (op_space x) (op_addr x) s (vm_do x s)" using vm_do_spaces Cons.prems by auto
  then have "vmm_translate (vm_do x s) d va = vmm_translate s d va"
    using Cons.prems(3) assms(3,5) by (auto simp: view_but_def)
  then show ?case using Cons.IH [OF st(1)] Cons.prems(2,3) by simp
qed simp


section \<open>A concrete system\<close>

text \<open>Eight frames, frame 0 taken; one address space in frame 1.\<close>

definition small_pmm :: pmm_state where
  "small_pmm = \<lparr>bitmap = (\<lambda>_. 1), total_frames = 8, free_frames = 7\<rparr>"

definition small_mmu :: mmu where
  "small_mmu = \<lparr>m_pmm = small_pmm, m_mem = (\<lambda>_ _. 0)\<rparr>"

lemma small_used: "used_frame small_pmm i \<longleftrightarrow> i mod 8 = 0"
  by (simp add: small_pmm_def bitmap_test_bit bit_1_iff)

lemma small_free: "{i. i < 8 \<and> \<not> used_frame small_pmm i} = {1..7}"
proof -
  have "i mod 8 = i" if "i < 8" for i :: nat using that by simp
  then show ?thesis unfolding small_used by auto
qed

lemma small_ok: "spaces small_mmu {}" "free_count small_pmm = 7"
proof -
  have "unat (total_frames small_pmm) = 8" by (simp add: small_pmm_def)
  then show c: "free_count small_pmm = 7" unfolding free_count_def using small_free by simp
  have "unat (free_frames small_pmm) = 7" "unat (total_frames small_pmm) = 8" by (simp_all add: small_pmm_def)
  then show "spaces small_mmu {}"
    using c by (simp add: spaces_def small_mmu_def pmm_inv_def PMM_MAX_FRAMES_def small_used)
qed

definition one_space :: mmu where
  "one_space = snd (vmm_new_address_space 0 small_mmu)"

lemma one_space_new: "vmm_new_address_space 0 small_mmu = (4096, one_space)"
proof -
  have "fst (vmm_new_address_space 0 small_mmu) = 4096" by code_simp
  then show ?thesis by (simp add: one_space_def prod_eq_iff)
qed

lemma one_space_ok: "spaces one_space {4096}" "free_count (m_pmm one_space) = 6"
proof -
  show "spaces one_space {4096}" using new_space [OF small_ok(1) one_space_new] by simp
  obtain p where "pmm_alloc_frame small_pmm = (4096, p)" "m_pmm one_space = p"
    using one_space_new
    by (auto simp: vmm_new_address_space_def small_mmu_def Let_def zero_page_def poke_def
      split: prod.splits if_splits dest!: arg_cong [where f = m_pmm])
  then show "free_count (m_pmm one_space) = 6"
    using alloc_fresh [of small_pmm 4096 p] small_ok by (simp add: spaces_def small_mmu_def)
qed

lemma user_idx: "idx 3 USER_HEAP_BASE = 2" "idx 3 USER_STACK_BASE = 2"
  by code_simp+

theorem vmm_map_correct_witness:
  "vmm_translate (vmm_map 4096 USER_HEAP_BASE 0x7000 VMM_USER one_space) 4096 USER_HEAP_BASE = frame_of 0x7000
   \<and> spaces (vmm_map 4096 USER_HEAP_BASE 0x7000 VMM_USER one_space) {4096}"
  using vmm_map_correct [OF one_space_ok(1), of 4096 USER_HEAP_BASE "0x7000" VMM_USER] one_space_ok(2) user_idx by simp

text \<open>A second space in frame 2; the first one maps and unmaps.\<close>

definition two_spaces :: mmu where
  "two_spaces = snd (vmm_new_address_space 0 one_space)"

lemma two_spaces_ok: "spaces two_spaces {8192, 4096}"
proof -
  have "fst (vmm_new_address_space 0 one_space) = 8192" unfolding one_space_def by code_simp
  then have "vmm_new_address_space 0 one_space = (8192, two_spaces)" by (simp add: two_spaces_def prod_eq_iff)
  from new_space [OF one_space_ok(1) this] show ?thesis by simp
qed

theorem vmm_isolation_witness:
  "vmm_translate (fold vm_do [MapPage 4096 USER_HEAP_BASE 0x7000 VMM_USER, UnmapPage 4096 USER_HEAP_BASE] two_spaces)
     8192 USER_HEAP_BASE = vmm_translate two_spaces 8192 USER_HEAP_BASE"
  using vmm_isolation [OF two_spaces_ok, of "[MapPage 4096 USER_HEAP_BASE 0x7000 VMM_USER, UnmapPage 4096 USER_HEAP_BASE]"
      8192 USER_HEAP_BASE] user_idx by simp


end
