(* ===== verification/Interact.thy ===== *)
theory Interact
  imports Format
begin

text \<open>
  The interaction log, \<^verbatim>\<open>kernel/noc/interact.c\<close>: a text buffer of newline-terminated records that drops
  whole oldest records to make room, and the capture of a command's output. The buffer is the list of its
  live bytes (\<^verbatim>\<open>il_len\<close> is its length), and so is the capture. Saving and restoring the log go
  through the file system and are not part of the model.
\<close>

section \<open>Operations\<close>

definition IL_RING_SIZE :: nat where "IL_RING_SIZE = 65536"
definition IL_CAP_MAX :: nat where "IL_CAP_MAX = 1024"

definition NL :: char where "NL = CHR 0x0A"
definition CR :: char where "CR = CHR 0x0D"

record ilog =
  il_ring :: string
  il_records :: nat
  il_cap :: string
  il_cap_on :: bool

text \<open>
  One turn of the loop that makes room: the bytes up to and including the first newline go, all of them
  when there is none. The loop leaves an empty buffer alone: the caller has cut the record so that it fits
  there.
\<close>

definition drop_record :: "ilog \<Rightarrow> ilog" where
  "drop_record l = l\<lparr>il_ring := tl (dropWhile (\<lambda>c. c \<noteq> NL) (il_ring l)), il_records := il_records l - 1\<rparr>"

lemma drop_record_shorter: "il_ring l \<noteq> [] \<Longrightarrow> length (il_ring (drop_record l)) < length (il_ring l)"
  using length_dropWhile_le [of "\<lambda>c. c \<noteq> NL" "il_ring l"]
  by (cases "il_ring l") (auto simp: drop_record_def le_imp_less_Suc)

function make_room :: "nat \<Rightarrow> ilog \<Rightarrow> ilog" where
  "make_room n l =
     (if length (il_ring l) + n + 1 > IL_RING_SIZE - 1 \<and> il_ring l \<noteq> [] then make_room n (drop_record l) else l)"
  by pat_completeness auto
termination
  by (relation "measure (\<lambda>(n, l). length (il_ring l))") (use drop_record_shorter in auto)

declare make_room.simps [simp del]

definition il_append :: "string \<Rightarrow> ilog \<Rightarrow> ilog" where
  "il_append s l =
     (if s = [] then l
      else
        (let s = (if length s + 1 \<ge> IL_RING_SIZE then take (IL_RING_SIZE - 2) s else s);
             l = make_room (length s) l
         in l\<lparr>il_ring := il_ring l @ s @ [NL], il_records := il_records l + 1\<rparr>))"

text \<open>The escapes of a payload; bytes that are neither printable nor escaped are dropped.\<close>

definition esc_char :: "char \<Rightarrow> string" where
  "esc_char c =
     (if c = CHR 0x5C then [CHR 0x5C, CHR 0x5C]
      else if c = NL then [CHR 0x5C, CHR ''n'']
      else if c = CR then [CHR 0x5C, CHR ''r'']
      else if c = CHR 0x09 then [CHR 0x5C, CHR ''t'']
      else if (of_char c :: nat) \<ge> 0x20 \<and> (of_char c :: nat) < 0x7F then [c]
      else [])"

definition TMP_MAX :: nat where "TMP_MAX = IL_CAP_MAX * 2 + 64"

fun esc_loop :: "string \<Rightarrow> string \<Rightarrow> string" where
  "esc_loop tmp [] = tmp"
| "esc_loop tmp (c # cs) =
     (if c \<noteq> CHR 0x00 \<and> length tmp < TMP_MAX - 2 then esc_loop (tmp @ esc_char c) cs else tmp)"

definition il_append_esc :: "string \<Rightarrow> string \<Rightarrow> ilog \<Rightarrow> ilog" where
  "il_append_esc tag payload l = il_append (esc_loop (take (TMP_MAX - 2) tag) payload) l"

definition il_begin_capture :: "ilog \<Rightarrow> ilog" where
  "il_begin_capture l = l\<lparr>il_cap := [], il_cap_on := True\<rparr>"

definition il_capture_putc :: "char \<Rightarrow> ilog \<Rightarrow> ilog" where
  "il_capture_putc c l =
     (if \<not> il_cap_on l then l
      else if length (il_cap l) < IL_CAP_MAX - 1 then l\<lparr>il_cap := il_cap l @ [c]\<rparr> else l)"

definition trim_end :: "string \<Rightarrow> string" where
  "trim_end s = rev (dropWhile (\<lambda>c. c = NL \<or> c = CR) (rev s))"

definition il_end_capture :: "string \<Rightarrow> ilog \<Rightarrow> ilog" where
  "il_end_capture cmd l =
     (let l = l\<lparr>il_cap_on := False, il_cap := trim_end (il_cap l)\<rparr>;
          l = il_append ''[TICK]'' l;
          l = il_append_esc ''[CMD] '' cmd l
      in if il_cap l \<noteq> [] then
           (let is_err = (take 5 (il_cap l) = ''NOC: '')
            in il_append_esc (if is_err then ''[ERR] '' else ''[OUT] '') (if is_err then drop 5 (il_cap l) else il_cap l) l)
         else l)"

definition il_clear :: "ilog \<Rightarrow> ilog" where
  "il_clear l = l\<lparr>il_ring := [], il_records := 0\<rparr>"

text \<open>A process was created or ended. The record buffer of the first has 64 bytes, of the second 48.\<close>

definition il_event_spawn :: "u32 \<Rightarrow> string \<Rightarrow> ilog \<Rightarrow> ilog res" where
  "il_event_spawn pid name l =
     map_res (\<lambda>rec. let rec = (if length rec < 63 then rec @ '' '' else rec)
                    in il_append (rec @ take (63 - length rec) name) l)
       (sprintk 64 ''[SPAWN] %u'' [VWord (ucast pid)])"

definition il_event_exit :: "u32 \<Rightarrow> u64 \<Rightarrow> ilog \<Rightarrow> ilog res" where
  "il_event_exit pid code l =
     map_res (\<lambda>rec. il_append rec l) (sprintk 48 ''[EXIT] %u %lld'' [VWord (ucast pid), VWord code])"

definition il_stats :: "u64 \<Rightarrow> ilog \<Rightarrow> string res" where
  "il_stats cap l =
     sprintk cap (''log: %u records, %u bytes of %u'' @ [NL])
       [VWord (of_nat (il_records l)), VWord (of_nat (length (il_ring l))), VWord (of_nat IL_RING_SIZE)]"

text \<open>The text shown by \<^verbatim>\<open>il_dump\<close>: the statistics, and the buffer up to its first NUL.\<close>

definition il_dump :: "ilog \<Rightarrow> string res" where
  "il_dump l =
     map_res (\<lambda>s. s @ (if il_ring l \<noteq> [] then takeWhile (\<lambda>c. c \<noteq> CHR 0x00) (il_ring l) else [])) (il_stats 96 l)"

definition il_copy_tail :: "nat \<Rightarrow> ilog \<Rightarrow> string" where
  "il_copy_tail cap l = drop (length (il_ring l) - cap) (il_ring l)"

section \<open>The log as a bounded queue of records\<close>

text \<open>
  A record is a text without a newline, and the buffer shows the records in order. The longest suffix
  of the records that leaves room is kept.
\<close>

definition render :: "string list \<Rightarrow> string" where
  "render rs = concat (map (\<lambda>r. r @ [NL]) rs)"

definition holds :: "ilog \<Rightarrow> string list \<Rightarrow> bool" where
  "holds l rs \<longleftrightarrow>
     il_ring l = render rs \<and> il_records l = length rs \<and> (\<forall>r \<in> set rs. NL \<notin> set r) \<and> length (render rs) < IL_RING_SIZE"

fun newest :: "nat \<Rightarrow> string list \<Rightarrow> string list" where
  "newest space [] = []"
| "newest space (r # rs) = (if length (render (r # rs)) \<le> space then r # rs else newest space rs)"

lemma render_Cons [simp]: "render (r # rs) = r @ NL # render rs"
  by (simp add: render_def)

lemma render_Nil [simp]: "render [] = []"
  by (simp add: render_def)

lemma render_append [simp]: "render (rs @ ss) = render rs @ render ss"
  by (simp add: render_def)

lemma newest_suffix: "\<exists>k. newest space rs = drop k rs"
proof (induction rs)
  case (Cons r rs)
  then obtain k where "newest space rs = drop k rs" by blast
  then have "newest space (r # rs) = drop (if length (render (r # rs)) \<le> space then 0 else Suc k) (r # rs)" by simp
  then show ?case by blast
qed simp

lemma newest_fits: "length (render (newest space rs)) \<le> space"
  by (induction rs) auto

lemma newest_longest: "length (render (drop k rs)) \<le> space \<Longrightarrow> length (drop k rs) \<le> length (newest space rs)"
proof (induction rs arbitrary: k)
  case (Cons r rs)
  then show ?case by (cases k) auto
qed simp

lemma drop_record_render:
  assumes "NL \<notin> set r"
  shows "tl (dropWhile (\<lambda>c. c \<noteq> NL) (render (r # rs))) = render rs"
proof -
  have "dropWhile (\<lambda>c. c \<noteq> NL) (r @ NL # render rs) = NL # render rs"
    using assms by (subst dropWhile_append2) auto
  then show ?thesis by simp
qed

lemma make_room_newest:
  assumes "il_ring l = render rs" "il_records l = length rs" "\<forall>r \<in> set rs. NL \<notin> set r" "n + 2 \<le> IL_RING_SIZE"
  shows "make_room n l = l\<lparr>il_ring := render (newest (IL_RING_SIZE - 2 - n) rs),
            il_records := length (newest (IL_RING_SIZE - 2 - n) rs)\<rparr>"
  using assms
proof (induction rs arbitrary: l)
  case Nil
  then show ?case by (simp add: make_room.simps)
next
  case (Cons r rs)
  have fits: "length (il_ring l) + n + 1 > IL_RING_SIZE - 1 \<longleftrightarrow> \<not> length (render (r # rs)) \<le> IL_RING_SIZE - 2 - n"
    using Cons.prems(1,4) by (simp add: IL_RING_SIZE_def) linarith
  have ne: "il_ring l \<noteq> []" using Cons.prems(1) by simp
  have step: "make_room n (drop_record l) = (drop_record l)\<lparr>il_ring := render (newest (IL_RING_SIZE - 2 - n) rs),
            il_records := length (newest (IL_RING_SIZE - 2 - n) rs)\<rparr>"
    by (rule Cons.IH) (use Cons.prems drop_record_render [of r rs] in \<open>auto simp: drop_record_def\<close>)
  show ?case
  proof (cases "length (render (r # rs)) \<le> IL_RING_SIZE - 2 - n")
    case True
    then have "make_room n l = l" using fits by (subst make_room.simps) simp
    then show ?thesis using True Cons.prems by (simp del: render_Cons)
  next
    case False
    then have "make_room n l = make_room n (drop_record l)" using fits ne by (subst make_room.simps) simp
    then show ?thesis using False step by (simp add: drop_record_def del: render_Cons)
  qed
qed

definition log_add :: "string \<Rightarrow> string list \<Rightarrow> string list" where
  "log_add s rs =
     (if s = [] then rs
      else (let s = take (IL_RING_SIZE - 2) s in newest (IL_RING_SIZE - 2 - length s) rs @ [s]))"

lemma take_clamp: "(if length s + 1 \<ge> IL_RING_SIZE then take (IL_RING_SIZE - 2) s else s) = take (IL_RING_SIZE - 2) s"
  by simp

lemma il_append_holds:
  assumes h: "holds l rs" and s: "NL \<notin> set s"
  shows "holds (il_append s l) (log_add s rs)"
proof (cases "s = []")
  case True
  then show ?thesis using h by (simp add: il_append_def log_add_def)
next
  case False
  define s' where "s' = take (IL_RING_SIZE - 2) s"
  have s': "NL \<notin> set s'" "length s' + 2 \<le> IL_RING_SIZE"
    using s by (auto simp: s'_def IL_RING_SIZE_def dest: in_set_takeD)
  define ks where "ks = newest (IL_RING_SIZE - 2 - length s') rs"
  have mr: "make_room (length s') l = l\<lparr>il_ring := render ks, il_records := length ks\<rparr>"
    using make_room_newest [of l rs "length s'"] h s' by (simp add: ks_def holds_def)
  have clamp: "il_append s l = (make_room (length s') l)\<lparr>il_ring := render ks @ s' @ [NL], il_records := length ks + 1\<rparr>"
    unfolding il_append_def Let_def unfolding take_clamp unfolding s'_def [symmetric] using False mr by simp
  have "set ks \<subseteq> set rs" unfolding ks_def using newest_suffix [of "IL_RING_SIZE - 2 - length s'" rs] by (metis set_drop_subset)
  moreover have "length (render ks) \<le> IL_RING_SIZE - 2 - length s'" unfolding ks_def by (rule newest_fits)
  moreover have "log_add s rs = ks @ [s']" using False by (simp add: log_add_def Let_def s'_def ks_def)
  ultimately show ?thesis using h s'
    by (auto simp: clamp mr holds_def IL_RING_SIZE_def)
qed

lemma log_add_longest:
  assumes "s \<noteq> []"
  shows "\<exists>k. log_add s rs = drop k rs @ [take (IL_RING_SIZE - 2) s] \<and>
           (\<forall>j < k. length (render (drop j rs @ [take (IL_RING_SIZE - 2) s])) \<ge> IL_RING_SIZE)"
proof -
  define s' where "s' = take (IL_RING_SIZE - 2) s"
  define ks where "ks = newest (IL_RING_SIZE - 2 - length s') rs"
  obtain k where k: "ks = drop k rs" using newest_suffix [of "IL_RING_SIZE - 2 - length s'" rs] by (auto simp: ks_def)
  have "length (render (drop j rs @ [s'])) \<ge> IL_RING_SIZE" if j: "j < min k (length rs)" for j
  proof (rule ccontr)
    assume "\<not> ?thesis"
    then have "length (render (drop j rs)) \<le> IL_RING_SIZE - 2 - length s'" by simp
    then have "length (drop j rs) \<le> length ks" unfolding ks_def by (rule newest_longest)
    then show False using j k by simp linarith
  qed
  moreover have "ks = drop (min k (length rs)) rs" using k by (simp add: min_def)
  moreover have "log_add s rs = ks @ [s']" using assms by (simp add: log_add_def Let_def s'_def ks_def)
  ultimately show ?thesis unfolding s'_def [symmetric] by (intro exI [of _ "min k (length rs)"]) simp
qed

text \<open>Reading the escapes back.\<close>

fun unesc :: "string \<Rightarrow> string" where
  "unesc (c # d # cs) =
     (if c = CHR 0x5C
      then (if d = CHR ''n'' then NL else if d = CHR ''r'' then CR else if d = CHR ''t'' then CHR 0x09 else d) # unesc cs
      else c # unesc (d # cs))"
| "unesc cs = cs"

definition visible :: "char \<Rightarrow> bool" where
  "visible c \<longleftrightarrow> esc_char c \<noteq> []"

lemma unesc_plain: "c \<noteq> CHR 0x5C \<Longrightarrow> unesc (c # cs) = c # unesc cs"
  by (cases cs) auto

lemma unesc_esc: "visible c \<Longrightarrow> unesc (esc_char c @ cs) = c # unesc cs"
  by (auto simp: visible_def esc_char_def NL_def CR_def unesc_plain split: if_splits)

lemma unesc_escs: "\<forall>c \<in> set p. visible c \<Longrightarrow> unesc (concat (map esc_char p)) = p"
  by (induction p) (auto simp: unesc_esc)

lemma unesc_tag: "CHR 0x5C \<notin> set tag \<Longrightarrow> unesc (tag @ cs) = tag @ unesc cs"
  by (induction tag) (auto simp: unesc_plain)

lemma esc_char_length: "length (esc_char c) \<le> 2"
  by (simp add: esc_char_def)

lemma NL_not_esc: "NL \<notin> set (esc_char c)"
  by (auto simp: esc_char_def NL_def CR_def)

lemma visible_not_NUL: "visible c \<Longrightarrow> c \<noteq> CHR 0x00"
  by (auto simp: visible_def esc_char_def NL_def CR_def)

lemma esc_loop_NL: "NL \<notin> set tmp \<Longrightarrow> NL \<notin> set (esc_loop tmp p)"
  by (induction tmp p rule: esc_loop.induct) (auto simp: NL_not_esc)

lemma esc_loop_length: "length tmp \<le> TMP_MAX \<Longrightarrow> length (esc_loop tmp p) \<le> TMP_MAX"
proof (induction tmp p rule: esc_loop.induct)
  case (2 tmp c cs)
  have "length tmp < TMP_MAX - 2 \<Longrightarrow> length tmp + length (esc_char c) \<le> TMP_MAX" using esc_char_length [of c] by linarith
  then show ?case using 2 by simp
qed simp

lemma esc_loop_whole:
  assumes "\<forall>c \<in> set p. visible c" "length tmp + 2 * length p < TMP_MAX"
  shows "esc_loop tmp p = tmp @ concat (map esc_char p)"
  using assms
proof (induction p arbitrary: tmp)
  case (Cons c cs)
  have "length (tmp @ esc_char c) + 2 * length cs < TMP_MAX" using Cons.prems(2) esc_char_length [of c] by simp
  then have "esc_loop (tmp @ esc_char c) cs = (tmp @ esc_char c) @ concat (map esc_char cs)" using Cons by simp
  moreover have "length tmp < TMP_MAX - 2" using Cons.prems(2) by simp
  ultimately show ?case using visible_not_NUL Cons.prems(1) by simp
qed simp

text \<open>C21 (refinement)
  The interaction log refines a bounded queue of records: when the buffer holds the records \<open>rs\<close>, after
  appending a record without a newline it holds a suffix of \<open>rs\<close> followed by the record (cut to the size of the
  buffer), the record counter counts exactly these, the buffer stays below 64 KiB, and no more records were dropped than
  necessary: with one more of them the buffer would be full.
\<close>
theorem il_append_refines:
  assumes "holds l rs" "NL \<notin> set s" "s \<noteq> []"
  shows "\<exists>k. holds (il_append s l) (drop k rs @ [take (IL_RING_SIZE - 2) s]) \<and>
           (\<forall>j < k. length (render (drop j rs @ [take (IL_RING_SIZE - 2) s])) \<ge> IL_RING_SIZE)"
  using il_append_holds [OF assms(1,2)] log_add_longest [OF assms(3), of rs] by auto

theorem il_append_refines_witness:
  "holds \<lparr>il_ring = render [''a'', ''bc''], il_records = 2, il_cap = [], il_cap_on = False\<rparr> [''a'', ''bc''] \<and>
   (\<exists>k. holds (il_append ''d'' \<lparr>il_ring = render [''a'', ''bc''], il_records = 2, il_cap = [], il_cap_on = False\<rparr>)
          (drop k [''a'', ''bc''] @ [take (IL_RING_SIZE - 2) ''d'']) \<and>
     (\<forall>j < k. length (render (drop j [''a'', ''bc''] @ [take (IL_RING_SIZE - 2) ''d''])) \<ge> IL_RING_SIZE))"
proof -
  have h: "holds \<lparr>il_ring = render [''a'', ''bc''], il_records = 2, il_cap = [], il_cap_on = False\<rparr> [''a'', ''bc'']"
    by (simp add: holds_def NL_def IL_RING_SIZE_def)
  then show ?thesis using il_append_refines [OF h, of "''d''"] by (simp add: NL_def)
qed



end
