(* ===== verification/FsData.thy ===== *)
theory FsData
  imports Noc
begin

unbundle bit_operations_syntax

text \<open>
  The on-disk structures of the file system, \<^verbatim>\<open>kernel/include/fs.h\<close>, with their layout in bytes as the compiler
  lays them out (little endian, padding where a 64-bit field needs it), and the state the file system
  keeps in memory. What is read back from the bytes of a structure is the structure.
\<close>

section \<open>Constants and structures\<close>

type_synonym block = "u8 list"

definition FS_BLOCK_SIZE :: nat where "FS_BLOCK_SIZE = 512"
definition NOOSFS_VERSION :: u32 where "NOOSFS_VERSION = 2"
definition FS_INODE_COUNT :: nat where "FS_INODE_COUNT = 256"
definition FS_NAME_MAX :: nat where "FS_NAME_MAX = 24"
definition FS_MAX_BLOCKS :: nat where "FS_MAX_BLOCKS = 10"
definition DT_FILE :: u8 where "DT_FILE = 1"
definition DT_DIR :: u8 where "DT_DIR = 2"
definition FS_INODE_DIR :: u16 where "FS_INODE_DIR = 0x4000"
definition FS_INODE_REG :: u16 where "FS_INODE_REG = 0x8000"

definition NOOSFS_SIG :: "u8 list" where
  "NOOSFS_SIG = [0x4E, 0x4F, 0x5F, 0x4F, 0x53, 0x46, 0x53, 0]"

text \<open>
  The superblock is 528 bytes long with its padding, of which the first 512 reach the disk; \<open>sb_reserved\<close>
  is the part of the reserved bytes that does.
\<close>

record fs_sb =
  sb_sig :: "u8 list"
  sb_version :: u32
  sb_block_size :: u32
  sb_block_count :: u64
  sb_bitmap_start :: u64
  sb_bitmap_blocks :: u64
  sb_inode_start :: u64
  sb_inode_count :: u64
  sb_data_start :: u64
  sb_root_inode :: u32
  sb_seq :: u32
  sb_flags :: u32
  sb_reserved :: "u8 list"

text \<open>
  An inode takes 72 bytes: four bytes of padding before the size, and four behind the reserved ones
  (\<open>i_reserved\<close> has both).
\<close>

record fs_inode =
  i_mode :: u16
  i_nlinks :: u16
  i_pad :: "u8 list"
  i_size :: u64
  i_mtime :: u32
  i_flags :: u32
  i_blocks :: "u32 list"
  i_reserved :: "u8 list"

record fs_dirent =
  d_inode :: u32
  d_reclen :: u16
  d_namelen :: u8
  d_type :: u8
  d_name :: "u8 list"

definition sizeof_inode :: nat where "sizeof_inode = 72"
definition INODES_PER_BLOCK :: nat where "INODES_PER_BLOCK = FS_BLOCK_SIZE div sizeof_inode"
definition sizeof_dirent :: nat where "sizeof_dirent = 32"
definition DIRENT_PER_BLOCK :: nat where "DIRENT_PER_BLOCK = FS_BLOCK_SIZE div sizeof_dirent"

definition zero_inode :: fs_inode where
  "zero_inode = \<lparr>i_mode = 0, i_nlinks = 0, i_pad = replicate 4 0, i_size = 0, i_mtime = 0, i_flags = 0,
     i_blocks = replicate FS_MAX_BLOCKS 0, i_reserved = replicate 8 0\<rparr>"

definition zero_dirent :: fs_dirent where
  "zero_dirent = \<lparr>d_inode = 0, d_reclen = 0, d_namelen = 0, d_type = 0, d_name = replicate FS_NAME_MAX 0\<rparr>"

definition zero_sb :: fs_sb where
  "zero_sb = \<lparr>sb_sig = replicate 8 0, sb_version = 0, sb_block_size = 0, sb_block_count = 0, sb_bitmap_start = 0,
     sb_bitmap_blocks = 0, sb_inode_start = 0, sb_inode_count = 0, sb_data_start = 0, sb_root_inode = 0, sb_seq = 0,
     sb_flags = 0, sb_reserved = replicate 436 0\<rparr>"

text \<open>
  The state of \<^verbatim>\<open>noosfs.c\<close>: the superblock, the two bitmaps with their addresses (0 before they are
  allocated), the flag \<^verbatim>\<open>mounted\<close> and the cached inode of the root directory.
\<close>

record fsys =
  f_sb :: fs_sb
  f_ibm_ptr :: u64
  f_ibm :: "u8 list"
  f_cbm_ptr :: u64
  f_cbm :: "u8 list"
  f_mounted :: bool
  f_root :: fs_inode

definition boot_fsys :: fsys where
  "boot_fsys = \<lparr>f_sb = zero_sb, f_ibm_ptr = 0, f_ibm = [], f_cbm_ptr = 0, f_cbm = [], f_mounted = False, f_root = zero_inode\<rparr>"

section \<open>Layout\<close>

definition bytes_at :: "nat \<Rightarrow> nat \<Rightarrow> 'a list \<Rightarrow> 'a list" where
  "bytes_at off n xs = take n (drop off xs)"

definition enc_sb :: "fs_sb \<Rightarrow> block" where
  "enc_sb s = sb_sig s @ le_bytes 4 (sb_version s) @ le_bytes 4 (sb_block_size s) @ le_bytes 8 (sb_block_count s)
     @ le_bytes 8 (sb_bitmap_start s) @ le_bytes 8 (sb_bitmap_blocks s) @ le_bytes 8 (sb_inode_start s)
     @ le_bytes 8 (sb_inode_count s) @ le_bytes 8 (sb_data_start s) @ le_bytes 4 (sb_root_inode s)
     @ le_bytes 4 (sb_seq s) @ le_bytes 4 (sb_flags s) @ sb_reserved s"

definition dec_sb :: "block \<Rightarrow> fs_sb" where
  "dec_sb b = \<lparr>sb_sig = bytes_at 0 8 b, sb_version = of_le (bytes_at 8 4 b), sb_block_size = of_le (bytes_at 12 4 b),
     sb_block_count = of_le (bytes_at 16 8 b), sb_bitmap_start = of_le (bytes_at 24 8 b), sb_bitmap_blocks = of_le (bytes_at 32 8 b),
     sb_inode_start = of_le (bytes_at 40 8 b), sb_inode_count = of_le (bytes_at 48 8 b), sb_data_start = of_le (bytes_at 56 8 b),
     sb_root_inode = of_le (bytes_at 64 4 b), sb_seq = of_le (bytes_at 68 4 b), sb_flags = of_le (bytes_at 72 4 b),
     sb_reserved = bytes_at 76 436 b\<rparr>"

definition enc_inode :: "fs_inode \<Rightarrow> u8 list" where
  "enc_inode i = le_bytes 2 (i_mode i) @ le_bytes 2 (i_nlinks i) @ i_pad i @ le_bytes 8 (i_size i) @ le_bytes 4 (i_mtime i)
     @ le_bytes 4 (i_flags i) @ concat (map (le_bytes 4) (i_blocks i)) @ i_reserved i"

definition dec_inode :: "u8 list \<Rightarrow> fs_inode" where
  "dec_inode b = \<lparr>i_mode = of_le (bytes_at 0 2 b), i_nlinks = of_le (bytes_at 2 2 b), i_pad = bytes_at 4 4 b,
     i_size = of_le (bytes_at 8 8 b), i_mtime = of_le (bytes_at 16 4 b), i_flags = of_le (bytes_at 20 4 b),
     i_blocks = map (\<lambda>j. of_le (bytes_at (24 + 4 * j) 4 b)) [0..<FS_MAX_BLOCKS], i_reserved = bytes_at 64 8 b\<rparr>"

definition enc_dirent :: "fs_dirent \<Rightarrow> u8 list" where
  "enc_dirent d = le_bytes 4 (d_inode d) @ le_bytes 2 (d_reclen d) @ [d_namelen d, d_type d] @ d_name d"

definition dec_dirent :: "u8 list \<Rightarrow> fs_dirent" where
  "dec_dirent b = \<lparr>d_inode = of_le (bytes_at 0 4 b), d_reclen = of_le (bytes_at 4 2 b), d_namelen = of_le (bytes_at 6 1 b),
     d_type = of_le (bytes_at 7 1 b), d_name = bytes_at 8 FS_NAME_MAX b\<rparr>"

text \<open>A directory block is an array of sixteen entries.\<close>

definition enc_dir :: "fs_dirent list \<Rightarrow> block" where
  "enc_dir ds = concat (map enc_dirent ds)"

definition dec_dir :: "block \<Rightarrow> fs_dirent list" where
  "dec_dir b = map (\<lambda>e. dec_dirent (bytes_at (sizeof_dirent * e) sizeof_dirent b)) [0..<DIRENT_PER_BLOCK]"

text \<open>Replacing bytes inside a block, as \<^verbatim>\<open>memcpy\<close> to an offset does.\<close>

definition splice :: "nat \<Rightarrow> 'a list \<Rightarrow> 'a list \<Rightarrow> 'a list" where
  "splice off xs b = take off b @ xs @ drop (off + length xs) b"

section \<open>What is written is what is read\<close>

lemma slice_all: "length xs = n \<Longrightarrow> bytes_at 0 n xs = xs"
  by (simp add: bytes_at_def)

lemma slice_Nil [simp]: "bytes_at off n [] = []"
  by (simp add: bytes_at_def)

lemma slice_here: "length xs = n \<Longrightarrow> bytes_at 0 n (xs @ ys) = xs"
  by (simp add: bytes_at_def)

lemma slice_skip: "length xs \<le> off \<Longrightarrow> bytes_at off n (xs @ ys) = bytes_at (off - length xs) n ys"
  by (simp add: bytes_at_def)

lemma length_slice [simp]: "length (bytes_at off n xs) = min n (length xs - off)"
  by (simp add: bytes_at_def)

lemma length_splice: "off + length xs \<le> length b \<Longrightarrow> length (splice off xs b) = length b"
  by (simp add: splice_def)

lemma slice_splice_same: "off + length xs \<le> length b \<Longrightarrow> length xs = n \<Longrightarrow> bytes_at off n (splice off xs b) = xs"
  by (simp add: bytes_at_def splice_def)

lemma slice_splice_other:
  assumes "off + length xs \<le> length b" "o' + n \<le> off \<or> off + length xs \<le> o'"
  shows "bytes_at o' n (splice off xs b) = bytes_at o' n b"
proof (cases "o' + n \<le> off")
  case True
  then show ?thesis using assms(1) by (intro nth_equalityI) (auto simp: bytes_at_def splice_def nth_append)
next
  case False
  then have "off + length xs \<le> o'" using assms(2) by simp
  then show ?thesis using assms(1) by (simp add: bytes_at_def splice_def add.commute)
qed

lemma of_le_u16 [simp]: "of_le (le_bytes 2 (v :: u16)) = v"
  by (simp add: of_le_bytes take_bit_word_eq_self)

lemma of_le_u8 [simp]: "of_le [v :: u8] = v"
  by (simp add: of_le_def)

lemmas slices = slice_here slice_all slice_skip

text \<open>An array of records of the same size, seen through its bytes.\<close>

lemma slice_concat:
  assumes "\<And>x. x \<in> set xs \<Longrightarrow> length (f x) = n" "j < length xs"
  shows "bytes_at (n * j) n (concat (map f xs) @ ys) = f (xs ! j)"
  using assms
proof (induction xs arbitrary: j)
  case (Cons x xs)
  then show ?case by (cases j) (auto simp: slices)
qed simp

lemma length_concat_eq: "(\<And>x. x \<in> set xs \<Longrightarrow> length (f x) = n) \<Longrightarrow> length (concat (map f xs)) = n * length xs"
  by (induction xs) auto

definition sb_shape :: "fs_sb \<Rightarrow> bool" where
  "sb_shape s \<longleftrightarrow> length (sb_sig s) = 8 \<and> length (sb_reserved s) = 436"

definition inode_shape :: "fs_inode \<Rightarrow> bool" where
  "inode_shape i \<longleftrightarrow> length (i_pad i) = 4 \<and> length (i_blocks i) = FS_MAX_BLOCKS \<and> length (i_reserved i) = 8"

definition dirent_shape :: "fs_dirent \<Rightarrow> bool" where
  "dirent_shape d \<longleftrightarrow> length (d_name d) = FS_NAME_MAX"

lemma dec_enc_sb: "sb_shape s \<Longrightarrow> dec_sb (enc_sb s) = s"
  by (simp add: dec_sb_def enc_sb_def sb_shape_def slices)

lemma enc_sb_length: "sb_shape s \<Longrightarrow> length (enc_sb s) = 512"
  by (simp add: enc_sb_def sb_shape_def)

lemma blocks_length [simp]: "length (concat (map (le_bytes 4 :: u32 \<Rightarrow> u8 list) xs)) = 4 * length xs"
  by (rule length_concat_eq) simp

lemma dec_blocks:
  assumes "j < length xs"
  shows "of_le (bytes_at (4 * j) 4 (concat (map (le_bytes 4 :: u32 \<Rightarrow> u8 list) xs) @ ys)) = xs ! j"
  using slice_concat [of xs "le_bytes 4" 4 j ys] assms by simp

lemma dec_enc_inode:
  assumes "inode_shape i"
  shows "dec_inode (enc_inode i) = i"
proof -
  have l: "length (i_pad i) = 4" "length (i_blocks i) = 10" "length (i_reserved i) = 8"
    using assms by (simp_all add: inode_shape_def FS_MAX_BLOCKS_def)
  have "map (\<lambda>j. of_le (bytes_at (24 + 4 * j) 4 (enc_inode i))) [0..<FS_MAX_BLOCKS] = i_blocks i"
  proof (rule nth_equalityI)
    fix j
    assume "j < length (map (\<lambda>j. of_le (bytes_at (24 + 4 * j) 4 (enc_inode i)) :: u32) [0..<FS_MAX_BLOCKS])"
    then show "map (\<lambda>j. of_le (bytes_at (24 + 4 * j) 4 (enc_inode i))) [0..<FS_MAX_BLOCKS] ! j = i_blocks i ! j"
      using l dec_blocks [of j "i_blocks i" "i_reserved i"] by (simp add: enc_inode_def slices FS_MAX_BLOCKS_def)
  qed (simp add: l FS_MAX_BLOCKS_def)
  then show ?thesis using l by (simp add: dec_inode_def) (simp add: enc_inode_def slices)
qed

lemma enc_inode_length: "inode_shape i \<Longrightarrow> length (enc_inode i) = 72"
  by (simp add: enc_inode_def inode_shape_def FS_MAX_BLOCKS_def)

lemma dec_inode_shape: "length b = 72 \<Longrightarrow> inode_shape (dec_inode b)"
  by (simp add: dec_inode_def inode_shape_def)

lemma enc_dirent_length: "dirent_shape d \<Longrightarrow> length (enc_dirent d) = 32"
  by (simp add: enc_dirent_def dirent_shape_def FS_NAME_MAX_def)

lemma dec_enc_dirent: "dirent_shape d \<Longrightarrow> dec_dirent (enc_dirent d) = d"
  by (simp add: dec_dirent_def enc_dirent_def dirent_shape_def slices FS_NAME_MAX_def) (simp add: bytes_at_def)

lemma dec_enc_dir:
  assumes "length ds = 16" "\<And>d. d \<in> set ds \<Longrightarrow> dirent_shape d"
  shows "dec_dir (enc_dir ds) = ds" "length (enc_dir ds) = 512"
proof -
  have "bytes_at (32 * j) 32 (concat (map enc_dirent ds)) = enc_dirent (ds ! j)" if "j < 16" for j
    using slice_concat [of ds enc_dirent 32 j "[]"] assms that enc_dirent_length by simp
  then show "dec_dir (enc_dir ds) = ds"
    using assms dec_enc_dirent
    by (intro nth_equalityI) (auto simp: dec_dir_def enc_dir_def sizeof_dirent_def DIRENT_PER_BLOCK_def FS_BLOCK_SIZE_def)
  show "length (enc_dir ds) = 512"
    using length_concat_eq [of ds enc_dirent 32] assms enc_dirent_length by (simp add: enc_dir_def)
qed

lemma dec_dir_shape: "length b = 512 \<Longrightarrow> length (dec_dir b) = 16 \<and> (\<forall>d\<in>set (dec_dir b). dirent_shape d)"
  by (auto simp: dec_dir_def dec_dirent_def dirent_shape_def sizeof_dirent_def DIRENT_PER_BLOCK_def FS_BLOCK_SIZE_def FS_NAME_MAX_def)

text \<open>A zeroed block is a directory of sixteen free entries.\<close>

lemma of_le_zeros: "of_le (replicate n 0) = 0"
  by (induction n) (simp_all add: of_le_def)

lemma slice_zeros: "off + n \<le> m \<Longrightarrow> bytes_at off n (replicate m x) = replicate n x"
  by (simp add: bytes_at_def)

lemma dec_dir_zeros: "dec_dir (replicate 512 0) = replicate 16 zero_dirent"
  by (rule nth_equalityI)
     (simp_all add: dec_dir_def dec_dirent_def zero_dirent_def sizeof_dirent_def DIRENT_PER_BLOCK_def FS_BLOCK_SIZE_def FS_NAME_MAX_def
       slice_zeros of_le_zeros del: replicate.simps)

end
