(* ===== verification/Kernel.thy ===== *)
theory Kernel
  imports Vmm Heap Predict Kbd Interact FsData
begin

unbundle bit_operations_syntax

text \<open>
  The state the process-related parts of the kernel share: the task table of \<^verbatim>\<open>sched.h\<close>, physical memory
  and its two allocators, the swap area, the file system, the model window, the page predictor, the keyboard, the interaction log and the clock;
  and the disk transfers of \<^verbatim>\<open>drivers/ide.c\<close>. The theories that follow model \<^verbatim>\<open>model.c\<close>, \<^verbatim>\<open>swap.c\<close>,
  \<^verbatim>\<open>sched.c\<close>, \<^verbatim>\<open>isr.c\<close> and \<^verbatim>\<open>syscall.c\<close> on it. Messages of \<^verbatim>\<open>printk\<close> are left out.
\<close>

section \<open>Tasks\<close>

datatype reg =
  R15 | R14 | R13 | R12 | R11 | R10 | R9 | R8 | RBP | RDI | RSI | RDX | RCX | RBX | RAX
| VECTOR | ERROR | RIP | CS | RFLAGS | RSP | SS

type_synonym regs = "reg \<Rightarrow> u64"

datatype task_state = TASK_RUNNABLE | TASK_RUNNING | TASK_BLOCKED | TASK_ZOMBIE

definition TASK_MAX :: nat where "TASK_MAX = 16"
definition TASK_KSTACK_SIZE :: u64 where "TASK_KSTACK_SIZE = 16 * 1024"
definition SWAP_MAX_PER_TASK :: nat where "SWAP_MAX_PER_TASK = 128"

text \<open>
  \<^verbatim>\<open>task_t\<close>. The two arrays of the model window keep their address beside their contents; the live part
  of \<^verbatim>\<open>swap_map\<close> is a list (its length is \<^verbatim>\<open>swap_count\<close>). The coroutine of task 0 is not a value of
  the model: switching to it is an outcome of the scheduler.
\<close>

record task =
  t_pid :: u32
  t_state :: task_state
  t_name :: string
  t_kstack :: u64
  t_kstack_size :: u64
  t_ctx :: regs
  t_cr3 :: u64
  t_wake_ticks :: u64
  t_user :: bool
  t_started :: bool
  t_on_key :: bool
  t_heap_used :: u64
  t_heap_pages :: u64
  t_budget :: u32
  t_weights :: u32
  t_faults :: u32
  t_frames_n :: u64
  t_frames_ptr :: u64
  t_frames :: "nat \<Rightarrow> u64"
  t_map_ptr :: u64
  t_map :: "nat \<Rightarrow> u32"
  t_swap :: "(u64 \<times> u32) list"
  t_exit_code :: u64

text \<open>\<^verbatim>\<open>memset(t, 0, sizeof(task_t))\<close>: the first state of the enumeration is 0.\<close>

definition zero_task :: task where
  "zero_task = \<lparr>t_pid = 0, t_state = TASK_RUNNABLE, t_name = [], t_kstack = 0, t_kstack_size = 0,
     t_ctx = (\<lambda>_. 0), t_cr3 = 0, t_wake_ticks = 0, t_user = False, t_started = False, t_on_key = False,
     t_heap_used = 0, t_heap_pages = 0, t_budget = 0, t_weights = 0, t_faults = 0, t_frames_n = 0,
     t_frames_ptr = 0, t_frames = (\<lambda>_. 0), t_map_ptr = 0, t_map = (\<lambda>_. 0), t_swap = [], t_exit_code = 0\<rparr>"

section \<open>The kernel state\<close>

type_synonym sector = "u64 list"

record swap_geom =
  g_start :: u64
  g_blocks :: u64
  g_pages :: u64

record kernel =
  k_tasks :: "task list"
  k_cur :: nat
  k_next_pid :: u32
  k_last :: nat
  k_heap :: heap
  k_mem :: "u64 \<Rightarrow> nat \<Rightarrow> u64"
  k_boot_cr3 :: u64
  k_cr3 :: u64
  k_rsp0 :: u64
  k_ticks :: u64
  k_win :: u32
  k_blob_pages :: u32
  k_blob :: "nat \<Rightarrow> nat \<Rightarrow> u64"
  k_pred :: "u64 hist"
  k_keys :: kbd
  k_geom :: swap_geom
  k_slots :: "nat \<Rightarrow> u8"
  k_active :: bool
  k_swaps_out :: u64
  k_swaps_in :: u64
  k_reclaims :: u64
  k_disk :: "u32 \<Rightarrow> sector"
  k_fs :: fsys
  k_il :: ilog
  k_out :: string

text \<open>Operations of the frame allocator and of the page tables, on the state they are part of.\<close>

definition mmu_of :: "kernel \<Rightarrow> mmu" where
  "mmu_of k = \<lparr>m_pmm = h_pmm (k_heap k), m_mem = k_mem k\<rparr>"

definition with_mmu :: "mmu \<Rightarrow> kernel \<Rightarrow> kernel" where
  "with_mmu m k = k\<lparr>k_heap := (k_heap k)\<lparr>h_pmm := m_pmm m\<rparr>, k_mem := m_mem m\<rparr>"

definition on_mmu :: "(mmu \<Rightarrow> mmu) \<Rightarrow> kernel \<Rightarrow> kernel" where
  "on_mmu f k = with_mmu (f (mmu_of k)) k"

definition k_alloc_frame :: "kernel \<Rightarrow> u64 \<times> kernel" where
  "k_alloc_frame k =
     (let (f, p) = pmm_alloc_frame (h_pmm (k_heap k)) in (f, k\<lparr>k_heap := (k_heap k)\<lparr>h_pmm := p\<rparr>\<rparr>))"

definition k_free_frame :: "u64 \<Rightarrow> kernel \<Rightarrow> kernel" where
  "k_free_frame f k = k\<lparr>k_heap := (k_heap k)\<lparr>h_pmm := pmm_free_frame f (h_pmm (k_heap k))\<rparr>\<rparr>"

definition write_page :: "u64 \<Rightarrow> (nat \<Rightarrow> u64) \<Rightarrow> kernel \<Rightarrow> kernel" where
  "write_page f page k = k\<lparr>k_mem := (k_mem k)(f := page)\<rparr>"

text \<open>
  \<^verbatim>\<open>kmalloc\<close> with enough fuel for any heap: it calls itself once per frame it takes at most. A
  \<^verbatim>\<open>kfree\<close> of a pointer without a header leaves the model.
\<close>

definition k_malloc :: "u64 \<Rightarrow> kernel \<Rightarrow> (u64 \<times> kernel) res" where
  "k_malloc n k =
     (case kmalloc (Suc (Suc PMM_MAX_FRAMES)) n (k_heap k) of
        None \<Rightarrow> Crash OutOfFuel
      | Some (p, h) \<Rightarrow> Ok (p, k\<lparr>k_heap := h\<rparr>))"

definition k_free :: "u64 \<Rightarrow> kernel \<Rightarrow> kernel res" where
  "k_free p k = map_res (\<lambda>h. k\<lparr>k_heap := h\<rparr>) (kfree p (k_heap k))"

definition task_at :: "nat \<Rightarrow> kernel \<Rightarrow> task" where
  "task_at i k = k_tasks k ! i"

definition upd_task :: "nat \<Rightarrow> (task \<Rightarrow> task) \<Rightarrow> kernel \<Rightarrow> kernel" where
  "upd_task i f k = k\<lparr>k_tasks := (k_tasks k)[i := f (k_tasks k ! i)]\<rparr>"

text \<open>A character on the console: it is captured for the log and sent down the serial line.\<close>

definition noc_os_putc :: "char \<Rightarrow> kernel \<Rightarrow> kernel" where
  "noc_os_putc c k = k\<lparr>k_il := il_capture_putc c (k_il k), k_out := k_out k @ (if c = NL then [CR, c] else [c])\<rparr>"

section \<open>Disk transfers\<close>

text \<open>
  The drive takes the low 28 bits of the sector address. Neither transfer reports an error: a failure
  of the drive is only printed.
\<close>

definition lba28 :: "u32 \<Rightarrow> u32" where
  "lba28 lba = lba AND 0x0FFFFFFF"

fun ide_write_sectors :: "u32 \<Rightarrow> 'a list \<Rightarrow> (u32 \<Rightarrow> 'a) \<Rightarrow> (u32 \<Rightarrow> 'a)" where
  "ide_write_sectors lba [] d = d"
| "ide_write_sectors lba (x # xs) d = ide_write_sectors (lba + 1) xs (d(lba28 lba := x))"

definition ide_read_sectors :: "u32 \<Rightarrow> nat \<Rightarrow> (u32 \<Rightarrow> 'a) \<Rightarrow> 'a list" where
  "ide_read_sectors lba n d = map (\<lambda>i. d (lba28 (lba + of_nat i))) [0..<n]"

text \<open>A page as eight sectors of 64 words.\<close>

definition page_sectors :: "(nat \<Rightarrow> u64) \<Rightarrow> sector list" where
  "page_sectors page = map (\<lambda>i. map (\<lambda>j. page (64 * i + j)) [0..<64]) [0..<8]"

definition sectors_page :: "sector list \<Rightarrow> nat \<Rightarrow> u64" where
  "sectors_page ss j = (if j < 512 then ss ! (j div 64) ! (j mod 64) else 0)"

lemma sectors_page_sectors: "j < 512 \<Longrightarrow> sectors_page (page_sectors page) j = page j"
  by (simp add: sectors_page_def page_sectors_def less_mult_imp_div_less)

section \<open>What the operations leave alone\<close>

lemma upd_task_sel [simp]:
  "k_cur (upd_task i f k) = k_cur k" "k_last (upd_task i f k) = k_last k" "k_ticks (upd_task i f k) = k_ticks k"
  "length (k_tasks (upd_task i f k)) = length (k_tasks k)" "k_boot_cr3 (upd_task i f k) = k_boot_cr3 k"
  "k_cr3 (upd_task i f k) = k_cr3 k" "k_rsp0 (upd_task i f k) = k_rsp0 k" "k_heap (upd_task i f k) = k_heap k"
  "k_mem (upd_task i f k) = k_mem k" "k_keys (upd_task i f k) = k_keys k" "k_active (upd_task i f k) = k_active k"
  by (simp_all add: upd_task_def)

lemma task_at_upd: "task_at j (upd_task i f k) = (if j = i \<and> i < length (k_tasks k) then f (task_at i k) else task_at j k)"
  by (cases "i < length (k_tasks k)") (auto simp: upd_task_def task_at_def list_update_beyond)

lemma task_at_frame [simp]:
  "task_at i (k\<lparr>k_cur := c\<rparr>) = task_at i k" "task_at i (k\<lparr>k_last := c\<rparr>) = task_at i k"
  "task_at i (k\<lparr>k_rsp0 := w\<rparr>) = task_at i k" "task_at i (k\<lparr>k_cr3 := w\<rparr>) = task_at i k"
  "task_at i (k\<lparr>k_ticks := w\<rparr>) = task_at i k" "task_at i (k\<lparr>k_heap := h\<rparr>) = task_at i k"
  "task_at i (k\<lparr>k_il := l\<rparr>) = task_at i k" "task_at i (k\<lparr>k_mem := m\<rparr>) = task_at i k"
  by (simp_all add: task_at_def)

text \<open>Operations on memory and on the two allocators change nothing else.\<close>

definition only_mem :: "kernel \<Rightarrow> kernel \<Rightarrow> bool" where
  "only_mem k k' \<longleftrightarrow> (\<exists>h m. k' = k\<lparr>k_heap := h, k_mem := m\<rparr>)"

lemma only_mem_refl [simp]: "only_mem k k"
  unfolding only_mem_def by (rule exI [of _ "k_heap k"], rule exI [of _ "k_mem k"]) simp

lemma only_mem_trans:
  assumes "only_mem k k'" "only_mem k' k''"
  shows "only_mem k k''"
proof -
  obtain h m where 1: "k' = k\<lparr>k_heap := h, k_mem := m\<rparr>" using assms(1) by (auto simp: only_mem_def)
  obtain h' m' where "k'' = k'\<lparr>k_heap := h', k_mem := m'\<rparr>" using assms(2) by (auto simp: only_mem_def)
  then have "k'' = k\<lparr>k_heap := h', k_mem := m'\<rparr>" using 1 by simp
  then show ?thesis unfolding only_mem_def by blast
qed

lemma only_mem_heap: "only_mem k (k\<lparr>k_heap := h\<rparr>)"
  unfolding only_mem_def by (rule exI [of _ h], rule exI [of _ "k_mem k"]) simp

lemma only_mem_mem: "only_mem k (k\<lparr>k_mem := m\<rparr>)"
  unfolding only_mem_def by (rule exI [of _ "k_heap k"], rule exI [of _ m]) simp

lemma only_mem_ops [simp]:
  "only_mem k (with_mmu m k)" "only_mem k (on_mmu g k)" "only_mem k (write_page f page k)" "only_mem k (k_free_frame f k)"
  "only_mem k (snd (k_alloc_frame k))"
  by (auto simp: with_mmu_def on_mmu_def write_page_def k_free_frame_def k_alloc_frame_def only_mem_heap only_mem_mem
      split: prod.split intro: only_mem_def [THEN iffD2])

lemma only_mem_malloc: "k_malloc n k = Ok (p, k') \<Longrightarrow> only_mem k k'"
  by (auto simp: k_malloc_def only_mem_heap split: option.split_asm)

lemma only_mem_free: "k_free p k = Ok k' \<Longrightarrow> only_mem k k'"
  by (cases "kfree p (k_heap k)") (auto simp: k_free_def only_mem_heap)

lemma only_mem_sel:
  assumes "only_mem k k'"
  shows "k_tasks k' = k_tasks k" "k_cur k' = k_cur k" "k_last k' = k_last k" "k_cr3 k' = k_cr3 k" "k_rsp0 k' = k_rsp0 k"
    "k_boot_cr3 k' = k_boot_cr3 k" "k_next_pid k' = k_next_pid k" "k_il k' = k_il k" "task_at i k' = task_at i k"
  using assms by (auto simp: only_mem_def task_at_def)

section \<open>An example state\<close>

text \<open>The shell, and ring-3 tasks in the first entries of the table; the memory is given.\<close>

definition demo_task :: "u32 \<Rightarrow> u64 \<Rightarrow> task" where
  "demo_task pid cr3 = zero_task\<lparr>t_pid := pid, t_user := True, t_cr3 := cr3, t_budget := 8192\<rparr>"

definition demo_kernel :: "mmu \<Rightarrow> task list \<Rightarrow> kernel" where
  "demo_kernel m ts =
     \<lparr>k_tasks = zero_task # ts @ replicate (TASK_MAX - 1 - length ts) zero_task, k_cur = 0, k_next_pid = 8, k_last = 0,
      k_heap = empty_heap\<lparr>h_pmm := m_pmm m\<rparr>, k_mem = m_mem m, k_boot_cr3 = 0, k_cr3 = 0, k_rsp0 = 0, k_ticks = 41, k_win = 4,
      k_blob_pages = 4, k_blob = (\<lambda>pg j. of_nat (pg + j)), k_pred = empty_hist 0, k_keys = idle_kbd,
      k_geom = \<lparr>g_start = 64, g_blocks = 64, g_pages = 8\<rparr>, k_slots = (\<lambda>_. 0), k_active = True, k_swaps_out = 0, k_swaps_in = 0,
      k_reclaims = 0, k_disk = (\<lambda>_. []), k_fs = boot_fsys, k_il = \<lparr>il_ring = [], il_records = 0, il_cap = [], il_cap_on = False\<rparr>, k_out = []\<rparr>"

lemma mmu_demo [simp]: "mmu_of (demo_kernel m ts) = m"
  by (simp add: mmu_of_def demo_kernel_def)

end
