(* ===== verification/Model.thy ===== *)
theory Model
  imports Kernel
begin

unbundle bit_operations_syntax

text \<open>
  The model window, \<^verbatim>\<open>kernel/mm/model.c\<close>: read-only pages of the weight blob, copied into a frame and
  mapped on the first access, charged against a budget per task, and evicted on request. The blob
  itself belongs to the transformer; here it is the part \<open>k_blob\<close> of the state.
\<close>

section \<open>Operations\<close>

definition model_window_pages :: "kernel \<Rightarrow> u32" where
  "model_window_pages k = k_win k"

definition model_window_setup :: "kernel \<Rightarrow> kernel" where
  "model_window_setup k =
     (let p = (if k_blob_pages k < 1 then 1 else k_blob_pages k);
          q = (if ucast p > USER_MODEL_MAX div 4096 then ucast (USER_MODEL_MAX div 4096) else p)
      in k\<lparr>k_win := q\<rparr>)"

definition model_in_range :: "u64 \<Rightarrow> kernel \<Rightarrow> bool" where
  "model_in_range addr k \<longleftrightarrow> addr \<ge> USER_MODEL_BASE \<and> addr - USER_MODEL_BASE < ucast (k_win k) * 4096"

definition bitmap_words :: "u32 \<Rightarrow> u32" where
  "bitmap_words n = (n + 31) div 32"

text \<open>The loop \<^verbatim>\<open>for (b = w; b; b &= b - 1) n++\<close>.\<close>

lemma and_pred_less:
  assumes "(b :: u32) \<noteq> 0"
  shows "unat (b AND (b - 1)) < unat b"
proof -
  have "b AND (b - 1) \<le> b - 1" by (rule word_and_le1)
  then have "unat (b AND (b - 1)) \<le> unat b - 1" using unat_dec [OF assms] by (simp add: word_le_nat_alt)
  moreover have "0 < unat b" using assms by (simp add: unat_gt_0)
  ultimately show ?thesis by linarith
qed

function count_bits :: "u32 \<Rightarrow> nat" where
  "count_bits b = (if b = 0 then 0 else Suc (count_bits (b AND (b - 1))))"
  by pat_completeness auto
termination
  by (relation "measure unat") (use and_pred_less in auto)

declare count_bits.simps [simp del]

definition model_resident_pages :: "task \<Rightarrow> nat" where
  "model_resident_pages t =
     (if t_map_ptr t \<noteq> 0 then (\<Sum>i\<leftarrow>[0..<(unat (t_frames_n t) + 31) div 32]. count_bits (t_map t i)) else 0)"

definition model_ensure_task :: "nat \<Rightarrow> u32 \<Rightarrow> kernel \<Rightarrow> (bool \<times> kernel) res" where
  "model_ensure_task i pages k =
     (let t = task_at i k
      in if t_frames_n t \<ge> ucast pages \<and> t_frames_ptr t \<noteq> 0 \<and> t_map_ptr t \<noteq> 0 then Ok (True, k)
         else
           bind_res (k_malloc (8 * ucast pages) k) (\<lambda>(fp, k).
           bind_res (k_malloc (4 * ucast (bitmap_words pages)) k) (\<lambda>(mp, k).
             if fp = 0 \<or> mp = 0 then
               bind_res (if fp \<noteq> 0 then k_free fp k else Ok k) (\<lambda>k.
               bind_res (if mp \<noteq> 0 then k_free mp k else Ok k) (\<lambda>k. Ok (False, k)))
             else
               bind_res (if t_frames_ptr t \<noteq> 0 then k_free (t_frames_ptr t) k else Ok k) (\<lambda>k.
               bind_res (if t_map_ptr t \<noteq> 0 then k_free (t_map_ptr t) k else Ok k) (\<lambda>k.
                 Ok (True, upd_task i (\<lambda>t. t\<lparr>t_frames_ptr := fp, t_frames := (\<lambda>_. 0), t_map_ptr := mp,
                                          t_map := (\<lambda>_. 0), t_frames_n := ucast pages\<rparr>) k))))))"

definition model_exit_task :: "nat \<Rightarrow> kernel \<Rightarrow> kernel res" where
  "model_exit_task i k =
     (let t = task_at i k
      in bind_res (if t_frames_ptr t \<noteq> 0 then k_free (t_frames_ptr t) k else Ok k) (\<lambda>k.
         bind_res (if t_map_ptr t \<noteq> 0 then k_free (t_map_ptr t) k else Ok k) (\<lambda>k.
           Ok (upd_task i (\<lambda>t. t\<lparr>t_frames_ptr := 0, t_map_ptr := 0, t_frames_n := 0\<rparr>) k))))"

definition model_page_resident :: "task \<Rightarrow> nat \<Rightarrow> bool" where
  "model_page_resident t pg \<longleftrightarrow> t_map_ptr t \<noteq> 0 \<and> drop_bit (pg mod 32) (t_map t (pg div 32)) AND 1 \<noteq> 0"

definition model_page_set :: "nat \<Rightarrow> bool \<Rightarrow> task \<Rightarrow> task" where
  "model_page_set pg resident t =
     (let w = t_map t (pg div 32); b = push_bit (pg mod 32) 1
      in t\<lparr>t_map := (t_map t)(pg div 32 := (if resident then w OR b else w AND NOT b))\<rparr>)"

definition model_page_addr :: "nat \<Rightarrow> u64" where
  "model_page_addr pg = USER_MODEL_BASE + of_nat pg * 4096"

definition model_fault_in_page :: "nat \<Rightarrow> nat \<Rightarrow> kernel \<Rightarrow> bool \<times> kernel" where
  "model_fault_in_page i pg k =
     (let (f, k) = k_alloc_frame k
      in if f = 0 then (False, k)
         else (let k = write_page f (k_blob k pg) k;
                   k = on_mmu (vmm_map (t_cr3 (task_at i k)) (model_page_addr pg) f VMM_USER) k
               in (True, upd_task i (\<lambda>t. model_page_set pg True (t\<lparr>t_frames := (t_frames t)(pg := f), t_weights := t_weights t + 4\<rparr>)) k)))"

definition over_budget :: "task \<Rightarrow> bool" where
  "over_budget t \<longleftrightarrow> ucast (t_weights t) + 4 > (ucast (t_budget t) :: u64)"

definition model_demand_fault :: "nat \<Rightarrow> u64 \<Rightarrow> u64 \<Rightarrow> kernel \<Rightarrow> (bool \<times> kernel) res" where
  "model_demand_fault i cr2 err k =
     (if \<not> model_in_range cr2 k then Ok (False, k)
      else if err AND 1 \<noteq> 0 then Ok (False, k)
      else
        (let pg = unat ((cr2 - USER_MODEL_BASE) div 4096)
         in if pg \<ge> unat (k_win k) then Ok (False, k)
            else
              bind_res (model_ensure_task i (k_win k) k) (\<lambda>(ok, k).
                if \<not> ok then Ok (False, k)
                else if model_page_resident (task_at i k) pg then Ok (True, k)
                else if over_budget (task_at i k) then Ok (False, k)
                else (case model_fault_in_page i pg k of
                        (False, k) \<Rightarrow> Ok (False, k)
                      | (True, k) \<Rightarrow> Ok (True, upd_task i (\<lambda>t. t\<lparr>t_faults := t_faults t + 1\<rparr>) k)))))"

definition model_prefetch :: "nat \<Rightarrow> kernel \<Rightarrow> kernel res" where
  "model_prefetch i k =
     (let p = pgpred_predict (k_pred k); va = push_bit 12 p
      in if p = 0 \<or> \<not> model_in_range va k then Ok k
         else
           (let pg = unat ((va - USER_MODEL_BASE) div 4096)
            in if pg \<ge> unat (k_win k) then Ok k
               else
                 bind_res (model_ensure_task i (k_win k) k) (\<lambda>(ok, k).
                   if \<not> ok \<or> model_page_resident (task_at i k) pg \<or> over_budget (task_at i k) then Ok k
                   else Ok (snd (model_fault_in_page i pg k)))))"

text \<open>Unmap a resident page, free its frame and refund it.\<close>

definition drop_page :: "nat \<Rightarrow> nat \<Rightarrow> kernel \<Rightarrow> kernel" where
  "drop_page i pg k =
     (let t = task_at i k;
          k = on_mmu (vmm_unmap (t_cr3 t) (model_page_addr pg)) k;
          k = k_free_frame (t_frames t pg) k
      in upd_task i (\<lambda>t. model_page_set pg False (t\<lparr>t_frames := (t_frames t)(pg := 0), t_weights := t_weights t - 4\<rparr>)) k)"

definition model_evict_page :: "nat \<Rightarrow> nat \<Rightarrow> kernel \<Rightarrow> bool \<times> kernel" where
  "model_evict_page i pg k =
     (if pg \<ge> unat (k_win k) then (False, k)
      else if t_map_ptr (task_at i k) = 0 \<or> \<not> model_page_resident (task_at i k) pg then (False, k)
      else (True, drop_page i pg k))"

definition model_invalidate_task :: "nat \<Rightarrow> kernel \<Rightarrow> kernel" where
  "model_invalidate_task i k =
     (let t = task_at i k
      in if t_frames_ptr t = 0 \<or> t_map_ptr t = 0 then k
         else fold (\<lambda>pg k. if model_page_resident (task_at i k) pg then drop_page i pg k else k)
                [0..<unat (t_frames_n t)] k)"

text \<open>\<^verbatim>\<open>sched_foreach_user\<close>: every task with a kernel stack that runs in ring 3.\<close>

definition sched_foreach_user :: "(nat \<Rightarrow> kernel \<Rightarrow> kernel) \<Rightarrow> kernel \<Rightarrow> kernel" where
  "sched_foreach_user cb k =
     fold (\<lambda>i k. if t_kstack (task_at i k) \<noteq> 0 \<and> t_user (task_at i k) then cb i k else k) [0..<TASK_MAX] k"

definition model_invalidate_all :: "kernel \<Rightarrow> kernel" where
  "model_invalidate_all k = sched_foreach_user model_invalidate_task k"

section \<open>Demand paging\<close>

lemma resident_set:
  assumes "t_map_ptr t \<noteq> 0"
  shows "model_page_resident (model_page_set pg b t) q \<longleftrightarrow> (if q = pg then b else model_page_resident t q)"
proof -
  have r: "model_page_resident t q \<longleftrightarrow> bit (t_map t (q div 32)) (q mod 32)" if "t_map_ptr t \<noteq> 0" for t q
    using that by (auto simp: model_page_resident_def bit_iff_odd_drop_bit and_one_eq odd_iff_mod_2_eq_one)
  have "q div 32 = pg div 32 \<Longrightarrow> q mod 32 = pg mod 32 \<longleftrightarrow> q = pg" by (metis div_mult_mod_eq)
  then show ?thesis using assms unfolding r [OF assms]
    by (subst r) (auto simp: model_page_set_def Let_def bit_simps)
qed

text \<open>The bookkeeping of a task is in place for the whole window.\<close>

definition window_ok :: "task \<Rightarrow> kernel \<Rightarrow> bool" where
  "window_ok t k \<longleftrightarrow> t_frames_n t \<ge> ucast (k_win k) \<and> t_frames_ptr t \<noteq> 0 \<and> t_map_ptr t \<noteq> 0"

definition window_page :: "u64 \<Rightarrow> nat" where
  "window_page cr2 = unat ((cr2 - USER_MODEL_BASE) div 4096)"

lemma demand_fault_eq:
  assumes "window_ok (task_at i k) k"
  shows "model_demand_fault i cr2 err k =
    (if \<not> model_in_range cr2 k \<or> err AND 1 \<noteq> 0 \<or> window_page cr2 \<ge> unat (k_win k) then Ok (False, k)
     else if model_page_resident (task_at i k) (window_page cr2) then Ok (True, k)
     else if over_budget (task_at i k) then Ok (False, k)
     else (case model_fault_in_page i (window_page cr2) k of
             (False, k) \<Rightarrow> Ok (False, k)
           | (True, k) \<Rightarrow> Ok (True, upd_task i (\<lambda>t. t\<lparr>t_faults := t_faults t + 1\<rparr>) k)))"
  using assms by (simp add: model_demand_fault_def model_ensure_task_def window_ok_def window_page_def Let_def)

lemma fault_in_page_maps:
  assumes sp: "spaces (mmu_of k) C" "t_cr3 (task_at i k) \<in> C" "idx 3 (model_page_addr pg) \<noteq> 0"
    and free: "4 \<le> free_count (m_pmm (mmu_of k))" and i: "i < length (k_tasks k)"
  shows "\<exists>f k'. model_fault_in_page i pg k = (True, k') \<and> vmm_translate (mmu_of k') (t_cr3 (task_at i k)) (model_page_addr pg) = f \<and>
    k_mem k' f = k_blob k pg \<and> spaces (mmu_of k') C \<and> view_but C (t_cr3 (task_at i k)) (model_page_addr pg) (mmu_of k) (mmu_of k') \<and>
    task_at i k' = model_page_set pg True ((task_at i k)\<lparr>t_frames := (t_frames (task_at i k))(pg := f), t_weights := t_weights (task_at i k) + 4\<rparr>)"
proof -
  let ?c = "t_cr3 (task_at i k)" and ?va = "model_page_addr pg"
  obtain f k1 where al: "k_alloc_frame k = (f, k1)" by fastforce
  have al': "pmm_alloc_frame (m_pmm (mmu_of k)) = (f, h_pmm (k_heap k1))" "k_mem k1 = k_mem k" "k_blob k1 = k_blob k"
    "k_tasks k1 = k_tasks k" using al by (auto simp: k_alloc_frame_def mmu_of_def split: prod.split_asm)
  have "f \<noteq> 0" using alloc_none [of "m_pmm (mmu_of k)"] sp(1) al'(1) free by (auto simp: spaces_def)
  define m where "m = (mmu_of k)\<lparr>m_pmm := h_pmm (k_heap k1)\<rparr>"
  note data = alloc_data [OF sp(1) al'(1) \<open>f \<noteq> 0\<close>, folded m_def]
  define w where "w = m\<lparr>m_mem := (m_mem m)(f := k_blob k pg)\<rparr>"
  note wd = write_data [OF data(1,2), of "k_blob k pg", folded w_def]
  let ?k2 = "on_mmu (vmm_map ?c ?va f VMM_USER) (write_page f (k_blob k pg) k1)"
  let ?k3 = "upd_task i (\<lambda>t. model_page_set pg True (t\<lparr>t_frames := (t_frames t)(pg := f), t_weights := t_weights t + 4\<rparr>)) ?k2"
  have wm: "mmu_of (write_page f (k_blob k pg) k1) = w" using al'(2) by (simp add: w_def m_def mmu_of_def write_page_def)
  have mm: "mmu_of ?k3 = vmm_map ?c ?va f VMM_USER w" unfolding wm [symmetric] by (simp add: mmu_of_def on_mmu_def with_mmu_def upd_task_def)
  have r: "model_fault_in_page i pg k = (True, ?k3)"
    using al \<open>f \<noteq> 0\<close> al'(3,4) by (simp add: model_fault_in_page_def Let_def task_at_def write_page_def)
  have "3 \<le> free_count (m_pmm w)" using free data(4) by (simp add: w_def m_def)
  then have tr: "vmm_translate (mmu_of ?k3) ?c ?va = f" "spaces (mmu_of ?k3) C" "view_but C ?c ?va w (mmu_of ?k3)"
    unfolding mm using vmm_map_spaces [OF wd(1) sp(2,3)] data(3) by auto
  have "vmm_translate w d va = vmm_translate (mmu_of k) d va" if "d \<in> C" "idx 3 va \<noteq> 0" for d va
  proof -
    have t: "tab w d (vpath va) = tab m d (vpath va)" unfolding w_def by (rule write_tab [OF data(2) that(1) upath_vpath [OF that(2)]])
    have "m_mem w pt = m_mem m pt" if "tab m d (vpath va) = Some pt" for pt
      using data(2) \<open>d \<in> C\<close> upath_vpath [OF \<open>idx 3 va \<noteq> 0\<close>] that by (auto simp: is_data_def w_def)
    then have "vmm_translate w d va = vmm_translate m d va" unfolding translate_vpath t by (auto split: option.split)
    also have "\<dots> = vmm_translate (mmu_of k) d va" by (simp add: m_def vmm_translate_def leaf_table_def walk1_def)
    finally show ?thesis .
  qed
  then have "view_but C ?c ?va (mmu_of k) (mmu_of ?k3)" using tr(3) by (simp add: view_but_def)
  moreover have "k_mem ?k3 f = k_blob k pg"
  proof -
    have "k_mem ?k3 f = m_mem (mmu_of ?k3) f" by (simp add: mmu_of_def)
    then show ?thesis unfolding mm using vmm_map_data [OF wd(1) sp(2,3), of f] wd(2) data(2) by (simp add: w_def)
  qed
  moreover have "task_at i ?k3 = model_page_set pg True ((task_at i k)\<lparr>t_frames := (t_frames (task_at i k))(pg := f), t_weights := t_weights (task_at i k) + 4\<rparr>)"
    using i al'(4) by (simp add: task_at_upd task_at_def on_mmu_def with_mmu_def write_page_def upd_task_def)
  ultimately show ?thesis using r tr by blast
qed

lemma fault_in_page_win:
  assumes "model_fault_in_page i pg k = (b, k')"
  shows "k_win k' = k_win k" "length (k_tasks k') = length (k_tasks k)"
  using assms by (auto simp: model_fault_in_page_def Let_def k_alloc_frame_def on_mmu_def with_mmu_def write_page_def upd_task_def split: prod.split_asm if_split_asm)

lemma window_idx:
  assumes "pg < 262144"
  shows "idx 3 (model_page_addr pg) = 2"
proof -
  have "unat (of_nat pg :: u64) = pg" using assms by (simp add: unat_of_nat)
  then have "unat (of_nat pg * 4096 :: u64) = pg * 4096" using assms by (simp add: unat_word_ariths)
  then have u: "unat (model_page_addr pg) = 0x100F1000000 + pg * 4096"
    using assms by (simp add: model_page_addr_def USER_MODEL_BASE_def unat_word_ariths)
  have "unat (drop_bit 39 (model_page_addr pg)) = unat (model_page_addr pg) div 2 ^ 39" by (simp add: drop_bit_eq_div unat_div)
  also have "\<dots> = 2" unfolding u by (rule div_nat_eqI) (use assms in simp_all)
  finally have "drop_bit 39 (model_page_addr pg) = 2" by (simp add: word_unat_eq_iff)
  then show ?thesis by (simp add: idx_def)
qed

lemma in_window:
  assumes "model_in_range cr2 k" "unat (k_win k) \<le> 262144"
  shows "window_page cr2 < unat (k_win k)"
proof -
  have "unat (ucast (k_win k) * 4096 :: u64) = unat (k_win k) * 4096" using assms(2) by (simp add: unat_word_ariths)
  then have "unat (cr2 - USER_MODEL_BASE) < unat (k_win k) * 4096" using assms(1) by (simp add: model_in_range_def word_less_nat_alt)
  then show ?thesis unfolding window_page_def by (simp add: unat_div less_mult_imp_div_less)
qed


definition model_task :: kernel where
  "model_task = demo_kernel one_space [(demo_task 1 4096)\<lparr>t_frames_n := 4, t_frames_ptr := 64, t_map_ptr := 128\<rparr>]"


end
