(* ===== verification/Swap.thy ===== *)
theory Swap
  imports Model "HOL-Library.Multiset"
begin

unbundle bit_operations_syntax

text \<open>
  Swapping, \<^verbatim>\<open>kernel/mm/swap.c\<close>: pages of user tasks are written to slots in the last quarter of the disk
  and read back on the next access. A bitmap says which slots are taken; each task keeps the list of its
  pages that are out.
\<close>

section \<open>Operations\<close>

definition SWAP_PAGE_SECTORS :: u64 where "SWAP_PAGE_SECTORS = 8"

definition slot_lba :: "u32 \<Rightarrow> kernel \<Rightarrow> u32" where
  "slot_lba slot k = ucast (g_start (k_geom k) + ucast slot * SWAP_PAGE_SECTORS)"

definition swap_geometry :: "u64 \<Rightarrow> swap_geom" where
  "swap_geometry disk_blocks =
     (let b = drop_bit 2 disk_blocks; blocks = (if b < SWAP_PAGE_SECTORS then SWAP_PAGE_SECTORS else b)
      in \<lparr>g_start = disk_blocks - blocks, g_blocks = blocks, g_pages = blocks div SWAP_PAGE_SECTORS\<rparr>)"

definition swap_init :: "u64 \<Rightarrow> kernel \<Rightarrow> (int \<times> kernel) res" where
  "swap_init drive_sectors k =
     (let g = swap_geometry (if drive_sectors = 0 then 32 * 1024 * 1024 div 512 else drive_sectors)
      in bind_res (k_malloc ((g_pages g + 7) div 8) (k\<lparr>k_geom := g\<rparr>)) (\<lambda>(p, k).
           if p = 0 then Ok (-1, k) else Ok (0, k\<lparr>k_slots := (\<lambda>_. 0), k_active := True\<rparr>)))"

definition slot_alloc :: "kernel \<Rightarrow> u32 option \<times> kernel" where
  "slot_alloc k =
     (if \<not> k_active k then (None, k)
      else case first_in (\<lambda>i. \<not> bitmap_test (k_slots k) i) 0 (unat (g_pages (k_geom k))) of
             None \<Rightarrow> (None, k)
           | Some i \<Rightarrow> (Some (of_nat i), k\<lparr>k_slots := bitmap_set (k_slots k) i\<rparr>))"

definition slot_free :: "u32 \<Rightarrow> kernel \<Rightarrow> kernel" where
  "slot_free s k = k\<lparr>k_slots := bitmap_clear (k_slots k) (unat s)\<rparr>"

definition ent_find :: "task \<Rightarrow> u64 \<Rightarrow> nat option" where
  "ent_find t va = first_in (\<lambda>i. fst (t_swap t ! i) = drop_bit 12 va) 0 (length (t_swap t))"

definition swap_has :: "task \<Rightarrow> u64 \<Rightarrow> bool" where
  "swap_has t va \<longleftrightarrow> ent_find t va \<noteq> None"

definition swap_out :: "nat \<Rightarrow> u64 \<Rightarrow> kernel \<Rightarrow> int \<times> kernel" where
  "swap_out i va k =
     (let t = task_at i k
      in if \<not> k_active k \<or> \<not> t_user t \<or> t_cr3 t = 0 then (-1, k)
         else if ent_find t va \<noteq> None then (-1, k)
         else if length (t_swap t) \<ge> SWAP_MAX_PER_TASK then (-1, k)
         else
           (let f = vmm_translate (mmu_of k) (t_cr3 t) va
            in if f = 0 then (-1, k)
               else (case slot_alloc k of
                       (None, k) \<Rightarrow> (-1, k)
                     | (Some slot, k) \<Rightarrow>
                         (let k = k\<lparr>k_disk := ide_write_sectors (slot_lba slot k) (page_sectors (k_mem k f)) (k_disk k)\<rparr>;
                              k = on_mmu (vmm_unmap (t_cr3 t) va) k;
                              k = k_free_frame f k;
                              k = upd_task i (\<lambda>t. t\<lparr>t_swap := t_swap t @ [(drop_bit 12 va, slot)]\<rparr>) k
                          in (0, k\<lparr>k_swaps_out := k_swaps_out k + 1\<rparr>)))))"

text \<open>\<^verbatim>\<open>map[e] = map[--count]\<close>: the last entry takes the place of the removed one.\<close>

definition remove_ent :: "nat \<Rightarrow> 'a list \<Rightarrow> 'a list" where
  "remove_ent e xs = butlast (xs[e := last xs])"

definition swap_in :: "nat \<Rightarrow> u64 \<Rightarrow> kernel \<Rightarrow> int \<times> kernel" where
  "swap_in i va k =
     (let t = task_at i k
      in if \<not> k_active k \<or> \<not> t_user t \<or> t_cr3 t = 0 then (-1, k)
         else case ent_find t va of
                None \<Rightarrow> (-1, k)
              | Some e \<Rightarrow>
                  (let (f, k) = k_alloc_frame k; slot = snd (t_swap t ! e)
                   in if f = 0 then (-1, k)
                      else
                        (let k = write_page f (sectors_page (ide_read_sectors (slot_lba slot k) 8 (k_disk k))) k;
                             k = on_mmu (vmm_map (t_cr3 t) va f (VMM_USER OR VMM_WRITE)) k;
                             k = slot_free slot k;
                             k = upd_task i (\<lambda>t. t\<lparr>t_swap := remove_ent e (t_swap t)\<rparr>) k
                         in (0, k\<lparr>k_swaps_in := k_swaps_in k + 1\<rparr>))))"

definition swap_exit_task :: "nat \<Rightarrow> kernel \<Rightarrow> kernel" where
  "swap_exit_task i k =
     (if \<not> k_active k then k
      else upd_task i (\<lambda>t. t\<lparr>t_swap := []\<rparr>) (fold (\<lambda>(key, s). slot_free s) (t_swap (task_at i k)) k))"

definition swap_slots_used :: "kernel \<Rightarrow> nat" where
  "swap_slots_used k =
     (if \<not> k_active k then 0
      else length (filter (bitmap_test (k_slots k)) [0..<unat (g_pages (k_geom k))]))"

definition swap_prefetch :: "nat \<Rightarrow> kernel \<Rightarrow> kernel" where
  "swap_prefetch i k =
     (let t = task_at i k; p = pgpred_predict (k_pred k); va = push_bit 12 p
      in if \<not> k_active k \<or> \<not> t_user t \<or> t_cr3 t = 0 then k
         else if p = 0 \<or> va < USER_IMAGE_BASE \<or> va \<ge> USER_REGION_END then k
         else if \<not> swap_has t va then k
         else snd (swap_in i va k))"

definition low_water :: "kernel \<Rightarrow> u64" where
  "low_water k = total_frames (h_pmm (k_heap k)) div 25"

definition enough_free :: "kernel \<Rightarrow> bool" where
  "enough_free k \<longleftrightarrow> free_frames (h_pmm (k_heap k)) > low_water k"

text \<open>The three loops of \<^verbatim>\<open>reclaim_task\<close>: swap pages out until enough frames are free.\<close>

fun reclaim_pages :: "nat \<Rightarrow> u64 list \<Rightarrow> kernel \<Rightarrow> bool \<times> kernel" where
  "reclaim_pages i [] k = (False, k)"
| "reclaim_pages i (va # vas) k =
     (case swap_out i va k of
        (r, k) \<Rightarrow>
          if r = 0 then
            (let k = k\<lparr>k_reclaims := k_reclaims k + 1\<rparr>
             in if enough_free k then (True, k) else reclaim_pages i vas k)
          else reclaim_pages i vas k)"

definition reclaim_task :: "nat \<Rightarrow> kernel \<Rightarrow> kernel" where
  "reclaim_task i k =
     (let t = task_at i k; pages = (\<lambda>base n. map (\<lambda>j. base + of_nat j * 4096) [0..<n])
      in if enough_free k then k
         else if \<not> t_user t \<or> t_cr3 t = 0 then k
         else snd (reclaim_pages i
                (pages USER_SCRIPT_BASE 8 @ pages USER_STACK_BASE 16 @ pages USER_HEAP_BASE (unat (t_heap_pages t))) k))"

definition swap_reclaim :: "kernel \<Rightarrow> kernel" where
  "swap_reclaim k = (if \<not> k_active k \<or> enough_free k then k else sched_foreach_user reclaim_task k)"

section \<open>Sectors\<close>

lemma lba28_small: "unat lba < 2 ^ 28 \<Longrightarrow> lba28 lba = lba"
proof -
  assume "unat lba < 2 ^ 28"
  then have "unat (take_bit 28 lba) = unat lba" by (simp add: unat_mod take_bit_eq_mod)
  then have "take_bit 28 lba = lba" by (simp only: word_unat_eq_iff)
  then show "lba28 lba = lba" by (simp add: lba28_def take_bit_eq_mask mask_eq_exp_minus_1)
qed

lemma ide_write_at:
  assumes "unat lba + length xs \<le> 2 ^ 28"
  shows "ide_write_sectors lba xs d a =
    (if unat lba \<le> unat a \<and> unat a < unat lba + length xs then xs ! (unat a - unat lba) else d a)"
  using assms
proof (induction xs arbitrary: lba d)
  case (Cons x xs)
  have n: "unat (lba + 1) = unat lba + 1" using Cons.prems by (simp add: unat_word_ariths)
  have l: "lba28 lba = lba" using Cons.prems by (intro lba28_small) simp
  have "unat a = unat lba \<longleftrightarrow> a = lba" by (simp add: unat_arith_simps(3))
  then show ?case using Cons.IH [of "lba + 1"] Cons.prems n by (auto simp: l nth_Cons' Suc_le_eq not_less)
qed auto

lemma ide_read_nth:
  assumes "unat lba + n \<le> 2 ^ 28" "i < n"
  shows "ide_read_sectors lba n d ! i = d (lba + of_nat i)" "unat (lba + of_nat i) = unat lba + i"
proof -
  show u: "unat (lba + of_nat i) = unat lba + i" using assms by (simp add: unat_word_ariths unat_of_nat)
  then show "ide_read_sectors lba n d ! i = d (lba + of_nat i)" using assms by (simp add: ide_read_sectors_def lba28_small)
qed

lemma ide_read_length [simp]: "length (ide_read_sectors lba n d) = n"
  by (simp add: ide_read_sectors_def)

lemma ide_read_written:
  assumes "unat lba + length xs \<le> 2 ^ 28"
  shows "ide_read_sectors lba (length xs) (ide_write_sectors lba xs d) = xs"
proof (rule nth_equalityI)
  fix i
  assume i: "i < length (ide_read_sectors lba (length xs) (ide_write_sectors lba xs d))"
  then show "ide_read_sectors lba (length xs) (ide_write_sectors lba xs d) ! i = xs ! i"
    using ide_read_nth(1) [OF assms, of i "ide_write_sectors lba xs d"] ide_read_nth(2) [OF assms, of i] ide_write_at [OF assms, of d] by simp
qed simp

lemma ide_read_apart:
  assumes "unat lba + n \<le> 2 ^ 28" "unat lba' + length xs \<le> 2 ^ 28" "unat lba + n \<le> unat lba' \<or> unat lba' + length xs \<le> unat lba"
  shows "ide_read_sectors lba n (ide_write_sectors lba' xs d) = ide_read_sectors lba n d"
proof (rule nth_equalityI)
  fix i
  assume "i < length (ide_read_sectors lba n (ide_write_sectors lba' xs d))"
  then show "ide_read_sectors lba n (ide_write_sectors lba' xs d) ! i = ide_read_sectors lba n d ! i"
    using ide_read_nth(1) [OF assms(1), of i "ide_write_sectors lba' xs d"] ide_read_nth(1) [OF assms(1), of i d]
      ide_read_nth(2) [OF assms(1), of i]
      ide_write_at [OF assms(2), of d] assms(3) by auto
qed simp

section \<open>The swap area\<close>

text \<open>
  The swap area lies in the addressable part of the disk. A task has at most one entry for a page; an entry owns its slot, which is
  marked in the bitmap and which no other entry of any task has.
\<close>

definition swap_ents :: "kernel \<Rightarrow> nat \<Rightarrow> (u64 \<times> u32) set" where
  "swap_ents k i = set (t_swap (task_at i k))"

definition area_ok :: "swap_geom \<Rightarrow> bool" where
  "area_ok g \<longleftrightarrow> unat (g_start g) + 8 * unat (g_pages g) \<le> 2 ^ 28"

definition swap_ok :: "kernel \<Rightarrow> bool" where
  "swap_ok k \<longleftrightarrow> area_ok (k_geom k) \<and> length (k_tasks k) = TASK_MAX \<and>
     (\<forall>i < TASK_MAX. distinct (map fst (t_swap (task_at i k)))) \<and>
     (\<forall>i < TASK_MAX. \<forall>(v, s) \<in> swap_ents k i. unat s < unat (g_pages (k_geom k)) \<and> bitmap_test (k_slots k) (unat s)) \<and>
     (\<forall>i < TASK_MAX. \<forall>j < TASK_MAX. \<forall>(v, s) \<in> swap_ents k i. \<forall>(w, s') \<in> swap_ents k j. s = s' \<longrightarrow> i = j \<and> v = w)"

definition slot_page :: "kernel \<Rightarrow> u32 \<Rightarrow> nat \<Rightarrow> u64" where
  "slot_page k s = sectors_page (ide_read_sectors (slot_lba s k) 8 (k_disk k))"

text \<open>What is kept for a page that is out.\<close>

definition stored :: "kernel \<Rightarrow> nat \<Rightarrow> u64 \<Rightarrow> (nat \<Rightarrow> u64) \<Rightarrow> bool" where
  "stored k i va page \<longleftrightarrow> (\<exists>s. (drop_bit 12 va, s) \<in> swap_ents k i \<and> (\<forall>j < 512. slot_page k s j = page j))"

lemma slot_lba_nat:
  assumes "area_ok (k_geom k)" "unat s < unat (g_pages (k_geom k))"
  shows "unat (slot_lba s k) = unat (g_start (k_geom k)) + 8 * unat s" "unat (slot_lba s k) + 8 \<le> 2 ^ 28"
proof -
  have b: "unat (g_start (k_geom k)) + 8 * unat s + 8 \<le> 2 ^ 28" using assms by (simp add: area_ok_def)
  have "unat (ucast s * SWAP_PAGE_SECTORS :: u64) = 8 * unat s" using b by (simp add: SWAP_PAGE_SECTORS_def unat_word_ariths)
  then have "unat (g_start (k_geom k) + ucast s * SWAP_PAGE_SECTORS) = unat (g_start (k_geom k)) + 8 * unat s"
    using b by (simp add: unat_word_ariths)
  then show "unat (slot_lba s k) = unat (g_start (k_geom k)) + 8 * unat s"
    using b by (simp add: slot_lba_def unsigned_ucast_eq take_bit_eq_mod)
  then show "unat (slot_lba s k) + 8 \<le> 2 ^ 28" using b by simp
qed

lemma page_sectors_length [simp]: "length (page_sectors page) = 8"
  by (simp add: page_sectors_def)

lemma ent_find_spec:
  assumes "distinct (map fst (t_swap t))"
  shows "ent_find t va = None \<longleftrightarrow> (\<forall>s. (drop_bit 12 va, s) \<notin> set (t_swap t))"
    "ent_find t va = Some e \<Longrightarrow> e < length (t_swap t) \<and> fst (t_swap t ! e) = drop_bit 12 va"
proof -
  show "ent_find t va = None \<longleftrightarrow> (\<forall>s. (drop_bit 12 va, s) \<notin> set (t_swap t))"
    unfolding ent_find_def first_in_None_iff in_set_conv_nth by (metis fst_conv less_eq_nat.simps(1) prod.collapse)
  show "ent_find t va = Some e \<Longrightarrow> e < length (t_swap t) \<and> fst (t_swap t ! e) = drop_bit 12 va"
    unfolding ent_find_def first_in_Some_iff by simp
qed

lemma remove_ent_mset:
  assumes "e < length xs"
  shows "mset (xs ! e # remove_ent e xs) = mset xs"
proof -
  let ?ys = "xs[e := last xs]"
  have ne: "xs \<noteq> []" "?ys \<noteq> []" using assms by auto
  have l: "last ?ys = last xs" using ne by (simp add: last_list_update)
  have "mset ?ys = add_mset (last xs) (mset xs - {#xs ! e#})" using assms by (simp add: mset_update)
  moreover have "mset ?ys = mset (butlast ?ys @ [last ?ys])" using ne(2) by simp
  ultimately have "mset (butlast ?ys) = mset xs - {#xs ! e#}" using l by simp
  then show ?thesis using assms by (simp add: remove_ent_def)
qed

lemma remove_ent_distinct:
  assumes "e < length xs" "distinct (map fst xs)"
  shows "distinct (map fst (remove_ent e xs))" "set (remove_ent e xs) = set xs - {xs ! e}"
proof -
  have m: "mset (map fst (xs ! e # remove_ent e xs)) = mset (map fst xs)" using remove_ent_mset [OF assms(1)] by (metis mset_map)
  then have d: "distinct (map fst (xs ! e # remove_ent e xs))" using assms(2) mset_eq_imp_distinct_iff by blast
  then show "distinct (map fst (remove_ent e xs))" by simp
  have "set (xs ! e # remove_ent e xs) = set xs" using remove_ent_mset [OF assms(1)] by (metis set_mset_mset)
  moreover have "xs ! e \<notin> set (remove_ent e xs)" using d by force
  ultimately show "set (remove_ent e xs) = set xs - {xs ! e}" by auto
qed

section \<open>Swapping one page\<close>

lemma swap_fields [simp]:
  "k_slots (on_mmu g k) = k_slots k" "k_geom (on_mmu g k) = k_geom k" "k_disk (on_mmu g k) = k_disk k" "k_tasks (on_mmu g k) = k_tasks k"
  "k_slots (k_free_frame f k) = k_slots k" "k_geom (k_free_frame f k) = k_geom k" "k_disk (k_free_frame f k) = k_disk k"
  "k_tasks (k_free_frame f k) = k_tasks k"
  "k_slots (write_page f p k) = k_slots k" "k_geom (write_page f p k) = k_geom k" "k_disk (write_page f p k) = k_disk k"
  "k_tasks (write_page f p k) = k_tasks k"
  "k_slots (upd_task i h k) = k_slots k" "k_geom (upd_task i h k) = k_geom k" "k_disk (upd_task i h k) = k_disk k"
  by (simp_all add: on_mmu_def with_mmu_def k_free_frame_def write_page_def upd_task_def)

lemma slot_alloc_spec:
  assumes "slot_alloc k = (Some s, k')" "area_ok (k_geom k)"
  shows "k' = k\<lparr>k_slots := bitmap_set (k_slots k) (unat s)\<rparr>" "unat s < unat (g_pages (k_geom k))" "\<not> bitmap_test (k_slots k) (unat s)"
proof -
  obtain i where i: "first_in (\<lambda>i. \<not> bitmap_test (k_slots k) i) 0 (unat (g_pages (k_geom k))) = Some i"
    and s: "s = of_nat i" "k' = k\<lparr>k_slots := bitmap_set (k_slots k) i\<rparr>"
    using assms(1) by (auto simp: slot_alloc_def split: if_split_asm option.split_asm)
  have i2: "i < unat (g_pages (k_geom k))" "\<not> bitmap_test (k_slots k) i" using i unfolding first_in_Some_iff by auto
  then have "unat s = i" using assms(2) s(1) by (simp add: area_ok_def unat_of_nat)
  then show "k' = k\<lparr>k_slots := bitmap_set (k_slots k) (unat s)\<rparr>" "unat s < unat (g_pages (k_geom k))" "\<not> bitmap_test (k_slots k) (unat s)"
    using s(2) i2 by auto
qed

lemma swap_out_spec:
  assumes "swap_out i va k = (r, k')" "area_ok (k_geom k)" "i < length (k_tasks k)"
  obtains (failed) "r = -1" "k' = k"
  | (out) s where "r = 0" "ent_find (task_at i k) va = None" "unat s < unat (g_pages (k_geom k))" "\<not> bitmap_test (k_slots k) (unat s)"
      "k_slots k' = bitmap_set (k_slots k) (unat s)" "k_geom k' = k_geom k" "length (k_tasks k') = length (k_tasks k)"
      "k_disk k' = ide_write_sectors (slot_lba s k) (page_sectors (k_mem k (vmm_translate (mmu_of k) (t_cr3 (task_at i k)) va))) (k_disk k)"
      "\<And>j. task_at j k' = (if j = i then (task_at i k)\<lparr>t_swap := t_swap (task_at i k) @ [(drop_bit 12 va, s)]\<rparr> else task_at j k)"
      "mmu_of k' = (let m = vmm_unmap (t_cr3 (task_at i k)) va (mmu_of k)
        in m\<lparr>m_pmm := pmm_free_frame (vmm_translate (mmu_of k) (t_cr3 (task_at i k)) va) (m_pmm m)\<rparr>)"
proof (cases "k_active k \<and> t_user (task_at i k) \<and> t_cr3 (task_at i k) \<noteq> 0 \<and> ent_find (task_at i k) va = None \<and>
    length (t_swap (task_at i k)) < SWAP_MAX_PER_TASK \<and> vmm_translate (mmu_of k) (t_cr3 (task_at i k)) va \<noteq> 0")
  case False
  then show ?thesis using assms(1) failed by (auto simp: swap_out_def Let_def split: if_split_asm)
next
  case g: True
  obtain o' k1 where sa: "slot_alloc k = (o', k1)" by fastforce
  show ?thesis
  proof (cases o')
    case None
    then have "k1 = k" using sa by (auto simp: slot_alloc_def split: if_split_asm option.split_asm)
    then show ?thesis using assms(1) failed sa None g by (auto simp: swap_out_def Let_def)
  next
    case (Some s)
    note a = slot_alloc_spec [OF sa [unfolded Some] assms(2)]
    let ?f = "vmm_translate (mmu_of k) (t_cr3 (task_at i k)) va"
    let ?k2 = "k_free_frame ?f (on_mmu (vmm_unmap (t_cr3 (task_at i k)) va)
        (k1\<lparr>k_disk := ide_write_sectors (slot_lba s k1) (page_sectors (k_mem k1 ?f)) (k_disk k1)\<rparr>))"
    have k': "r = 0" "k' = (upd_task i (\<lambda>t. t\<lparr>t_swap := t_swap t @ [(drop_bit 12 va, s)]\<rparr>) ?k2)\<lparr>k_swaps_out :=
        k_swaps_out (upd_task i (\<lambda>t. t\<lparr>t_swap := t_swap t @ [(drop_bit 12 va, s)]\<rparr>) ?k2) + 1\<rparr>"
      using assms(1) g sa Some by (auto simp: swap_out_def Let_def not_le)
    have t: "k_tasks ?k2 = k_tasks k" using a(1) by simp
    have at: "task_at j k' = (if j = i then (task_at i k)\<lparr>t_swap := t_swap (task_at i k) @ [(drop_bit 12 va, s)]\<rparr> else task_at j k)" for j
      using assms(3) t unfolding k'(2) by (simp add: task_at_def upd_task_def)
    have "mmu_of k1 = mmu_of k" using a(1) by (simp add: mmu_of_def)
    then have mm: "mmu_of k' = (let m = vmm_unmap (t_cr3 (task_at i k)) va (mmu_of k) in m\<lparr>m_pmm := pmm_free_frame ?f (m_pmm m)\<rparr>)"
      unfolding k'(2) by (simp add: mmu_of_def upd_task_def k_free_frame_def on_mmu_def with_mmu_def Let_def)
    show ?thesis
      by (rule out [OF k'(1) _ a(2,3) _ _ _ _ at mm]) (use g a(1) t in \<open>simp_all add: k'(2) slot_lba_def\<close>)
  qed
qed

lemma swap_in_spec:
  assumes "swap_in i va k = (r, k')" "i < length (k_tasks k)"
  obtains (failed) "r = -1" "only_mem k k'"
  | (inn) e f k1 where "r = 0" "ent_find (task_at i k) va = Some e" "k_alloc_frame k = (f, k1)" "f \<noteq> 0"
      "k_slots k' = bitmap_clear (k_slots k) (unat (snd (t_swap (task_at i k) ! e)))" "k_geom k' = k_geom k" "k_disk k' = k_disk k"
      "length (k_tasks k') = length (k_tasks k)"
      "\<And>j. task_at j k' = (if j = i then (task_at i k)\<lparr>t_swap := remove_ent e (t_swap (task_at i k))\<rparr> else task_at j k)"
      "mmu_of k' = vmm_map (t_cr3 (task_at i k)) va f (VMM_USER OR VMM_WRITE)
         (mmu_of (write_page f (slot_page k (snd (t_swap (task_at i k) ! e))) k1))"
proof (cases "k_active k \<and> t_user (task_at i k) \<and> t_cr3 (task_at i k) \<noteq> 0 \<and> ent_find (task_at i k) va \<noteq> None")
  case False
  then show ?thesis using assms(1) failed by (auto simp: swap_in_def Let_def split: if_split_asm)
next
  case g: True
  then obtain e where e: "ent_find (task_at i k) va = Some e" by auto
  obtain f k1 where al: "k_alloc_frame k = (f, k1)" by fastforce
  have m1: "only_mem k k1" using only_mem_ops(5) [of k] al by simp
  show ?thesis
  proof (cases "f = 0")
    case True
    then show ?thesis using assms(1) failed g e al m1 by (auto simp: swap_in_def Let_def)
  next
    case False
    let ?s = "snd (t_swap (task_at i k) ! e)"
    have s1: "slot_lba ?s k1 = slot_lba ?s k" "k_disk k1 = k_disk k" "k_slots k1 = k_slots k" "k_geom k1 = k_geom k" "k_tasks k1 = k_tasks k"
      using m1 by (auto simp: only_mem_def slot_lba_def)
    let ?k2 = "on_mmu (vmm_map (t_cr3 (task_at i k)) va f (VMM_USER OR VMM_WRITE)) (write_page f (slot_page k ?s) k1)"
    let ?k3 = "upd_task i (\<lambda>t. t\<lparr>t_swap := remove_ent e (t_swap t)\<rparr>) (slot_free ?s ?k2)"
    have k': "r = 0" "k' = ?k3\<lparr>k_swaps_in := k_swaps_in ?k3 + 1\<rparr>"
      using assms(1) g e al False s1 by (auto simp: swap_in_def Let_def slot_page_def)
    have at: "task_at j k' = (if j = i then (task_at i k)\<lparr>t_swap := remove_ent e (t_swap (task_at i k))\<rparr> else task_at j k)" for j
      using assms(2) s1(5) unfolding k'(2) by (simp add: task_at_def upd_task_def slot_free_def)
    have mm: "mmu_of k' = vmm_map (t_cr3 (task_at i k)) va f (VMM_USER OR VMM_WRITE) (mmu_of (write_page f (slot_page k ?s) k1))"
      unfolding k'(2) by (simp add: mmu_of_def slot_free_def upd_task_def on_mmu_def with_mmu_def)
    show ?thesis
      by (rule inn [OF k'(1) e al False _ _ _ _ at mm]) (use s1 in \<open>simp_all add: k'(2) slot_free_def\<close>)
  qed
qed

section \<open>Slots belong to one page\<close>

lemma swap_okD:
  assumes "swap_ok k"
  shows "area_ok (k_geom k)" "length (k_tasks k) = TASK_MAX" "i < TASK_MAX \<Longrightarrow> distinct (map fst (t_swap (task_at i k)))"
    "i < TASK_MAX \<Longrightarrow> (v, s) \<in> swap_ents k i \<Longrightarrow> unat s < unat (g_pages (k_geom k)) \<and> bitmap_test (k_slots k) (unat s)"
    "i < TASK_MAX \<Longrightarrow> j < TASK_MAX \<Longrightarrow> (v, s) \<in> swap_ents k i \<Longrightarrow> (w, s) \<in> swap_ents k j \<Longrightarrow> i = j \<and> v = w"
  using assms unfolding swap_ok_def by blast+

lemma swap_okI:
  assumes "area_ok (k_geom k)" "length (k_tasks k) = TASK_MAX" "\<And>i. i < TASK_MAX \<Longrightarrow> distinct (map fst (t_swap (task_at i k)))"
    "\<And>i v s. i < TASK_MAX \<Longrightarrow> (v, s) \<in> swap_ents k i \<Longrightarrow> unat s < unat (g_pages (k_geom k)) \<and> bitmap_test (k_slots k) (unat s)"
    "\<And>i j v w s. i < TASK_MAX \<Longrightarrow> j < TASK_MAX \<Longrightarrow> (v, s) \<in> swap_ents k i \<Longrightarrow> (w, s) \<in> swap_ents k j \<Longrightarrow> i = j \<and> v = w"
  shows "swap_ok k"
  using assms unfolding swap_ok_def by blast

lemma swap_same:
  assumes "only_mem k k'"
  shows "swap_ok k' = swap_ok k" "stored k' i va page = stored k i va page"
proof -
  obtain h m where "k' = k\<lparr>k_heap := h, k_mem := m\<rparr>" using assms by (auto simp: only_mem_def)
  then show "swap_ok k' = swap_ok k" "stored k' i va page = stored k i va page"
    by (simp_all add: swap_ok_def stored_def swap_ents_def slot_page_def slot_lba_def task_at_def)
qed

lemma write_slot:
  assumes a: "area_ok (k_geom k)" and s: "unat s < unat (g_pages (k_geom k))"
  shows "ide_read_sectors (slot_lba s k) 8 (ide_write_sectors (slot_lba s k) (page_sectors p) d) = page_sectors p"
    "unat x < unat (g_pages (k_geom k)) \<Longrightarrow> x \<noteq> s \<Longrightarrow>
       ide_read_sectors (slot_lba x k) 8 (ide_write_sectors (slot_lba s k) (page_sectors p) d) = ide_read_sectors (slot_lba x k) 8 d"
proof -
  have at: "unat (slot_lba s k) + length (page_sectors p) \<le> 2 ^ 28" using slot_lba_nat(2) [OF a s] by simp
  show "ide_read_sectors (slot_lba s k) 8 (ide_write_sectors (slot_lba s k) (page_sectors p) d) = page_sectors p"
    using ide_read_written [OF at, of d] by simp
  assume x: "unat x < unat (g_pages (k_geom k))" "x \<noteq> s"
  then have "unat x \<noteq> unat s" by (simp add: word_unat_eq_iff)
  then have "unat (slot_lba x k) + 8 \<le> unat (slot_lba s k) \<or> unat (slot_lba s k) + length (page_sectors p) \<le> unat (slot_lba x k)"
    unfolding slot_lba_nat(1) [OF a s] slot_lba_nat(1) [OF a x(1)] page_sectors_length by linarith
  then show "ide_read_sectors (slot_lba x k) 8 (ide_write_sectors (slot_lba s k) (page_sectors p) d) = ide_read_sectors (slot_lba x k) 8 d"
    by (rule ide_read_apart [OF slot_lba_nat(2) [OF a x(1)] at])
qed

lemma swap_out_stores:
  assumes ok: "swap_ok k" "i < TASK_MAX" and o: "swap_out i va k = (r, k')"
  shows "swap_ok k'" "j < TASK_MAX \<Longrightarrow> stored k j w page \<Longrightarrow> stored k' j w page"
    "r = 0 \<Longrightarrow> stored k' i va (k_mem k (vmm_translate (mmu_of k) (t_cr3 (task_at i k)) va))"
proof -
  note D = swap_okD [OF ok(1)]
  let ?p = "k_mem k (vmm_translate (mmu_of k) (t_cr3 (task_at i k)) va)"
  have "swap_ok k' \<and> (j < TASK_MAX \<longrightarrow> stored k j w page \<longrightarrow> stored k' j w page) \<and> (r = 0 \<longrightarrow> stored k' i va ?p)"
    using o D(1) ok(2)[folded D(2)]
  proof (cases rule: swap_out_spec)
    case failed
    then show ?thesis using ok by simp
  next
    case (out s)
    have ents: "swap_ents k' j = (if j = i then insert (drop_bit 12 va, s) (swap_ents k i) else swap_ents k j)" for j
      using out(9) by (simp add: swap_ents_def)
    have new: "(v, s) \<notin> swap_ents k j" if "j < TASK_MAX" for j v using D(4) [OF that] out(4) by blast
    have key: "(drop_bit 12 va, x) \<notin> swap_ents k i" for x
      using ent_find_spec(1) [OF D(3) [OF ok(2)]] out(2) by (simp add: swap_ents_def)
    have slots: "bitmap_test (k_slots k') n \<longleftrightarrow> n = unat s \<or> bitmap_test (k_slots k) n" for n
      unfolding out(5) by (rule pmm_bits.get_put)
    have "swap_ok k'"
    proof (rule swap_okI)
      show "distinct (map fst (t_swap (task_at j k')))" if "j < TASK_MAX" for j
        using D(3) [OF that] out(9) key by (auto simp: swap_ents_def)
      show "a = b \<and> v = u" if "a < TASK_MAX" "b < TASK_MAX" "(v, x) \<in> swap_ents k' a" "(u, x) \<in> swap_ents k' b" for a b v u x
        using that D(5) [OF that(1,2)] new ents by (auto split: if_splits)
    qed (use D out(3,6,7) ents slots in \<open>auto split: if_splits\<close>)
    have lba: "slot_lba x k' = slot_lba x k" for x using out(6) by (simp add: slot_lba_def)
    have own: "slot_page k' s n = ?p n" if "n < 512" for n
      using write_slot(1) [OF D(1) out(3), of ?p] that by (simp add: slot_page_def lba out(8) sectors_page_sectors)
    have keep: "slot_page k' x = slot_page k x" if "x \<noteq> s" "unat x < unat (g_pages (k_geom k))" for x
      using write_slot(2) [OF D(1) out(3) that(2,1), of ?p] by (simp add: slot_page_def lba out(8))
    have "stored k' j w page" if j: "j < TASK_MAX" and st: "stored k j w page"
    proof -
      obtain x where x: "(drop_bit 12 w, x) \<in> swap_ents k j" "\<forall>n < 512. slot_page k x n = page n" using st by (auto simp: stored_def)
      have "x \<noteq> s" using x(1) new [OF j] by blast
      then have "slot_page k' x = slot_page k x" using keep D(4) [OF j x(1)] by blast
      moreover have "(drop_bit 12 w, x) \<in> swap_ents k' j" using x(1) ents by auto
      ultimately show ?thesis using x(2) unfolding stored_def by metis
    qed
    moreover have "(drop_bit 12 va, s) \<in> swap_ents k' i" using ents by simp
    ultimately show ?thesis using \<open>swap_ok k'\<close> own unfolding stored_def by metis
  qed
  then show "swap_ok k'" "j < TASK_MAX \<Longrightarrow> stored k j w page \<Longrightarrow> stored k' j w page" "r = 0 \<Longrightarrow> stored k' i va ?p" by auto
qed

lemma swap_in_keeps:
  assumes ok: "swap_ok k" "i < TASK_MAX" and o: "swap_in i va k = (r, k')"
  shows "swap_ok k'" "j < TASK_MAX \<Longrightarrow> stored k j w page \<Longrightarrow> j \<noteq> i \<or> drop_bit 12 w \<noteq> drop_bit 12 va \<Longrightarrow> stored k' j w page"
proof -
  note D = swap_okD [OF ok(1)]
  have "swap_ok k' \<and> (j < TASK_MAX \<longrightarrow> stored k j w page \<longrightarrow> j \<noteq> i \<or> drop_bit 12 w \<noteq> drop_bit 12 va \<longrightarrow> stored k' j w page)"
    using o ok(2)[folded D(2)]
  proof (cases rule: swap_in_spec)
    case failed
    then show ?thesis using ok swap_same by blast
  next
    case (inn e f k1)
    let ?x = "t_swap (task_at i k) ! e"
    have e: "e < length (t_swap (task_at i k))" "fst ?x = drop_bit 12 va" using ent_find_spec(2) [OF D(3) [OF ok(2)] inn(2)] by auto
    note rm = remove_ent_distinct [OF e(1) D(3) [OF ok(2)]]
    have x: "?x = (drop_bit 12 va, snd ?x)" using e(2) by (metis prod.collapse)
    have xin: "(drop_bit 12 va, snd ?x) \<in> swap_ents k i" unfolding swap_ents_def x [symmetric] using e(1) by simp
    have ents: "swap_ents k' j = (if j = i then swap_ents k i - {(drop_bit 12 va, snd ?x)} else swap_ents k j)" for j
      using inn(9) rm(2) x by (simp add: swap_ents_def)
    have slots: "bitmap_test (k_slots k') n \<longleftrightarrow> n \<noteq> unat (snd ?x) \<and> bitmap_test (k_slots k) n" for n
      unfolding inn(5) by (rule pmm_bits.get_clr)
    have other: "s \<noteq> snd ?x" if "a < TASK_MAX" "(v, s) \<in> swap_ents k' a" for a v s
      using that ents D(5) [OF that(1) ok(2) _ xin] by (auto split: if_splits)
    have "swap_ok k'"
    proof (rule swap_okI)
      show "distinct (map fst (t_swap (task_at j k')))" if "j < TASK_MAX" for j using D(3) [OF that] inn(9) rm(1) by simp
      show "unat s < unat (g_pages (k_geom k')) \<and> bitmap_test (k_slots k') (unat s)" if "a < TASK_MAX" "(v, s) \<in> swap_ents k' a" for a v s
        using other [OF that] that D(4) [OF that(1)] ents slots inn(6) by (auto simp: word_unat_eq_iff split: if_splits)
      show "a = b \<and> v = u" if "a < TASK_MAX" "b < TASK_MAX" "(v, y) \<in> swap_ents k' a" "(u, y) \<in> swap_ents k' b" for a b v u y
        using that D(5) [OF that(1,2)] ents by (auto split: if_splits)
    qed (use D inn(6,8) in auto)
    moreover have "slot_page k' s = slot_page k s" for s using inn(6,7) by (simp add: slot_page_def slot_lba_def)
    ultimately show ?thesis using ents by (auto simp: stored_def)
  qed
  then show "swap_ok k'" "j < TASK_MAX \<Longrightarrow> stored k j w page \<Longrightarrow> j \<noteq> i \<or> drop_bit 12 w \<noteq> drop_bit 12 va \<Longrightarrow> stored k' j w page" by auto
qed

section \<open>Bringing a page back\<close>

lemma vmm_map_leaf:
  assumes "leaf_table s c va = Some pt"
  shows "vmm_map c va pa fl s = poke pt (idx 0 va) (frame_of pa OR (1 OR ucast (fl AND 6))) s"
  using assms by (auto simp: leaf_table_def walk1_def vmm_map_def descend_def Let_def split: if_split_asm bind_splits)

lemma swap_in_maps:
  assumes ok: "swap_ok k" "i < TASK_MAX" and st: "stored k i va page" and r: "swap_in i va k = (0, k')"
    and sp: "spaces (mmu_of k) C" "t_cr3 (task_at i k) \<in> C" "idx 3 va \<noteq> 0" and leaf: "leaf_table (mmu_of k) (t_cr3 (task_at i k)) va \<noteq> None"
  shows "\<forall>j < 512. k_mem k' (vmm_translate (mmu_of k') (t_cr3 (task_at i k')) va) j = page j"
proof -
  note D = swap_okD [OF ok(1)]
  let ?c = "t_cr3 (task_at i k)"
  show ?thesis using r ok(2)[folded D(2)]
  proof (cases rule: swap_in_spec)
    case (inn e f k1)
    let ?x = "t_swap (task_at i k) ! e"
    have e: "e < length (t_swap (task_at i k))" "fst ?x = drop_bit 12 va" using ent_find_spec(2) [OF D(3) [OF ok(2)] inn(2)] by auto
    obtain s where s: "(drop_bit 12 va, s) \<in> set (t_swap (task_at i k))" "\<forall>j < 512. slot_page k s j = page j"
      using st by (auto simp: stored_def swap_ents_def)
    have "?x \<in> set (t_swap (task_at i k))" using e(1) by simp
    then have "?x = (drop_bit 12 va, s)" using eq_key_imp_eq_value [OF D(3) [OF ok(2)], of "drop_bit 12 va"] s(1) e(2) by (metis prod.collapse)
    then have page: "slot_page k (snd ?x) j = page j" if "j < 512" for j using s(2) that by simp
    define m where "m = (mmu_of k)\<lparr>m_pmm := h_pmm (k_heap k1)\<rparr>"
    have al: "pmm_alloc_frame (m_pmm (mmu_of k)) = (f, h_pmm (k_heap k1))" "k_mem k1 = k_mem k"
      using inn(3) by (auto simp: k_alloc_frame_def mmu_of_def split: prod.split_asm)
    note data = alloc_data [OF sp(1) al(1) inn(4), folded m_def]
    define w where "w = m\<lparr>m_mem := (m_mem m)(f := slot_page k (snd ?x))\<rparr>"
    note wd = write_data [OF data(1,2), of "slot_page k (snd ?x)", folded w_def]
    have wm: "mmu_of (write_page f (slot_page k (snd ?x)) k1) = w" using al(2) by (simp add: w_def m_def mmu_of_def write_page_def)
    have lf: "leaf_table m ?c va = leaf_table (mmu_of k) ?c va" by (simp add: m_def leaf_table_def walk1_def)
    have "tab w ?c (vpath va) = tab m ?c (vpath va)" unfolding w_def by (rule write_tab [OF data(2) sp(2) upath_vpath [OF sp(3)]])
    then have "leaf_table w ?c va = leaf_table (mmu_of k) ?c va" using lf by (simp add: leaf_table_tab vpath_def)
    then obtain pt where pt: "leaf_table w ?c va = Some pt" using leaf by auto
    then have tp: "tab w ?c (vpath va) = Some pt" by (simp add: leaf_table_tab vpath_def)
    have ptf: "pt \<noteq> f" using wd(2) [of f] data(2) tp sp(2) upath_vpath [OF sp(3)] by (auto simp: is_data_def)
    let ?e = "frame_of f OR (1 OR ucast ((VMM_USER OR VMM_WRITE) AND 6))"
    have mm: "mmu_of k' = poke pt (idx 0 va) ?e w" unfolding inn(10) wm by (rule vmm_map_leaf [OF pt])
    have "vmm_translate (mmu_of k') ?c va = f"
      unfolding mm using poke_leaf(3) [OF wd(1) sp(2) tp upath_vpath [OF sp(3)] _ sp(2,3)] leaf_entry [of f "(VMM_USER OR VMM_WRITE) AND 6"] data(3)
      by (simp add: vpath_def)
    moreover have "k_mem k' f = slot_page k (snd ?x)"
    proof -
      have "k_mem k' = m_mem (mmu_of k')" by (simp add: mmu_of_def)
      then show ?thesis unfolding mm using ptf by (auto simp: poke_mem w_def)
    qed
    ultimately show ?thesis using page inn(9) [of i] by simp
  qed (use r in simp)
qed

text \<open>Swapping by any task, in any order.\<close>

datatype swap_op = Out nat u64 | In nat u64

fun swap_do :: "swap_op \<Rightarrow> kernel \<Rightarrow> kernel" where
  "swap_do (Out i va) k = snd (swap_out i va k)"
| "swap_do (In i va) k = snd (swap_in i va k)"

fun brings_back :: "nat \<Rightarrow> u64 \<Rightarrow> swap_op \<Rightarrow> bool" where
  "brings_back i va (Out j w) = (j \<ge> TASK_MAX)"
| "brings_back i va (In j w) = (j \<ge> TASK_MAX \<or> j = i \<and> drop_bit 12 w = drop_bit 12 va)"

lemma swap_do_keeps:
  assumes "swap_ok k" "\<not> brings_back i va x" "i < TASK_MAX" "stored k i va page"
  shows "swap_ok (swap_do x k)" "stored (swap_do x k) i va page"
proof -
  have "swap_ok (swap_do x k) \<and> stored (swap_do x k) i va page"
  proof (cases x)
    case (Out j w)
    obtain r k' where o: "swap_out j w k = (r, k')" by fastforce
    show ?thesis using swap_out_stores(1,2) [OF assms(1) _ o] assms(2-4) Out o by simp
  next
    case (In j w)
    obtain r k' where o: "swap_in j w k = (r, k')" by fastforce
    show ?thesis using swap_in_keeps [OF assms(1) _ o] assms(2-4) In o by auto
  qed
  then show "swap_ok (swap_do x k)" "stored (swap_do x k) i va page" by auto
qed

lemma swap_dos_keep:
  "swap_ok k \<Longrightarrow> \<forall>x \<in> set ops. \<not> brings_back i va x \<Longrightarrow> i < TASK_MAX \<Longrightarrow> stored k i va page \<Longrightarrow>
     swap_ok (fold swap_do ops k) \<and> stored (fold swap_do ops k) i va page"
proof (induction ops arbitrary: k)
  case (Cons x ops)
  then show ?case using swap_do_keeps [of k i va x page] by simp
qed simp

text \<open>C11 (roundtrip)
  A page that is swapped out comes back as it was: after a successful \<open>swap_out\<close>, whatever other pages are swapped out and in by
  any task meanwhile, a successful \<open>swap_in\<close> of the page maps it again to a frame with the same 512 words. It rests on the
  invariant that no two entries of any tasks ever own the same slot of the disk, which all these operations keep.
\<close>
theorem swap_roundtrip:
  assumes "swap_ok k" "i < TASK_MAX" "swap_out i va k = (0, k1)" "\<forall>x \<in> set ops. \<not> brings_back i va x"
    "k2 = fold swap_do ops k1" "swap_in i va k2 = (0, k3)"
    "spaces (mmu_of k2) C" "t_cr3 (task_at i k2) \<in> C" "idx 3 va \<noteq> 0" "leaf_table (mmu_of k2) (t_cr3 (task_at i k2)) va \<noteq> None"
  shows "swap_ok k3 \<and> (\<forall>j < 512. k_mem k3 (vmm_translate (mmu_of k3) (t_cr3 (task_at i k3)) va) j =
    k_mem k (vmm_translate (mmu_of k) (t_cr3 (task_at i k)) va) j)"
proof -
  note out = swap_out_stores [OF assms(1-3)]
  have 2: "swap_ok k2 \<and> stored k2 i va (k_mem k (vmm_translate (mmu_of k) (t_cr3 (task_at i k)) va))"
    unfolding assms(5) by (rule swap_dos_keep [OF out(1) assms(4,2) out(3)]) simp
  show ?thesis using swap_in_maps [OF _ assms(2) _ assms(6-10)] swap_in_keeps(1) [OF _ assms(2,6)] 2 by blast
qed

section \<open>An example\<close>

text \<open>One task with one heap page, in frame 2.\<close>

definition one_page :: mmu where
  "one_page = vmm_map 4096 USER_HEAP_BASE 8192 (VMM_USER OR VMM_WRITE) (one_space\<lparr>m_pmm := snd (pmm_alloc_frame (m_pmm one_space))\<rparr>)"

definition one_task :: kernel where
  "one_task = demo_kernel one_page [demo_task 1 4096]"

lemma one_page_ok: "spaces one_page {4096}" "is_data one_page {4096} 8192"
proof -
  have "fst (pmm_alloc_frame (m_pmm one_space)) = 8192" by code_simp
  then have al: "pmm_alloc_frame (m_pmm one_space) = (8192, snd (pmm_alloc_frame (m_pmm one_space)))" by (metis prod.collapse)
  have "idx 3 USER_HEAP_BASE \<noteq> 0" using user_idx by simp
  then show "spaces one_page {4096}" "is_data one_page {4096} 8192"
    using alloc_data [OF one_space_ok(1) al] vmm_map_spaces vmm_map_data unfolding one_page_def by simp_all
qed

lemma one_task_at: "task_at 1 one_task = demo_task 1 4096" "i < TASK_MAX \<Longrightarrow> t_swap (task_at i one_task) = []"
  "mmu_of one_task = one_page"
proof -
  show "task_at 1 one_task = demo_task 1 4096" by (simp add: one_task_def demo_kernel_def task_at_def)
  show "mmu_of one_task = one_page" by (simp add: one_task_def)
  show "i < TASK_MAX \<Longrightarrow> t_swap (task_at i one_task) = []"
    by (auto simp: one_task_def demo_kernel_def task_at_def TASK_MAX_def nth_Cons zero_task_def demo_task_def split: nat.split)
qed

lemma one_task_ok: "swap_ok one_task"
proof -
  have "area_ok (k_geom one_task)" "length (k_tasks one_task) = TASK_MAX"
    by (simp_all add: one_task_def demo_kernel_def area_ok_def TASK_MAX_def)
  then show ?thesis using one_task_at(2) by (simp add: swap_ok_def swap_ents_def)
qed

lemma one_page_translate: "vmm_translate one_page 4096 USER_HEAP_BASE = 8192"
proof -
  have "fst (pmm_alloc_frame (m_pmm one_space)) = 8192" by code_simp
  then have al: "pmm_alloc_frame (m_pmm one_space) = (8192, snd (pmm_alloc_frame (m_pmm one_space)))" by (metis prod.collapse)
  have i: "idx 3 USER_HEAP_BASE \<noteq> 0" using user_idx by simp
  have "3 \<le> free_count (snd (pmm_alloc_frame (m_pmm one_space)))" using alloc_data(4) [OF one_space_ok(1) al] one_space_ok(2) by simp
  then show ?thesis
    using vmm_map_spaces [OF alloc_data(1) [OF one_space_ok(1) al] _ i, of 4096 8192] alloc_data(3) [OF one_space_ok(1) al]
    unfolding one_page_def by simp
qed

definition one_out :: kernel where
  "one_out = snd (swap_out 1 USER_HEAP_BASE one_task)"

lemma one_task_fields: "k_active one_task" "k_slots one_task = (\<lambda>_. 0)" "g_pages (k_geom one_task) = 8" "length (k_tasks one_task) = 16"
  by (simp_all add: one_task_def demo_kernel_def TASK_MAX_def)

lemma one_swapped_out: "swap_out 1 USER_HEAP_BASE one_task = (0, one_out)"
proof -
  have s: "slot_alloc one_task = (Some 0, one_task\<lparr>k_slots := bitmap_set (k_slots one_task) 0\<rparr>)"
  proof -
    have "first_in (\<lambda>i. \<not> bitmap_test (\<lambda>_. 0) i) 0 8 = Some 0" by (simp add: first_in_Some_iff bitmap_test_bit)
    then show ?thesis using one_task_fields by (simp add: slot_alloc_def)
  qed
  have "ent_find (task_at 1 one_task) USER_HEAP_BASE = None" unfolding one_task_at(1) by (simp add: ent_find_def first_in_None_iff demo_task_def zero_task_def)
  then have "fst (swap_out 1 USER_HEAP_BASE one_task) = 0"
    using one_task_fields(1) s one_task_at(1,3) [simplified] one_page_translate
    by (simp add: swap_out_def Let_def SWAP_MAX_PER_TASK_def demo_task_def zero_task_def)
  then show ?thesis by (simp add: one_out_def prod_eq_iff)
qed

lemma one_out_facts:
  "mmu_of one_out = (vmm_unmap 4096 USER_HEAP_BASE one_page)\<lparr>m_pmm := pmm_free_frame 8192 (m_pmm (vmm_unmap 4096 USER_HEAP_BASE one_page))\<rparr>"
  "t_cr3 (task_at 1 one_out) = 4096" "t_user (task_at 1 one_out)" "k_active one_out"
proof -
  have i: "area_ok (k_geom one_task)" "1 < length (k_tasks one_task)" using swap_okD(1) [OF one_task_ok] one_task_fields(4) by simp_all
  from one_swapped_out i have "mmu_of one_out = (vmm_unmap 4096 USER_HEAP_BASE one_page)\<lparr>m_pmm := pmm_free_frame 8192 (m_pmm (vmm_unmap 4096 USER_HEAP_BASE one_page))\<rparr> \<and>
      t_cr3 (task_at 1 one_out) = 4096 \<and> t_user (task_at 1 one_out)"
    by (cases rule: swap_out_spec) (simp_all add: one_task_at [simplified] one_page_translate demo_task_def zero_task_def Let_def)
  then show "mmu_of one_out = (vmm_unmap 4096 USER_HEAP_BASE one_page)\<lparr>m_pmm := pmm_free_frame 8192 (m_pmm (vmm_unmap 4096 USER_HEAP_BASE one_page))\<rparr>"
    "t_cr3 (task_at 1 one_out) = 4096" "t_user (task_at 1 one_out)" by auto
  show "k_active one_out" unfolding one_out_def
    using one_task_fields(1) by (auto simp: swap_out_def Let_def slot_alloc_def k_free_frame_def on_mmu_def with_mmu_def split: option.split)
qed

lemma one_out_spaces: "spaces (mmu_of one_out) {4096}" "leaf_table (mmu_of one_out) 4096 USER_HEAP_BASE \<noteq> None"
proof -
  have i: "idx 3 USER_HEAP_BASE \<noteq> 0" using user_idx by simp
  have "spaces (vmm_unmap 4096 USER_HEAP_BASE one_page) {4096}" "is_data (vmm_unmap 4096 USER_HEAP_BASE one_page) {4096} 8192"
    using vmm_unmap_spaces [OF one_page_ok(1) _ i] unmap_data [OF one_page_ok(1) _ i one_page_ok(2)] by auto
  then show "spaces (mmu_of one_out) {4096}" unfolding one_out_facts(1) by (rule free_data) simp
  obtain t where t: "tab one_page 4096 (vpath USER_HEAP_BASE) = Some t"
    using one_page_translate by (auto simp: translate_vpath split: option.split_asm)
  have "vmm_unmap 4096 USER_HEAP_BASE one_page = poke t (idx 0 USER_HEAP_BASE) 0 one_page"
    using t unfolding vmm_unmap_def leaf_table_tab vpath_def by simp
  then have "tab (vmm_unmap 4096 USER_HEAP_BASE one_page) 4096 (vpath USER_HEAP_BASE) = Some t"
    using t poke_leaf(2) [OF one_page_ok(1) _ t upath_vpath [OF i] _ _ upath_vpath [OF i]] by (simp add: vpath_def)
  moreover have "tab (s\<lparr>m_pmm := p\<rparr>) c q = tab s c q" for s c q p by (rule tab_cong) simp
  ultimately show "leaf_table (mmu_of one_out) 4096 USER_HEAP_BASE \<noteq> None"
    unfolding one_out_facts(1) leaf_table_tab vpath_def [symmetric] by simp
qed

lemma one_out_frame: "fst (k_alloc_frame one_out) \<noteq> 0"
proof
  assume z: "fst (k_alloc_frame one_out) = 0"
  have "fst (k_alloc_frame one_out) = fst (pmm_alloc_frame (m_pmm (mmu_of one_out)))" by (simp add: k_alloc_frame_def mmu_of_def case_prod_beta)
  then have "pmm_alloc_frame (m_pmm (mmu_of one_out)) = (0, snd (pmm_alloc_frame (m_pmm (mmu_of one_out))))" using z by (metis prod.collapse)
  then have "free_count (m_pmm (mmu_of one_out)) = 0" using alloc_none one_out_spaces(1) unfolding spaces_def by blast
  moreover have "\<not> used_frame (m_pmm (mmu_of one_out)) 2" "unat (total_frames (m_pmm (mmu_of one_out))) = 8"
  proof -
    have "total_frames (m_pmm one_page) = 8" by code_simp
    then have t: "total_frames (m_pmm (vmm_unmap 4096 USER_HEAP_BASE one_page)) = 8" by (simp add: vmm_unmap_def split: option.split)
    then show "unat (total_frames (m_pmm (mmu_of one_out))) = 8" unfolding one_out_facts(1) by simp
    show "\<not> used_frame (m_pmm (mmu_of one_out)) 2" unfolding one_out_facts(1) using t by (simp add: used_pmm_free_frame FRAME_SIZE_def)
  qed
  ultimately show False by (simp add: free_count_def)
qed

theorem swap_roundtrip_witness:
  "\<exists>k1 k3. swap_out 1 USER_HEAP_BASE one_task = (0, k1) \<and> swap_in 1 USER_HEAP_BASE k1 = (0, k3) \<and>
     (\<forall>j < 512. k_mem k3 (vmm_translate (mmu_of k3) (t_cr3 (task_at 1 k3)) USER_HEAP_BASE) j =
        k_mem one_task (vmm_translate (mmu_of one_task) (t_cr3 (task_at 1 one_task)) USER_HEAP_BASE) j)"
proof -
  have "stored one_out 1 USER_HEAP_BASE (k_mem one_task (vmm_translate (mmu_of one_task) (t_cr3 (task_at 1 one_task)) USER_HEAP_BASE))"
    using swap_out_stores(3) [OF one_task_ok _ one_swapped_out] by (simp add: TASK_MAX_def)
  moreover have "distinct (map fst (t_swap (task_at 1 one_out)))"
    using swap_okD(3) [OF swap_out_stores(1) [OF one_task_ok _ one_swapped_out]] by (simp add: TASK_MAX_def)
  ultimately obtain e where e: "ent_find (task_at 1 one_out) USER_HEAP_BASE = Some e"
    using ent_find_spec(1) [of "task_at 1 one_out"] by (auto simp: stored_def swap_ents_def)
  have "fst (swap_in 1 USER_HEAP_BASE one_out) = 0"
    using e one_out_facts(2-4) one_out_frame by (simp add: swap_in_def Let_def case_prod_beta)
  then have i: "swap_in 1 USER_HEAP_BASE one_out = (0, snd (swap_in 1 USER_HEAP_BASE one_out))" by (metis prod.collapse)
  have "idx 3 USER_HEAP_BASE \<noteq> 0" using user_idx by simp
  then show ?thesis
    using swap_roundtrip [OF one_task_ok _ one_swapped_out _ _ i one_out_spaces(1), of "[]"] one_out_facts(2) one_out_spaces(2) i one_swapped_out
    by (auto simp: TASK_MAX_def)
qed

end
