(* ===== verification/Sched.thy ===== *)
theory Sched
  imports Swap
begin

unbundle bit_operations_syntax

text \<open>
  The scheduler, \<^verbatim>\<open>kernel/kern/sched.c\<close>: round-robin over the user tasks of the table, with task 0 (the
  kernel's own shell) running whenever no user task can. A switch ends in one of two ways: the
  register frame of the next user task is returned to, or the coroutine of task 0 is resumed.
\<close>

section \<open>Operations\<close>

definition GDT_UCODE :: u64 where "GDT_UCODE = 0x18"
definition GDT_UDATA :: u64 where "GDT_UDATA = 0x20"
definition USER_STACK_TOP :: u64 where "USER_STACK_TOP = USER_STACK_BASE + 0x10000"

text \<open>Return from the interrupt through a register frame, or resume the coroutine of the shell.\<close>

datatype control = Iret regs | ToRepl

definition runnable_user :: "kernel \<Rightarrow> nat \<Rightarrow> bool" where
  "runnable_user k i \<longleftrightarrow> i \<noteq> 0 \<and> t_user (task_at i k) \<and> t_state (task_at i k) = TASK_RUNNABLE"

definition pick_order :: "nat \<Rightarrow> nat list" where
  "pick_order l = map (\<lambda>i. (l + 1 + i) mod TASK_MAX) [0..<TASK_MAX]"

definition sched_pick_user :: "kernel \<Rightarrow> nat option \<times> kernel" where
  "sched_pick_user k =
     (case List.find (runnable_user k) (pick_order (k_last k)) of
        None \<Rightarrow> (None, k)
      | Some i \<Rightarrow> (Some i, k\<lparr>k_last := i\<rparr>))"

definition sched_entry_frame :: regs where
  "sched_entry_frame = (\<lambda>_. 0)(RIP := USER_IMAGE_BASE, CS := GDT_UCODE OR 3, RFLAGS := 0x202, RSP := USER_STACK_TOP, SS := GDT_UDATA OR 3)"

text \<open>Make a user task the current one.\<close>

definition enter_task :: "nat \<Rightarrow> kernel \<Rightarrow> regs \<times> kernel" where
  "enter_task n k =
     (let k = upd_task n (\<lambda>t. t\<lparr>t_state := TASK_RUNNING\<rparr>) (k\<lparr>k_cur := n\<rparr>);
          t = task_at n k;
          k = k\<lparr>k_rsp0 := t_kstack t + t_kstack_size t, k_cr3 := t_cr3 t\<rparr>;
          k = (if \<not> t_started t then upd_task n (\<lambda>t. t\<lparr>t_ctx := sched_entry_frame, t_started := True\<rparr>) k else k)
      in (t_ctx (task_at n k), k))"

definition sched_switch_to_next :: "kernel \<Rightarrow> control \<times> kernel" where
  "sched_switch_to_next k =
     (case sched_pick_user k of
        (None, k) \<Rightarrow>
          (let k = upd_task 0 (\<lambda>t. t\<lparr>t_state := TASK_RUNNABLE\<rparr>) (k\<lparr>k_cur := 0\<rparr>);
               t = task_at 0 k
           in (ToRepl, k\<lparr>k_rsp0 := t_kstack t + t_kstack_size t, k_cr3 := k_boot_cr3 k\<rparr>))
      | (Some n, k) \<Rightarrow> (let (f, k) = enter_task n k in (Iret f, k)))"

text \<open>The shell gives the processor away; without a runnable user task it goes on.\<close>

definition sched_yield_to_user :: "kernel \<Rightarrow> control \<times> kernel" where
  "sched_yield_to_user k =
     (case sched_pick_user k of
        (None, k) \<Rightarrow> (ToRepl, k)
      | (Some n, k) \<Rightarrow> (let (f, k) = enter_task n k in (Iret f, k)))"

definition sched_preempt :: "regs \<Rightarrow> kernel \<Rightarrow> control \<times> kernel" where
  "sched_preempt r k =
     sched_switch_to_next (upd_task (k_cur k) (\<lambda>t. t\<lparr>t_ctx := r, t_state := TASK_RUNNABLE\<rparr>) k)"

definition sched_block_user :: "regs \<Rightarrow> u64 \<Rightarrow> bool \<Rightarrow> kernel \<Rightarrow> control \<times> kernel" where
  "sched_block_user r wake key k =
     sched_switch_to_next
       (upd_task (k_cur k) (\<lambda>t. t\<lparr>t_ctx := r, t_state := TASK_BLOCKED, t_wake_ticks := wake, t_on_key := key\<rparr>) k)"

definition sched_exit_user :: "u64 \<Rightarrow> kernel \<Rightarrow> (control \<times> kernel) res" where
  "sched_exit_user code k =
     (let c = k_cur k; k = upd_task c (\<lambda>t. t\<lparr>t_exit_code := code, t_state := TASK_ZOMBIE\<rparr>) k
      in bind_res (il_event_exit (t_pid (task_at c k)) code (k_il k)) (\<lambda>l.
         bind_res (model_exit_task c (k\<lparr>k_il := l\<rparr>)) (\<lambda>k.
           let k = swap_exit_task c k;
               cr3 = t_cr3 (task_at c k);
               k = (if cr3 \<noteq> 0 then on_mmu (vmm_free_address_space cr3) k else k)
           in Ok (sched_switch_to_next (upd_task c (\<lambda>t. t\<lparr>t_cr3 := 0\<rparr>) k)))))"

definition wake_timer :: "u64 \<Rightarrow> task \<Rightarrow> task" where
  "wake_timer now t =
     (if t_state t = TASK_BLOCKED \<and> t_wake_ticks t \<noteq> 0 \<and> t_wake_ticks t \<le> now
      then t\<lparr>t_state := TASK_RUNNABLE, t_wake_ticks := 0\<rparr> else t)"

definition wake_key :: "task \<Rightarrow> task" where
  "wake_key t =
     (if t_state t = TASK_BLOCKED \<and> t_on_key t then t\<lparr>t_state := TASK_RUNNABLE, t_on_key := False\<rparr> else t)"

definition each_task :: "(task \<Rightarrow> task) \<Rightarrow> kernel \<Rightarrow> kernel" where
  "each_task f k = fold (\<lambda>i. upd_task i f) [1..<TASK_MAX] k"

text \<open>A tick wakes sleepers and preempts a user task; in the kernel the interrupted code goes on.\<close>

definition sched_on_tick :: "regs \<Rightarrow> kernel \<Rightarrow> control option \<times> kernel" where
  "sched_on_tick r k =
     (let k = each_task (wake_timer (k_ticks k)) k
      in if t_user (task_at (k_cur k) k) then (let (c, k) = sched_preempt r k in (Some c, k)) else (None, k))"

definition pit_handler :: "regs \<Rightarrow> kernel \<Rightarrow> control option \<times> kernel" where
  "pit_handler r k = sched_on_tick r (k\<lparr>k_ticks := k_ticks k + 1\<rparr>)"

definition sched_on_key :: "kernel \<Rightarrow> kernel" where
  "sched_on_key k = each_task wake_key k"

definition sched_init :: "kernel \<Rightarrow> kernel res" where
  "sched_init k =
     bind_res (k_malloc TASK_KSTACK_SIZE k) (\<lambda>(p, k).
       Ok (k\<lparr>k_tasks := (replicate TASK_MAX zero_task)
               [0 := zero_task\<lparr>t_name := ''repl'', t_kstack := p, t_kstack_size := TASK_KSTACK_SIZE, t_budget := 8192\<rparr>],
             k_cur := 0, k_rsp0 := p + TASK_KSTACK_SIZE\<rparr>))"

section \<open>Spawning\<close>

text \<open>One byte of physical memory.\<close>

definition poke_byte :: "u64 \<Rightarrow> u8 \<Rightarrow> (u64 \<Rightarrow> nat \<Rightarrow> u64) \<Rightarrow> (u64 \<Rightarrow> nat \<Rightarrow> u64)" where
  "poke_byte a b m =
     (let pg = frame_of a; off = unat (a AND 0xFFF); w = m pg (off div 8); sh = 8 * (off mod 8)
      in m(pg := (m pg)(off div 8 := (w AND NOT (push_bit sh 0xFF)) OR push_bit sh (ucast b))))"

text \<open>Map fresh frames one after the other, with the given contents if any; the first frame is kept.\<close>

fun map_fresh :: "u64 \<Rightarrow> u64 \<Rightarrow> (nat \<Rightarrow> (nat \<Rightarrow> u64) option) \<Rightarrow> nat list \<Rightarrow> kernel \<Rightarrow> u64 list option \<times> kernel" where
  "map_fresh cr3 base content [] k = (Some [], k)"
| "map_fresh cr3 base content (i # is) k =
     (case k_alloc_frame k of
        (f, k) \<Rightarrow>
          if f = 0 then (None, k)
          else
            (let k = (case content i of None \<Rightarrow> k | Some page \<Rightarrow> write_page f page k);
                 k = on_mmu (vmm_map cr3 (base + of_nat i * 4096) f (VMM_USER OR VMM_WRITE)) k
             in case map_fresh cr3 base content is k of
                  (None, k) \<Rightarrow> (None, k)
                | (Some fs, k) \<Rightarrow> (Some (f # fs), k)))"

definition copy_script :: "u8 list \<Rightarrow> u64 \<Rightarrow> kernel \<Rightarrow> kernel" where
  "copy_script code scratch k =
     (let src = take 32768 code @ [0]
      in k\<lparr>k_mem := fold (\<lambda>j m. poke_byte (scratch + of_nat j) (src ! j) m) [0..<length src] (k_mem k)\<rparr>)"

definition free_slot :: "kernel \<Rightarrow> nat option" where
  "free_slot k = first_in (\<lambda>i. t_state (task_at i k) = TASK_ZOMBIE \<or> t_pid (task_at i k) = 0) 1 TASK_MAX"

text \<open>The new address space: the runtime image, the script and the stack.\<close>

definition fill_space :: "nat \<Rightarrow> (nat \<Rightarrow> nat \<Rightarrow> u64) \<Rightarrow> u8 list \<Rightarrow> u64 \<Rightarrow> kernel \<Rightarrow> bool \<times> kernel" where
  "fill_space img_pages img code cr3 k =
     (case map_fresh cr3 USER_IMAGE_BASE (\<lambda>i. Some (img i)) [0..<img_pages] k of
        (None, k) \<Rightarrow> (False, k)
      | (Some _, k) \<Rightarrow>
          (case map_fresh cr3 USER_SCRIPT_BASE (\<lambda>_. None) [0..<8] k of
             (None, k) \<Rightarrow> (False, k)
           | (Some fs, k) \<Rightarrow>
               (case map_fresh cr3 USER_STACK_BASE (\<lambda>_. None) [0..<16] (copy_script code (hd fs) k) of
                  (None, k) \<Rightarrow> (False, k)
                | (Some _, k) \<Rightarrow> (True, k))))"

definition new_process :: "u32 \<Rightarrow> string \<Rightarrow> u64 \<Rightarrow> u64 \<Rightarrow> task \<Rightarrow> task" where
  "new_process pid name ks cr3 t =
     t\<lparr>t_pid := pid, t_state := TASK_RUNNABLE, t_name := name, t_kstack := ks, t_kstack_size := TASK_KSTACK_SIZE,
       t_cr3 := cr3, t_user := True, t_heap_used := 0, t_heap_pages := 0\<rparr>"

text \<open>Kernel stack, contents and table entry for the process that is to run in a new address space; on failure all is given back.\<close>

definition spawn_in :: "nat \<Rightarrow> u64 \<Rightarrow> nat \<Rightarrow> (nat \<Rightarrow> nat \<Rightarrow> u64) \<Rightarrow> u8 list \<Rightarrow> string \<Rightarrow> kernel \<Rightarrow> (int \<times> kernel) res" where
  "spawn_in i cr3 img_pages img code name k =
     bind_res (k_malloc TASK_KSTACK_SIZE k) (\<lambda>(ks, k).
       if ks = 0 then Ok (-1, on_mmu (vmm_free_address_space cr3) k)
       else
         (case fill_space img_pages img code cr3 k of
            (False, k) \<Rightarrow> bind_res (k_free ks k) (\<lambda>k. Ok (-1, on_mmu (vmm_free_address_space cr3) k))
          | (True, k) \<Rightarrow>
              bind_res (il_event_spawn (k_next_pid k) name (k_il k)) (\<lambda>l.
                Ok (uint (k_next_pid k),
                    upd_task i (new_process (k_next_pid k) name ks cr3) (k\<lparr>k_next_pid := k_next_pid k + 1, k_il := l\<rparr>)))))"

definition sched_spawn :: "nat \<Rightarrow> (nat \<Rightarrow> nat \<Rightarrow> u64) \<Rightarrow> u8 list \<Rightarrow> string \<Rightarrow> kernel \<Rightarrow> (int \<times> kernel) res" where
  "sched_spawn img_pages img code name k =
     (case free_slot k of
        None \<Rightarrow> Ok (-1, k)
      | Some i \<Rightarrow>
          bind_res (if t_kstack (task_at i k) \<noteq> 0 then k_free (t_kstack (task_at i k)) k else Ok k) (\<lambda>k.
            let k = upd_task i (\<lambda>_. zero_task\<lparr>t_budget := 8192\<rparr>) k;
                (cr3, m) = vmm_new_address_space (k_boot_cr3 k) (mmu_of k);
                k = with_mmu m k
            in if cr3 = 0 then Ok (-1, k) else spawn_in i cr3 img_pages img code name k))"

section \<open>The task table\<close>

lemma each_task_sel [simp]:
  "k_cur (each_task f k) = k_cur k" "k_last (each_task f k) = k_last k" "length (k_tasks (each_task f k)) = length (k_tasks k)"
  "k_boot_cr3 (each_task f k) = k_boot_cr3 k" "k_cr3 (each_task f k) = k_cr3 k" "k_rsp0 (each_task f k) = k_rsp0 k"
proof -
  have "P (fold (\<lambda>i. upd_task i f) is k)" if "P k" "\<And>i k. P k \<Longrightarrow> P (upd_task i f k)" for P :: "kernel \<Rightarrow> bool" and "is"
    using that by (induction "is" arbitrary: k) auto
  then have inv: "P (each_task f k)" if "P k" "\<And>i k. P k \<Longrightarrow> P (upd_task i f k)" for P :: "kernel \<Rightarrow> bool"
    using that unfolding each_task_def by blast
  show "k_cur (each_task f k) = k_cur k" "k_last (each_task f k) = k_last k" "length (k_tasks (each_task f k)) = length (k_tasks k)"
    "k_boot_cr3 (each_task f k) = k_boot_cr3 k" "k_cr3 (each_task f k) = k_cr3 k" "k_rsp0 (each_task f k) = k_rsp0 k"
    by (rule inv; simp)+
qed

lemma task_at_fold:
  assumes "distinct is" "\<forall>i \<in> set is. i < length (k_tasks k)"
  shows "task_at j (fold (\<lambda>i. upd_task i f) is k) = (if j \<in> set is then f (task_at j k) else task_at j k)"
  using assms
proof (induction "is" arbitrary: k)
  case (Cons i js)
  then show ?case by (auto simp: task_at_upd)
qed simp

lemma task_at_each:
  "length (k_tasks k) = TASK_MAX \<Longrightarrow> task_at j (each_task f k) = (if 1 \<le> j \<and> j < TASK_MAX then f (task_at j k) else task_at j k)"
  unfolding each_task_def by (subst task_at_fold) (auto simp: TASK_MAX_def)

section \<open>Round robin\<close>

text \<open>How many tasks the search of \<open>sched_pick_user\<close> passes over before it comes to a task.\<close>

definition ahead :: "nat \<Rightarrow> nat \<Rightarrow> nat" where
  "ahead l j = (if j > l then j - l - 1 else j + (TASK_MAX - 1) - l)"

lemma pick_order_nth: "d < TASK_MAX \<Longrightarrow> l < TASK_MAX \<Longrightarrow> j < TASK_MAX \<Longrightarrow> pick_order l ! d = j \<longleftrightarrow> d = ahead l j"
  by (auto simp: pick_order_def ahead_def TASK_MAX_def mod_if)

lemma ahead_less: "j < TASK_MAX \<Longrightarrow> l < TASK_MAX \<Longrightarrow> ahead l j < TASK_MAX"
  by (auto simp: ahead_def TASK_MAX_def)

lemma pick_order_ahead: "j < TASK_MAX \<Longrightarrow> l < TASK_MAX \<Longrightarrow> pick_order l ! ahead l j = j"
  using pick_order_nth ahead_less by blast

lemma pick_order_set: "set (pick_order l) \<subseteq> {..<TASK_MAX}" "length (pick_order l) = TASK_MAX"
  by (auto simp: pick_order_def TASK_MAX_def)

lemma pick_None:
  assumes "sched_pick_user k = (None, k')" "k_last k < TASK_MAX"
  shows "k' = k" "j < TASK_MAX \<Longrightarrow> \<not> runnable_user k j"
proof -
  have n: "List.find (runnable_user k) (pick_order (k_last k)) = None" and k': "k' = k"
    using assms(1) by (auto simp: sched_pick_user_def split: option.split_asm)
  show "k' = k" by (rule k')
  assume "j < TASK_MAX"
  then have "j \<in> set (pick_order (k_last k))"
    using pick_order_ahead [of j "k_last k"] ahead_less [of j "k_last k"] assms(2) pick_order_set(2) nth_mem by metis
  then show "\<not> runnable_user k j" using n by (auto simp: find_None_iff)
qed

lemma pick_Some:
  assumes "sched_pick_user k = (Some i, k')" "k_last k < TASK_MAX"
  shows "k' = k\<lparr>k_last := i\<rparr>" "runnable_user k i" "0 < i" "i < TASK_MAX"
    "j < TASK_MAX \<Longrightarrow> runnable_user k j \<Longrightarrow> ahead (k_last k) i \<le> ahead (k_last k) j"
proof -
  have s: "List.find (runnable_user k) (pick_order (k_last k)) = Some i" and k': "k' = k\<lparr>k_last := i\<rparr>"
    using assms(1) by (auto simp: sched_pick_user_def split: option.split_asm)
  have "\<exists>d < length (pick_order (k_last k)). runnable_user k (pick_order (k_last k) ! d) \<and> i = pick_order (k_last k) ! d \<and>
      (\<forall>e < d. \<not> runnable_user k (pick_order (k_last k) ! e))"
    using s unfolding find_Some_iff by blast
  then obtain d where d: "d < TASK_MAX" "runnable_user k (pick_order (k_last k) ! d)" "i = pick_order (k_last k) ! d"
    "\<forall>e < d. \<not> runnable_user k (pick_order (k_last k) ! e)"
    unfolding pick_order_set(2) by blast
  show "k' = k\<lparr>k_last := i\<rparr>" by (rule k')
  show run: "runnable_user k i" using d by simp
  then show "0 < i" by (simp add: runnable_user_def)
  show i: "i < TASK_MAX" using nth_mem [of d "pick_order (k_last k)"] pick_order_set [of "k_last k"] d(1,3) by (simp add: subset_iff)
  have di: "d = ahead (k_last k) i" using pick_order_nth [OF d(1) assms(2) i] d(3) by simp
  assume j: "j < TASK_MAX" "runnable_user k j"
  have "\<not> ahead (k_last k) j < d" using d(4) j(2) pick_order_ahead [OF j(1) assms(2)] by auto
  then show "ahead (k_last k) i \<le> ahead (k_last k) j" using di by simp
qed

lemma ahead_progress:
  "l < TASK_MAX \<Longrightarrow> i < TASK_MAX \<Longrightarrow> j < TASK_MAX \<Longrightarrow> ahead l i \<le> ahead l j \<Longrightarrow> i \<noteq> j \<Longrightarrow> ahead i j < ahead l j"
  by (auto simp: ahead_def TASK_MAX_def split: if_splits)

section \<open>What the other parts of the kernel leave alone\<close>

lemma copy_script_mem [simp]: "only_mem k (copy_script code sf k)"
  by (simp add: copy_script_def Let_def only_mem_mem)

lemma only_mem_map_fresh: "map_fresh cr3 base content is k = (r, k') \<Longrightarrow> only_mem k k'"
proof (induction cr3 base content "is" k arbitrary: r k' rule: map_fresh.induct)
  case (2 cr3 base content i js k)
  obtain f k1 where a: "k_alloc_frame k = (f, k1)" by fastforce
  have 1: "only_mem k k1" using only_mem_ops(5) [of k] a by simp
  show ?case
  proof (cases "f = 0")
    case True
    then show ?thesis using 2 a 1 by simp
  next
    case False
    define k2 where "k2 = (case content i of None \<Rightarrow> k1 | Some page \<Rightarrow> write_page f page k1)"
    define k3 where "k3 = on_mmu (vmm_map cr3 (base + of_nat i * 4096) f (VMM_USER OR VMM_WRITE)) k2"
    obtain r' k4 where m: "map_fresh cr3 base content js k3 = (r', k4)" by fastforce
    have k': "k' = k4" using 2(2) a False m by (simp add: Let_def k2_def k3_def split: option.split_asm)
    have "only_mem k3 k4" by (rule 2(1) [OF a [symmetric] False k2_def k3_def m])
    moreover have "only_mem k1 k2" by (simp add: k2_def split: option.split)
    moreover have "only_mem k2 k3" by (simp add: k3_def)
    ultimately show ?thesis using 1 k' only_mem_trans by blast
  qed
qed simp

lemma only_mem_fill_space: "fill_space n img code cr3 k = (r, k') \<Longrightarrow> only_mem k k'"
  by (auto simp: fill_space_def split: prod.split_asm option.split_asm dest!: only_mem_map_fresh)
     (meson only_mem_trans copy_script_mem)+

text \<open>More generally, what the scheduler works with may stay the same while other parts of the tasks change.\<close>

definition sched_part :: "task \<Rightarrow> task_state \<times> bool \<times> u32 \<times> u64 \<times> u64 \<times> u64" where
  "sched_part t = (t_state t, t_user t, t_pid t, t_kstack t, t_kstack_size t, t_cr3 t)"

text \<open>The registers with which a task goes on: those saved, or the entry frame when it has never run.\<close>

definition resume_regs :: "task \<Rightarrow> regs" where
  "resume_regs t = (if t_started t then t_ctx t else sched_entry_frame)"

definition same_sched :: "kernel \<Rightarrow> kernel \<Rightarrow> bool" where
  "same_sched k k' \<longleftrightarrow>
     k_cur k' = k_cur k \<and> k_last k' = k_last k \<and> k_cr3 k' = k_cr3 k \<and> k_rsp0 k' = k_rsp0 k \<and> k_boot_cr3 k' = k_boot_cr3 k \<and>
     k_next_pid k' = k_next_pid k \<and> map (\<lambda>t. (sched_part t, resume_regs t)) (k_tasks k') = map (\<lambda>t. (sched_part t, resume_regs t)) (k_tasks k)"

lemma same_sched_refl [simp]: "same_sched k k"
  by (simp add: same_sched_def)

lemma same_sched_trans: "same_sched k k' \<Longrightarrow> same_sched k' k'' \<Longrightarrow> same_sched k k''"
  by (simp add: same_sched_def)

lemma only_mem_same: "only_mem k k' \<Longrightarrow> same_sched k k'"
  by (auto simp: only_mem_def same_sched_def)

lemma same_sched_upd:
  "(\<And>t. sched_part (f t) = sched_part t) \<Longrightarrow> (\<And>t. resume_regs (f t) = resume_regs t) \<Longrightarrow> same_sched k (upd_task i f k)"
  by (cases "i < length (k_tasks k)")
     (auto simp: same_sched_def upd_task_def map_update list_update_beyond intro!: list_update_same_conv [THEN iffD2])

lemma same_sched_at:
  assumes "same_sched k k'" "i < length (k_tasks k)"
  shows "sched_part (task_at i k') = sched_part (task_at i k)" "resume_regs (task_at i k') = resume_regs (task_at i k)"
proof -
  have "map (\<lambda>t. (sched_part t, resume_regs t)) (k_tasks k') ! i = map (\<lambda>t. (sched_part t, resume_regs t)) (k_tasks k) ! i" "length (k_tasks k') = length (k_tasks k)"
    using assms(1) by (auto simp: same_sched_def dest: map_eq_imp_length_eq)
  then show "sched_part (task_at i k') = sched_part (task_at i k)" "resume_regs (task_at i k') = resume_regs (task_at i k)"
    using assms(2) by (auto simp: task_at_def)
qed

text \<open>A ready task and the registers with which it will go on.\<close>

definition ready :: "kernel \<Rightarrow> nat \<Rightarrow> regs \<Rightarrow> bool" where
  "ready k j s \<longleftrightarrow> runnable_user k j \<and> resume_regs (task_at j k) = s"

section \<open>The invariant of the scheduler\<close>

text \<open>
  The table has its sixteen entries; the shell (task 0) is a kernel task and ready; every ring-3 task
  has a process number. In between two tasks no task is running; otherwise exactly the current ring-3 task
  is, and the address space and the kernel stack in use are its own.
\<close>

definition table_ok :: "kernel \<Rightarrow> bool" where
  "table_ok k \<longleftrightarrow>
     length (k_tasks k) = TASK_MAX \<and> k_cur k < TASK_MAX \<and> k_last k < TASK_MAX \<and>
     \<not> t_user (task_at 0 k) \<and> t_state (task_at 0 k) = TASK_RUNNABLE \<and>
     (\<forall>i < TASK_MAX. t_user (task_at i k) \<longrightarrow> t_pid (task_at i k) \<noteq> 0)"

definition none_running :: "kernel \<Rightarrow> bool" where
  "none_running k \<longleftrightarrow> (\<forall>i < TASK_MAX. t_state (task_at i k) \<noteq> TASK_RUNNING)"

definition current_ok :: "kernel \<Rightarrow> bool" where
  "current_ok k \<longleftrightarrow>
     (k_cur k \<noteq> 0 \<longrightarrow> t_user (task_at (k_cur k) k)) \<and>
     (\<forall>i < TASK_MAX. t_state (task_at i k) = TASK_RUNNING \<longleftrightarrow> i = k_cur k \<and> i \<noteq> 0) \<and>
     k_cr3 k = (if k_cur k = 0 then k_boot_cr3 k else t_cr3 (task_at (k_cur k) k)) \<and>
     k_rsp0 k = t_kstack (task_at (k_cur k) k) + t_kstack_size (task_at (k_cur k) k)"

definition sched_ok :: "kernel \<Rightarrow> bool" where
  "sched_ok k \<longleftrightarrow> table_ok k \<and> current_ok k"

lemmas sched_ok_defs = sched_ok_def table_ok_def current_ok_def

lemma enter_task_sel:
  assumes "n < length (k_tasks k)" "enter_task n k = (f, k')"
  shows "k_cur k' = n" "k_last k' = k_last k" "length (k_tasks k') = length (k_tasks k)" "k_boot_cr3 k' = k_boot_cr3 k"
    "k_cr3 k' = t_cr3 (task_at n k)" "k_rsp0 k' = t_kstack (task_at n k) + t_kstack_size (task_at n k)"
    "j \<noteq> n \<Longrightarrow> task_at j k' = task_at j k" "sched_part (task_at n k') = sched_part ((task_at n k)\<lparr>t_state := TASK_RUNNING\<rparr>)"
    "f = t_ctx (task_at n k')" "t_started (task_at n k')" "f = resume_regs (task_at n k)"
  using assms by (auto simp: enter_task_def Let_def task_at_upd sched_part_def resume_regs_def split: if_splits)

lemma enter_task_ok:
  assumes k: "table_ok k" "none_running k" and n: "runnable_user k n" "n < TASK_MAX" and e: "enter_task n k = (f, k')"
  shows "sched_ok k'"
proof -
  have len: "n < length (k_tasks k)" using k n by (simp add: table_ok_def)
  note s = enter_task_sel [OF len e]
  have "0 < n" "t_user (task_at n k)" using n by (auto simp: runnable_user_def)
  then show ?thesis using k n s(1-6) s(7) s(8)
    by (auto simp: sched_ok_defs none_running_def sched_part_def) (metis)+
qed

lemma switch_cases:
  assumes "k_last k < TASK_MAX"
  obtains (repl) "sched_pick_user k = (None, k)" "\<And>j. j < TASK_MAX \<Longrightarrow> \<not> runnable_user k j"
    | (user) n where "sched_pick_user k = (Some n, k\<lparr>k_last := n\<rparr>)" "runnable_user k n" "0 < n" "n < TASK_MAX"
        "\<And>j. j < TASK_MAX \<Longrightarrow> runnable_user k j \<Longrightarrow> ahead (k_last k) n \<le> ahead (k_last k) j"
proof (cases "sched_pick_user k")
  case (Pair o' k')
  show ?thesis
  proof (cases o')
    case None
    then show ?thesis using Pair pick_None [of k k'] assms repl by simp
  next
    case (Some n)
    then show ?thesis using Pair pick_Some [of k n k'] assms user [of n] by simp
  qed
qed

lemma switch_ok:
  assumes "table_ok k" "none_running k" "sched_switch_to_next k = (c, k')"
  shows "sched_ok k'"
proof -
  have "k_last k < TASK_MAX" using assms by (simp add: table_ok_def)
  then show ?thesis
  proof (cases rule: switch_cases)
    case repl
    have len: "0 < length (k_tasks k)" using assms by (simp add: table_ok_def TASK_MAX_def)
    then show ?thesis using assms repl(1)
      by (auto simp: sched_switch_to_next_def Let_def sched_ok_defs none_running_def task_at_upd TASK_MAX_def split: if_splits)
  next
    case (user n)
    let ?k = "k\<lparr>k_last := n\<rparr>"
    have t: "table_ok ?k" "none_running ?k" "runnable_user ?k n"
      using assms user by (auto simp: table_ok_def none_running_def runnable_user_def)
    obtain f k2 where e: "enter_task n ?k = (f, k2)" by fastforce
    have "k' = k2" using assms(3) user(1) e by (simp add: sched_switch_to_next_def)
    then show ?thesis using enter_task_ok [OF t user(4) e] by simp
  qed
qed

lemma yield_ok:
  assumes "sched_ok k" "k_cur k = 0" "sched_yield_to_user k = (c, k')"
  shows "sched_ok k'"
proof -
  have "k_last k < TASK_MAX" and nr: "table_ok k" "none_running k"
    using assms by (auto simp: sched_ok_defs none_running_def)
  from this(1) show ?thesis
  proof (cases rule: switch_cases)
    case repl
    then show ?thesis using assms by (simp add: sched_yield_to_user_def)
  next
    case (user n)
    let ?k = "k\<lparr>k_last := n\<rparr>"
    have t: "table_ok ?k" "none_running ?k" "runnable_user ?k n"
      using nr user by (auto simp: table_ok_def none_running_def runnable_user_def)
    obtain f k2 where e: "enter_task n ?k = (f, k2)" by fastforce
    have "k' = k2" using assms(3) user(1) e by (simp add: sched_yield_to_user_def)
    then show ?thesis using enter_task_ok [OF t user(4) e] by simp
  qed
qed

text \<open>Giving up the processor: the current task is no longer running.\<close>

lemma stop_current:
  assumes "sched_ok k" "k_cur k \<noteq> 0" "\<And>t. t_state (f t) \<noteq> TASK_RUNNING" "\<And>t. t_user (f t) = t_user t" "\<And>t. t_pid (f t) = t_pid t"
  shows "table_ok (upd_task (k_cur k) f k)" "none_running (upd_task (k_cur k) f k)"
  using assms by (auto simp: sched_ok_defs none_running_def task_at_upd)

lemma same_sched_ok:
  assumes "same_sched k k'"
  shows "table_ok k \<Longrightarrow> table_ok k'" "none_running k \<Longrightarrow> length (k_tasks k) = TASK_MAX \<Longrightarrow> none_running k'"
    "sched_ok k \<Longrightarrow> sched_ok k'" "length (k_tasks k) = TASK_MAX \<Longrightarrow> j < TASK_MAX \<Longrightarrow> ready k' j s \<longleftrightarrow> ready k j s"
    "length (k_tasks k') = length (k_tasks k)"
proof -
  have len: "length (k_tasks k') = length (k_tasks k)" using assms by (auto simp: same_sched_def dest: map_eq_imp_length_eq)
  have at: "t_state (task_at i k') = t_state (task_at i k) \<and> t_user (task_at i k') = t_user (task_at i k) \<and>
      t_pid (task_at i k') = t_pid (task_at i k) \<and> t_kstack (task_at i k') = t_kstack (task_at i k) \<and>
      t_kstack_size (task_at i k') = t_kstack_size (task_at i k) \<and> t_cr3 (task_at i k') = t_cr3 (task_at i k)"
    if "i < TASK_MAX" "length (k_tasks k) = TASK_MAX" for i
    using same_sched_at [OF assms, of i] that by (simp add: sched_part_def)
  have z: "0 < TASK_MAX" by (simp add: TASK_MAX_def)
  have rest: "k_cur k' = k_cur k" "k_last k' = k_last k" "k_cr3 k' = k_cr3 k" "k_rsp0 k' = k_rsp0 k" "k_boot_cr3 k' = k_boot_cr3 k"
    using assms by (auto simp: same_sched_def)
  show "table_ok k \<Longrightarrow> table_ok k'" "sched_ok k \<Longrightarrow> sched_ok k'"
    using len at z rest by (auto simp: sched_ok_defs)
  show "none_running k \<Longrightarrow> length (k_tasks k) = TASK_MAX \<Longrightarrow> none_running k'"
    using at by (auto simp: none_running_def)
  show "length (k_tasks k) = TASK_MAX \<Longrightarrow> j < TASK_MAX \<Longrightarrow> ready k' j s \<longleftrightarrow> ready k j s"
    using at same_sched_at(2) [OF assms, of j] by (auto simp: ready_def runnable_user_def)
  show "length (k_tasks k') = length (k_tasks k)" by (rule len)
qed

lemma bind_free: "bind_res (if p \<noteq> 0 then k_free p k else Ok k) f = Ok y \<Longrightarrow> \<exists>k'. only_mem k k' \<and> f k' = Ok y"
  by (cases "p = 0") (auto simp: bind_res_Ok_iff intro: only_mem_refl dest: only_mem_free)

lemma model_exit_same: "model_exit_task i k = Ok k' \<Longrightarrow> same_sched k k'"
proof -
  assume "model_exit_task i k = Ok k'"
  then obtain k1 k2 where "only_mem k k1" "only_mem k1 k2"
    "k' = upd_task i (\<lambda>t. t\<lparr>t_frames_ptr := 0, t_map_ptr := 0, t_frames_n := 0\<rparr>) k2"
    by (auto simp: model_exit_task_def Let_def dest!: bind_free)
  moreover have "same_sched k2 (upd_task i (\<lambda>t. t\<lparr>t_frames_ptr := 0, t_map_ptr := 0, t_frames_n := 0\<rparr>) k2)"
    by (rule same_sched_upd) (simp_all add: sched_part_def resume_regs_def)
  ultimately show ?thesis using only_mem_same same_sched_trans by blast
qed

lemma slot_free_same: "same_sched k (slot_free s k)"
  by (simp add: slot_free_def same_sched_def)

lemma slot_frees_same: "same_sched k (fold (\<lambda>(key, s). slot_free s) xs k)"
proof (induction xs arbitrary: k)
  case (Cons x xs)
  show ?case using same_sched_trans [OF slot_free_same [of k "snd x"] Cons.IH] by (simp add: case_prod_beta)
qed simp

lemma swap_exit_same: "same_sched k (swap_exit_task i k)"
proof -
  have "same_sched k2 (upd_task i (\<lambda>t. t\<lparr>t_swap := []\<rparr>) k2)" for k2
    by (rule same_sched_upd) (simp_all add: sched_part_def resume_regs_def)
  from same_sched_trans [OF slot_frees_same [of k "t_swap (task_at i k)"] this] show ?thesis by (simp add: swap_exit_task_def)
qed

text \<open>Ending a task: what is left to do is a switch from a table in which the task is a zombie.\<close>

lemma exit_switches:
  assumes "sched_ok k" "k_cur k \<noteq> 0" "sched_exit_user code k = Ok (c, k')"
  obtains k1 where "table_ok k1" "none_running k1" "k_last k1 = k_last k" "sched_switch_to_next k1 = (c, k')"
    "\<forall>j < TASK_MAX. \<forall>s. j \<noteq> k_cur k \<longrightarrow> ready k1 j s = ready k j s"
    "t_state (task_at (k_cur k) k1) = TASK_ZOMBIE"
proof -
  define i where "i = k_cur k"
  have i: "i < TASK_MAX" "length (k_tasks k) = TASK_MAX" using assms(1) by (auto simp: i_def sched_ok_defs)
  define z where "z = upd_task i (\<lambda>t. t\<lparr>t_exit_code := code, t_state := TASK_ZOMBIE\<rparr>) k"
  have z: "table_ok z" "none_running z"
    unfolding z_def i_def using stop_current [OF assms(1,2), of "\<lambda>t. t\<lparr>t_exit_code := code, t_state := TASK_ZOMBIE\<rparr>"] by auto
  have zj: "ready z j s \<longleftrightarrow> ready k j s" if "j \<noteq> i" for j s using that by (simp add: z_def ready_def runnable_user_def task_at_upd)
  have zi: "t_state (task_at i z) = TASK_ZOMBIE" using i by (simp add: z_def task_at_upd)
  obtain l k2 where l: "model_exit_task i (z\<lparr>k_il := l\<rparr>) = Ok k2"
    and sw: "(let k = swap_exit_task i k2; cr3 = t_cr3 (task_at i k);
               k = (if cr3 \<noteq> 0 then on_mmu (vmm_free_address_space cr3) k else k)
           in sched_switch_to_next (upd_task i (\<lambda>t. t\<lparr>t_cr3 := 0\<rparr>) k)) = (c, k')"
    using assms(3) unfolding sched_exit_user_def Let_def z_def [symmetric] i_def [symmetric] by (auto simp: bind_res_Ok_iff)
  define k3 where "k3 = swap_exit_task i k2"
  define k4 where "k4 = (if t_cr3 (task_at i k3) \<noteq> 0 then on_mmu (vmm_free_address_space (t_cr3 (task_at i k3))) k3 else k3)"
  have "same_sched z (z\<lparr>k_il := l\<rparr>)" by (simp add: same_sched_def)
  moreover have "same_sched (z\<lparr>k_il := l\<rparr>) k2" by (rule model_exit_same [OF l])
  moreover have "same_sched k2 k3" unfolding k3_def by (rule swap_exit_same)
  moreover have "same_sched k3 k4" unfolding k4_def using only_mem_same by simp
  ultimately have s: "same_sched z k4" using same_sched_trans by blast
  have len: "length (k_tasks z) = TASK_MAX" using i by (simp add: z_def)
  let ?k = "upd_task i (\<lambda>t. t\<lparr>t_cr3 := 0\<rparr>) k4"
  have 4: "table_ok k4" "none_running k4" using same_sched_ok(1,2) [OF s] z len by auto
  have i4: "t_state (task_at i k4) = TASK_ZOMBIE" using same_sched_at [OF s, of i] zi len i by (simp add: sched_part_def)
  show ?thesis
  proof (rule that)
    show "table_ok ?k" "none_running ?k" using 4 by (auto simp: table_ok_def none_running_def task_at_upd)
    show "k_last ?k = k_last k" using s by (simp add: same_sched_def z_def)
    show "sched_switch_to_next ?k = (c, k')" using sw unfolding Let_def k3_def [symmetric] k4_def [symmetric] .
    show "t_state (task_at (k_cur k) ?k) = TASK_ZOMBIE" using i4 by (simp add: task_at_upd i_def)
    have "ready ?k j s \<longleftrightarrow> ready k j s" if "j < TASK_MAX" "j \<noteq> k_cur k" for j s
      using same_sched_ok(4) [OF s len that(1)] zj [of j s] that by (simp add: ready_def runnable_user_def task_at_upd i_def)
    then show "\<forall>j < TASK_MAX. \<forall>s. j \<noteq> k_cur k \<longrightarrow> ready ?k j s = ready k j s" by blast
  qed
qed

section \<open>Steps of the scheduler\<close>

text \<open>
  What can happen: a timer interrupt, a key, the calls a running task makes, the shell giving the processor away
  or creating a process (as long as process numbers have not wrapped around), and work that leaves the
  scheduler's part of the state alone. The flag says whether a new task is chosen.
\<close>

inductive sched_step :: "kernel \<Rightarrow> bool \<Rightarrow> kernel \<Rightarrow> bool" where
  tick: "pit_handler r k = (c, k') \<Longrightarrow> sched_step k (k_cur k \<noteq> 0) k'"
| key: "sched_step k False (sched_on_key k)"
| preempt: "k_cur k \<noteq> 0 \<Longrightarrow> sched_preempt r k = (c, k') \<Longrightarrow> sched_step k True k'"
| block: "k_cur k \<noteq> 0 \<Longrightarrow> sched_block_user r w b k = (c, k') \<Longrightarrow> sched_step k True k'"
| exit: "k_cur k \<noteq> 0 \<Longrightarrow> sched_exit_user code k = Ok (c, k') \<Longrightarrow> sched_step k True k'"
| yield: "k_cur k = 0 \<Longrightarrow> sched_yield_to_user k = (c, k') \<Longrightarrow> sched_step k True k'"
| spawn: "k_cur k = 0 \<Longrightarrow> k_next_pid k \<noteq> 0 \<Longrightarrow> sched_spawn n img code name k = Ok (p, k') \<Longrightarrow> sched_step k False k'"
| other: "same_sched k k' \<Longrightarrow> sched_step k False k'"

lemma wake_keeps:
  "t_user (wake_timer now t) = t_user t" "t_pid (wake_timer now t) = t_pid t" "t_kstack (wake_timer now t) = t_kstack t"
  "t_kstack_size (wake_timer now t) = t_kstack_size t" "t_cr3 (wake_timer now t) = t_cr3 t"
  "t_state (wake_timer now t) = TASK_RUNNING \<longleftrightarrow> t_state t = TASK_RUNNING"
  "t_state t = TASK_RUNNABLE \<Longrightarrow> t_state (wake_timer now t) = TASK_RUNNABLE"
  "t_user (wake_key t) = t_user t" "t_pid (wake_key t) = t_pid t" "t_kstack (wake_key t) = t_kstack t"
  "t_kstack_size (wake_key t) = t_kstack_size t" "t_cr3 (wake_key t) = t_cr3 t"
  "t_state (wake_key t) = TASK_RUNNING \<longleftrightarrow> t_state t = TASK_RUNNING"
  "t_state t = TASK_RUNNABLE \<Longrightarrow> t_state (wake_key t) = TASK_RUNNABLE"
  "resume_regs (wake_timer now t) = resume_regs t" "resume_regs (wake_key t) = resume_regs t"
  by (simp_all add: wake_timer_def wake_key_def resume_regs_def)

lemma each_ok:
  assumes "sched_ok k" "\<And>t. t_user (f t) = t_user t" "\<And>t. t_pid (f t) = t_pid t" "\<And>t. t_kstack (f t) = t_kstack t"
    "\<And>t. t_kstack_size (f t) = t_kstack_size t" "\<And>t. t_cr3 (f t) = t_cr3 t" "\<And>t. t_state (f t) = TASK_RUNNING \<longleftrightarrow> t_state t = TASK_RUNNING"
  shows "sched_ok (each_task f k)"
  using assms by (simp add: sched_ok_defs task_at_each)

lemma each_ready:
  assumes "sched_ok k" "\<And>t. t_user (f t) = t_user t" "\<And>t. t_state t = TASK_RUNNABLE \<Longrightarrow> t_state (f t) = TASK_RUNNABLE"
    "\<And>t. resume_regs (f t) = resume_regs t"
  shows "ready k j s \<Longrightarrow> ready (each_task f k) j s"
  using assms by (auto simp: ready_def runnable_user_def task_at_each sched_ok_defs)

lemma ticks_ok: "sched_ok (k\<lparr>k_ticks := w\<rparr>) \<longleftrightarrow> sched_ok k"
  by (simp add: sched_ok_defs)

definition woken :: "kernel \<Rightarrow> kernel" where
  "woken k = each_task (wake_timer (k_ticks k + 1)) (k\<lparr>k_ticks := k_ticks k + 1\<rparr>)"

lemma woken_ok:
  assumes "sched_ok k"
  shows "sched_ok (woken k)" "ready k j s \<Longrightarrow> ready (woken k) j s" "k_cur (woken k) = k_cur k" "k_last (woken k) = k_last k"
proof -
  have k: "sched_ok (k\<lparr>k_ticks := k_ticks k + 1\<rparr>)" using assms by (simp add: ticks_ok)
  show "sched_ok (woken k)" unfolding woken_def by (rule each_ok [OF k]) (simp_all add: wake_keeps)
  show "ready (woken k) j s" if "ready k j s"
    unfolding woken_def by (rule each_ready [OF k]) (use that in \<open>simp_all add: wake_keeps ready_def runnable_user_def\<close>)
  show "k_cur (woken k) = k_cur k" "k_last (woken k) = k_last k" by (simp_all add: woken_def)
qed

lemma pit_handler_woken:
  "pit_handler r k =
     (if t_user (task_at (k_cur k) (woken k)) then (let (c, k') = sched_preempt r (woken k) in (Some c, k')) else (None, woken k))"
  by (simp add: pit_handler_def sched_on_tick_def woken_def Let_def)

text \<open>A step that chooses a task is a switch from a table without a running task in which every task that was ready still is.\<close>

definition chooses :: "kernel \<Rightarrow> kernel \<Rightarrow> bool" where
  "chooses k k' \<longleftrightarrow>
     (\<exists>k1 c. table_ok k1 \<and> none_running k1 \<and> k_last k1 = k_last k \<and>
        (sched_switch_to_next k1 = (c, k') \<or> sched_ok k1 \<and> k_cur k1 = 0 \<and> sched_yield_to_user k1 = (c, k')) \<and>
        (\<forall>j < TASK_MAX. \<forall>s. ready k j s \<longrightarrow> ready k1 j s))"

lemma stop_chooses:
  assumes "sched_ok k" "k_cur k \<noteq> 0" "sched_switch_to_next (upd_task (k_cur k) f k) = (c, k')"
    "\<And>t. t_state (f t) \<noteq> TASK_RUNNING" "\<And>t. t_user (f t) = t_user t" "\<And>t. t_pid (f t) = t_pid t"
  shows "chooses k k'"
proof -
  have "ready (upd_task (k_cur k) f k) j s" if "j < TASK_MAX" "ready k j s" for j s
    using that assms(1,2) by (auto simp: ready_def runnable_user_def task_at_upd sched_ok_defs)
  then show ?thesis unfolding chooses_def
    using stop_current [OF assms(1,2,4,5,6)] assms(3) by (intro exI [of _ "upd_task (k_cur k) f k"] exI [of _ c]) simp
qed

lemma exit_chooses:
  assumes "sched_ok k" "k_cur k \<noteq> 0" "sched_exit_user code k = Ok (c, k')"
  shows "chooses k k'"
proof -
  obtain k1 where k1: "table_ok k1" "none_running k1" "k_last k1 = k_last k" "sched_switch_to_next k1 = (c, k')"
    "\<forall>j < TASK_MAX. \<forall>s. j \<noteq> k_cur k \<longrightarrow> ready k1 j s = ready k j s"
    by (rule exit_switches [OF assms]; rule that; assumption)
  have "\<not> ready k (k_cur k) s" for s using assms(1,2) by (auto simp: ready_def runnable_user_def sched_ok_defs)
  then have "\<forall>j < TASK_MAX. \<forall>s. ready k j s \<longrightarrow> ready k1 j s" using k1(5) by blast
  then show ?thesis unfolding chooses_def using k1(1-4) by blast
qed

lemma preempt_chooses: "sched_ok k \<Longrightarrow> k_cur k \<noteq> 0 \<Longrightarrow> sched_preempt r k = (c, k') \<Longrightarrow> chooses k k'"
  by (rule stop_chooses [of k "\<lambda>t. t\<lparr>t_ctx := r, t_state := TASK_RUNNABLE\<rparr>" c]) (simp_all add: sched_preempt_def)

lemma block_chooses: "sched_ok k \<Longrightarrow> k_cur k \<noteq> 0 \<Longrightarrow> sched_block_user r w b k = (c, k') \<Longrightarrow> chooses k k'"
  by (rule stop_chooses [of k "\<lambda>t. t\<lparr>t_ctx := r, t_state := TASK_BLOCKED, t_wake_ticks := w, t_on_key := b\<rparr>" c])
     (simp_all add: sched_block_user_def)

lemma yield_chooses:
  assumes "sched_ok k" "k_cur k = 0" "sched_yield_to_user k = (c, k')"
  shows "chooses k k'"
proof -
  have "table_ok k" "none_running k" using assms(1,2) by (auto simp: sched_ok_defs none_running_def)
  then show ?thesis unfolding chooses_def using assms by blast
qed

lemma chooses_ok:
  assumes "chooses k k'"
  shows "sched_ok k'"
  using assms switch_ok yield_ok unfolding chooses_def by blast

lemma chooses_progress:
  assumes c: "chooses k k'" and j: "j < TASK_MAX" "ready k j s"
  shows "k_cur k' = j \<and> t_ctx (task_at j k') = s \<or> ready k' j s \<and> ahead (k_last k') j < ahead (k_last k) j"
proof -
  obtain k1 ctl where k1: "table_ok k1" "k_last k1 = k_last k" "ready k1 j s"
    and sw: "sched_switch_to_next k1 = (ctl, k') \<or> sched_yield_to_user k1 = (ctl, k')"
    using c j unfolding chooses_def by blast
  have l: "k_last k1 < TASK_MAX" "length (k_tasks k1) = TASK_MAX" using k1 by (auto simp: table_ok_def)
  from l(1) show ?thesis
  proof (cases rule: switch_cases)
    case repl
    then show ?thesis using k1(3) j(1) by (simp add: ready_def)
  next
    case (user n)
    obtain f k2 where e: "enter_task n (k1\<lparr>k_last := n\<rparr>) = (f, k2)" by fastforce
    have k2: "k' = k2" using sw user(1) e by (auto simp: sched_switch_to_next_def sched_yield_to_user_def)
    have n: "n < length (k_tasks (k1\<lparr>k_last := n\<rparr>))" using l user by simp
    note s = enter_task_sel [OF n e]
    show ?thesis
    proof (cases "n = j")
      case True
      then show ?thesis using s(1,9,11) k2 k1(3) by (simp add: ready_def)
    next
      case False
      have "ahead n j < ahead (k_last k1) j"
        by (rule ahead_progress) (use l user False j k1 in \<open>auto simp: ready_def\<close>)
      moreover have "ready k' j s" using k1(3) s(7) [of j] False k2 by (simp add: ready_def runnable_user_def)
      ultimately show ?thesis using s(2) k2 k1(2) by simp
    qed
  qed
qed

text \<open>Creating a process changes one entry of the table, a free one.\<close>

lemma spawn_in_frame:
  assumes "spawn_in i cr3 n img code name k = Ok (p, k')"
  obtains (failed) "only_mem k k'" "p = -1"
    | (created) k2 ks l where "only_mem k k2" "p = uint (k_next_pid k)"
        "k' = upd_task i (new_process (k_next_pid k) name ks cr3) (k2\<lparr>k_next_pid := k_next_pid k + 1, k_il := l\<rparr>)"
proof -
  obtain ks k2 where ks: "k_malloc TASK_KSTACK_SIZE k = Ok (ks, k2)"
    using assms by (auto simp: spawn_in_def bind_res_Ok_iff)
  have m2: "only_mem k k2" by (rule only_mem_malloc [OF ks])
  obtain b k3 where f: "fill_space n img code cr3 k2 = (b, k3)" by fastforce
  have m3: "only_mem k k3" using only_mem_trans [OF m2 only_mem_fill_space [OF f]] .
  have free: "only_mem k (on_mmu g k4)" if "only_mem k k4" for g k4 using that only_mem_trans only_mem_ops(2) by blast
  consider "ks = 0" | "ks \<noteq> 0" "b" | "ks \<noteq> 0" "\<not> b" by blast
  then show ?thesis
  proof cases
    case 1
    then show ?thesis using assms ks failed free [OF m2] by (auto simp: spawn_in_def)
  next
    case 2
    then show ?thesis using assms ks f created [OF m3] only_mem_sel(7) [OF m3] by (auto simp: spawn_in_def bind_res_Ok_iff)
  next
    case 3
    then obtain k4 where "k_free ks k3 = Ok k4" "k' = on_mmu (vmm_free_address_space cr3) k4" "p = -1"
      using assms ks f by (auto simp: spawn_in_def bind_res_Ok_iff)
    then show ?thesis using failed free only_mem_trans [OF m3 only_mem_free] by blast
  qed
qed

lemma spawn_frame:
  assumes "sched_spawn n img code name k = Ok (p, k')" "length (k_tasks k) = TASK_MAX"
  obtains (full) "k' = k" "p = -1"
    | (slot) i t where "free_slot k = Some i" "k_tasks k' = (k_tasks k)[i := t]" "k_cur k' = k_cur k" "k_last k' = k_last k"
        "k_cr3 k' = k_cr3 k" "k_rsp0 k' = k_rsp0 k" "k_boot_cr3 k' = k_boot_cr3 k" "t_state t = TASK_RUNNABLE"
        "t_user t \<longrightarrow> t_pid t = k_next_pid k \<and> p = uint (k_next_pid k)"
proof (cases "free_slot k")
  case None
  then show ?thesis using assms full by (simp add: sched_spawn_def)
next
  case (Some i)
  let ?z = "zero_task\<lparr>t_budget := 8192\<rparr>"
  have i: "i < length (k_tasks k)" using first_in_SomeD [of _ 1 TASK_MAX i] Some assms(2) by (auto simp: free_slot_def)
  obtain k0 where k0: "only_mem k k0" and rest:
    "(let k = upd_task i (\<lambda>_. ?z) k0; (cr3, m) = vmm_new_address_space (k_boot_cr3 k) (mmu_of k); k = with_mmu m k
      in if cr3 = 0 then Ok (-1, k) else spawn_in i cr3 n img code name k) = Ok (p, k')"
    using assms(1) Some unfolding sched_spawn_def by (auto dest!: bind_free)
  define k1 where "k1 = upd_task i (\<lambda>_. ?z) k0"
  have k1: "k_tasks k1 = (k_tasks k)[i := ?z]" "k_cur k1 = k_cur k" "k_last k1 = k_last k" "k_cr3 k1 = k_cr3 k" "k_rsp0 k1 = k_rsp0 k"
    "k_boot_cr3 k1 = k_boot_cr3 k" "k_next_pid k1 = k_next_pid k"
    using only_mem_sel [OF k0] by (simp_all add: k1_def upd_task_def)
  have fail: ?thesis if "only_mem k1 k'"
    by (rule slot [OF Some, of ?z]) (use only_mem_sel [OF that] k1 in \<open>simp_all add: zero_task_def\<close>)
  obtain cr3 m where na: "vmm_new_address_space (k_boot_cr3 k1) (mmu_of k1) = (cr3, m)" by fastforce
  have m1: "only_mem k1 (with_mmu m k1)" by simp
  show ?thesis
  proof (cases "cr3 = 0")
    case True
    then have "k' = with_mmu m k1" using rest na unfolding k1_def [symmetric] by (simp add: Let_def)
    then show ?thesis using fail m1 by simp
  next
    case False
    then have "spawn_in i cr3 n img code name (with_mmu m k1) = Ok (p, k')"
      using rest na unfolding k1_def [symmetric] by (simp add: Let_def)
    then show ?thesis
    proof (cases rule: spawn_in_frame)
      case failed
      then show ?thesis using fail only_mem_trans m1 by blast
    next
      case (created k2 ks l)
      have m2: "only_mem k1 k2" using only_mem_trans m1 created(1) by blast
      show ?thesis
        by (rule slot [OF Some, of "new_process (k_next_pid k1) name ks cr3 ?z"])
           (use only_mem_sel [OF m2] only_mem_sel [OF m1] k1 created i in \<open>simp_all add: new_process_def upd_task_def\<close>)
    qed
  qed
qed

lemma spawn_ok:
  assumes "sched_ok k" "k_cur k = 0" "k_next_pid k \<noteq> 0" "sched_spawn n img code name k = Ok (p, k')"
  shows "sched_ok k'" "j < TASK_MAX \<Longrightarrow> ready k j s \<Longrightarrow> ready k' j s" "k_last k' = k_last k"
proof -
  have len: "length (k_tasks k) = TASK_MAX" using assms(1) by (simp add: sched_ok_defs)
  have "sched_ok k' \<and> (j < TASK_MAX \<longrightarrow> ready k j s \<longrightarrow> ready k' j s) \<and> k_last k' = k_last k"
    using assms(4) len
  proof (cases rule: spawn_frame)
    case full
    then show ?thesis using assms(1) by simp
  next
    case (slot i t)
    have i: "1 \<le> i" "i < TASK_MAX" "t_state (task_at i k) = TASK_ZOMBIE \<or> t_pid (task_at i k) = 0"
      using first_in_SomeD slot(1) unfolding free_slot_def by blast+
    have at: "task_at m k' = (if m = i then t else task_at m k)" if "m < TASK_MAX" for m
      using slot(2) i len that by (simp add: task_at_def)
    have "sched_ok k'" using assms(1-3) slot(2-9) i at len by (auto simp: sched_ok_defs)
    moreover have "ready k' j s" if "j < TASK_MAX" "ready k j s"
      using that at [of j] i assms(1) by (auto simp: ready_def runnable_user_def sched_ok_defs split: if_splits)
    ultimately show ?thesis using slot(4) by simp
  qed
  then show "sched_ok k'" "j < TASK_MAX \<Longrightarrow> ready k j s \<Longrightarrow> ready k' j s" "k_last k' = k_last k" by auto
qed

lemma key_ok:
  assumes "sched_ok k"
  shows "sched_ok (sched_on_key k)" "ready k j s \<Longrightarrow> ready (sched_on_key k) j s" "k_last (sched_on_key k) = k_last k"
proof -
  show "sched_ok (sched_on_key k)" unfolding sched_on_key_def by (rule each_ok [OF assms]) (simp_all add: wake_keeps)
  show "ready k j s \<Longrightarrow> ready (sched_on_key k) j s"
    unfolding sched_on_key_def by (rule each_ready [OF assms]) (simp_all add: wake_keeps)
  show "k_last (sched_on_key k) = k_last k" by (simp add: sched_on_key_def)
qed

lemma chooses_woken:
  assumes "sched_ok k" "chooses (woken k) k'"
  shows "chooses k k'"
  using assms woken_ok [OF assms(1)] unfolding chooses_def by metis

text \<open>Every step keeps the invariant; a step that chooses does so fairly, the others leave ready tasks ready and the order alone.\<close>

lemma sched_step_cases:
  assumes "sched_ok k" "sched_step k b k'"
  shows "sched_ok k' \<and> (if b then chooses k k' else (\<forall>j < TASK_MAX. \<forall>s. ready k j s \<longrightarrow> ready k' j s) \<and> k_last k' = k_last k)"
  using assms(2)
proof cases
  case (tick r c)
  have w: "sched_ok (woken k)" "k_cur (woken k) = k_cur k" using woken_ok assms(1) by blast+
  have u: "t_user (task_at (k_cur k) (woken k)) \<longleftrightarrow> k_cur k \<noteq> 0" using w by (auto simp: sched_ok_defs)
  show ?thesis
  proof (cases "k_cur k = 0")
    case True
    then have "k' = woken k" using tick u by (simp add: pit_handler_woken)
    then show ?thesis using tick True woken_ok [OF assms(1)] by simp
  next
    case False
    then obtain c' where "sched_preempt r (woken k) = (c', k')" using tick u by (auto simp: pit_handler_woken split: prod.split_asm)
    then have "chooses (woken k) k'" using preempt_chooses w False by simp
    then have "chooses k k'" by (rule chooses_woken [OF assms(1)])
    then show ?thesis using tick False chooses_ok by auto
  qed
next
  case other
  have "length (k_tasks k) = TASK_MAX" using assms(1) by (simp add: sched_ok_defs)
  then show ?thesis using other same_sched_ok(3,4) [OF other(2)] assms(1) by (auto simp: same_sched_def)
next
  case key
  then show ?thesis using key_ok [OF assms(1)] by simp
next
  case (preempt r c)
  then have "chooses k k'" using preempt_chooses [OF assms(1)] by blast
  then show ?thesis using preempt(1) chooses_ok by simp
next
  case (block r w d c)
  then have "chooses k k'" using block_chooses [OF assms(1)] by blast
  then show ?thesis using block(1) chooses_ok by simp
next
  case (exit code c)
  then have "chooses k k'" using exit_chooses [OF assms(1)] by blast
  then show ?thesis using exit(1) chooses_ok by simp
next
  case (yield c)
  then have "chooses k k'" using yield_chooses [OF assms(1)] by blast
  then show ?thesis using yield(1) chooses_ok by simp
next
  case (spawn n img code name p)
  then show ?thesis using spawn_ok [OF assms(1)] by simp
qed

text \<open>Runs: the steps with the states they lead to.\<close>

fun is_run :: "kernel \<Rightarrow> (bool \<times> kernel) list \<Rightarrow> bool" where
  "is_run k [] \<longleftrightarrow> True"
| "is_run k ((b, k') # es) \<longleftrightarrow> sched_step k b k' \<and> is_run k' es"

lemma run_ok: "sched_ok k \<Longrightarrow> is_run k es \<Longrightarrow> (b, k') \<in> set es \<Longrightarrow> sched_ok k'"
proof (induction k es arbitrary: b k' rule: is_run.induct)
  case (2 k b1 k1 es)
  then have step: "sched_step k b1 k1" and run: "is_run k1 es" by simp_all
  have "sched_ok k1" using sched_step_cases [OF 2(2) step] by simp
  then show ?case using 2(1) [OF _ run] 2(4) by auto
qed simp

lemma init_ok:
  assumes "sched_init k = Ok k1" "k_last k < TASK_MAX" "k_cr3 k = k_boot_cr3 k"
  shows "sched_ok k1"
proof -
  obtain p k0 where "k_malloc TASK_KSTACK_SIZE k = Ok (p, k0)"
    "k1 = k0\<lparr>k_tasks := (replicate TASK_MAX zero_task)
               [0 := zero_task\<lparr>t_name := ''repl'', t_kstack := p, t_kstack_size := TASK_KSTACK_SIZE, t_budget := 8192\<rparr>],
             k_cur := 0, k_rsp0 := p + TASK_KSTACK_SIZE\<rparr>"
    using assms(1) by (auto simp: sched_init_def bind_res_Ok_iff)
  then show ?thesis using only_mem_sel [OF only_mem_malloc, of TASK_KSTACK_SIZE k p k0] assms(2,3)
    by (auto simp: sched_ok_defs task_at_def nth_list_update zero_task_def TASK_MAX_def)
qed

text \<open>C10 (invariant)
  Whatever happens after \<open>sched_init\<close> - timer interrupts, keys, tasks that yield, sleep, wait or exit, the shell
  yielding or creating processes, in any order - the table stays well formed: task 0 is the shell and never a ring-3 task,
  no two tasks are ever running at once, the running task is the current one, and the page tables and the kernel
  stack in use are those of the current task (the kernel's own page tables while the shell runs).
\<close>
theorem sched_invariant:
  assumes "sched_init k = Ok k1" "k_last k < TASK_MAX" "k_cr3 k = k_boot_cr3 k" "is_run k1 es" "k2 \<in> insert k1 (snd ` set es)"
  shows "length (k_tasks k2) = TASK_MAX \<and> k_cur k2 < TASK_MAX \<and> \<not> t_user (task_at 0 k2) \<and>
    (k_cur k2 \<noteq> 0 \<longrightarrow> t_user (task_at (k_cur k2) k2)) \<and>
    (\<forall>i < TASK_MAX. t_state (task_at i k2) = TASK_RUNNING \<longleftrightarrow> i = k_cur k2 \<and> i \<noteq> 0) \<and>
    k_cr3 k2 = (if k_cur k2 = 0 then k_boot_cr3 k2 else t_cr3 (task_at (k_cur k2) k2)) \<and>
    k_rsp0 k2 = t_kstack (task_at (k_cur k2) k2) + t_kstack_size (task_at (k_cur k2) k2)"
proof -
  have "sched_ok k2" using init_ok [OF assms(1-3)] run_ok [OF _ assms(4)] assms(5) by auto
  then show ?thesis by (simp add: sched_ok_defs)
qed


lemma switch_blocked:
  assumes "table_ok k" "sched_switch_to_next k = (c, k')" "j \<noteq> 0"
  shows "t_state (task_at j k') = TASK_BLOCKED \<longleftrightarrow> t_state (task_at j k) = TASK_BLOCKED"
proof -
  have l: "k_last k < TASK_MAX" "length (k_tasks k) = TASK_MAX" using assms(1) by (auto simp: table_ok_def)
  from l(1) show ?thesis
  proof (cases rule: switch_cases)
    case repl
    then show ?thesis using assms(2,3) by (auto simp: sched_switch_to_next_def Let_def task_at_upd)
  next
    case (user n)
    obtain f k2 where e: "enter_task n (k\<lparr>k_last := n\<rparr>) = (f, k2)" by fastforce
    have k2: "k' = k2" using assms(2) user(1) e by (simp add: sched_switch_to_next_def)
    have n: "n < length (k_tasks (k\<lparr>k_last := n\<rparr>))" using l user by simp
    show ?thesis using enter_task_sel(7) [OF n e, of j] enter_task_sel(8) [OF n e] user(2) k2
      by (cases "j = n") (auto simp: sched_part_def runnable_user_def)
  qed
qed

text \<open>C23 (functional)
  The timer wakes exactly the sleepers whose time has come: a task that was blocked before the interrupt is blocked
  after it unless its deadline is set and not after the new value of the clock. A deadline of 0 means none, so a
  sleep that happens to end at clock value 0 is never woken by the timer.
\<close>
theorem timer_wakes_sleepers:
  assumes "sched_ok k" "j < TASK_MAX" "t_state (task_at j k) = TASK_BLOCKED" "pit_handler r k = (c, k')"
  shows "t_state (task_at j k') = TASK_BLOCKED \<longleftrightarrow>
           t_wake_ticks (task_at j k) = 0 \<or> k_ticks k + 1 < t_wake_ticks (task_at j k)"
proof -
  have j: "j \<noteq> 0" "length (k_tasks k) = TASK_MAX" using assms(1,3) by (auto simp: sched_ok_defs intro: ccontr)
  have cur: "j \<noteq> k_cur k" using assms(1,2,3) j(1) by (fastforce simp: sched_ok_defs)
  have "task_at j (woken k) = wake_timer (k_ticks k + 1) (task_at j k)" using assms(2) j by (simp add: woken_def task_at_each)
  then have w: "t_state (task_at j (woken k)) = TASK_BLOCKED \<longleftrightarrow>
      t_wake_ticks (task_at j k) = 0 \<or> k_ticks k + 1 < t_wake_ticks (task_at j k)"
    using assms(3) by (auto simp: wake_timer_def)
  have ok: "sched_ok (woken k)" "k_cur (woken k) = k_cur k" using woken_ok assms(1) by blast+
  show ?thesis
  proof (cases "k_cur k = 0")
    case True
    then show ?thesis using w assms(4) ok by (auto simp: pit_handler_woken sched_ok_defs)
  next
    case False
    let ?k = "upd_task (k_cur k) (\<lambda>t. t\<lparr>t_ctx := r, t_state := TASK_RUNNABLE\<rparr>) (woken k)"
    obtain c' where "sched_preempt r (woken k) = (c', k')"
      using assms(4) False ok by (auto simp: pit_handler_woken sched_ok_defs split: prod.split_asm)
    then have sw: "sched_switch_to_next ?k = (c', k')" using ok by (simp add: sched_preempt_def)
    have "table_ok ?k" using stop_current(1) [OF ok(1), of "\<lambda>t. t\<lparr>t_ctx := r, t_state := TASK_RUNNABLE\<rparr>"] False ok(2) by simp
    then show ?thesis using switch_blocked [OF _ sw j(1)] w cur by (simp add: task_at_upd)
  qed
qed

section \<open>Examples\<close>

lemma malloc_returns:
  assumes "heap_ok (k_heap k)"
  shows "\<exists>p h. k_malloc n k = Ok (p, k\<lparr>k_heap := h\<rparr>) \<and> heap_ok h"
proof -
  have "free_count (h_pmm (k_heap k)) \<le> unat (total_frames (h_pmm (k_heap k)))"
    unfolding free_count_def by (rule order_trans [OF card_mono [of "{..<unat (total_frames (h_pmm (k_heap k)))}"]]) auto
  moreover have "unat (total_frames (h_pmm (k_heap k))) \<le> PMM_MAX_FRAMES" using assms by (simp add: heap_ok_def pmm_inv_def)
  ultimately have "free_count (h_pmm (k_heap k)) < Suc (Suc PMM_MAX_FRAMES)" by linarith
  then obtain p h where "kmalloc (Suc (Suc PMM_MAX_FRAMES)) n (k_heap k) = Some (p, h)"
    using kmalloc_returns [OF assms] by blast
  moreover from this have "heap_ok h" using kmalloc_heap [OF assms] by blast
  ultimately show ?thesis unfolding k_malloc_def by auto
qed

lemma small_heap_ok: "heap_ok (empty_heap\<lparr>h_pmm := small_pmm\<rparr>)"
  using empty_heap_ok small_ok small_used [of 0] by (simp add: heap_ok_def empty_heap_def spaces_def small_mmu_def)

definition two_tasks :: kernel where
  "two_tasks = demo_kernel small_mmu [demo_task 1 4096, (demo_task 2 8192)\<lparr>t_state := TASK_BLOCKED, t_wake_ticks := 42\<rparr>]"

lemma two_tasks_at:
  "task_at 0 two_tasks = zero_task" "task_at 1 two_tasks = demo_task 1 4096"
  "task_at 2 two_tasks = (demo_task 2 8192)\<lparr>t_state := TASK_BLOCKED, t_wake_ticks := 42\<rparr>"
  "2 < i \<Longrightarrow> i < TASK_MAX \<Longrightarrow> task_at i two_tasks = zero_task"
  by (auto simp: two_tasks_def demo_kernel_def task_at_def TASK_MAX_def nth_Cons split: nat.split)

lemma two_tasks_ok: "sched_ok two_tasks"
proof -
  have "task_at i two_tasks \<in> {zero_task, demo_task 1 4096, (demo_task 2 8192)\<lparr>t_state := TASK_BLOCKED, t_wake_ticks := 42\<rparr>}"
    if "i < TASK_MAX" for i
  proof -
    consider "i = 0" | "i = 1" | "i = 2" | "2 < i" by linarith
    then show ?thesis using two_tasks_at that by cases auto
  qed
  then have "t_state (task_at i two_tasks) \<noteq> TASK_RUNNING \<and> (t_user (task_at i two_tasks) \<longrightarrow> t_pid (task_at i two_tasks) \<noteq> 0)"
    if "i < TASK_MAX" for i using that by (fastforce simp: zero_task_def demo_task_def)
  moreover have "length (k_tasks two_tasks) = TASK_MAX" "k_cur two_tasks = 0" "k_last two_tasks = 0" "k_cr3 two_tasks = k_boot_cr3 two_tasks"
    "k_rsp0 two_tasks = 0"
    by (simp_all add: two_tasks_def demo_kernel_def TASK_MAX_def)
  ultimately show ?thesis using two_tasks_at(1) by (auto simp: sched_ok_defs TASK_MAX_def zero_task_def)
qed

theorem sched_invariant_witness:
  "\<exists>k1. sched_init (demo_kernel small_mmu []) = Ok k1 \<and> is_run k1 [(False, sched_on_key k1)] \<and>
     \<not> t_user (task_at 0 (sched_on_key k1))"
proof -
  let ?k = "demo_kernel small_mmu []"
  have "heap_ok (k_heap ?k)" using small_heap_ok by (simp add: demo_kernel_def small_mmu_def)
  from malloc_returns [OF this, of TASK_KSTACK_SIZE] obtain k1 where i: "sched_init ?k = Ok k1" by (auto simp: sched_init_def)
  have r: "is_run k1 [(False, sched_on_key k1)]" by (simp add: sched_step.key)
  show ?thesis using sched_invariant [OF i _ _ r, of "sched_on_key k1"] i r by (auto simp: demo_kernel_def TASK_MAX_def)
qed


theorem timer_wakes_sleepers_witness:
  "t_state (task_at 2 two_tasks) = TASK_BLOCKED \<and> t_state (task_at 2 (snd (pit_handler (\<lambda>_. 0) two_tasks))) \<noteq> TASK_BLOCKED"
proof -
  have b: "t_state (task_at 2 two_tasks) = TASK_BLOCKED" using two_tasks_at(3) by simp
  have "k_ticks two_tasks = 41" by (simp add: two_tasks_def demo_kernel_def)
  then show ?thesis
    using timer_wakes_sleepers [OF two_tasks_ok _ b, of "\<lambda>_. 0" "fst (pit_handler (\<lambda>_. 0) two_tasks)" "snd (pit_handler (\<lambda>_. 0) two_tasks)"]
      two_tasks_at(3) b by (simp add: TASK_MAX_def)
qed

end
