(* ===== verification/Syscall.thy ===== *)
theory Syscall
  imports Sched
begin

unbundle bit_operations_syntax

text \<open>
  Entry into the kernel: the interrupt dispatcher of \<^verbatim>\<open>arch/x86_64/isr.c\<close> with the system calls of
  \<^verbatim>\<open>arch/x86_64/syscall.c\<close>, the page-fault path and the two device interrupts. All gates are interrupt gates, so
  a handler runs to its end before the next interrupt. The outcome is the way out of the handler: a return through a
  register frame, the shell, or the kernel halting in \<^verbatim>\<open>isr_panic\<close>.
\<close>

section \<open>System calls\<close>

definition kpanic :: "'a res" where
  "kpanic = Err ''KERNEL PANIC: halted''"

text \<open>
  A byte read at a user address while the task's page tables are loaded. When the page is not mapped the access
  faults in kernel mode, and the dispatcher halts the machine.
\<close>

definition word_byte :: "u64 \<Rightarrow> nat \<Rightarrow> u8" where
  "word_byte w i = ucast (drop_bit (8 * i) w)"

definition user_byte :: "kernel \<Rightarrow> u64 \<Rightarrow> u8 res" where
  "user_byte k va =
     (let f = vmm_translate (mmu_of k) (k_cr3 k) va; off = unat (va AND 0xFFF)
      in if f = 0 then kpanic else Ok (word_byte (k_mem k f (off div 8)) (off mod 8)))"

fun puts_loop :: "nat \<Rightarrow> u64 \<Rightarrow> kernel \<Rightarrow> kernel res" where
  "puts_loop 0 a k = Ok k"
| "puts_loop (Suc n) a k =
     bind_res (user_byte k a) (\<lambda>b. if b = 0 then Ok k else puts_loop n (a + 1) (noc_os_putc (char_of (unat b)) k))"

definition sys_puts :: "u64 \<Rightarrow> kernel \<Rightarrow> kernel res" where
  "sys_puts a k = (if a < USER_IMAGE_BASE \<or> a \<ge> USER_REGION_END then Ok k else puts_loop 4096 a k)"

fun grow_heap :: "nat \<Rightarrow> nat list \<Rightarrow> kernel \<Rightarrow> bool \<times> kernel" where
  "grow_heap c [] k = (True, k)"
| "grow_heap c (p # ps) k =
     (case k_alloc_frame k of
        (f, k) \<Rightarrow>
          if f = 0 then (False, k)
          else
            (let k = write_page f (\<lambda>_. 0) k;
                 k = on_mmu (vmm_map (t_cr3 (task_at c k)) (USER_HEAP_BASE + of_nat p * 4096) f (VMM_USER OR VMM_WRITE)) k
             in grow_heap c ps (upd_task c (\<lambda>t. t\<lparr>t_heap_pages := t_heap_pages t + 1\<rparr>) k)))"

definition sys_alloc :: "nat \<Rightarrow> u64 \<Rightarrow> kernel \<Rightarrow> u64 \<times> kernel" where
  "sys_alloc c n k =
     (let n = align16 n; t = task_at c k
      in if t_heap_used t + n > 0x200000 then (0, k)
         else
           (let base = USER_HEAP_BASE + t_heap_used t;
                want = (t_heap_used t + n + 4095) div 4096
            in case grow_heap c [unat (t_heap_pages t)..<unat want] k of
                 (False, k) \<Rightarrow> (0, k)
               | (True, k) \<Rightarrow> (base, upd_task c (\<lambda>t. t\<lparr>t_heap_used := t_heap_used t + n\<rparr>) k)))"

text \<open>
  Waiting for a key. \<^verbatim>\<open>sched_block_user\<close> overwrites the register frame with that of the next task and returns, so the
  loop goes on in the name of that task; it is left when a key is there or when the shell is resumed. The fuel
  counts the turns.
\<close>

fun kbd_wait :: "nat \<Rightarrow> regs \<Rightarrow> kernel \<Rightarrow> (control \<times> kernel) res" where
  "kbd_wait 0 r k = Crash OutOfFuel"
| "kbd_wait (Suc n) r k =
     (let (c, q) = kbd_getc (k_keys k)
      in if c \<ge> 0 then Ok (Iret (r(RAX := of_int c)), k\<lparr>k_keys := q\<rparr>)
         else
           (case sched_block_user r 0 True (k\<lparr>k_keys := q\<rparr>) of
              (ToRepl, k) \<Rightarrow> Ok (ToRepl, k)
            | (Iret r, k) \<Rightarrow> kbd_wait n r k))"

declare kbd_wait.simps [simp del]

definition model_budget :: "u64 \<Rightarrow> kernel \<Rightarrow> u64 \<times> kernel" where
  "model_budget kb k =
     (let kb = (if kb > 65536 then 65536 else kb)
      in (kb, upd_task (k_cur k) (\<lambda>t. t\<lparr>t_budget := ucast kb\<rparr>) k))"

definition model_commit :: "u64 \<Rightarrow> kernel \<Rightarrow> u64 \<times> kernel" where
  "model_commit pages k =
     (let need = pages * 4; t = task_at (k_cur k) k
      in if ucast (t_weights t) + need > ucast (t_budget t) then (-1, k)
         else (0, upd_task (k_cur k) (\<lambda>t. t\<lparr>t_weights := t_weights t + ucast need\<rparr>) k))"

definition model_touch :: "u64 \<Rightarrow> kernel \<Rightarrow> (u64 \<times> kernel) res" where
  "model_touch pg k =
     (if pg \<ge> ucast (model_window_pages k) then Ok (-1, k)
      else map_res (\<lambda>(ok, k). (if ok then 0 else -1, k)) (model_demand_fault (k_cur k) (USER_MODEL_BASE + pg * 4096) 0 k))"

definition model_evict :: "u64 \<Rightarrow> kernel \<Rightarrow> u64 \<times> kernel" where
  "model_evict pg k = (let (ok, k) = model_evict_page (k_cur k) (unat pg) k in (if ok then 0 else -1, k))"

definition sys_swap_out :: "u64 \<Rightarrow> kernel \<Rightarrow> u64 \<times> kernel" where
  "sys_swap_out va k = (let (x, k) = swap_out (k_cur k) va k in (if x = 0 then 0 else -1, k))"

text \<open>A call that returns to its caller with a result in \<^verbatim>\<open>rax\<close>.\<close>

definition ret_rax :: "regs \<Rightarrow> u64 \<times> kernel \<Rightarrow> control \<times> kernel" where
  "ret_rax r = (\<lambda>(v, k). (Iret (r(RAX := v)), k))"

definition PIT_HZ :: u64 where "PIT_HZ = 100"

definition syscall_dispatch :: "regs \<Rightarrow> kernel \<Rightarrow> (control \<times> kernel) res" where
  "syscall_dispatch r k =
     (let num = r RAX; a1 = r RDI
      in if num = 0 then sched_exit_user a1 k
         else if num = 1 then Ok (ret_rax r (0, noc_os_putc (char_of (unat (ucast a1 :: u8))) k))
         else if num = 2 then map_res (\<lambda>k. ret_rax r (0, k)) (sys_puts a1 k)
         else if num = 3 then Ok (sched_block_user (r(RAX := 0)) (k_ticks k + a1 * PIT_HZ div 1000) False k)
         else if num = 4 then Ok (ret_rax r (k_ticks k, k))
         else if num = 5 then (let (c, q) = kbd_getc (k_keys k) in Ok (ret_rax r (of_int c, k\<lparr>k_keys := q\<rparr>)))
         else if num = 6 then kbd_wait (Suc TASK_MAX) r k
         else if num = 7 then Ok (ret_rax r (sys_alloc (k_cur k) a1 k))
         else if num = 8 then Ok (ret_rax r (0, k))
         else if num = 9 then Ok (sched_preempt r k)
         else if num = 10 then Ok (ret_rax r (of_int (kbd_peekc (k_keys k)), k))
         else if num = 11 then Ok (ret_rax r (model_budget a1 k))
         else if num = 12 then Ok (ret_rax r (model_commit a1 k))
         else if num = 13 then map_res (ret_rax r) (model_touch a1 k)
         else if num = 14 then Ok (ret_rax r (model_evict a1 k))
         else if num = 15 then Ok (ret_rax r (0, k))
         else if num = 16 then Ok (ret_rax r (sys_swap_out a1 k))
         else if num = 17 then Ok (ret_rax r (0, k))
         else Ok (ret_rax r (-1, k)))"

text \<open>The entry points the interpreter uses in the kernel: the same, but only ring-3 tasks have a model window.\<close>

definition noc_os_model_touch :: "u64 \<Rightarrow> kernel \<Rightarrow> (u64 \<times> kernel) res" where
  "noc_os_model_touch pg k =
     (let t = task_at (k_cur k) k in if \<not> t_user t \<or> t_cr3 t = 0 then Ok (0, k) else model_touch pg k)"

definition noc_os_model_evict :: "u64 \<Rightarrow> kernel \<Rightarrow> u64 \<times> kernel" where
  "noc_os_model_evict pg k =
     (let t = task_at (k_cur k) k in if \<not> t_user t \<or> t_cr3 t = 0 then (0, k) else model_evict pg k)"

section \<open>Interrupts\<close>

text \<open>The keyboard interrupt: only a plain key that goes down wakes the tasks that wait for one.\<close>

definition wakes_key :: "u8 \<Rightarrow> kbd \<Rightarrow> bool" where
  "wakes_key sc s \<longleftrightarrow> \<not> k_ext s \<and> sc \<notin> {0xE0, 0x2A, 0x36, 0xAA, 0xB6, 0x1D, 0x9D, 0x3A} \<and> sc AND 0x80 = 0"

definition kbd_interrupt :: "u8 \<Rightarrow> kernel \<Rightarrow> kernel" where
  "kbd_interrupt sc k =
     (let k' = k\<lparr>k_keys := kbd_handler sc (k_keys k)\<rparr> in if wakes_key sc (k_keys k) then sched_on_key k' else k')"

definition feed_pred :: "u64 \<Rightarrow> kernel \<Rightarrow> kernel" where
  "feed_pred cr2 k = k\<lparr>k_pred := pgpred_fault cr2 (k_pred k)\<rparr>"

definition model_or_kill :: "u64 \<Rightarrow> u64 \<Rightarrow> regs \<Rightarrow> kernel \<Rightarrow> (control \<times> kernel) res" where
  "model_or_kill err cr2 r k =
     bind_res (model_demand_fault (k_cur k) cr2 err k) (\<lambda>(ok, k).
       if ok then map_res (\<lambda>k. (Iret r, k)) (model_prefetch (k_cur k) (feed_pred cr2 k))
       else sched_exit_user (-1) (feed_pred cr2 k))"

definition page_fault :: "u64 \<Rightarrow> u64 \<Rightarrow> regs \<Rightarrow> kernel \<Rightarrow> (control \<times> kernel) res" where
  "page_fault err cr2 r k =
     (if swap_has (task_at (k_cur k) k) cr2 then
        (case swap_in (k_cur k) cr2 k of
           (x, k) \<Rightarrow>
             if x = 0 then Ok (Iret r, swap_prefetch (k_cur k) (feed_pred cr2 k))
             else model_or_kill err cr2 r k)
      else model_or_kill err cr2 r k)"

text \<open>
  The dispatcher. \<open>cr2\<close> is the faulting address and \<open>sc\<close> the byte the keyboard controller delivers. The
  timer's handler is registered for vector 32, the keyboard's for 33; other interrupts are dropped.
\<close>

definition isr_dispatch :: "u64 \<Rightarrow> u64 \<Rightarrow> u64 \<Rightarrow> u8 \<Rightarrow> regs \<Rightarrow> kernel \<Rightarrow> (control \<times> kernel) res" where
  "isr_dispatch vec err cr2 sc r k =
     (if vec = 0x80 then syscall_dispatch r k
      else if vec < 32 then
        (if r CS AND NOT 3 = GDT_UCODE
         then (if vec = 14 then page_fault err cr2 r k else sched_exit_user (-1) k)
         else kpanic)
      else if vec = 32 then (case pit_handler r k of (None, k) \<Rightarrow> Ok (Iret r, k) | (Some c, k) \<Rightarrow> Ok (c, k))
      else if vec = 33 then Ok (Iret r, kbd_interrupt sc k)
      else Ok (Iret r, k))"

section \<open>Calls that do not switch\<close>

text \<open>The memory calls leave the scheduler's part of the state alone.\<close>

lemma same_mem: "same_sched k k1 \<Longrightarrow> only_mem k1 k2 \<Longrightarrow> same_sched k k2"
  using same_sched_trans only_mem_same by blast

lemma same_upd:
  "same_sched k k1 \<Longrightarrow> (\<And>t. sched_part (f t) = sched_part t) \<Longrightarrow> (\<And>t. resume_regs (f t) = resume_regs t) \<Longrightarrow>
     same_sched k (upd_task i f k1)"
  using same_sched_trans same_sched_upd by blast

lemma same_fields [simp]:
  "same_sched k (k1\<lparr>k_disk := d\<rparr>) \<longleftrightarrow> same_sched k k1" "same_sched k (k1\<lparr>k_slots := sl\<rparr>) \<longleftrightarrow> same_sched k k1"
  "same_sched k (k1\<lparr>k_swaps_out := w\<rparr>) \<longleftrightarrow> same_sched k k1" "same_sched k (k1\<lparr>k_swaps_in := w\<rparr>) \<longleftrightarrow> same_sched k k1"
  "same_sched k (k1\<lparr>k_pred := h\<rparr>) \<longleftrightarrow> same_sched k k1" "same_sched k (k1\<lparr>k_keys := q\<rparr>) \<longleftrightarrow> same_sched k k1"
  "same_sched k (k1\<lparr>k_il := l\<rparr>) \<longleftrightarrow> same_sched k k1" "same_sched k (k1\<lparr>k_out := s\<rparr>) \<longleftrightarrow> same_sched k k1"
  by (simp_all add: same_sched_def)

lemmas same_intros = same_mem same_upd
lemmas same_defs = sched_part_def resume_regs_def model_page_set_def Let_def

lemma ensure_same:
  assumes "model_ensure_task i p k = Ok (b, k')"
  shows "same_sched k k'"
proof (cases "t_frames_n (task_at i k) \<ge> ucast p \<and> t_frames_ptr (task_at i k) \<noteq> 0 \<and> t_map_ptr (task_at i k) \<noteq> 0")
  case True
  then show ?thesis using assms by (simp add: model_ensure_task_def)
next
  case False
  then obtain fp k1 mp k2 where 1: "k_malloc (8 * ucast p) k = Ok (fp, k1)" "k_malloc (4 * ucast (bitmap_words p)) k1 = Ok (mp, k2)"
    and rest: "(if fp = 0 \<or> mp = 0 then
               bind_res (if fp \<noteq> 0 then k_free fp k2 else Ok k2) (\<lambda>k.
               bind_res (if mp \<noteq> 0 then k_free mp k else Ok k) (\<lambda>k. Ok (False, k)))
             else
               bind_res (if t_frames_ptr (task_at i k) \<noteq> 0 then k_free (t_frames_ptr (task_at i k)) k2 else Ok k2) (\<lambda>k3.
               bind_res (if t_map_ptr (task_at i k) \<noteq> 0 then k_free (t_map_ptr (task_at i k)) k3 else Ok k3) (\<lambda>k.
                 Ok (True, upd_task i (\<lambda>t. t\<lparr>t_frames_ptr := fp, t_frames := (\<lambda>_. 0), t_map_ptr := mp,
                                          t_map := (\<lambda>_. 0), t_frames_n := ucast p\<rparr>) k)))) = Ok (b, k')"
    using assms unfolding model_ensure_task_def Let_def by (auto simp: bind_res_Ok_iff)
  have 2: "only_mem k k2" using only_mem_trans only_mem_malloc 1 by blast
  have upd: "same_sched k (upd_task i (\<lambda>t. t\<lparr>t_frames_ptr := fp, t_frames := (\<lambda>_. 0), t_map_ptr := mp, t_map := (\<lambda>_. 0),
      t_frames_n := ucast p\<rparr>) k4)" if "only_mem k2 k3" "only_mem k3 k4" for k3 k4
    by (rule same_upd [OF only_mem_same [OF only_mem_trans [OF only_mem_trans [OF 2 that(1)] that(2)]]]) (simp_all add: same_defs)
  show ?thesis
  proof (cases "fp = 0 \<or> mp = 0")
    case True
    then obtain k3 where "only_mem k2 k3" "only_mem k3 k'" using rest by (simp del: split_paired_Ex) (auto dest!: bind_free)
    then show ?thesis using 2 only_mem_trans only_mem_same by blast
  next
    case False
    then show ?thesis using rest upd by (auto dest!: bind_free)
  qed
qed

lemma alloc_frame_mem: "k_alloc_frame k = (f, k') \<Longrightarrow> only_mem k k'"
  using only_mem_ops(5) [of k] by simp

lemma fault_in_same:
  assumes "model_fault_in_page i pg k = (b, k')"
  shows "same_sched k k'"
proof -
  obtain f k1 where a: "k_alloc_frame k = (f, k1)" by fastforce
  have 1: "same_sched k k1" using only_mem_same alloc_frame_mem a by blast
  show ?thesis
  proof (cases "f = 0")
    case False
    then show ?thesis using assms a 1
      by (auto simp: model_fault_in_page_def same_defs intro!: same_upd same_mem [OF _ only_mem_ops(2)] same_mem [OF _ only_mem_ops(3)])
  qed (use assms a 1 in \<open>auto simp: model_fault_in_page_def\<close>)
qed

lemma demand_fault_same:
  assumes "model_demand_fault i cr2 err k = Ok (b, k')"
  shows "same_sched k k'"
proof -
  have "same_sched k (upd_task i (\<lambda>t. t\<lparr>t_faults := t_faults t + 1\<rparr>) k2)" if "same_sched k k1" "same_sched k1 k2" for k1 k2
    by (rule same_upd [OF same_sched_trans [OF that]]) (simp_all add: same_defs)
  then show ?thesis using assms unfolding model_demand_fault_def Let_def
    by (auto simp: bind_res_Ok_iff split: if_split_asm prod.split_asm bool.split_asm dest!: ensure_same fault_in_same intro: same_sched_trans)
qed

lemma prefetch_same: "model_prefetch i k = Ok k' \<Longrightarrow> same_sched k k'"
  unfolding model_prefetch_def Let_def
  by (auto simp: bind_res_Ok_iff split: if_split_asm dest!: ensure_same intro: same_sched_trans fault_in_same [OF surjective_pairing])

lemma evict_same: "same_sched k (snd (model_evict_page i pg k))"
  by (auto simp: model_evict_page_def drop_page_def same_defs intro!: same_upd same_mem [OF _ only_mem_ops(4)] same_mem [OF _ only_mem_ops(2)])

lemma slot_alloc_same: "slot_alloc k = (s, k') \<Longrightarrow> same_sched k k'"
  by (auto simp: slot_alloc_def split: if_split_asm option.split_asm)

lemma swap_out_same: "same_sched k (snd (swap_out i va k))"
  by (auto simp: swap_out_def same_defs split: prod.split option.split dest!: slot_alloc_same
      intro!: same_upd same_mem [OF _ only_mem_ops(4)] same_mem [OF _ only_mem_ops(2)])

lemma swap_in_same: "same_sched k (snd (swap_in i va k))"
  by (auto simp: swap_in_def same_defs slot_free_def split: prod.split option.split dest!: alloc_frame_mem
      intro!: same_upd same_mem [OF _ only_mem_ops(3)] same_mem [OF _ only_mem_ops(2)] intro: only_mem_same)

lemma swap_prefetch_same: "same_sched k (swap_prefetch i k)"
  by (auto simp: swap_prefetch_def Let_def swap_in_same)

lemma putc_same: "same_sched k (noc_os_putc c k)"
  by (simp add: noc_os_putc_def same_sched_def)

lemma puts_loop_same: "puts_loop n a k = Ok k' \<Longrightarrow> same_sched k k'"
proof (induction n arbitrary: a k)
  case (Suc n)
  then show ?case using putc_same same_sched_trans by (fastforce simp: bind_res_Ok_iff split: if_split_asm)
qed simp

lemma grow_heap_same: "grow_heap c ps k = (b, k') \<Longrightarrow> same_sched k k'"
proof (induction ps arbitrary: k)
  case (Cons p ps)
  obtain f k1 where a: "k_alloc_frame k = (f, k1)" by fastforce
  have 1: "same_sched k k1" using only_mem_same alloc_frame_mem a by blast
  show ?case
  proof (cases "f = 0")
    case False
    let ?m = "write_page f (\<lambda>_. 0) k1"
    let ?k = "upd_task c (\<lambda>t. t\<lparr>t_heap_pages := t_heap_pages t + 1\<rparr>)
        (on_mmu (vmm_map (t_cr3 (task_at c ?m)) (USER_HEAP_BASE + of_nat p * 4096) f (VMM_USER OR VMM_WRITE)) ?m)"
    have "same_sched k ?k"
      by (rule same_upd [OF same_mem [OF same_mem [OF 1 only_mem_ops(3)] only_mem_ops(2)]]) (simp_all add: same_defs)
    moreover have "same_sched ?k k'" by (rule Cons.IH) (use Cons.prems a False in \<open>simp add: Let_def\<close>)
    ultimately show ?thesis by (rule same_sched_trans)
  qed (use Cons.prems a 1 in simp)
qed simp

lemma sys_alloc_same: "same_sched k (snd (sys_alloc c n k))"
  by (auto simp: sys_alloc_def Let_def sched_part_def resume_regs_def split: prod.split bool.split dest!: grow_heap_same intro!: same_upd)

lemma simple_calls_same:
  "same_sched k (snd (model_budget kb k))" "same_sched k (snd (model_commit p k))" "same_sched k (snd (model_evict pg k))"
  "same_sched k (snd (sys_swap_out va k))" "model_touch pg k = Ok (v, k') \<Longrightarrow> same_sched k k'"
proof -
  show "same_sched k (snd (model_budget kb k))" "same_sched k (snd (model_commit p k))"
    by (auto simp: model_budget_def model_commit_def Let_def sched_part_def resume_regs_def intro!: same_upd)
  show "same_sched k (snd (model_evict pg k))" using evict_same by (simp add: model_evict_def case_prod_beta)
  show "same_sched k (snd (sys_swap_out va k))" using swap_out_same by (simp add: sys_swap_out_def case_prod_beta)
  show "same_sched k k'" if "model_touch pg k = Ok (v, k')"
    using that demand_fault_same
    by (cases "model_demand_fault (k_cur k) (USER_MODEL_BASE + pg * 4096) 0 k") (auto simp: model_touch_def split: if_split_asm prod.split_asm)
qed

section \<open>Calls that switch\<close>

lemma switch_control:
  assumes "sched_switch_to_next k = (c, k')" "table_ok k"
  shows "c = ToRepl \<and> k_cur k' = 0 \<or> c = Iret (t_ctx (task_at (k_cur k') k')) \<and> k_cur k' \<noteq> 0"
proof -
  have l: "k_last k < TASK_MAX" "length (k_tasks k) = TASK_MAX" using assms(2) by (auto simp: table_ok_def)
  from l(1) show ?thesis
  proof (cases rule: switch_cases)
    case repl
    then show ?thesis using assms by (auto simp: sched_switch_to_next_def Let_def)
  next
    case (user n)
    obtain f k2 where e: "enter_task n (k\<lparr>k_last := n\<rparr>) = (f, k2)" by fastforce
    have n: "n < length (k_tasks (k\<lparr>k_last := n\<rparr>))" using l user by simp
    show ?thesis using enter_task_sel(1,9) [OF n e] assms(1) user(1,3) e by (auto simp: sched_switch_to_next_def)
  qed
qed

text \<open>Tasks that wait for a key, with the registers they will go on with.\<close>

definition awaits_key :: "nat \<Rightarrow> regs \<Rightarrow> kernel \<Rightarrow> bool" where
  "awaits_key j r k \<longleftrightarrow>
     t_state (task_at j k) = TASK_BLOCKED \<and> t_on_key (task_at j k) \<and> t_wake_ticks (task_at j k) = 0 \<and> t_ctx (task_at j k) = r"

definition ready_tasks :: "kernel \<Rightarrow> nat set" where
  "ready_tasks k = {j. j < TASK_MAX \<and> runnable_user k j}"

lemma enter_task_keys: "k_keys (snd (enter_task n k)) = k_keys k"
  by (simp add: enter_task_def Let_def)

lemma block_one:
  assumes ok: "sched_ok k" "k_cur k \<noteq> 0" and b: "sched_block_user r 0 True k = (c, k')"
  shows "k_keys k' = k_keys k" "awaits_key (k_cur k) r k'" "j \<noteq> k_cur k \<Longrightarrow> j < TASK_MAX \<Longrightarrow> awaits_key j s k \<Longrightarrow> awaits_key j s k'"
    "c = ToRepl \<and> ready_tasks k = {} \<and> k_cur k' = 0 \<or>
     (\<exists>f. c = Iret f \<and> k_cur k' \<in> ready_tasks k \<and> ready_tasks k' = ready_tasks k - {k_cur k'} \<and> k_cur k' \<noteq> 0)"
proof -
  define k1 where "k1 = upd_task (k_cur k) (\<lambda>t. t\<lparr>t_ctx := r, t_state := TASK_BLOCKED, t_wake_ticks := 0, t_on_key := True\<rparr>) k"
  have l: "k_last k1 < TASK_MAX" "length (k_tasks k1) = TASK_MAX" "k_cur k < TASK_MAX" using ok by (auto simp: k1_def sched_ok_defs)
  have sw: "sched_switch_to_next k1 = (c, k')" using b by (simp add: sched_block_user_def k1_def)
  have run: "t_state (task_at (k_cur k) k) = TASK_RUNNING" using ok by (simp add: sched_ok_defs)
  have r1: "ready_tasks k1 = ready_tasks k" using run by (auto simp: ready_tasks_def runnable_user_def k1_def task_at_upd)
  have a1: "awaits_key (k_cur k) r k1" "j \<noteq> k_cur k \<Longrightarrow> awaits_key j s k \<Longrightarrow> awaits_key j s k1"
    using l by (auto simp: awaits_key_def k1_def task_at_upd)
  have keys1: "k_keys k1 = k_keys k" by (simp add: k1_def)
  from l(1) have "k_keys k' = k_keys k \<and> (\<forall>j s. awaits_key j s k1 \<longrightarrow> j \<noteq> 0 \<longrightarrow> awaits_key j s k') \<and>
     (c = ToRepl \<and> ready_tasks k = {} \<and> k_cur k' = 0 \<or>
     (\<exists>f. c = Iret f \<and> k_cur k' \<in> ready_tasks k \<and> ready_tasks k' = ready_tasks k - {k_cur k'} \<and> k_cur k' \<noteq> 0))"
  proof (cases rule: switch_cases)
    case repl
    then show ?thesis using sw keys1 r1 by (auto simp: sched_switch_to_next_def Let_def awaits_key_def task_at_upd ready_tasks_def)
  next
    case (user n)
    obtain f k2 where e: "enter_task n (k1\<lparr>k_last := n\<rparr>) = (f, k2)" by fastforce
    have k2: "k' = k2" "c = Iret f" using sw user(1) e by (auto simp: sched_switch_to_next_def)
    have n: "n < length (k_tasks (k1\<lparr>k_last := n\<rparr>))" using l user by simp
    note s = enter_task_sel [OF n e]
    have st: "t_state (task_at n k2) = TASK_RUNNING" using s(8) by (simp add: sched_part_def)
    have "runnable_user k2 j \<longleftrightarrow> runnable_user k1 j \<and> j \<noteq> n" for j
      using s(7) [of j] st by (cases "j = n") (auto simp: runnable_user_def)
    then have "ready_tasks k2 = ready_tasks k1 - {n}" by (auto simp: ready_tasks_def)
    moreover have "n \<in> ready_tasks k1" using user by (simp add: ready_tasks_def)
    moreover have "awaits_key j s k2" if "awaits_key j s k1" for j s
      using that s(7) [of j] user(2) by (cases "j = n") (auto simp: awaits_key_def runnable_user_def)
    moreover have "k_keys k2 = k_keys k1" using enter_task_keys [of n "k1\<lparr>k_last := n\<rparr>"] e by simp
    ultimately show ?thesis using s(1) k2 r1 keys1 user(3) by auto
  qed
  moreover have "awaits_key 0 s k \<Longrightarrow> False" using ok by (simp add: awaits_key_def sched_ok_defs)
  ultimately show "k_keys k' = k_keys k" "awaits_key (k_cur k) r k'" "j \<noteq> k_cur k \<Longrightarrow> j < TASK_MAX \<Longrightarrow> awaits_key j s k \<Longrightarrow> awaits_key j s k'"
    "c = ToRepl \<and> ready_tasks k = {} \<and> k_cur k' = 0 \<or>
     (\<exists>f. c = Iret f \<and> k_cur k' \<in> ready_tasks k \<and> ready_tasks k' = ready_tasks k - {k_cur k'} \<and> k_cur k' \<noteq> 0)"
    using a1 ok(2) by (metis)+
qed

definition keys_empty :: "kernel \<Rightarrow> bool" where
  "keys_empty k \<longleftrightarrow> k_head (k_keys k) = k_tail (k_keys k)"

lemma kbd_wait_empty:
  "keys_empty k \<Longrightarrow> kbd_wait (Suc n) r k =
     (case sched_block_user r 0 True k of (ToRepl, k) \<Rightarrow> Ok (ToRepl, k) | (Iret r, k) \<Rightarrow> kbd_wait n r k)"
  by (simp add: kbd_wait.simps kbd_getc_def keys_empty_def)

lemma kbd_wait_key:
  "\<not> keys_empty k \<Longrightarrow> kbd_wait (Suc n) r k =
     Ok (Iret (r(RAX := of_int (uint (k_buf (k_keys k) ! k_tail (k_keys k))))), k\<lparr>k_keys := snd (kbd_getc (k_keys k))\<rparr>)"
  by (simp add: kbd_wait.simps kbd_getc_def keys_empty_def)

definition ends :: "kernel \<Rightarrow> (bool \<times> kernel) list \<Rightarrow> kernel" where
  "ends k es = (if es = [] then k else snd (last es))"

lemma run_Cons: "sched_step k b k1 \<Longrightarrow> is_run k1 es \<Longrightarrow> is_run k ((b, k1) # es) \<and> ends k ((b, k1) # es) = ends k1 es"
  by (auto simp: ends_def)

lemma kbd_wait_all:
  assumes "sched_ok k" "k_cur k \<noteq> 0" "keys_empty k" "card (ready_tasks k) < n"
  shows "\<exists>k' es. kbd_wait n r k = Ok (ToRepl, k') \<and> is_run k es \<and> ends k es = k' \<and> k_cur k' = 0 \<and>
    awaits_key (k_cur k) r k' \<and> (\<forall>j \<in> ready_tasks k. \<exists>s. awaits_key j s k') \<and>
    (\<forall>j s. j < TASK_MAX \<longrightarrow> j \<noteq> k_cur k \<longrightarrow> awaits_key j s k \<longrightarrow> awaits_key j s k')"
  using assms
proof (induction n arbitrary: k r)
  case (Suc n)
  obtain c k1 where b: "sched_block_user r 0 True k = (c, k1)" by fastforce
  note o = block_one [OF Suc.prems(1,2) b]
  have step: "sched_step k True k1" by (rule sched_step.block [OF Suc.prems(2) b])
  have ok1: "sched_ok k1" using block_chooses [OF Suc.prems(1,2) b] chooses_ok by blast
  have cur: "k_cur k < TASK_MAX" using Suc.prems(1) by (simp add: sched_ok_defs)
  from o(4) show ?case
  proof (elim disjE conjE exE)
    assume "c = ToRepl" "ready_tasks k = {}" "k_cur k1 = 0"
    then show ?thesis using b step o(2,3) Suc.prems(3) by (intro exI [of _ k1] exI [of _ "[(True, k1)]"]) (auto simp: kbd_wait_empty ends_def)
  next
    fix f
    assume c: "c = Iret f" and n: "k_cur k1 \<in> ready_tasks k" "ready_tasks k1 = ready_tasks k - {k_cur k1}" "k_cur k1 \<noteq> 0"
    have fin: "finite (ready_tasks k)" by (simp add: ready_tasks_def)
    have e1: "keys_empty k1" using o(1) Suc.prems(3) by (simp add: keys_empty_def)
    have "Suc (card (ready_tasks k1)) = card (ready_tasks k)" unfolding n(2) by (rule card_Suc_Diff1 [OF fin n(1)])
    then have "card (ready_tasks k1) < n" using Suc.prems(4) by simp
    from Suc.IH [OF ok1 n(3) e1 this] obtain k2 es where
      2: "kbd_wait n f k1 = Ok (ToRepl, k2)" "is_run k1 es" "ends k1 es = k2" "k_cur k2 = 0" "awaits_key (k_cur k1) f k2"
        "\<forall>j \<in> ready_tasks k1. \<exists>s. awaits_key j s k2" "\<forall>j s. j < TASK_MAX \<longrightarrow> j \<noteq> k_cur k1 \<longrightarrow> awaits_key j s k1 \<longrightarrow> awaits_key j s k2"
      by blast
    have w: "kbd_wait (Suc n) r k = Ok (ToRepl, k2)" using b c 2(1) Suc.prems(3) by (simp add: kbd_wait_empty)
    have nr: "\<not> awaits_key (k_cur k1) s k" for s using n(1) by (simp add: ready_tasks_def runnable_user_def awaits_key_def)
    have ne: "k_cur k1 \<noteq> k_cur k"
      using n(1) Suc.prems(1,2) by (auto simp: ready_tasks_def runnable_user_def sched_ok_defs)
    have "\<exists>s. awaits_key j s k2" if "j \<in> ready_tasks k" for j using that 2(5,6) n(2) by (cases "j = k_cur k1") auto
    moreover have "awaits_key j s k2" if "j < TASK_MAX" "j \<noteq> k_cur k" "awaits_key j s k" for j s
      using that nr o(3) [of j s] 2(7) by metis
    moreover have "awaits_key (k_cur k) r k2" using o(2) 2(7) ne cur by metis
    ultimately show ?thesis using w run_Cons [OF step 2(2)] 2(3,4)
      by (intro exI [of _ k2] exI [of _ "(True, k1) # es"]) auto
  qed
qed simp

lemma ready_tasks_card: "card (ready_tasks k) < Suc TASK_MAX"
proof -
  have "card (ready_tasks k) \<le> card {..<TASK_MAX}" by (rule card_mono) (auto simp: ready_tasks_def)
  then show ?thesis by simp
qed

section \<open>The dispatcher and the scheduler\<close>

text \<open>
  How a handler is left: to the shell; to the interrupted task, with no register changed but the result of a system call; or to
  another task, with the registers saved for it.
\<close>

definition leaves :: "bool \<Rightarrow> kernel \<Rightarrow> regs \<Rightarrow> control \<Rightarrow> kernel \<Rightarrow> bool" where
  "leaves syscall k r c k' \<longleftrightarrow>
     (case c of
        ToRepl \<Rightarrow> k_cur k' = 0
      | Iret f \<Rightarrow> k_cur k' = k_cur k \<and> (\<forall>x. x = RAX \<and> syscall \<or> f x = r x) \<or>
          k_cur k' \<noteq> 0 \<and> f = t_ctx (task_at (k_cur k') k'))"

definition served :: "bool \<Rightarrow> kernel \<Rightarrow> regs \<Rightarrow> control \<Rightarrow> kernel \<Rightarrow> bool" where
  "served syscall k r c k' \<longleftrightarrow> (\<exists>es. is_run k es \<and> ends k es = k') \<and> sched_ok k' \<and> leaves syscall k r c k'"

lemma served_quiet:
  assumes "sched_ok k" "same_sched k k'" "\<And>x. x = RAX \<and> syscall \<or> f x = r x"
  shows "served syscall k r (Iret f) k'"
proof -
  have "is_run k [(False, k')]" using assms(2) sched_step.other by simp
  moreover have "ends k [(False, k')] = k'" by (simp add: ends_def)
  moreover have "k_cur k' = k_cur k" using assms(2) by (simp add: same_sched_def)
  ultimately show ?thesis using same_sched_ok(3) [OF assms(2,1)] assms(3) unfolding served_def leaves_def
    by (intro conjI exI [of _ "[(False, k')]"]) auto
qed

lemma served_switch:
  assumes "sched_ok k" "same_sched k k1" "sched_step k1 True k'" "table_ok k2" "sched_switch_to_next k2 = (c, k')"
  shows "served syscall k r c k'"
proof -
  have "is_run k [(False, k1), (True, k')]" using assms(2,3) sched_step.other by simp
  moreover have "ends k [(False, k1), (True, k')] = k'" by (simp add: ends_def)
  moreover have "sched_ok k'" using same_sched_ok(3) [OF assms(2,1)] sched_step_cases assms(3) by blast
  moreover have "leaves syscall k r c k'" using switch_control [OF assms(5,4)] by (auto simp: leaves_def)
  ultimately show ?thesis unfolding served_def by blast
qed

lemma served_exit:
  assumes "sched_ok k" "k_cur k \<noteq> 0" "same_sched k k1" "sched_exit_user code k1 = Ok (c, k')"
  shows "served syscall k r c k'"
proof -
  have ok: "sched_ok k1" "k_cur k1 \<noteq> 0" using same_sched_ok(3) [OF assms(3,1)] assms(2,3) by (auto simp: same_sched_def)
  obtain k2 where "table_ok k2" "sched_switch_to_next k2 = (c, k')"
    by (rule exit_switches [OF ok assms(4)]; rule that; assumption)
  then show ?thesis using served_switch [OF assms(1,3) sched_step.exit [OF ok(2) assms(4)]] by blast
qed

lemma served_preempt:
  assumes "sched_ok k" "k_cur k \<noteq> 0" "sched_preempt f k = (c, k')"
  shows "served syscall k r c k'"
  using served_switch [OF assms(1) same_sched_refl sched_step.preempt [OF assms(2,3)]
      stop_current(1) [OF assms(1,2), of "\<lambda>t. t\<lparr>t_ctx := f, t_state := TASK_RUNNABLE\<rparr>"]] assms(3)
  by (simp add: sched_preempt_def)

lemma served_block:
  assumes "sched_ok k" "k_cur k \<noteq> 0" "sched_block_user f w b k = (c, k')"
  shows "served syscall k r c k'"
  using served_switch [OF assms(1) same_sched_refl sched_step.block [OF assms(2,3)]
      stop_current(1) [OF assms(1,2), of "\<lambda>t. t\<lparr>t_ctx := f, t_state := TASK_BLOCKED, t_wake_ticks := w, t_on_key := b\<rparr>"]] assms(3)
  by (simp add: sched_block_user_def)

lemma served_ret:
  assumes "sched_ok k" "same_sched k k1" "ret_rax r (v, k1) = (c, k')"
  shows "served True k r c k'"
  using assms by (auto simp: ret_rax_def intro!: served_quiet split: if_split_asm)

lemma served_kbd_wait:
  assumes "sched_ok k" "k_cur k \<noteq> 0" "kbd_wait (Suc TASK_MAX) r k = Ok (c, k')"
  shows "served True k r c k'"
proof (cases "keys_empty k")
  case True
  obtain es where "c = ToRepl" "is_run k es" "ends k es = k'" "k_cur k' = 0"
    using kbd_wait_all [OF assms(1,2) True ready_tasks_card, of r] assms(3) by auto
  moreover from this have "sched_ok k'" using run_ok [OF assms(1), of es "fst (last es)"] assms(1)
    by (auto simp: ends_def split: if_split_asm)
  ultimately show ?thesis by (auto simp: served_def leaves_def)
next
  case False
  have "same_sched k (k\<lparr>k_keys := snd (kbd_getc (k_keys k))\<rparr>)" by simp
  then show ?thesis using assms(1,3) kbd_wait_key [OF False, of TASK_MAX r] by (auto intro!: served_quiet split: if_split_asm)
qed

text \<open>All calls but exit, sleep, key wait and yield return to the caller.\<close>

definition returns :: "regs \<Rightarrow> kernel \<Rightarrow> control \<times> kernel \<Rightarrow> bool" where
  "returns r k p \<longleftrightarrow> (\<exists>v k1. p = ret_rax r (v, k1) \<and> same_sched k k1)"

lemma returnsI: "same_sched k (snd q) \<Longrightarrow> returns r k (ret_rax r q)"
  unfolding returns_def by (intro exI [of _ "fst q"] exI [of _ "snd q"]) simp

lemma returning_calls:
  assumes "syscall_dispatch r k = Ok p" "r RAX \<notin> {0, 3, 6, 9}"
  shows "returns r k p"
proof -
  have puts: "returns r k p" if "map_res (\<lambda>k. ret_rax r (0, k)) (sys_puts (r RDI) k) = Ok p"
    using that puts_loop_same by (cases "sys_puts (r RDI) k") (auto simp: sys_puts_def intro!: returnsI split: if_split_asm)
  have touch: "returns r k p" if "map_res (ret_rax r) (model_touch (r RDI) k) = Ok p"
    using that simple_calls_same(5) [of "r RDI" k] by (cases "model_touch (r RDI) k") (auto intro!: returnsI)
  show ?thesis
    using assms unfolding syscall_dispatch_def Let_def
    by (auto simp: putc_same sys_alloc_same simple_calls_same(1-4) intro!: returnsI intro: puts touch split: if_split_asm prod.split_asm)
qed

lemma syscall_served:
  assumes "sched_ok k" "k_cur k \<noteq> 0" "syscall_dispatch r k = Ok (c, k')"
  shows "served True k r c k'"
proof -
  consider "r RAX = 0" | "r RAX = 3" | "r RAX = 6" | "r RAX = 9" | "r RAX \<notin> {0, 3, 6, 9}" by blast
  then show ?thesis
  proof cases
    case 1
    then show ?thesis using assms served_exit [OF assms(1,2) same_sched_refl] by (simp add: syscall_dispatch_def)
  next
    case 2
    then show ?thesis using assms served_block [OF assms(1,2)] by (simp add: syscall_dispatch_def)
  next
    case 3
    then show ?thesis using assms served_kbd_wait by (simp add: syscall_dispatch_def)
  next
    case 4
    then show ?thesis using assms served_preempt [OF assms(1,2)] by (simp add: syscall_dispatch_def)
  next
    case 5
    then obtain v k1 where "ret_rax r (v, k1) = (c, k')" "same_sched k k1"
      using returning_calls [OF assms(3)] by (auto simp: returns_def)
    then show ?thesis using served_ret [OF assms(1)] by blast
  qed
qed

lemma model_or_kill_served:
  assumes "sched_ok k" "k_cur k \<noteq> 0" "same_sched k k0" "model_or_kill err cr2 r k0 = Ok (c, k')"
  shows "served False k r c k'"
proof -
  obtain ok k1 where d: "model_demand_fault (k_cur k0) cr2 err k0 = Ok (ok, k1)"
    using assms(4) by (auto simp: model_or_kill_def bind_res_Ok_iff)
  have s: "same_sched k (feed_pred cr2 k1)"
    using same_sched_trans [OF assms(3) demand_fault_same [OF d]] by (simp add: feed_pred_def)
  show ?thesis
  proof (cases ok)
    case True
    then obtain k2 where "model_prefetch (k_cur k1) (feed_pred cr2 k1) = Ok k2" "c = Iret r" "k' = k2"
      using assms(4) d by (cases "model_prefetch (k_cur k1) (feed_pred cr2 k1)") (auto simp: model_or_kill_def)
    then show ?thesis using served_quiet [OF assms(1)] same_sched_trans [OF s prefetch_same] by auto
  next
    case False
    then show ?thesis using served_exit [OF assms(1,2) s] assms(4) d by (simp add: model_or_kill_def)
  qed
qed

lemma page_fault_served:
  assumes "sched_ok k" "k_cur k \<noteq> 0" "page_fault err cr2 r k = Ok (c, k')"
  shows "served False k r c k'"
proof (cases "swap_has (task_at (k_cur k) k) cr2")
  case True
  obtain x k1 where i: "swap_in (k_cur k) cr2 k = (x, k1)" by fastforce
  have s: "same_sched k k1" using swap_in_same [of k "k_cur k" cr2] i by simp
  show ?thesis
  proof (cases "x = 0")
    case x: True
    have "same_sched k (feed_pred cr2 k1)" using s by (simp add: feed_pred_def)
    then have "same_sched k (swap_prefetch (k_cur k1) (feed_pred cr2 k1))" using same_sched_trans swap_prefetch_same by blast
    then show ?thesis using served_quiet [OF assms(1)] assms(3) True i x by (auto simp: page_fault_def)
  next
    case False
    then show ?thesis using model_or_kill_served [OF assms(1,2) s] assms(3) True i by (simp add: page_fault_def)
  qed
next
  case False
  then show ?thesis using model_or_kill_served [OF assms(1,2) same_sched_refl] assms(3) by (simp add: page_fault_def)
qed

lemma served_timer:
  assumes "sched_ok k" "pit_handler r k = (oc, k')"
  shows "served False k r (case oc of None \<Rightarrow> Iret r | Some c \<Rightarrow> c) k'"
proof (cases "k_cur k = 0")
  case True
  have w: "sched_ok (woken k)" "k_cur (woken k) = k_cur k" using woken_ok assms(1) by blast+
  then have "oc = None" "k' = woken k" using assms(2) True by (auto simp: pit_handler_woken sched_ok_defs)
  moreover have "is_run k [(False, woken k)]" using sched_step.tick [OF assms(2)] True calculation by simp
  moreover have "ends k [(False, woken k)] = woken k" by (simp add: ends_def)
  ultimately show ?thesis using w unfolding served_def leaves_def by (intro conjI exI [of _ "[(False, woken k)]"]) auto
next
  case False
  have w: "sched_ok (woken k)" "k_cur (woken k) \<noteq> 0" using woken_ok [OF assms(1)] False by auto
  then have u: "t_user (task_at (k_cur k) (woken k))" using woken_ok(3) [OF assms(1)] by (simp add: sched_ok_defs)
  let ?k = "upd_task (k_cur (woken k)) (\<lambda>t. t\<lparr>t_ctx := r, t_state := TASK_RUNNABLE\<rparr>) (woken k)"
  obtain c where c: "sched_preempt r (woken k) = (c, k')" "oc = Some c" using assms(2) u by (auto simp: pit_handler_woken split: prod.split_asm)
  have "sched_step k True k'" using sched_step.tick [OF assms(2)] False by simp
  moreover have "table_ok ?k" using stop_current(1) [OF w, of "\<lambda>t. t\<lparr>t_ctx := r, t_state := TASK_RUNNABLE\<rparr>"] by simp
  moreover have "sched_switch_to_next ?k = (c, k')" using c(1) by (simp add: sched_preempt_def)
  ultimately show ?thesis using served_switch [OF assms(1) same_sched_refl] c(2) by simp
qed

lemma served_key:
  assumes "sched_ok k"
  shows "served False k r (Iret r) (kbd_interrupt sc k)"
proof (cases "wakes_key sc (k_keys k)")
  case True
  let ?k = "k\<lparr>k_keys := kbd_handler sc (k_keys k)\<rparr>"
  have s: "same_sched k ?k" by simp
  have i: "kbd_interrupt sc k = sched_on_key ?k" using True by (simp add: kbd_interrupt_def Let_def)
  have "is_run k [(False, ?k), (False, sched_on_key ?k)]" using sched_step.other [OF s] sched_step.key by simp
  moreover have "ends k [(False, ?k), (False, sched_on_key ?k)] = kbd_interrupt sc k" by (simp add: ends_def i)
  moreover have "sched_ok (kbd_interrupt sc k)" using key_ok(1) [OF same_sched_ok(3) [OF s assms]] i by simp
  moreover have "k_cur (kbd_interrupt sc k) = k_cur k" by (simp add: i sched_on_key_def)
  ultimately show ?thesis unfolding served_def leaves_def
    by (intro conjI exI [of _ "[(False, ?k), (False, sched_on_key ?k)]"]) auto
next
  case False
  then show ?thesis using served_quiet [OF assms, of "kbd_interrupt sc k"] by (simp add: kbd_interrupt_def Let_def)
qed

section \<open>The user heap\<close>

text \<open>The bump pointer stays within the mapped pages, and these within the 2 MiB of the heap region.\<close>

definition user_heap_ok :: "task \<Rightarrow> bool" where
  "user_heap_ok t \<longleftrightarrow> unat (t_heap_used t) \<le> 4096 * unat (t_heap_pages t) \<and> unat (t_heap_pages t) \<le> 512"

lemma only_mem_at: "only_mem k k' \<Longrightarrow> task_at i k' = task_at i k \<and> length (k_tasks k') = length (k_tasks k)"
  by (auto simp: only_mem_def task_at_def)

lemma grow_heap_task:
  assumes "grow_heap c ps k = (b, k')" "c < length (k_tasks k)"
  shows "\<exists>m \<le> length ps. task_at c k' = (task_at c k)\<lparr>t_heap_pages := t_heap_pages (task_at c k) + of_nat m\<rparr> \<and>
    (b \<longrightarrow> m = length ps) \<and> length (k_tasks k') = length (k_tasks k)"
  using assms
proof (induction ps arbitrary: k)
  case (Cons p ps)
  obtain f k1 where a: "k_alloc_frame k = (f, k1)" by fastforce
  note 1 = only_mem_at [OF alloc_frame_mem [OF a], of c]
  show ?case
  proof (cases "f = 0")
    case True
    then show ?thesis using Cons.prems a 1 by (intro exI [of _ 0]) auto
  next
    case False
    let ?m = "write_page f (\<lambda>_. 0) k1"
    let ?k2 = "on_mmu (vmm_map (t_cr3 (task_at c ?m)) (USER_HEAP_BASE + of_nat p * 4096) f (VMM_USER OR VMM_WRITE)) ?m"
    let ?k = "upd_task c (\<lambda>t. t\<lparr>t_heap_pages := t_heap_pages t + 1\<rparr>) ?k2"
    have 2: "task_at c ?k2 = task_at c k" "length (k_tasks ?k2) = length (k_tasks k)"
      using 1 only_mem_at [of k1 ?m c] only_mem_at [of ?m ?k2 c] by auto
    have g: "grow_heap c ps ?k = (b, k')" using Cons.prems a False by (simp add: Let_def)
    obtain m where "m \<le> length ps" "task_at c k' = (task_at c ?k)\<lparr>t_heap_pages := t_heap_pages (task_at c ?k) + of_nat m\<rparr>"
      "b \<longrightarrow> m = length ps" "length (k_tasks k') = length (k_tasks ?k)"
      using Cons.IH [OF g] Cons.prems(2) 2(2) by auto
    then show ?thesis using 2 Cons.prems(2) by (intro exI [of _ "Suc m"]) (simp add: task_at_upd ac_simps)
  qed
qed (intro exI [of _ 0], simp)

lemma pages_cover: "x \<le> 4096 * ((x + 4095) div 4096)" for x :: nat
proof -
  have "(x + 4095) div 4096 * 4096 + (x + 4095) mod 4096 = x + 4095" by (rule div_mult_mod_eq)
  moreover have "(x + 4095) mod 4096 < 4096" by (rule mod_less_divisor) simp
  ultimately show ?thesis by linarith
qed

lemma sys_alloc_spec:
  assumes "i < length (k_tasks k)" "user_heap_ok (task_at i k)" "unat n \<le> 2 ^ 63" "sys_alloc i n k = (p, k')"
  shows "user_heap_ok (task_at i k')"
    "t_heap_used (task_at i k') = t_heap_used (task_at i k) \<and> p = 0 \<or>
     p = USER_HEAP_BASE + t_heap_used (task_at i k) \<and>
     unat (t_heap_used (task_at i k')) = unat (t_heap_used (task_at i k)) + unat (align16 n)"
proof -
  define u where "u = t_heap_used (task_at i k)"
  define g where "g = t_heap_pages (task_at i k)"
  have u: "unat u \<le> 4096 * unat g" "unat g \<le> 512" using assms(2) by (auto simp: user_heap_ok_def u_def g_def)
  have "unat (align16 n) < unat n + 16" by (rule align16_ge) (use assms(3) in simp)
  then have um: "unat (u + align16 n) = unat u + unat (align16 n)" using u assms(3) by (simp add: unat_word_ariths)
  have res: "user_heap_ok (task_at i k') \<and> (t_heap_used (task_at i k') = u \<and> p = 0 \<or>
     p = USER_HEAP_BASE + u \<and> unat (t_heap_used (task_at i k')) = unat u + unat (align16 n))"
  proof (cases "u + align16 n > 0x200000")
    case True
    then show ?thesis using assms(2,4) by (simp add: sys_alloc_def u_def Let_def)
  next
    case False
    then have le: "unat u + unat (align16 n) \<le> 0x200000" using um by (simp add: word_less_nat_alt)
    define w where "w = unat ((u + align16 n + 4095) div 4096)"
    have "unat (u + align16 n + 4095) = unat u + unat (align16 n) + 4095" using um le by (simp add: unat_word_ariths)
    then have w: "w = (unat u + unat (align16 n) + 4095) div 4096" unfolding w_def by (simp add: unat_div)
    have "w \<le> (0x200000 + 4095) div 4096" unfolding w by (rule div_le_mono) (use le in simp)
    then have w512: "w \<le> 512" by simp
    obtain b k1 where gr: "grow_heap i [unat g..<w] k = (b, k1)" by fastforce
    obtain m where m: "m \<le> w - unat g" "task_at i k1 = (task_at i k)\<lparr>t_heap_pages := g + of_nat m\<rparr>" "b \<longrightarrow> m = w - unat g"
      "length (k_tasks k1) = length (k_tasks k)"
      using grow_heap_task [OF gr assms(1)] by (auto simp: g_def)
    have gm: "unat (g + of_nat m) = unat g + m" using m(1) w512 u(2) by (simp add: unat_word_ariths unat_of_nat)
    have r: "(p, k') = (if b then (USER_HEAP_BASE + u, upd_task i (\<lambda>t. t\<lparr>t_heap_used := t_heap_used t + align16 n\<rparr>) k1) else (0, k1))"
      using assms(4) False gr by (simp add: sys_alloc_def u_def g_def w_def Let_def split: bool.split_asm)
    show ?thesis
    proof (cases b)
      case True
      from pages_cover [of "unat u + unat (align16 n)"] have "unat u + unat (align16 n) \<le> 4096 * w" using w by simp
      also have "4096 * w \<le> 4096 * (unat g + (w - unat g))" by (rule mult_left_mono) auto
      finally have "unat u + unat (align16 n) \<le> 4096 * (unat g + (w - unat g))" .
      then show ?thesis using r True m gm w512 u assms(1) um by (auto simp: task_at_upd user_heap_ok_def u_def [symmetric])
    next
      case False
      then show ?thesis using r m gm w512 u by (auto simp: user_heap_ok_def u_def [symmetric])
    qed
  qed
  show "user_heap_ok (task_at i k')" using res by simp
  show "t_heap_used (task_at i k') = t_heap_used (task_at i k) \<and> p = 0 \<or>
     p = USER_HEAP_BASE + t_heap_used (task_at i k) \<and>
     unat (t_heap_used (task_at i k')) = unat (t_heap_used (task_at i k)) + unat (align16 n)"
    using res by (simp add: u_def)
qed

lemma sys_alloc_wrapped:
  assumes "i < length (k_tasks k)" "user_heap_ok (task_at i k)" "16 \<le> unat (t_heap_used (task_at i k))"
  shows "\<exists>k'. sys_alloc i (-16) k = (USER_HEAP_BASE + t_heap_used (task_at i k), k') \<and>
    unat (t_heap_used (task_at i k')) = unat (t_heap_used (task_at i k)) - 16"
proof -
  define u where "u = t_heap_used (task_at i k)"
  have a: "align16 (-16) = (-16 :: u64)" by (simp add: align16_def)
  have u: "16 \<le> unat u" "unat u \<le> 0x200000" using assms(2,3) by (auto simp: u_def user_heap_ok_def)
  have um: "unat (u - 16) = unat u - 16" by (rule unat_sub [of 16 u, simplified]) (use u in \<open>simp add: word_le_nat_alt\<close>)
  have le: "\<not> u - 16 > 0x200000" using um u by (simp add: word_less_nat_alt)
  have "unat (u - 16 + 4095) = unat u - 16 + 4095" using um u by (simp add: unat_word_ariths)
  then have "unat ((u - 16 + 4095) div 4096) = (unat u - 16 + 4095) div 4096" by (simp add: unat_div)
  also have "\<dots> \<le> unat (t_heap_pages (task_at i k))"
    by (rule less_mult_imp_div_less [THEN less_Suc_eq_le [THEN iffD1]]) (use assms(2) u in \<open>simp add: user_heap_ok_def u_def\<close>)
  finally have none: "[unat (t_heap_pages (task_at i k))..<unat ((u - 16 + 4095) div 4096)] = []" by (rule upt_conv_Nil)
  have minus: "w + - 16 = w - 16" for w :: u64 by simp
  have "sys_alloc i (-16) k = (USER_HEAP_BASE + u, upd_task i (\<lambda>t. t\<lparr>t_heap_used := t_heap_used t - 16\<rparr>) k)"
    unfolding sys_alloc_def a Let_def u_def [symmetric] unfolding minus none using le by simp
  then show ?thesis using assms(1) um by (simp add: task_at_upd u_def)
qed

section \<open>Properties\<close>


text \<open>C25 (error)
  Waiting for a key when none is there does not block the caller alone: the loop goes on with the frame of the next task and blocks
  that one too, until no task is ready and the shell is resumed. Every ready ring-3 task then waits for a key it never asked
  for. The caller will go on with the registers of the call, \<open>rax\<close> still holding the call number: it never gets the key.
\<close>
theorem sys_kbd_wait_blocks_everyone:
  assumes "sched_ok k" "k_cur k \<noteq> 0" "r RAX = 6" "k_head (k_keys k) = k_tail (k_keys k)"
  shows "\<exists>k'. syscall_dispatch r k = Ok (ToRepl, k') \<and> awaits_key (k_cur k) r k' \<and>
    (\<forall>j < TASK_MAX. runnable_user k j \<longrightarrow> (\<exists>s. awaits_key j s k'))"
proof -
  have e: "keys_empty k" using assms(4) by (simp add: keys_empty_def)
  show ?thesis using kbd_wait_all [OF assms(1,2) e ready_tasks_card, of r] assms(3)
    by (auto simp: syscall_dispatch_def ready_tasks_def)
qed

text \<open>C24 (bounds)
  The user heap is a bump allocator: a request that succeeds returns the old end of the heap and moves the end up by the size rounded to
  16, a request that fails leaves the end where it is, and the end stays within the pages mapped for the heap and these within the 2 MiB
  of its region - so blocks never overlap. This holds for sizes up to 2^63 only: a request of 2^64 - 16 bytes passes the check by wrapping
  around, succeeds and moves the end 16 bytes down, into the block before.
\<close>
theorem sys_alloc_bumps:
  assumes "i < length (k_tasks k)" "user_heap_ok (task_at i k)" "sys_alloc i n k = (p, k')"
  shows "(unat n \<le> 2 ^ 63 \<longrightarrow>
      user_heap_ok (task_at i k') \<and>
      (t_heap_used (task_at i k') = t_heap_used (task_at i k) \<and> p = 0 \<or>
       p = USER_HEAP_BASE + t_heap_used (task_at i k) \<and>
       unat (t_heap_used (task_at i k')) = unat (t_heap_used (task_at i k)) + unat (align16 n))) \<and>
    (n = -16 \<and> 16 \<le> unat (t_heap_used (task_at i k)) \<longrightarrow>
      p = USER_HEAP_BASE + t_heap_used (task_at i k) \<and> unat (t_heap_used (task_at i k')) = unat (t_heap_used (task_at i k)) - 16)"
  using sys_alloc_spec [OF assms(1,2) _ assms(3)] sys_alloc_wrapped [OF assms(1,2)] assms(3) by auto

section \<open>Examples\<close>

text \<open>The first of two ring-3 tasks is running and the second is ready.\<close>

definition busy :: kernel where
  "busy = (demo_kernel small_mmu [(demo_task 1 4096)\<lparr>t_state := TASK_RUNNING\<rparr>, demo_task 2 8192])\<lparr>k_cur := 1, k_cr3 := 4096\<rparr>"

lemma busy_at:
  "task_at 0 busy = zero_task" "task_at 1 busy = (demo_task 1 4096)\<lparr>t_state := TASK_RUNNING\<rparr>" "task_at 2 busy = demo_task 2 8192"
  "2 < i \<Longrightarrow> i < TASK_MAX \<Longrightarrow> task_at i busy = zero_task"
  by (auto simp: busy_def demo_kernel_def task_at_def TASK_MAX_def nth_Cons split: nat.split)

lemma busy_ok: "sched_ok busy"
proof -
  have at: "(t_state (task_at i busy) = TASK_RUNNING \<longleftrightarrow> i = 1) \<and> (t_user (task_at i busy) \<longrightarrow> t_pid (task_at i busy) \<noteq> 0)"
    if "i < TASK_MAX" for i
  proof -
    consider "i = 0" | "i = 1" | "i = 2" | "2 < i" by linarith
    then show ?thesis using busy_at that by cases (auto simp: zero_task_def demo_task_def)
  qed
  have f: "length (k_tasks busy) = TASK_MAX" "k_cur busy = 1" "k_last busy = 0" "k_cr3 busy = 4096" "k_rsp0 busy = 0"
    by (simp_all add: busy_def demo_kernel_def TASK_MAX_def)
  show ?thesis using f at busy_at(1,2) by (auto simp: sched_ok_defs TASK_MAX_def zero_task_def demo_task_def)
qed

definition wait_regs :: regs where
  "wait_regs = (\<lambda>_. 0)(RAX := 6)"


theorem sys_kbd_wait_blocks_everyone_witness:
  "\<exists>k'. syscall_dispatch wait_regs busy = Ok (ToRepl, k') \<and> awaits_key 1 wait_regs k' \<and> (\<exists>s. awaits_key 2 s k')"
proof -
  have k: "k_cur busy = 1" "k_head (k_keys busy) = k_tail (k_keys busy)" by (simp_all add: busy_def demo_kernel_def idle_kbd_def)
  have "runnable_user busy 2" using busy_at(3) by (simp add: runnable_user_def demo_task_def zero_task_def)
  then show ?thesis using sys_kbd_wait_blocks_everyone [OF busy_ok, of wait_regs] k by (auto simp: wait_regs_def TASK_MAX_def)
qed

theorem sys_alloc_bumps_witness:
  "1 < length (k_tasks busy) \<and> user_heap_ok (task_at 1 busy) \<and> user_heap_ok (task_at 1 (snd (sys_alloc 1 100 busy)))"
proof -
  have "length (k_tasks busy) = TASK_MAX" by (simp add: busy_def demo_kernel_def TASK_MAX_def)
  then have l: "1 < length (k_tasks busy)" by (simp add: TASK_MAX_def)
  have h: "user_heap_ok (task_at 1 busy)" unfolding busy_at(2) by (simp add: user_heap_ok_def demo_task_def zero_task_def)
  show ?thesis
    using sys_alloc_bumps [OF l h, of 100 "fst (sys_alloc 1 100 busy)" "snd (sys_alloc 1 100 busy)"] l h by simp
qed

end
