(* ===== verification/Fs.thy ===== *)
theory Fs
  imports Swap FsData
begin

unbundle bit_operations_syntax

text \<open>
  The file system, \<^verbatim>\<open>kernel/fs/noosfs.c\<close>, on the disk it shares with the swap area: two superblocks, the
  cluster bitmap, the inode table and the data area, below the swap tail. The contents of the disk are
  those of the kernel state; the C \<^verbatim>\<open>int\<close> results are integers. The disk transfers never report an
  error (\<^verbatim>\<open>ide.c\<close> returns 0 whatever happens), so the branches of the source that would handle one are rest out.
\<close>

section \<open>Blocks and the inode table\<close>

text \<open>The 64 words of a sector, as bytes in memory.\<close>

definition sector_bytes :: "sector \<Rightarrow> block" where
  "sector_bytes s = concat (map (le_bytes 8) s)"

definition bytes_sector :: "block \<Rightarrow> sector" where
  "bytes_sector b = map (\<lambda>j. of_le (bytes_at (8 * j) 8 b)) [0..<64]"

definition disk_read_block :: "u64 \<Rightarrow> kernel \<Rightarrow> block" where
  "disk_read_block lba k = sector_bytes (ide_read_sectors (ucast lba) 1 (k_disk k) ! 0)"

definition disk_write_block :: "u64 \<Rightarrow> block \<Rightarrow> kernel \<Rightarrow> kernel" where
  "disk_write_block lba b k = k\<lparr>k_disk := ide_write_sectors (ucast lba) [bytes_sector b] (k_disk k)\<rparr>"

definition sb_of :: "kernel \<Rightarrow> fs_sb" where
  "sb_of k = f_sb (k_fs k)"

definition upd_fs :: "(fsys \<Rightarrow> fsys) \<Rightarrow> kernel \<Rightarrow> kernel" where
  "upd_fs f k = k\<lparr>k_fs := f (k_fs k)\<rparr>"

definition zero_block :: block where
  "zero_block = replicate FS_BLOCK_SIZE 0"

definition inode_lba :: "u32 \<Rightarrow> kernel \<Rightarrow> u64" where
  "inode_lba ino k = sb_inode_start (sb_of k) + ucast ino div of_nat INODES_PER_BLOCK"

definition inode_off :: "u32 \<Rightarrow> nat" where
  "inode_off ino = (unat ino mod INODES_PER_BLOCK) * sizeof_inode"

definition read_inode :: "u32 \<Rightarrow> kernel \<Rightarrow> fs_inode" where
  "read_inode ino k = dec_inode (bytes_at (inode_off ino) sizeof_inode (disk_read_block (inode_lba ino k) k))"

definition write_inode :: "u32 \<Rightarrow> fs_inode \<Rightarrow> kernel \<Rightarrow> kernel" where
  "write_inode ino i k =
     disk_write_block (inode_lba ino k) (splice (inode_off ino) (enc_inode i) (disk_read_block (inode_lba ino k) k)) k"

section \<open>Bitmaps\<close>

text \<open>The bitmaps are on the heap: an access through a null pointer or past the end leaves the model.\<close>

definition test_bit :: "u8 list \<Rightarrow> nat \<Rightarrow> bool" where
  "test_bit bm i \<longleftrightarrow> drop_bit (i mod 8) (bm ! (i div 8)) AND 1 = 1"

definition in_map :: "u64 \<Rightarrow> u8 list \<Rightarrow> nat \<Rightarrow> 'a res \<Rightarrow> 'a res" where
  "in_map ptr bm i r =
     (if ptr = 0 then Crash NullDeref else if i div 8 < length bm then r else Crash (OutOfBounds ''bitmap''))"

definition put_bit :: "u8 list \<Rightarrow> nat \<Rightarrow> u8 list" where
  "put_bit bm i = bm[i div 8 := bm ! (i div 8) OR push_bit (i mod 8) 1]"

definition clear_bit :: "u8 list \<Rightarrow> nat \<Rightarrow> u8 list" where
  "clear_bit bm i = bm[i div 8 := bm ! (i div 8) AND NOT (push_bit (i mod 8) 1)]"

definition bit_get :: "u64 \<Rightarrow> u8 list \<Rightarrow> nat \<Rightarrow> bool res" where
  "bit_get ptr bm i = in_map ptr bm i (Ok (test_bit bm i))"

definition bit_set :: "u64 \<Rightarrow> u8 list \<Rightarrow> nat \<Rightarrow> u8 list res" where
  "bit_set ptr bm i = in_map ptr bm i (Ok (put_bit bm i))"

definition bit_clr :: "u64 \<Rightarrow> u8 list \<Rightarrow> nat \<Rightarrow> u8 list res" where
  "bit_clr ptr bm i = in_map ptr bm i (Ok (clear_bit bm i))"

text \<open>\<^verbatim>\<open>for (c = lo; c < hi; c++) if (!bit_get(bitmap, c)) return c;\<close>\<close>

function bit_scan :: "u64 \<Rightarrow> u8 list \<Rightarrow> nat \<Rightarrow> nat \<Rightarrow> nat option res" where
  "bit_scan ptr bm c hi =
     (if c < hi then bind_res (bit_get ptr bm c) (\<lambda>b. if b then bit_scan ptr bm (c + 1) hi else Ok (Some c)) else Ok None)"
  by pat_completeness auto
termination by (relation "measure (\<lambda>(ptr, bm, c, hi). hi - c)") auto

declare bit_scan.simps [simp del]

text \<open>
  The counters of the scans have 32 bits and their limits 64: beyond \<open>2 ^ 32\<close> the counter starts again at
  0 and the loop ends only at a free bit.
\<close>

definition scan_free :: "u64 \<Rightarrow> u8 list \<Rightarrow> u64 \<Rightarrow> nat option res" where
  "scan_free ptr bm n =
     (if unat n \<le> 2 ^ 32 then bit_scan ptr bm 1 (unat n)
      else bind_res (bit_scan ptr bm 1 (2 ^ 32)) (\<lambda>r. case r of
             Some c \<Rightarrow> Ok (Some c)
           | None \<Rightarrow> bind_res (bit_scan ptr bm 0 1) (\<lambda>r. case r of Some c \<Rightarrow> Ok (Some c) | None \<Rightarrow> Crash OutOfFuel)))"

definition fs_alloc_cluster :: "kernel \<Rightarrow> (u32 \<times> kernel) res" where
  "fs_alloc_cluster k =
     (let f = k_fs k in
      if \<not> f_mounted f then Ok (-1, k)
      else bind_res (scan_free (f_cbm_ptr f) (f_cbm f) (sb_block_count (f_sb f))) (\<lambda>r. case r of
             None \<Rightarrow> Ok (-1, k)
           | Some c \<Rightarrow> map_res (\<lambda>bm. (of_nat c, upd_fs (\<lambda>f. f\<lparr>f_cbm := bm\<rparr>) k)) (bit_set (f_cbm_ptr f) (f_cbm f) c)))"

definition fs_free_cluster :: "u32 \<Rightarrow> kernel \<Rightarrow> kernel res" where
  "fs_free_cluster c k =
     (if ucast c < sb_block_count (sb_of k)
      then map_res (\<lambda>bm. upd_fs (\<lambda>f. f\<lparr>f_cbm := bm\<rparr>) k) (bit_clr (f_cbm_ptr (k_fs k)) (f_cbm (k_fs k)) (unat c))
      else Ok k)"

function count_free :: "u64 \<Rightarrow> u8 list \<Rightarrow> nat \<Rightarrow> nat \<Rightarrow> u64 \<Rightarrow> u64 res" where
  "count_free ptr bm c hi n =
     (if c < hi then bind_res (bit_get ptr bm c) (\<lambda>b. count_free ptr bm (c + 1) hi (if b then n else n + 1)) else Ok n)"
  by pat_completeness auto
termination by (relation "measure (\<lambda>(ptr, bm, c, hi, n). hi - c)") auto

declare count_free.simps [simp del]

definition fs_free_bytes :: "kernel \<Rightarrow> u64 res" where
  "fs_free_bytes k =
     (let f = k_fs k in
      if \<not> f_mounted f then Ok 0
      else if unat (sb_block_count (f_sb f)) \<le> 2 ^ 32
      then map_res (\<lambda>n. n * of_nat FS_BLOCK_SIZE) (count_free (f_cbm_ptr f) (f_cbm f) 0 (unat (sb_block_count (f_sb f))) 0)
      else Crash OutOfFuel)"

definition fs_alloc_inode :: "kernel \<Rightarrow> (u32 \<times> kernel) res" where
  "fs_alloc_inode k =
     (let f = k_fs k in
      bind_res (scan_free (f_ibm_ptr f) (f_ibm f) (sb_inode_count (f_sb f))) (\<lambda>r. case r of
        None \<Rightarrow> Ok (-1, k)
      | Some i \<Rightarrow> map_res (\<lambda>bm. (of_nat i, upd_fs (\<lambda>f. f\<lparr>f_ibm := bm\<rparr>) k)) (bit_set (f_ibm_ptr f) (f_ibm f) i)))"

section \<open>Superblocks, format and mount\<close>

definition sb_valid :: "fs_sb \<Rightarrow> bool" where
  "sb_valid s \<longleftrightarrow> sb_sig s = NOOSFS_SIG \<and> sb_block_size s = of_nat FS_BLOCK_SIZE \<and> sb_version s = NOOSFS_VERSION"

definition sb_write_all :: "kernel \<Rightarrow> kernel" where
  "sb_write_all k =
     (let k = upd_fs (\<lambda>f. f\<lparr>f_sb := (f_sb f)\<lparr>sb_seq := sb_seq (f_sb f) + 1\<rparr>\<rparr>) k
      in disk_write_block 0 (enc_sb (sb_of k)) (disk_write_block 1 (enc_sb (sb_of k)) k))"

definition read_any_sb :: "kernel \<Rightarrow> int \<times> kernel" where
  "read_any_sb k =
     (let sb0 = dec_sb (disk_read_block 0 k); sb1 = dec_sb (disk_read_block 1 k);
          use = (\<lambda>s. (0, upd_fs (\<lambda>f. f\<lparr>f_sb := s\<rparr>) k))
      in if sb_valid sb0 \<and> sb_valid sb1 then use (if sb_seq sb0 \<ge> sb_seq sb1 then sb0 else sb1)
         else if sb_valid sb0 then use sb0
         else if sb_valid sb1 then use sb1
         else (-1, k))"

definition disk_total_blocks :: "u64 \<Rightarrow> u64" where
  "disk_total_blocks drive_sectors = (if drive_sectors = 0 then 32 * 1024 * 1024 div 512 else drive_sectors)"

definition fs_usable_blocks :: "u64 \<Rightarrow> u64" where
  "fs_usable_blocks drive_sectors = g_start (swap_geometry (disk_total_blocks drive_sectors))"

definition write_zeros :: "u64 \<Rightarrow> u64 \<Rightarrow> kernel \<Rightarrow> kernel" where
  "write_zeros start n k = fold (\<lambda>b. disk_write_block (start + of_nat b) zero_block) [0..<unat n] k"

definition inode_blocks :: u64 where
  "inode_blocks = (of_nat FS_INODE_COUNT * of_nat sizeof_inode + of_nat FS_BLOCK_SIZE - 1) div of_nat FS_BLOCK_SIZE"

definition new_sb :: "u64 \<Rightarrow> fs_sb" where
  "new_sb usable =
     (let bitmap_blocks = (usable + 8 * 512 - 1) div (8 * 512);
          data_start = 2 + bitmap_blocks + inode_blocks;
          nblocks = usable - data_start;
          bitmap_blocks = (nblocks + 8 * 512 - 1) div (8 * 512);
          data_start = 2 + bitmap_blocks + inode_blocks;
          nblocks = usable - data_start
      in zero_sb\<lparr>sb_sig := NOOSFS_SIG, sb_version := NOOSFS_VERSION, sb_block_size := of_nat FS_BLOCK_SIZE,
           sb_block_count := nblocks, sb_bitmap_start := 2, sb_bitmap_blocks := bitmap_blocks,
           sb_inode_start := 2 + bitmap_blocks, sb_inode_count := of_nat FS_INODE_COUNT, sb_data_start := data_start,
           sb_root_inode := 0, sb_seq := 1, sb_flags := 0\<rparr>)"

definition fs_format :: "u64 \<Rightarrow> kernel \<Rightarrow> (int \<times> kernel) res" where
  "fs_format drive_sectors k =
     (let sb = new_sb (fs_usable_blocks drive_sectors);
          k = upd_fs (\<lambda>f. f\<lparr>f_sb := sb\<rparr>) k
      in bind_res (k_malloc (sb_bitmap_blocks sb * of_nat FS_BLOCK_SIZE) k) (\<lambda>(p, k).
           if p = 0 then Ok (-1, k)
           else bind_res (k_free p (write_zeros (sb_bitmap_start sb) (sb_bitmap_blocks sb) k)) (\<lambda>k.
                bind_res (k_malloc (inode_blocks * of_nat FS_BLOCK_SIZE) k) (\<lambda>(p, k).
                  if p = 0 then Ok (-1, k)
                  else map_res (\<lambda>k. (0, sb_write_all (write_inode 0 (zero_inode\<lparr>i_mode := FS_INODE_DIR, i_nlinks := 2\<rparr>) k)))
                         (k_free p (write_zeros (sb_inode_start sb) inode_blocks k))))))"

definition load_bitmap :: "kernel \<Rightarrow> u8 list res" where
  "load_bitmap k =
     (let sb = sb_of k; n = unat (sb_bitmap_blocks sb) in
      if n * FS_BLOCK_SIZE < 2 ^ 64
      then Ok (concat (map (\<lambda>b. disk_read_block (sb_bitmap_start sb + of_nat b) k) [0..<n]))
      else Crash (OutOfBounds ''cluster bitmap''))"

definition fs_mount :: "kernel \<Rightarrow> (int \<times> kernel) res" where
  "fs_mount k =
     (case read_any_sb k of
        (r, k) \<Rightarrow>
          if r \<noteq> 0 then Ok (-1, k)
          else
            bind_res (k_free (f_cbm_ptr (k_fs k)) k) (\<lambda>k.
            bind_res (k_free (f_ibm_ptr (k_fs k)) k) (\<lambda>k.
            bind_res (k_malloc (sb_bitmap_blocks (sb_of k) * of_nat FS_BLOCK_SIZE) k) (\<lambda>(cp, k).
            bind_res (k_malloc ((of_nat FS_INODE_COUNT + 7) div 8) k) (\<lambda>(ip, k).
              if cp = 0 \<or> ip = 0
              then bind_res (k_free cp k) (\<lambda>k. bind_res (k_free ip k) (\<lambda>k.
                     Ok (-1, upd_fs (\<lambda>f. f\<lparr>f_cbm_ptr := 0, f_ibm_ptr := 0\<rparr>) k)))
              else
                bind_res (load_bitmap k) (\<lambda>cbm.
                bind_res (bit_set ip (replicate ((FS_INODE_COUNT + 7) div 8) 0) (unat (sb_root_inode (sb_of k)))) (\<lambda>ibm.
                  Ok (0, upd_fs (\<lambda>f. f\<lparr>f_cbm_ptr := cp, f_cbm := cbm, f_ibm_ptr := ip, f_ibm := ibm, f_mounted := True\<rparr>) k))))))))"

definition fs_cluster_write :: "u32 \<Rightarrow> block \<Rightarrow> kernel \<Rightarrow> int \<times> kernel" where
  "fs_cluster_write c b k =
     (if ucast c \<ge> sb_block_count (sb_of k) then (-1, k) else (0, disk_write_block (sb_data_start (sb_of k) + ucast c) b k))"

definition fs_cluster_read :: "u32 \<Rightarrow> kernel \<Rightarrow> block option" where
  "fs_cluster_read c k =
     (if ucast c \<ge> sb_block_count (sb_of k) then None else Some (disk_read_block (sb_data_start (sb_of k) + ucast c) k))"

definition fs_sync_bitmap :: "kernel \<Rightarrow> kernel res" where
  "fs_sync_bitmap k =
     (let f = k_fs k; n = unat (sb_bitmap_blocks (f_sb f)) in
      if \<not> f_mounted f then Ok k
      else if f_cbm_ptr f = 0 then Crash NullDeref
      else if n * FS_BLOCK_SIZE > length (f_cbm f) then Crash (OutOfBounds ''cluster bitmap'')
      else Ok (fold (\<lambda>b. disk_write_block (sb_bitmap_start (f_sb f) + of_nat b) (bytes_at (b * FS_BLOCK_SIZE) FS_BLOCK_SIZE (f_cbm f)))
                 [0..<n] k))"

section \<open>The root directory\<close>

definition root_load :: "kernel \<Rightarrow> kernel" where
  "root_load k = upd_fs (\<lambda>f. f\<lparr>f_root := read_inode (sb_root_inode (f_sb f)) k\<rparr>) k"

definition root_save :: "kernel \<Rightarrow> kernel" where
  "root_save k = write_inode (sb_root_inode (sb_of k)) (f_root (k_fs k)) k"

definition root_block :: "kernel \<Rightarrow> nat \<Rightarrow> u32" where
  "root_block k bi = i_blocks (f_root (k_fs k)) ! bi"

text \<open>A fresh cluster of zeros as block \<open>bi\<close> of the directory.\<close>

definition root_extend :: "nat \<Rightarrow> (u64 \<Rightarrow> u64) \<Rightarrow> kernel \<Rightarrow> (int \<times> kernel) res" where
  "root_extend bi grow k =
     bind_res (fs_alloc_cluster k) (\<lambda>(c, k).
       if c = -1 then Ok (-1, k)
       else case fs_cluster_write c zero_block k of
              (r, k) \<Rightarrow>
                if r \<noteq> 0 then Ok (-1, k)
                else Ok (0, root_save (upd_fs (\<lambda>f. f\<lparr>f_root := (f_root f)\<lparr>i_blocks := (i_blocks (f_root f))[bi := c],
                       i_size := grow (i_size (f_root f))\<rparr>\<rparr>) k)))"

definition root_ensure_block :: "kernel \<Rightarrow> (int \<times> kernel) res" where
  "root_ensure_block k =
     (if i_size (f_root (k_fs k)) > 0 then Ok (0, k) else root_extend 0 (\<lambda>_. of_nat FS_BLOCK_SIZE) k)"

fun dir_add_loop :: "fs_dirent \<Rightarrow> nat list \<Rightarrow> kernel \<Rightarrow> (int \<times> kernel) res" where
  "dir_add_loop d [] k = Ok (-1, k)"
| "dir_add_loop d (bi # bis) k =
     (if root_block k bi = 0 then Ok (-1, k)
      else case fs_cluster_read (root_block k bi) k of
             None \<Rightarrow> Ok (-1, k)
           | Some b \<Rightarrow>
               (case first_in (\<lambda>e. d_inode (dec_dir b ! e) = 0) 0 DIRENT_PER_BLOCK of
                  Some e \<Rightarrow> Ok (fs_cluster_write (root_block k bi) (enc_dir ((dec_dir b)[e := d])) k)
                | None \<Rightarrow>
                    if root_block k bi = 0 then root_extend bi (\<lambda>s. s + of_nat FS_BLOCK_SIZE) k
                    else dir_add_loop d bis k))"

definition new_dirent :: "string \<Rightarrow> u32 \<Rightarrow> u8 \<Rightarrow> fs_dirent" where
  "new_dirent name ino ty =
     \<lparr>d_inode = ino, d_reclen = of_nat sizeof_dirent, d_namelen = of_nat (length name), d_type = ty,
      d_name = asc name @ replicate (FS_NAME_MAX - length name) 0\<rparr>"

definition dir_add_entry :: "string \<Rightarrow> u32 \<Rightarrow> u8 \<Rightarrow> kernel \<Rightarrow> (int \<times> kernel) res" where
  "dir_add_entry name ino ty k =
     (let k = root_load k in
      if length name = 0 \<or> length name > FS_NAME_MAX then Ok (-1, k)
      else bind_res (root_ensure_block k) (\<lambda>(r, k).
             if r \<noteq> 0 then Ok (-1, k) else dir_add_loop (new_dirent name ino ty) [0..<FS_MAX_BLOCKS] k))"

text \<open>
  The search both \<^verbatim>\<open>fs_lookup\<close> and \<^verbatim>\<open>dir_find_slot\<close> run: the first entry in use with the given name.
  A name length beyond the field makes the comparison read past it.
\<close>

definition dir_match :: "u8 list \<Rightarrow> fs_dirent \<Rightarrow> bool res" where
  "dir_match nm d =
     (if d_inode d \<noteq> 0 \<and> unat (d_namelen d) = length nm
      then if length nm \<le> FS_NAME_MAX then Ok (take (length nm) (d_name d) = nm) else Crash (OutOfBounds ''dirent name'')
      else Ok False)"

fun find_entry :: "u8 list \<Rightarrow> nat \<Rightarrow> fs_dirent list \<Rightarrow> (nat \<times> fs_dirent) option res" where
  "find_entry nm e [] = Ok None"
| "find_entry nm e (d # ds) = bind_res (dir_match nm d) (\<lambda>m. if m then Ok (Some (e, d)) else find_entry nm (Suc e) ds)"

fun dir_walk :: "u8 list \<Rightarrow> nat list \<Rightarrow> kernel \<Rightarrow> (nat \<times> nat \<times> fs_dirent) option res" where
  "dir_walk nm [] k = Ok None"
| "dir_walk nm (bi # bis) k =
     (if root_block k bi = 0 then Ok None
      else case fs_cluster_read (root_block k bi) k of
             None \<Rightarrow> Ok None
           | Some b \<Rightarrow> bind_res (find_entry nm 0 (dec_dir b)) (\<lambda>r. case r of
                         Some (e, d) \<Rightarrow> Ok (Some (bi, e, d))
                       | None \<Rightarrow> dir_walk nm bis k))"

definition fs_lookup :: "string \<Rightarrow> kernel \<Rightarrow> (int \<times> kernel) res" where
  "fs_lookup name k =
     (if \<not> f_mounted (k_fs k) then Ok (-1, k)
      else let k = root_load k in
           map_res (\<lambda>r. (case r of Some (bi, e, d) \<Rightarrow> sint (d_inode d) | None \<Rightarrow> -1, k)) (dir_walk (asc name) [0..<FS_MAX_BLOCKS] k))"

definition dir_find_slot :: "string \<Rightarrow> kernel \<Rightarrow> (nat \<times> nat) option res" where
  "dir_find_slot name k = map_res (map_option (\<lambda>(bi, e, d). (bi, e))) (dir_walk (asc name) [0..<FS_MAX_BLOCKS] k)"

section \<open>Files\<close>

definition fs_create :: "string \<Rightarrow> u16 \<Rightarrow> kernel \<Rightarrow> (int \<times> kernel) res" where
  "fs_create name mode k =
     (if \<not> f_mounted (k_fs k) then Ok (-1, k)
      else bind_res (fs_lookup name k) (\<lambda>(r, k).
        if r \<ge> 0 then Ok (-1, k)
        else bind_res (fs_alloc_inode k) (\<lambda>(ino, k).
          if ino = -1 then Ok (-1, k)
          else bind_res
                 (dir_add_entry name ino (if mode = FS_INODE_DIR then DT_DIR else DT_FILE)
                    (write_inode ino (zero_inode\<lparr>i_mode := mode, i_nlinks := 1, i_mtime := ucast (k_ticks k)\<rparr>) k))
                 (\<lambda>(r, k). if r \<noteq> 0 then Ok (-1, k) else Ok (sint ino, k)))))"

text \<open>\<^verbatim>\<open>free old data blocks beyond the new length\<close>\<close>

fun free_tail :: "nat list \<Rightarrow> fs_inode \<Rightarrow> kernel \<Rightarrow> (fs_inode \<times> kernel) res" where
  "free_tail [] i k = Ok (i, k)"
| "free_tail (j # js) i k =
     (if i_blocks i ! j \<noteq> 0
      then bind_res (fs_free_cluster (i_blocks i ! j) k) (\<lambda>k. free_tail js (i\<lparr>i_blocks := (i_blocks i)[j := 0]\<rparr>) k)
      else free_tail js i k)"

definition chunk :: "u8 list \<Rightarrow> nat \<Rightarrow> block" where
  "chunk bs j = (let c = bytes_at (j * FS_BLOCK_SIZE) FS_BLOCK_SIZE bs in c @ replicate (FS_BLOCK_SIZE - length c) 0)"

text \<open>\<^verbatim>\<open>allocate and write new data\<close>: \<open>None\<close> for the early return of -1.\<close>

fun write_chunks :: "u8 list \<Rightarrow> nat list \<Rightarrow> fs_inode \<Rightarrow> kernel \<Rightarrow> (fs_inode option \<times> kernel) res" where
  "write_chunks bs [] i k = Ok (Some i, k)"
| "write_chunks bs (j # js) i k =
     bind_res (if i_blocks i ! j = 0 then fs_alloc_cluster k else Ok (i_blocks i ! j, k)) (\<lambda>(c, k).
       if i_blocks i ! j = 0 \<and> c = -1 then Ok (None, k)
       else case fs_cluster_write c (chunk bs j) k of
              (r, k) \<Rightarrow> if r \<noteq> 0 then Ok (None, k) else write_chunks bs js (i\<lparr>i_blocks := (i_blocks i)[j := c]\<rparr>) k)"

definition fs_write_file :: "u32 \<Rightarrow> u8 list \<Rightarrow> kernel \<Rightarrow> (int \<times> kernel) res" where
  "fs_write_file ino bs k =
     (let sz = of_nat (length bs) :: u64; nblocks = (sz + of_nat FS_BLOCK_SIZE - 1) div of_nat FS_BLOCK_SIZE in
      if \<not> f_mounted (k_fs k) then Ok (-1, k)
      else if nblocks > of_nat FS_MAX_BLOCKS then Ok (-1, k)
      else bind_res (free_tail [unat nblocks..<FS_MAX_BLOCKS] (read_inode ino k) k) (\<lambda>(i, k).
           bind_res (write_chunks bs [0..<unat nblocks] i k) (\<lambda>(r, k). case r of
             None \<Rightarrow> Ok (-1, k)
           | Some i \<Rightarrow> Ok (0, write_inode ino (i\<lparr>i_size := sz, i_mtime := ucast (k_ticks k), i_nlinks := 1,
                               i_mode := i_mode i OR FS_INODE_REG\<rparr>) k))))"

text \<open>The bytes copied to the buffer, and whether the loop ended without an error of a block.\<close>

fun read_chunks :: "nat list \<Rightarrow> nat \<Rightarrow> fs_inode \<Rightarrow> kernel \<Rightarrow> u8 list \<times> bool" where
  "read_chunks [] rest i k = ([], True)"
| "read_chunks (j # js) rest i k =
     (if rest = 0 \<or> i_blocks i ! j = 0 then ([], True)
      else case fs_cluster_read (i_blocks i ! j) k of
             None \<Rightarrow> ([], False)
           | Some b \<Rightarrow>
               (let n = min rest FS_BLOCK_SIZE; (bs, fine) = read_chunks js (rest - n) i k in (take n b @ bs, fine)))"

definition fs_read_file :: "u32 \<Rightarrow> u64 \<Rightarrow> kernel \<Rightarrow> u64 \<times> u8 list" where
  "fs_read_file ino limit k =
     (let i = read_inode ino k; want = (if i_size i < limit then i_size i else limit);
          (bs, fine) = read_chunks [0..<FS_MAX_BLOCKS] (unat want) i k
      in (if fine then want else of_nat (length bs), bs))"

definition fs_stat :: "u32 \<Rightarrow> kernel \<Rightarrow> fs_inode" where
  "fs_stat ino k = read_inode ino k"

fun free_blocks :: "u32 list \<Rightarrow> kernel \<Rightarrow> kernel res" where
  "free_blocks [] k = Ok k"
| "free_blocks (c # cs) k = (if c \<noteq> 0 then bind_res (fs_free_cluster c k) (free_blocks cs) else free_blocks cs k)"

definition fs_unlink :: "string \<Rightarrow> kernel \<Rightarrow> (int \<times> kernel) res" where
  "fs_unlink name k =
     (if \<not> f_mounted (k_fs k) then Ok (-1, k)
      else bind_res (fs_lookup name k) (\<lambda>(r, k).
        let ino = word_of_int r :: u32 in
        if ino = -1 then Ok (-1, k)
        else let k = root_load k in
          bind_res (dir_find_slot name k) (\<lambda>s. case s of
            None \<Rightarrow> Ok (-1, k)
          | Some (bi, e) \<Rightarrow>
              bind_res (free_blocks (i_blocks (read_inode ino k)) k) (\<lambda>k.
                let k = write_inode ino zero_inode k in
                bind_res (bit_clr (f_ibm_ptr (k_fs k)) (f_ibm (k_fs k)) (unat ino)) (\<lambda>ibm.
                  let k = upd_fs (\<lambda>f. f\<lparr>f_ibm := ibm\<rparr>) k; c = root_block k bi in
                  case fs_cluster_read c k of
                    None \<Rightarrow> Ok (0, k)
                  | Some b \<Rightarrow> Ok (0, snd (fs_cluster_write c (enc_dir ((dec_dir b)[e := zero_dirent])) k)))))))"

text \<open>The entries \<^verbatim>\<open>fs_listdir\<close> prints, with their sizes; a name longer than its field overruns the buffer it is copied to.\<close>

fun list_entries :: "fs_dirent list \<Rightarrow> kernel \<Rightarrow> (u8 list \<times> u32) list res" where
  "list_entries [] k = Ok []"
| "list_entries (d # ds) k =
     (if d_inode d = 0 then list_entries ds k
      else if unat (d_namelen d) > FS_NAME_MAX then Crash (OutOfBounds ''file name'')
      else map_res (\<lambda>l. (take (unat (d_namelen d)) (d_name d), ucast (i_size (read_inode (d_inode d) k))) # l) (list_entries ds k))"

fun list_blocks :: "nat list \<Rightarrow> kernel \<Rightarrow> (u8 list \<times> u32) list res" where
  "list_blocks [] k = Ok []"
| "list_blocks (bi # bis) k =
     (if root_block k bi = 0 then Ok []
      else case fs_cluster_read (root_block k bi) k of
             None \<Rightarrow> list_blocks bis k
           | Some b \<Rightarrow> bind_res (list_entries (dec_dir b) k) (\<lambda>l. map_res ((@) l) (list_blocks bis k)))"

definition fs_listdir :: "kernel \<Rightarrow> (int \<times> (u8 list \<times> u32) list \<times> kernel) res" where
  "fs_listdir k =
     (if \<not> f_mounted (k_fs k) then Ok (-1, [], k)
      else let k = root_load k in map_res (\<lambda>l. (int (length l), l, k)) (list_blocks [0..<FS_MAX_BLOCKS] k))"

definition fs_init :: "bool \<Rightarrow> u64 \<Rightarrow> kernel \<Rightarrow> (int \<times> kernel) res" where
  "fs_init has_drive drive_sectors k =
     (if \<not> has_drive then Ok (-1, k)
      else case read_any_sb k of
        (r, k) \<Rightarrow>
          bind_res
            (if r \<noteq> 0 \<or> sb_data_start (sb_of k) + sb_block_count (sb_of k) > fs_usable_blocks drive_sectors
             then fs_format drive_sectors k else Ok (0, k))
            (\<lambda>(r, k). if r \<noteq> 0 then Ok (-1, k)
                      else bind_res (fs_mount k) (\<lambda>(r, k). if r \<noteq> 0 then Ok (-1, k) else Ok (0, k))))"

end
