(* ===== verification/FsDisk.thy ===== *)
theory FsDisk
  imports Fs
begin

unbundle bit_operations_syntax

text \<open>
  The areas of the file system on the disk: the inode table and the data area behave as two independent
  arrays, and neither reaches the swap area.
\<close>

section \<open>Blocks\<close>

lemma bit_of_le: "bit (of_le bs :: 'a::len word) n \<Longrightarrow> n < 8 * length bs"
proof (induction bs arbitrary: n)
  case Nil
  then show ?case by (simp add: of_le_def)
next
  case (Cons b bs)
  have "bit (ucast b OR push_bit 8 (of_le bs) :: 'a word) n" using Cons.prems by (simp add: of_le_def)
  then have "bit b n \<or> (8 \<le> n \<and> bit (of_le bs :: 'a word) (n - 8))" by (auto simp: bit_simps)
  then show ?case
  proof
    assume "bit b n"
    then have "n < 8" using bit_imp_le_length [of b n] by simp
    then show ?thesis by simp
  next
    assume "8 \<le> n \<and> bit (of_le bs :: 'a word) (n - 8)"
    then show ?thesis using Cons.IH [of "n - 8"] by simp
  qed
qed

lemma le_bytes_of_le: "length bs = n \<Longrightarrow> 8 * n \<le> LENGTH('a) \<Longrightarrow> le_bytes n (of_le bs :: 'a::len word) = bs"
proof (induction bs arbitrary: n)
  case (Cons b bs)
  let ?w = "of_le bs :: 'a word"
  have n: "n = Suc (length bs)" and small: "8 * length bs + 8 \<le> LENGTH('a)" using Cons.prems by auto
  have w: "of_le (b # bs) = ucast b OR push_bit 8 ?w" by (simp add: of_le_def)
  have high: "\<not> bit b i" if "8 \<le> i" for i using that bit_imp_le_length [of b i] by auto
  have "ucast (ucast b OR push_bit 8 ?w :: 'a word) = b"
    by (rule bit_word_eqI) (use small in \<open>auto simp: bit_simps\<close>)
  moreover have "drop_bit 8 (ucast b OR push_bit 8 ?w :: 'a word) = ?w"
    by (rule bit_word_eqI) (use small high bit_of_le [of bs] in \<open>fastforce simp: bit_simps\<close>)
  ultimately show ?case unfolding n w le_bytes_Suc using Cons.IH [of "length bs"] small by simp
qed (simp add: le_bytes_def)

lemma sector_bytes_length: "length s = 64 \<Longrightarrow> length (sector_bytes s) = 512"
  unfolding sector_bytes_def by (subst length_concat_eq [where n = 8]) auto

lemma slices_concat: "length b = n * m \<Longrightarrow> concat (map (\<lambda>j. bytes_at (n * j) n b) [0..<m]) = b"
proof (induction m arbitrary: b)
  case (Suc m)
  have s: "bytes_at (n * Suc j) n b = bytes_at (n * j) n (drop n b)" for j by (simp add: bytes_at_def add.commute)
  have "concat (map (\<lambda>j. bytes_at (n * j) n b) [0..<Suc m]) = bytes_at 0 n b @ concat (map (\<lambda>j. bytes_at (n * Suc j) n b) [0..<m])"
    by (simp add: upt_conv_Cons map_Suc_upt [symmetric] comp_def del: upt_Suc)
  also have "\<dots> = take n b @ drop n b" unfolding s using Suc.IH [of "drop n b"] Suc.prems by (simp add: bytes_at_def)
  finally show ?case by simp
qed simp

lemma sector_bytes_sector:
  assumes "length b = 512"
  shows "sector_bytes (bytes_sector b) = b"
proof -
  have h: "map (\<lambda>j. le_bytes 8 (of_le (bytes_at (8 * j) 8 b) :: u64)) [0..<64] = map (\<lambda>j. bytes_at (8 * j) 8 b) [0..<64]"
    using assms by (intro map_cong refl le_bytes_of_le) auto
  show ?thesis unfolding sector_bytes_def bytes_sector_def map_map comp_def h using slices_concat [of b 8 64] assms by simp
qed

definition disk_ok :: "kernel \<Rightarrow> bool" where
  "disk_ok k \<longleftrightarrow> (\<forall>a. length (k_disk k a) = 64)"

lemma disk_read_length: "disk_ok k \<Longrightarrow> length (disk_read_block l k) = 512"
  by (simp add: disk_read_block_def ide_read_sectors_def disk_ok_def sector_bytes_length)

lemma disk_write_ok: "disk_ok k \<Longrightarrow> disk_ok (disk_write_block l b k)"
  by (simp add: disk_write_block_def disk_ok_def bytes_sector_def)

lemma lba_small:
  assumes "unat (l :: u64) < 2 ^ 28"
  shows "lba28 (ucast l) = ucast l" "unat (ucast l :: u32) = unat l"
proof -
  show u: "unat (ucast l :: u32) = unat l" using assms by (simp add: unsigned_ucast_eq take_bit_nat_eq_self)
  show "lba28 (ucast l) = ucast l" using lba28_small [of "ucast l"] assms u by simp
qed

lemma disk_read_write:
  assumes "unat l < 2 ^ 28" "unat l' < 2 ^ 28" "length b = 512"
  shows "disk_read_block l' (disk_write_block l b k) = (if l' = l then b else disk_read_block l' k)"
proof -
  have "ucast l' = (ucast l :: u32) \<longleftrightarrow> l' = l"
    using lba_small(2) [OF assms(1)] lba_small(2) [OF assms(2)] by (metis word_unat_eq_iff)
  then show ?thesis
    using lba_small(1) [OF assms(1)] lba_small(1) [OF assms(2)] sector_bytes_sector [OF assms(3)]
    by (simp add: disk_read_block_def disk_write_block_def ide_read_sectors_def)
qed

lemma disk_write_sel [simp]:
  "k_fs (disk_write_block l b k) = k_fs k" "sb_of (disk_write_block l b k) = sb_of k"
  "k_ticks (disk_write_block l b k) = k_ticks k"
  by (simp_all add: disk_write_block_def sb_of_def)

lemma upd_fs_sel [simp]:
  "disk_read_block l (upd_fs f k) = disk_read_block l k" "k_fs (upd_fs f k) = f (k_fs k)" "disk_ok (upd_fs f k) = disk_ok k"
  "k_ticks (upd_fs f k) = k_ticks k"
  by (simp_all add: upd_fs_def disk_read_block_def disk_ok_def)

section \<open>The areas\<close>

definition geom_ok :: "kernel \<Rightarrow> bool" where
  "geom_ok k \<longleftrightarrow>
     (let s = sb_of k in
        unat (sb_bitmap_start s) = 2 \<and> unat (sb_inode_start s) = 2 + unat (sb_bitmap_blocks s)
      \<and> unat (sb_data_start s) = unat (sb_inode_start s) + 36 \<and> unat (sb_data_start s) + unat (sb_block_count s) \<le> 2 ^ 28
      \<and> 0 < unat (sb_block_count s) \<and> unat (sb_block_count s) \<le> 4096 * unat (sb_bitmap_blocks s)
      \<and> unat (sb_inode_count s) = FS_INODE_COUNT \<and> sb_root_inode s = 0)"

text \<open>A cluster that may be allocated: cluster 0 never is, since the scan starts at 1.\<close>

definition is_cluster :: "kernel \<Rightarrow> u32 \<Rightarrow> bool" where
  "is_cluster k c \<longleftrightarrow> 0 < unat c \<and> unat c < unat (sb_block_count (sb_of k))"

definition cluster :: "kernel \<Rightarrow> u32 \<Rightarrow> block" where
  "cluster k c = disk_read_block (sb_data_start (sb_of k) + ucast c) k"

definition put_cluster :: "u32 \<Rightarrow> block \<Rightarrow> kernel \<Rightarrow> kernel" where
  "put_cluster c b k = disk_write_block (sb_data_start (sb_of k) + ucast c) b k"

definition is_inode :: "u32 \<Rightarrow> bool" where
  "is_inode i \<longleftrightarrow> unat i < FS_INODE_COUNT"

lemma geom_data:
  assumes "geom_ok k" "is_cluster k c"
  shows "unat (sb_data_start (sb_of k) + ucast c) = unat (sb_data_start (sb_of k)) + unat c" (is ?sum)
    and "unat (sb_data_start (sb_of k) + ucast c) < 2 ^ 28"
    and "unat (sb_data_start (sb_of k)) < unat (sb_data_start (sb_of k) + ucast c)"
proof -
  have g: "unat (sb_data_start (sb_of k)) + unat (sb_block_count (sb_of k)) \<le> 2 ^ 28"
    using assms(1) by (simp add: geom_ok_def Let_def)
  have c: "0 < unat c" "unat c < unat (sb_block_count (sb_of k))" using assms(2) by (simp_all add: is_cluster_def)
  show ?sum using g c by (simp add: unat_word_ariths)
  with g c show "unat (sb_data_start (sb_of k) + ucast c) < 2 ^ 28"
    and "unat (sb_data_start (sb_of k)) < unat (sb_data_start (sb_of k) + ucast c)" by simp_all
qed

lemma geom_inode:
  assumes "geom_ok k" "is_inode i"
  shows "unat (inode_lba i k) = unat (sb_inode_start (sb_of k)) + unat i div 7" (is ?sum)
    and "unat (inode_lba i k) \<le> unat (sb_data_start (sb_of k))" (is ?le)
    and "unat (inode_lba i k) < 2 ^ 28" and "2 + unat (sb_bitmap_blocks (sb_of k)) \<le> unat (inode_lba i k)"
proof -
  have g: "unat (sb_data_start (sb_of k)) = unat (sb_inode_start (sb_of k)) + 36" "unat (sb_data_start (sb_of k)) < 2 ^ 28"
    "unat (sb_inode_start (sb_of k)) = 2 + unat (sb_bitmap_blocks (sb_of k))"
    using assms(1) by (auto simp: geom_ok_def Let_def)
  have i: "unat i < 256" using assms(2) by (simp add: is_inode_def FS_INODE_COUNT_def)
  then have d: "unat i div 7 \<le> 36" by simp
  show s: ?sum using g d
    by (simp add: inode_lba_def INODES_PER_BLOCK_def FS_BLOCK_SIZE_def sizeof_inode_def unat_word_ariths unat_div)
  show ?le using s g d by simp
  then show "unat (inode_lba i k) < 2 ^ 28" using g by simp
  show "2 + unat (sb_bitmap_blocks (sb_of k)) \<le> unat (inode_lba i k)" using s g by simp
qed

lemma inode_room: "disk_ok k \<Longrightarrow> inode_off i + 72 \<le> 512"
proof -
  have "unat i mod 7 \<le> 6" using mod_less_divisor [of 7 "unat i"] by simp
  then show ?thesis by (simp add: inode_off_def INODES_PER_BLOCK_def FS_BLOCK_SIZE_def sizeof_inode_def)
qed

lemma inode_apart:
  assumes "geom_ok k" "is_inode i" "is_inode j" "i \<noteq> j" "inode_lba i k = inode_lba j k"
  shows "inode_off i + 72 \<le> inode_off j \<or> inode_off j + 72 \<le> inode_off i"
proof -
  have "unat i div 7 = unat j div 7" using geom_inode(1) [OF assms(1,2)] geom_inode(1) [OF assms(1,3)] assms(5) by simp
  moreover have "unat i \<noteq> unat j" using assms(4) by (simp add: word_unat_eq_iff)
  ultimately have "unat i mod 7 \<noteq> unat j mod 7" by (metis div_mult_mod_eq)
  then consider "unat i mod 7 + 1 \<le> unat j mod 7" | "unat j mod 7 + 1 \<le> unat i mod 7" by linarith
  then show ?thesis by cases (simp_all add: inode_off_def INODES_PER_BLOCK_def FS_BLOCK_SIZE_def sizeof_inode_def)
qed

lemma write_inode_sel [simp]:
  "k_fs (write_inode i x k) = k_fs k" "sb_of (write_inode i x k) = sb_of k" "k_ticks (write_inode i x k) = k_ticks k"
  by (simp_all add: write_inode_def)

lemma put_cluster_sel [simp]:
  "k_fs (put_cluster c b k) = k_fs k" "sb_of (put_cluster c b k) = sb_of k" "k_ticks (put_cluster c b k) = k_ticks k"
  by (simp_all add: put_cluster_def)

lemma geom_ok_cong: "sb_of k' = sb_of k \<Longrightarrow> geom_ok k' = geom_ok k"
  by (simp add: geom_ok_def)

lemma areas_same_sb:
  assumes "sb_of k' = sb_of k"
  shows "is_cluster k' c = is_cluster k c" "inode_lba i k' = inode_lba i k"
  using assms by (simp_all add: is_cluster_def inode_lba_def)

lemma read_write_inode:
  assumes "disk_ok k" "geom_ok k" "is_inode i" "is_inode j" "inode_shape x"
  shows "read_inode j (write_inode i x k) = (if j = i then x else read_inode j k)"
proof -
  let ?b = "disk_read_block (inode_lba i k) k"
  let ?n = "splice (inode_off i) (enc_inode x) ?b"
  have len: "length ?b = 512" "length (enc_inode x) = 72" "inode_off i + 72 \<le> 512"
    using disk_read_length [OF assms(1)] enc_inode_length [OF assms(5)] inode_room [OF assms(1)] by auto
  then have n: "length ?n = 512" using length_splice [of "inode_off i" "enc_inode x" ?b] by simp
  have d: "disk_read_block (inode_lba j k) (write_inode i x k) = (if inode_lba j k = inode_lba i k then ?n else disk_read_block (inode_lba j k) k)"
    unfolding write_inode_def by (rule disk_read_write [OF geom_inode(3) [OF assms(2,3)] geom_inode(3) [OF assms(2,4)] n])
  have l: "inode_lba j (write_inode i x k) = inode_lba j k" by (simp add: inode_lba_def)
  show ?thesis
  proof (cases "j = i")
    case True
    then show ?thesis using d l len slice_splice_same [of "inode_off i" "enc_inode x" ?b 72] dec_enc_inode [OF assms(5)]
      by (simp add: read_inode_def sizeof_inode_def)
  next
    case False
    have "bytes_at (inode_off j) 72 ?n = bytes_at (inode_off j) 72 ?b" if "inode_lba j k = inode_lba i k"
      using inode_apart [OF assms(2,4,3) False that] len by (intro slice_splice_other) auto
    then show ?thesis using d l False by (auto simp: read_inode_def sizeof_inode_def)
  qed
qed

lemma cluster_write_inode:
  assumes "disk_ok k" "geom_ok k" "is_inode i" "is_cluster k c" "inode_shape x"
  shows "cluster (write_inode i x k) c = cluster k c"
proof -
  have "length (splice (inode_off i) (enc_inode x) (disk_read_block (inode_lba i k) k)) = 512"
    using disk_read_length [OF assms(1)] enc_inode_length [OF assms(5)] inode_room [OF assms(1)] by (simp add: length_splice)
  moreover have "sb_data_start (sb_of k) + ucast c \<noteq> inode_lba i k"
    using geom_data(3) [OF assms(2,4)] geom_inode(2) [OF assms(2,3)] by (metis leD)
  ultimately show ?thesis
    using disk_read_write [OF geom_inode(3) [OF assms(2,3)] geom_data(2) [OF assms(2,4)]]
    by (simp add: cluster_def) (simp add: write_inode_def)
qed

lemma read_inode_put_cluster:
  assumes "disk_ok k" "geom_ok k" "is_inode i" "is_cluster k c" "length b = 512"
  shows "read_inode i (put_cluster c b k) = read_inode i k"
proof -
  have "sb_data_start (sb_of k) + ucast c \<noteq> inode_lba i k"
    using geom_data(3) [OF assms(2,4)] geom_inode(2) [OF assms(2,3)] by (metis leD)
  moreover have "inode_lba i (put_cluster c b k) = inode_lba i k" by (simp add: inode_lba_def)
  ultimately show ?thesis
    using disk_read_write [OF geom_data(2) [OF assms(2,4)] geom_inode(3) [OF assms(2,3)] assms(5)]
    by (simp add: read_inode_def put_cluster_def)
qed

lemma cluster_put_cluster:
  assumes "geom_ok k" "is_cluster k c" "is_cluster k d" "length b = 512"
  shows "cluster (put_cluster c b k) d = (if d = c then b else cluster k d)"
proof -
  have "sb_data_start (sb_of k) + ucast d = sb_data_start (sb_of k) + ucast c \<longleftrightarrow> d = c"
    by (metis add_left_cancel unat_ucast_u32 word_unat_eq_iff)
  then show ?thesis
    using disk_read_write [OF geom_data(2) [OF assms(1,2)] geom_data(2) [OF assms(1,3)] assms(4), of k]
    unfolding cluster_def put_cluster_sel by (simp only: put_cluster_def)
qed

lemma write_inode_ok: "disk_ok k \<Longrightarrow> disk_ok (write_inode i x k)"
  by (simp add: write_inode_def disk_write_ok)

lemma put_cluster_ok: "disk_ok k \<Longrightarrow> disk_ok (put_cluster c b k)"
  by (simp add: put_cluster_def disk_write_ok)

lemma read_inode_shape: "disk_ok k \<Longrightarrow> inode_shape (read_inode i k)"
  using disk_read_length [of k "inode_lba i k"] inode_room [of k i]
  by (simp add: read_inode_def sizeof_inode_def dec_inode_shape)

section \<open>Bitmaps\<close>

lemma test_bit_iff: "test_bit bm i \<longleftrightarrow> bit (bm ! (i div 8)) (i mod 8)"
  by (simp add: test_bit_def bit_iff_odd_drop_bit odd_iff_mod_2_eq_one flip: take_bit_eq_mask) (simp add: and_one_eq)

lemma test_put_bit: "i div 8 < length bm \<Longrightarrow> test_bit (put_bit bm i) j \<longleftrightarrow> j = i \<or> test_bit bm j"
  by (cases "j div 8 = i div 8") (auto simp: test_bit_iff put_bit_def bit_simps dest: div_mod_8_eq)

lemma test_clear_bit: "i div 8 < length bm \<Longrightarrow> test_bit (clear_bit bm i) j \<longleftrightarrow> j \<noteq> i \<and> test_bit bm j"
  by (cases "j div 8 = i div 8") (auto simp: test_bit_iff clear_bit_def bit_simps dest: div_mod_8_eq)

lemma length_bits [simp]: "length (put_bit bm i) = length bm" "length (clear_bit bm i) = length bm"
  by (simp_all add: put_bit_def clear_bit_def)

lemma bit_scan_first:
  assumes "p \<noteq> 0" "hi \<le> 8 * length bm"
  shows "bit_scan p bm c hi = Ok (first_in (\<lambda>i. \<not> test_bit bm i) c hi)"
proof (induction "hi - c" arbitrary: c)
  case 0
  then show ?case by (subst bit_scan.simps) (simp add: first_in_def)
next
  case (Suc n)
  then have c: "c < hi" "c div 8 < length bm" using assms(2) by auto
  have "first_in (\<lambda>i. \<not> test_bit bm i) c hi = (if test_bit bm c then first_in (\<lambda>i. \<not> test_bit bm i) (c + 1) hi else Some c)"
    using c by (simp add: first_in_def upt_conv_Cons)
  then show ?case using c assms(1) Suc.hyps(1) [of "c + 1"] Suc.hyps(2)
    by (subst bit_scan.simps) (simp add: bit_get_def in_map_def)
qed

lemma scan_free_first:
  assumes "p \<noteq> 0" "unat n \<le> 8 * length bm" "unat n \<le> 2 ^ 32"
  shows "scan_free p bm n = Ok (first_in (\<lambda>i. \<not> test_bit bm i) 1 (unat n))"
  using assms by (simp add: scan_free_def bit_scan_first)

definition used_cluster :: "kernel \<Rightarrow> u32 \<Rightarrow> bool" where
  "used_cluster k c \<longleftrightarrow> test_bit (f_cbm (k_fs k)) (unat c)"

definition used_inode :: "kernel \<Rightarrow> u32 \<Rightarrow> bool" where
  "used_inode k i \<longleftrightarrow> test_bit (f_ibm (k_fs k)) (unat i)"

definition set_cbm :: "u8 list \<Rightarrow> kernel \<Rightarrow> kernel" where
  "set_cbm bm = upd_fs (\<lambda>f. f\<lparr>f_cbm := bm\<rparr>)"

definition set_ibm :: "u8 list \<Rightarrow> kernel \<Rightarrow> kernel" where
  "set_ibm bm = upd_fs (\<lambda>f. f\<lparr>f_ibm := bm\<rparr>)"

text \<open>A mounted file system with bitmaps of the right size on a disk laid out by the superblock.\<close>

definition fs_base :: "kernel \<Rightarrow> bool" where
  "fs_base k \<longleftrightarrow> disk_ok k \<and> geom_ok k \<and> f_mounted (k_fs k) \<and> f_cbm_ptr (k_fs k) \<noteq> 0 \<and> f_ibm_ptr (k_fs k) \<noteq> 0
     \<and> length (f_cbm (k_fs k)) = 512 * unat (sb_bitmap_blocks (sb_of k)) \<and> length (f_ibm (k_fs k)) = 32"

lemma cluster_in_map:
  assumes "fs_base k" "unat c < unat (sb_block_count (sb_of k))"
  shows "unat c div 8 < length (f_cbm (k_fs k))"
  using assms by (auto simp: fs_base_def geom_ok_def Let_def)

lemma minus_one_u32: "unat (-1 :: u32) = 4294967295"
  by (simp add: unsigned_minus_1_eq_mask mask_eq_exp_minus_1)

lemma alloc_cluster_cases:
  assumes "fs_base k"
  obtains (full) "fs_alloc_cluster k = Ok (-1, k)" "\<And>c. is_cluster k c \<Longrightarrow> used_cluster k c"
  | (got) c where "fs_alloc_cluster k = Ok (c, set_cbm (put_bit (f_cbm (k_fs k)) (unat c)) k)"
      "is_cluster k c" "\<not> used_cluster k c" "c \<noteq> -1" "c \<noteq> 0"
proof -
  let ?f = "k_fs k" and ?n = "sb_block_count (sb_of k)"
  have b: "f_mounted ?f" "f_cbm_ptr ?f \<noteq> 0" "unat ?n \<le> 8 * length (f_cbm ?f)" "unat ?n \<le> 2 ^ 28"
    using assms by (auto simp: fs_base_def geom_ok_def Let_def)
  have s: "scan_free (f_cbm_ptr ?f) (f_cbm ?f) ?n = Ok (first_in (\<lambda>i. \<not> test_bit (f_cbm ?f) i) 1 (unat ?n))"
    using b by (intro scan_free_first) auto
  show thesis
  proof (cases "first_in (\<lambda>i. \<not> test_bit (f_cbm ?f) i) 1 (unat ?n)")
    case None
    have "fs_alloc_cluster k = Ok (-1, k)" using b s None by (simp add: fs_alloc_cluster_def Let_def sb_of_def)
    moreover have "used_cluster k c" if "is_cluster k c" for c
      using None that by (auto simp: first_in_None_iff is_cluster_def used_cluster_def)
    ultimately show ?thesis by (rule full)
  next
    case (Some i)
    then have i: "1 \<le> i" "i < unat ?n" "\<not> test_bit (f_cbm ?f) i" by (auto simp: first_in_Some_iff)
    then have "i < 2 ^ 28" using b(4) by simp
    then have u: "unat (of_nat i :: u32) = i" by (simp add: unat_of_nat)
    show ?thesis
    proof (rule got [of "of_nat i"])
      show "fs_alloc_cluster k = Ok (of_nat i, set_cbm (put_bit (f_cbm ?f) (unat (of_nat i :: u32))) k)"
        using b s Some i u by (simp add: fs_alloc_cluster_def Let_def sb_of_def bit_set_def in_map_def set_cbm_def)
      show "is_cluster k (of_nat i)" "\<not> used_cluster k (of_nat i)" using i u by (simp_all add: is_cluster_def used_cluster_def)
      show "of_nat i \<noteq> (-1 :: u32)"
      proof
        assume "of_nat i = (-1 :: u32)"
        then have "i = 4294967295" using u minus_one_u32 by simp
        then show False using \<open>i < 2 ^ 28\<close> by simp
      qed
      show "of_nat i \<noteq> (0 :: u32)" using u i by (metis not_one_le_zero unat_0)
    qed
  qed
qed

lemma alloc_inode_cases:
  assumes "fs_base k"
  obtains (full) "fs_alloc_inode k = Ok (-1, k)" "\<And>i. is_inode i \<Longrightarrow> i \<noteq> 0 \<Longrightarrow> used_inode k i"
  | (got) i where "fs_alloc_inode k = Ok (i, set_ibm (put_bit (f_ibm (k_fs k)) (unat i)) k)"
      "is_inode i" "\<not> used_inode k i" "i \<noteq> -1" "i \<noteq> 0"
proof -
  let ?f = "k_fs k" and ?n = "sb_inode_count (sb_of k)"
  have b: "f_ibm_ptr ?f \<noteq> 0" "length (f_ibm ?f) = 32" "unat ?n = 256"
    using assms by (auto simp: fs_base_def geom_ok_def Let_def FS_INODE_COUNT_def)
  have s: "scan_free (f_ibm_ptr ?f) (f_ibm ?f) ?n = Ok (first_in (\<lambda>i. \<not> test_bit (f_ibm ?f) i) 1 256)"
    using b scan_free_first [of "f_ibm_ptr ?f" ?n "f_ibm ?f"] by simp
  show thesis
  proof (cases "first_in (\<lambda>i. \<not> test_bit (f_ibm ?f) i) 1 256")
    case None
    have "fs_alloc_inode k = Ok (-1, k)" using b s None by (simp add: fs_alloc_inode_def Let_def sb_of_def)
    moreover have "used_inode k i" if "is_inode i" "i \<noteq> 0" for i
      using None that by (auto simp: first_in_None_iff is_inode_def used_inode_def FS_INODE_COUNT_def word_unat_eq_iff)
    ultimately show ?thesis by (rule full)
  next
    case (Some i)
    then have i: "1 \<le> i" "i < 256" "\<not> test_bit (f_ibm ?f) i" by (auto simp: first_in_Some_iff)
    then have u: "unat (of_nat i :: u32) = i" by (simp add: unat_of_nat)
    show ?thesis
    proof (rule got [of "of_nat i"])
      show "fs_alloc_inode k = Ok (of_nat i, set_ibm (put_bit (f_ibm ?f) (unat (of_nat i :: u32))) k)"
        using b s Some i u by (simp add: fs_alloc_inode_def Let_def sb_of_def bit_set_def in_map_def set_ibm_def)
      show "is_inode (of_nat i)" "\<not> used_inode k (of_nat i)"
        using i u by (simp_all add: is_inode_def used_inode_def FS_INODE_COUNT_def)
      show "of_nat i \<noteq> (-1 :: u32)"
      proof
        assume "of_nat i = (-1 :: u32)"
        then have "i = 4294967295" using u minus_one_u32 by simp
        then show False using i by simp
      qed
      show "of_nat i \<noteq> (0 :: u32)" using u i by (metis not_one_le_zero unat_0)
    qed
  qed
qed

lemma free_cluster_ok:
  assumes "fs_base k" "is_cluster k c"
  shows "fs_free_cluster c k = Ok (set_cbm (clear_bit (f_cbm (k_fs k)) (unat c)) k)"
  using assms cluster_in_map [OF assms(1), of c]
  by (simp add: fs_free_cluster_def is_cluster_def word_less_nat_alt bit_clr_def in_map_def fs_base_def set_cbm_def)

end
