(* ===== verification/FsFiles.thy ===== *)
theory FsFiles
  imports FsDisk
begin

unbundle bit_operations_syntax

text \<open>
  What a mounted file system is: a finite map from names to contents, kept in a directory block, the inode
  table and clusters that nobody shares. Each operation is shown to act on that map.
\<close>

section \<open>Files over an inode table and a data area\<close>

definition file_bytes :: "fs_inode \<Rightarrow> (u32 \<Rightarrow> block) \<Rightarrow> u8 list" where
  "file_bytes x g = take (unat (i_size x)) (concat (map (\<lambda>j. g (i_blocks x ! j)) [0..<(unat (i_size x) + 511) div 512]))"

definition own :: "fs_inode \<Rightarrow> u32 set" where
  "own x = {c \<in> set (i_blocks x). c \<noteq> 0}"

text \<open>The blocks in use are those the size needs.\<close>

definition sized :: "fs_inode \<Rightarrow> bool" where
  "sized x \<longleftrightarrow> unat (i_size x) \<le> 5120 \<and> (\<forall>j<10. i_blocks x ! j \<noteq> 0 \<longleftrightarrow> j * 512 < unat (i_size x))"

lemma sized_own:
  assumes "sized x" "inode_shape x" "j < (unat (i_size x) + 511) div 512"
  shows "i_blocks x ! j \<in> own x"
proof -
  have j: "j * 512 < unat (i_size x)" "j < 10" using assms by (auto simp: sized_def)
  then have "i_blocks x ! j \<noteq> 0" using assms(1) by (auto simp: sized_def)
  moreover have "i_blocks x ! j \<in> set (i_blocks x)" using j assms(2) by (simp add: inode_shape_def FS_MAX_BLOCKS_def)
  ultimately show ?thesis by (simp add: own_def)
qed

lemma file_bytes_cong:
  assumes "sized x" "inode_shape x" "\<And>c. c \<in> own x \<Longrightarrow> g c = h c"
  shows "file_bytes x g = file_bytes x h"
proof -
  have m: "map (\<lambda>j. g (i_blocks x ! j)) [0..<(unat (i_size x) + 511) div 512]
      = map (\<lambda>j. h (i_blocks x ! j)) [0..<(unat (i_size x) + 511) div 512]"
    using sized_own [OF assms(1,2)] assms(3) by (intro map_cong refl) auto
  show ?thesis unfolding file_bytes_def m ..
qed

text \<open>The two arrays the file operations rely on, and what follows for the contents of files.\<close>

locale file_store =
  fixes geti :: "'s \<Rightarrow> u32 \<Rightarrow> fs_inode" and puti :: "u32 \<Rightarrow> fs_inode \<Rightarrow> 's \<Rightarrow> 's"
    and getc :: "'s \<Rightarrow> u32 \<Rightarrow> block" and putc :: "u32 \<Rightarrow> block \<Rightarrow> 's \<Rightarrow> 's"
    and good :: "'s \<Rightarrow> bool" and isi :: "u32 \<Rightarrow> bool" and isc :: "'s \<Rightarrow> u32 \<Rightarrow> bool"
  assumes geti_puti: "good s \<Longrightarrow> isi i \<Longrightarrow> isi j \<Longrightarrow> inode_shape x \<Longrightarrow> geti (puti i x s) j = (if j = i then x else geti s j)"
    and getc_puti: "good s \<Longrightarrow> isi i \<Longrightarrow> isc s c \<Longrightarrow> inode_shape x \<Longrightarrow> getc (puti i x s) c = getc s c"
    and geti_putc: "good s \<Longrightarrow> isi i \<Longrightarrow> isc s c \<Longrightarrow> length b = 512 \<Longrightarrow> geti (putc c b s) i = geti s i"
    and getc_putc: "good s \<Longrightarrow> isc s c \<Longrightarrow> isc s d \<Longrightarrow> length b = 512 \<Longrightarrow> getc (putc c b s) d = (if d = c then b else getc s d)"
begin

lemma file_puti_same:
  assumes "good s" "isi i" "inode_shape x" "sized x" "\<And>c. c \<in> own x \<Longrightarrow> isc s c"
  shows "file_bytes (geti (puti i x s) i) (getc (puti i x s)) = file_bytes x (getc s)"
  using assms getc_puti geti_puti [OF assms(1,2,2,3)] by (auto intro: file_bytes_cong)

lemma file_puti_other:
  assumes "good s" "isi i" "isi j" "i \<noteq> j" "inode_shape x" "inode_shape (geti s j)" "sized (geti s j)"
    and "\<And>c. c \<in> own (geti s j) \<Longrightarrow> isc s c"
  shows "file_bytes (geti (puti i x s) j) (getc (puti i x s)) = file_bytes (geti s j) (getc s)"
  using assms getc_puti geti_puti [OF assms(1-3,5)] by (auto intro: file_bytes_cong)

lemma file_putc_other:
  assumes "good s" "isi j" "isc s c" "length b = 512" "inode_shape (geti s j)" "sized (geti s j)"
    and "\<And>c. c \<in> own (geti s j) \<Longrightarrow> isc s c" "c \<notin> own (geti s j)"
  shows "file_bytes (geti (putc c b s) j) (getc (putc c b s)) = file_bytes (geti s j) (getc s)"
  unfolding geti_putc [OF assms(1-4)] using assms getc_putc by (intro file_bytes_cong) auto

end

interpretation disk: file_store "\<lambda>k i. read_inode i k" write_inode cluster put_cluster "\<lambda>k. disk_ok k \<and> geom_ok k" is_inode is_cluster
  by unfold_locales (auto simp: read_write_inode cluster_write_inode read_inode_put_cluster cluster_put_cluster)

section \<open>The invariant\<close>

definition ename :: "fs_dirent \<Rightarrow> u8 list" where
  "ename d = take (unat (d_namelen d)) (d_name d)"

definition dirents :: "kernel \<Rightarrow> fs_dirent list" where
  "dirents k = (if i_size (read_inode 0 k) = 0 then [] else dec_dir (cluster k (i_blocks (read_inode 0 k) ! 0)))"

lemma dirents_length: "disk_ok k \<Longrightarrow> i_size (read_inode 0 k) \<noteq> 0 \<Longrightarrow> length (dirents k) = 16"
  using dec_dir_shape [OF disk_read_length] by (simp add: dirents_def cluster_def)

definition live_ents :: "fs_dirent list \<Rightarrow> fs_dirent set" where
  "live_ents ds = {d \<in> set ds. d_inode d \<noteq> 0}"

definition files :: "fs_dirent list \<Rightarrow> u32 set" where
  "files ds = insert 0 (d_inode ` live_ents ds)"

text \<open>Entries in use have a proper inode and name, and share neither.\<close>

definition dir_ok :: "fs_dirent list \<Rightarrow> bool" where
  "dir_ok ds \<longleftrightarrow>
     (\<forall>d\<in>set ds. dirent_shape d) \<and> (\<forall>d\<in>live_ents ds. is_inode (d_inode d) \<and> 0 < unat (d_namelen d) \<and> unat (d_namelen d) \<le> FS_NAME_MAX)
   \<and> (\<forall>i<length ds. \<forall>j<length ds. ds ! i \<in> live_ents ds \<longrightarrow> ds ! j \<in> live_ents ds
        \<longrightarrow> d_inode (ds ! i) = d_inode (ds ! j) \<or> ename (ds ! i) = ename (ds ! j) \<longrightarrow> i = j)"

text \<open>The inodes \<open>g\<close> of the files in \<open>I\<close> have clusters of their own, marked as taken.\<close>

definition owned :: "(u32 \<Rightarrow> fs_inode) \<Rightarrow> u32 set \<Rightarrow> kernel \<Rightarrow> bool" where
  "owned g I k \<longleftrightarrow>
     (\<forall>i\<in>I. inode_shape (g i) \<and> (\<forall>c\<in>own (g i). is_cluster k c \<and> used_cluster k c)
        \<and> (\<forall>m<10. \<forall>n<10. i_blocks (g i) ! m \<noteq> 0 \<longrightarrow> i_blocks (g i) ! m = i_blocks (g i) ! n \<longrightarrow> m = n))
   \<and> (\<forall>i\<in>I. \<forall>j\<in>I. i \<noteq> j \<longrightarrow> own (g i) \<inter> own (g j) = {})"

definition fs_ok :: "kernel \<Rightarrow> bool" where
  "fs_ok k \<longleftrightarrow> fs_base k \<and> unat (i_size (read_inode 0 k)) \<in> {0, 512} \<and> dir_ok (dirents k)
     \<and> (\<forall>d\<in>live_ents (dirents k). used_inode k (d_inode d)) \<and> used_inode k 0
     \<and> (\<forall>i\<in>files (dirents k). sized (read_inode i k)) \<and> owned (\<lambda>i. read_inode i k) (files (dirents k)) k"

text \<open>The abstract file system.\<close>

definition fs_dir :: "kernel \<Rightarrow> u8 list \<Rightarrow> u32 option" where
  "fs_dir k nm = map_option d_inode (List.find (\<lambda>d. d_inode d \<noteq> 0 \<and> ename d = nm) (dirents k))"

definition fs_files :: "kernel \<Rightarrow> u8 list \<Rightarrow> u8 list option" where
  "fs_files k nm = map_option (\<lambda>i. file_bytes (read_inode i k) (cluster k)) (fs_dir k nm)"

lemma fs_okD:
  assumes "fs_ok k"
  shows "fs_base k" "disk_ok k" "geom_ok k" "disk_ok k \<and> geom_ok k" "dir_ok (dirents k)"
    "\<And>d. d \<in> live_ents (dirents k) \<Longrightarrow> used_inode k (d_inode d)"
    "\<And>i. i \<in> files (dirents k) \<Longrightarrow> sized (read_inode i k)"
    "owned (\<lambda>i. read_inode i k) (files (dirents k)) k" "unat (i_size (read_inode 0 k)) \<in> {0, 512}" "used_inode k 0"
  using assms by (simp_all add: fs_ok_def fs_base_def)

lemma ownedD:
  assumes "owned g I k" "i \<in> I"
  shows "inode_shape (g i)" "\<And>c. c \<in> own (g i) \<Longrightarrow> is_cluster k c" "\<And>c. c \<in> own (g i) \<Longrightarrow> used_cluster k c"
    "\<And>j. j \<in> I \<Longrightarrow> j \<noteq> i \<Longrightarrow> own (g i) \<inter> own (g j) = {}"
    "\<And>m n. m < 10 \<Longrightarrow> n < 10 \<Longrightarrow> i_blocks (g i) ! m \<noteq> 0 \<Longrightarrow> i_blocks (g i) ! m = i_blocks (g i) ! n \<Longrightarrow> m = n"
  using assms unfolding owned_def by blast+

lemma files_inode: "fs_ok k \<Longrightarrow> i \<in> files (dirents k) \<Longrightarrow> is_inode i"
  using fs_okD(5) [of k] by (auto simp: files_def dir_ok_def is_inode_def FS_INODE_COUNT_def)

lemma ename_length: "dir_ok ds \<Longrightarrow> d \<in> live_ents ds \<Longrightarrow> length (ename d) = unat (d_namelen d)"
  by (auto simp: dir_ok_def ename_def live_ents_def dirent_shape_def)

text \<open>Because names are unique, it does not matter in which order the directory is searched.\<close>

lemma find_unique:
  assumes "\<And>i j. i < length xs \<Longrightarrow> j < length xs \<Longrightarrow> P (xs ! i) \<Longrightarrow> P (xs ! j) \<Longrightarrow> i = j"
  shows "List.find P xs = Some x \<longleftrightarrow> x \<in> set xs \<and> P x"
proof
  assume "x \<in> set xs \<and> P x"
  then obtain i where i: "i < length xs" "xs ! i = x" "P x" by (auto simp: in_set_conv_nth)
  then have "\<not> P (xs ! j)" if "j < i" for j using assms [of i j] that by auto
  with i show "List.find P xs = Some x" by (auto simp: find_Some_iff)
qed (auto simp: find_Some_iff)

lemma dir_find:
  assumes "dir_ok ds"
  shows "List.find (\<lambda>d. d_inode d \<noteq> 0 \<and> ename d = nm) ds = Some d \<longleftrightarrow> d \<in> live_ents ds \<and> ename d = nm"
proof -
  have "i = j" if "i < length ds" "j < length ds" "d_inode (ds ! i) \<noteq> 0 \<and> ename (ds ! i) = nm"
    "d_inode (ds ! j) \<noteq> 0 \<and> ename (ds ! j) = nm" for i j
    using assms that by (auto simp: dir_ok_def live_ents_def)
  then show ?thesis by (subst find_unique) (auto simp: live_ents_def)
qed

lemma fs_dir_Some:
  assumes "fs_ok k"
  shows "fs_dir k nm = Some i \<longleftrightarrow> (\<exists>d\<in>live_ents (dirents k). ename d = nm \<and> d_inode d = i)"
  using dir_find [OF fs_okD(5) [OF assms]] by (auto simp: fs_dir_def)

lemma fs_dir_file:
  assumes "fs_ok k" "fs_dir k nm = Some i"
  shows "i \<in> files (dirents k)" "i \<noteq> 0" "is_inode i"
proof -
  obtain d where d: "d \<in> live_ents (dirents k)" "d_inode d = i" using assms(2) fs_dir_Some [OF assms(1)] by blast
  then show i: "i \<in> files (dirents k)" by (auto simp: files_def)
  show "i \<noteq> 0" using d by (auto simp: live_ents_def)
  show "is_inode i" by (rule files_inode [OF assms(1) i])
qed

lemma fs_dir_cong: "dirents k' = dirents k \<Longrightarrow> fs_dir k' = fs_dir k"
  by (simp add: fs_dir_def fun_eq_iff)

section \<open>Changes that leave the files alone\<close>

lemma read_inode_upd [simp]:
  "f_sb (f (k_fs k)) = f_sb (k_fs k) \<Longrightarrow> read_inode i (upd_fs f k) = read_inode i k"
  "f_sb (f (k_fs k)) = f_sb (k_fs k) \<Longrightarrow> cluster (upd_fs f k) c = cluster k c"
  "f_sb (f (k_fs k)) = f_sb (k_fs k) \<Longrightarrow> sb_of (upd_fs f k) = sb_of k"
  "f_sb (f (k_fs k)) = f_sb (k_fs k) \<Longrightarrow> dirents (upd_fs f k) = dirents k"
  by (simp_all add: read_inode_def inode_lba_def sb_of_def cluster_def dirents_def)

lemma upd_rest [simp]:
  "f_sb (f (k_fs k)) = f_sb (k_fs k) \<Longrightarrow> is_cluster (upd_fs f k) c = is_cluster k c"
  "f_sb (f (k_fs k)) = f_sb (k_fs k) \<Longrightarrow> geom_ok (upd_fs f k) = geom_ok k"
  by (simp_all add: is_cluster_def geom_ok_def)

lemma fs_files_upd [simp]:
  "f_sb (f (k_fs k)) = f_sb (k_fs k) \<Longrightarrow> fs_dir (upd_fs f k) = fs_dir k"
  "f_sb (f (k_fs k)) = f_sb (k_fs k) \<Longrightarrow> fs_files (upd_fs f k) = fs_files k"
  by (simp_all add: fs_files_def fs_dir_def fun_eq_iff cong: map_option_cong) (simp add: ext [of "cluster (upd_fs f k)" "cluster k"])

lemma root_load_ok: "fs_ok (root_load k) = fs_ok k"
  by (simp add: root_load_def fs_ok_def fs_base_def used_inode_def used_cluster_def owned_def)

lemma owned_cbm:
  assumes "owned g I k" "\<And>i c. i \<in> I \<Longrightarrow> c \<in> own (g i) \<Longrightarrow> test_bit bm (unat c)"
  shows "owned g I (set_cbm bm k)"
  using assms by (auto simp: owned_def set_cbm_def used_cluster_def)

lemma owned_cong: "(\<And>i. i \<in> I \<Longrightarrow> g i = h i) \<Longrightarrow> owned g I k = owned h I k"
  by (simp add: owned_def)

lemma put_cluster_sels [simp]:
  "is_cluster (put_cluster c b k) d = is_cluster k d" "used_cluster (put_cluster c b k) d = used_cluster k d"
  "used_inode (put_cluster c b k) i = used_inode k i" "owned g I (put_cluster c b k) = owned g I k"
  "geom_ok (put_cluster c b k) = geom_ok k"
  by (simp_all add: is_cluster_def used_cluster_def used_inode_def owned_def geom_ok_def)

lemma write_inode_sels [simp]:
  "is_cluster (write_inode i x k) d = is_cluster k d" "used_cluster (write_inode i x k) d = used_cluster k d"
  "used_inode (write_inode i x k) j = used_inode k j" "owned g I (write_inode i x k) = owned g I k"
  "geom_ok (write_inode i x k) = geom_ok k"
  by (simp_all add: is_cluster_def used_cluster_def used_inode_def owned_def geom_ok_def)

lemma fs_base_writes: "fs_base k \<Longrightarrow> fs_base (put_cluster c b k)" "fs_base k \<Longrightarrow> fs_base (write_inode i x k)"
  by (simp_all add: fs_base_def put_cluster_ok write_inode_ok)

section \<open>Looking up a name\<close>

lemma files_root [simp]: "0 \<in> files ds"
  by (simp add: files_def)

lemma root_cases:
  assumes "fs_ok k"
  obtains (empty) "i_size (read_inode 0 k) = 0" "\<And>j. j < 10 \<Longrightarrow> i_blocks (read_inode 0 k) ! j = 0" "dirents k = []"
  | (dir) c where "unat (i_size (read_inode 0 k)) = 512" "i_blocks (read_inode 0 k) ! 0 = c" "c \<noteq> 0"
      "\<And>j. 0 < j \<Longrightarrow> j < 10 \<Longrightarrow> i_blocks (read_inode 0 k) ! j = 0" "c \<in> own (read_inode 0 k)" "is_cluster k c"
      "dirents k = dec_dir (cluster k c)"
proof -
  let ?r = "read_inode 0 k"
  have s: "sized ?r" using fs_okD(7) [OF assms, of 0] by simp
  have o: "inode_shape ?r" "\<And>c. c \<in> own ?r \<Longrightarrow> is_cluster k c"
    using ownedD(1,2) [OF fs_okD(8) [OF assms], of 0] by simp_all
  consider "unat (i_size ?r) = 0" | "unat (i_size ?r) = 512" using fs_okD(9) [OF assms] by auto
  then show thesis
  proof cases
    case 1
    then have "i_size ?r = 0" by (simp add: unat_eq_zero)
    then show ?thesis using s by (intro empty) (auto simp: sized_def dirents_def)
  next
    case 2
    let ?c = "i_blocks ?r ! 0"
    have c: "?c \<noteq> 0" "\<And>j. 0 < j \<Longrightarrow> j < 10 \<Longrightarrow> i_blocks ?r ! j = 0" using s 2 by (auto simp: sized_def)
    have "?c \<in> set (i_blocks ?r)" using o(1) by (simp add: inode_shape_def FS_MAX_BLOCKS_def)
    then have own: "?c \<in> own ?r" using c(1) by (simp add: own_def)
    have "i_size ?r \<noteq> 0" using 2 by auto
    then show ?thesis using c own o(2) 2 by (intro dir [of ?c]) (auto simp: dirents_def)
  qed
qed

definition named :: "u8 list \<Rightarrow> fs_dirent \<Rightarrow> bool" where
  "named nm d \<longleftrightarrow> d_inode d \<noteq> 0 \<and> ename d = nm"

lemma dir_match_ok:
  assumes "dirent_shape d" "d_inode d \<noteq> 0 \<Longrightarrow> unat (d_namelen d) \<le> FS_NAME_MAX"
  shows "dir_match nm d = Ok (named nm d)"
  using assms by (auto simp: dir_match_def named_def ename_def dirent_shape_def)

lemma find_entry_ok:
  assumes "\<And>d. d \<in> set ds \<Longrightarrow> dirent_shape d \<and> (d_inode d \<noteq> 0 \<longrightarrow> unat (d_namelen d) \<le> FS_NAME_MAX)"
  shows "(\<exists>i<length ds. named nm (ds ! i) \<and> find_entry nm e ds = Ok (Some (e + i, ds ! i)))
       \<or> (\<forall>d\<in>set ds. \<not> named nm d) \<and> find_entry nm e ds = Ok None"
  using assms
proof (induction ds arbitrary: e)
  case (Cons d ds)
  have m: "dir_match nm d = Ok (named nm d)" using Cons.prems [of d] by (intro dir_match_ok) auto
  show ?case
  proof (cases "named nm d")
    case True
    then show ?thesis using m by (intro disjI1 exI [of _ 0]) simp
  next
    case False
    consider i where "i < length ds" "named nm (ds ! i)" "find_entry nm (Suc e) ds = Ok (Some (Suc e + i, ds ! i))"
      | "\<forall>d\<in>set ds. \<not> named nm d" "find_entry nm (Suc e) ds = Ok None"
      using Cons.IH [of "Suc e"] Cons.prems by auto
    then show ?thesis
    proof cases
      case 1
      then show ?thesis using m False by (intro disjI1 exI [of _ "Suc i"]) simp
    next
      case 2
      then show ?thesis using m False by simp
    qed
  qed
qed simp

lemma cluster_read_ok: "is_cluster k c \<Longrightarrow> fs_cluster_read c k = Some (cluster k c)"
  by (simp add: fs_cluster_read_def is_cluster_def cluster_def word_le_nat_alt)

lemma cluster_write_ok: "is_cluster k c \<Longrightarrow> fs_cluster_write c b k = (0, put_cluster c b k)"
  by (simp add: fs_cluster_write_def is_cluster_def put_cluster_def word_le_nat_alt)

lemma blocks_upt: "[0..<FS_MAX_BLOCKS] = 0 # 1 # [2..<10]"
  by (simp add: FS_MAX_BLOCKS_def upt_rec)

lemma dir_walk_ok:
  assumes "fs_ok k" "f_root (k_fs k) = read_inode 0 k"
  shows "(\<exists>e<length (dirents k). named nm (dirents k ! e) \<and> dir_walk nm [0..<FS_MAX_BLOCKS] k = Ok (Some (0, e, dirents k ! e)))
       \<or> (\<forall>d\<in>set (dirents k). \<not> named nm d) \<and> dir_walk nm [0..<FS_MAX_BLOCKS] k = Ok None"
  using assms(1)
proof (cases rule: root_cases)
  case empty
  then show ?thesis using assms(2) by (simp add: blocks_upt root_block_def)
next
  case (dir c)
  have d: "dir_ok (dirents k)" by (rule fs_okD(5) [OF assms(1)])
  have "dirent_shape d \<and> (d_inode d \<noteq> 0 \<longrightarrow> unat (d_namelen d) \<le> FS_NAME_MAX)" if "d \<in> set (dirents k)" for d
    using d that by (auto simp: dir_ok_def live_ents_def)
  then show ?thesis using find_entry_ok [of "dirents k" nm 0] dir assms(2)
    by (auto simp: blocks_upt root_block_def cluster_read_ok)
qed

lemma root_loaded [simp]: "f_root (k_fs (root_load k)) = read_inode (sb_root_inode (sb_of k)) k"
  by (simp add: root_load_def sb_of_def)

lemma root_load_sel [simp]:
  "read_inode i (root_load k) = read_inode i k" "dirents (root_load k) = dirents k" "fs_dir (root_load k) = fs_dir k"
  "fs_files (root_load k) = fs_files k" "sb_of (root_load k) = sb_of k" "cluster (root_load k) c = cluster k c"
  "is_cluster (root_load k) c = is_cluster k c" "used_cluster (root_load k) c = used_cluster k c"
  "used_inode (root_load k) i = used_inode k i" "f_mounted (k_fs (root_load k)) = f_mounted (k_fs k)" "k_ticks (root_load k) = k_ticks k"
  by (simp_all add: root_load_def used_cluster_def used_inode_def)

lemma root_inode_0: "fs_ok k \<Longrightarrow> sb_root_inode (sb_of k) = 0"
  by (drule fs_okD(3)) (simp add: geom_ok_def Let_def)

lemma inode_sint: "is_inode i \<Longrightarrow> sint i = uint i"
proof -
  assume "is_inode i"
  then have "int (unat i) < int 256" unfolding of_nat_less_iff by (simp add: is_inode_def FS_INODE_COUNT_def)
  then have "uint i < 256" by simp
  then have "signed_take_bit 31 (uint i) = uint i" using order_trans [of "- (2 ^ 31)" 0 "uint i"] by (intro signed_take_bit_int_eq_self) simp_all
  then show "sint i = uint i" by (simp add: sint_uint)
qed

lemma dir_walk_dir:
  assumes "fs_ok k" "f_root (k_fs k) = read_inode 0 k"
  shows "map_res (map_option (\<lambda>(bi, e, d). d_inode d)) (dir_walk nm [0..<FS_MAX_BLOCKS] k) = Ok (fs_dir k nm)"
proof -
  note d = fs_dir_Some [OF assms(1), of nm]
  show ?thesis
    using dir_walk_ok [OF assms, of nm]
  proof
    assume "\<exists>e<length (dirents k). named nm (dirents k ! e) \<and> dir_walk nm [0..<FS_MAX_BLOCKS] k = Ok (Some (0, e, dirents k ! e))"
    then obtain e where e: "e < length (dirents k)" "named nm (dirents k ! e)"
      "dir_walk nm [0..<FS_MAX_BLOCKS] k = Ok (Some (0, e, dirents k ! e))" by blast
    then have "fs_dir k nm = Some (d_inode (dirents k ! e))" unfolding d using nth_mem [OF e(1)] by (intro bexI [of _ "dirents k ! e"]) (auto simp: named_def live_ents_def)
    then show ?thesis using e by simp
  next
    assume n: "(\<forall>d\<in>set (dirents k). \<not> named nm d) \<and> dir_walk nm [0..<FS_MAX_BLOCKS] k = Ok None"
    then have "fs_dir k nm \<noteq> Some i" for i unfolding d by (auto simp: named_def live_ents_def)
    then show ?thesis using n by (cases "fs_dir k nm") auto
  qed
qed

lemma fs_lookup_ok:
  assumes "fs_ok k"
  shows "fs_lookup name k = Ok (case fs_dir k (asc name) of Some i \<Rightarrow> uint i | None \<Rightarrow> -1, root_load k)"
proof -
  let ?k = "root_load k"
  have k: "fs_ok ?k" "f_root (k_fs ?k) = read_inode 0 ?k" using assms root_inode_0 [OF assms] by (simp_all add: root_load_ok)
  have m: "f_mounted (k_fs k)" using fs_okD(1) [OF assms] by (simp add: fs_base_def)
  obtain r where r: "dir_walk (asc name) [0..<FS_MAX_BLOCKS] ?k = Ok r" "map_option (\<lambda>(bi, e, d). d_inode d) r = fs_dir k (asc name)"
    using dir_walk_dir [OF k, of "asc name"] by (cases "dir_walk (asc name) [0..<FS_MAX_BLOCKS] ?k") auto
  show ?thesis
  proof (cases r)
    case None
    then show ?thesis using r m by (auto simp: fs_lookup_def Let_def)
  next
    case (Some q)
    obtain bi e d where q: "q = (bi, e, d)" by (cases q)
    have "fs_dir k (asc name) = Some (d_inode d)" using r(2) Some q by simp
    then have "d_inode d \<in> files (dirents k)" using fs_dir_file [OF assms] by blast
    then have "sint (d_inode d) = uint (d_inode d)" using files_inode [OF assms] inode_sint by blast
    then show ?thesis using \<open>fs_dir k (asc name) = Some (d_inode d)\<close> r m Some q by (auto simp: fs_lookup_def Let_def)
  qed
qed

section \<open>Creating a file\<close>

text \<open>Taking an inode number, and filling in an inode that no file has, change no file.\<close>

lemma take_inode_ok:
  assumes "fs_ok k" "is_inode i"
  shows "fs_ok (set_ibm (put_bit (f_ibm (k_fs k)) (unat i)) k)" (is "fs_ok ?k")
    "used_inode (set_ibm (put_bit (f_ibm (k_fs k)) (unat i)) k) i"
proof -
  have "unat i div 8 < length (f_ibm (k_fs k))"
    using assms fs_okD(1) [OF assms(1)] by (auto simp: fs_base_def is_inode_def FS_INODE_COUNT_def)
  then have u: "used_inode ?k j \<longleftrightarrow> j = i \<or> used_inode k j" for j
    by (auto simp: used_inode_def set_ibm_def test_put_bit word_unat_eq_iff)
  then show "used_inode ?k i" by simp
  have "used_cluster ?k c = used_cluster k c" for c by (simp add: used_cluster_def set_ibm_def)
  then show "fs_ok ?k" using assms(1) u by (simp add: fs_ok_def fs_base_def owned_def) (simp add: set_ibm_def)
qed

lemma dirents_write_inode:
  assumes "fs_ok k" "is_inode i" "i \<noteq> 0" "inode_shape x"
  shows "dirents (write_inode i x k) = dirents k"
  using assms(1)
proof (cases rule: root_cases)
  case empty
  then show ?thesis using disk.geti_puti [OF fs_okD(4) [OF assms(1)] assms(2) _ assms(4), of 0] assms(3)
    by (simp add: dirents_def is_inode_def FS_INODE_COUNT_def)
next
  case (dir c)
  then show ?thesis using disk.geti_puti [OF fs_okD(4) [OF assms(1)] assms(2) _ assms(4), of 0] assms(3)
      disk.getc_puti [OF fs_okD(4) [OF assms(1)] assms(2) dir(6) assms(4)]
    by (auto simp: dirents_def is_inode_def FS_INODE_COUNT_def)
qed

lemma fresh_inode_ok:
  assumes "fs_ok k" "is_inode i" "i \<notin> files (dirents k)" "inode_shape x"
  shows "fs_ok (write_inode i x k)" "dirents (write_inode i x k) = dirents k" "fs_files (write_inode i x k) = fs_files k"
proof -
  let ?k = "write_inode i x k"
  have i0: "i \<noteq> 0" using assms(3) by auto
  show d: "dirents ?k = dirents k" by (rule dirents_write_inode [OF assms(1,2) i0 assms(4)])
  have r: "read_inode j ?k = read_inode j k" if "j \<in> files (dirents k)" for j
    using disk.geti_puti [OF fs_okD(4) [OF assms(1)] assms(2) files_inode [OF assms(1) that] assms(4)] assms(3) that by auto
  have o: "owned (\<lambda>j. read_inode j ?k) (files (dirents k)) k = owned (\<lambda>j. read_inode j k) (files (dirents k)) k"
    using r by (rule owned_cong)
  show "fs_ok ?k" using assms(1) d r o fs_base_writes(2) by (simp add: fs_ok_def)
  have "file_bytes (read_inode j ?k) (cluster ?k) = file_bytes (read_inode j k) (cluster k)" if "fs_dir k nm = Some j" for nm j
  proof -
    note j = fs_dir_file [OF assms(1) that]
    show ?thesis using disk.file_puti_other [OF fs_okD(4) [OF assms(1)] assms(2) j(3) _ assms(4)] assms(3) j(1)
        ownedD(1,2) [OF fs_okD(8) [OF assms(1)] j(1)] fs_okD(7) [OF assms(1) j(1)] by auto
  qed
  then show "fs_files ?k = fs_files k" using fs_dir_cong [OF d] by (auto simp: fs_files_def fun_eq_iff intro!: option.map_cong0)
qed

text \<open>Rewriting the directory block: what the new entries need.\<close>

lemma put_dir:
  assumes "fs_ok k" "i_size (read_inode 0 k) \<noteq> 0" "c = i_blocks (read_inode 0 k) ! 0"
    and "length ds = 16" "\<And>d. d \<in> set ds \<Longrightarrow> dirent_shape d"
    and "dir_ok ds" "\<And>d. d \<in> live_ents ds \<Longrightarrow> used_inode k (d_inode d)" "\<And>i. i \<in> files ds \<Longrightarrow> sized (read_inode i k)"
    and "owned (\<lambda>i. read_inode i k) (files ds) k"
  shows "fs_ok (put_cluster c (enc_dir ds) k)" "dirents (put_cluster c (enc_dir ds) k) = ds"
    "fs_files (put_cluster c (enc_dir ds) k) nm
       = map_option (\<lambda>d. file_bytes (read_inode (d_inode d) k) (cluster k)) (List.find (\<lambda>d. d_inode d \<noteq> 0 \<and> ename d = nm) ds)"
proof -
  let ?k = "put_cluster c (enc_dir ds) k"
  have c: "is_cluster k c" "c \<in> own (read_inode 0 k)" using assms(1-3) by (cases rule: root_cases; simp)+
  note g = fs_okD(4) [OF assms(1)]
  have l: "length (enc_dir ds) = 512" "dec_dir (enc_dir ds) = ds" using dec_enc_dir [of ds] assms(4,5) by auto
  have r: "read_inode i ?k = read_inode i k" if "is_inode i" for i by (rule disk.geti_putc [OF g that c(1) l(1)])
  have i: "is_inode i" if "i \<in> files ds" for i using that assms(6) by (auto simp: files_def dir_ok_def is_inode_def FS_INODE_COUNT_def)
  have r0: "read_inode 0 ?k = read_inode 0 k" by (rule r) (simp add: is_inode_def FS_INODE_COUNT_def)
  show d: "dirents ?k = ds" using assms(2,3) r0 disk.getc_putc [OF g c(1,1) l(1)] l(2) by (simp add: dirents_def)
  have o: "owned (\<lambda>i. read_inode i ?k) (files ds) k" using owned_cong [of "files ds" "\<lambda>i. read_inode i ?k"] r i assms(9) by simp
  show "fs_ok ?k" unfolding fs_ok_def d
    using fs_base_writes(1) [OF fs_okD(1) [OF assms(1)]] fs_okD(9,10) [OF assms(1)] assms(6-8) o r i r0 by simp
  have "file_bytes (read_inode (d_inode e) ?k) (cluster ?k) = file_bytes (read_inode (d_inode e) k) (cluster k)" if "e \<in> live_ents ds" for e
  proof -
    have e: "d_inode e \<in> files ds" "d_inode e \<noteq> 0" using that by (auto simp: files_def live_ents_def)
    have "c \<notin> own (read_inode (d_inode e) k)" using ownedD(4) [OF assms(9) files_root e(1,2)] c(2) by blast
    then show ?thesis
      using disk.file_putc_other [OF g i [OF e(1)] c(1) l(1)] ownedD(1,2) [OF assms(9) e(1)] assms(8) [OF e(1)] by auto
  qed
  moreover have "e \<in> live_ents ds" if "List.find (\<lambda>d. d_inode d \<noteq> 0 \<and> ename d = nm) ds = Some e" for e nm
    using that dir_find [OF assms(6)] by blast
  ultimately show "fs_files ?k nm
       = map_option (\<lambda>d. file_bytes (read_inode (d_inode d) k) (cluster k)) (List.find (\<lambda>d. d_inode d \<noteq> 0 \<and> ename d = nm) ds)"
    unfolding fs_files_def fs_dir_def d by (cases "List.find (\<lambda>d. d_inode d \<noteq> 0 \<and> ename d = nm) ds") auto
qed

lemma take_cluster_sels:
  assumes "fs_base k" "is_cluster k c"
  shows "used_cluster (set_cbm (put_bit (f_cbm (k_fs k)) (unat c)) k) d \<longleftrightarrow> d = c \<or> used_cluster k d"
    "used_inode (set_cbm (put_bit (f_cbm (k_fs k)) (unat c)) k) i = used_inode k i"
    "fs_base (set_cbm (put_bit (f_cbm (k_fs k)) (unat c)) k)"
  using assms cluster_in_map [OF assms(1), of c]
  by (auto simp: is_cluster_def used_cluster_def used_inode_def set_cbm_def test_put_bit word_unat_eq_iff fs_base_def)

lemma set_cbm_sel [simp]:
  "read_inode i (set_cbm bm k) = read_inode i k" "cluster (set_cbm bm k) c = cluster k c" "sb_of (set_cbm bm k) = sb_of k"
  "dirents (set_cbm bm k) = dirents k" "is_cluster (set_cbm bm k) c = is_cluster k c" "geom_ok (set_cbm bm k) = geom_ok k"
  "disk_ok (set_cbm bm k) = disk_ok k" "fs_dir (set_cbm bm k) = fs_dir k" "fs_files (set_cbm bm k) = fs_files k"
  "k_ticks (set_cbm bm k) = k_ticks k" "f_root (k_fs (set_cbm bm k)) = f_root (k_fs k)" "f_ibm (k_fs (set_cbm bm k)) = f_ibm (k_fs k)"
  by (simp_all add: set_cbm_def)

lemma set_ibm_sel [simp]:
  "read_inode i (set_ibm bm k) = read_inode i k" "cluster (set_ibm bm k) c = cluster k c" "sb_of (set_ibm bm k) = sb_of k"
  "dirents (set_ibm bm k) = dirents k" "is_cluster (set_ibm bm k) c = is_cluster k c" "geom_ok (set_ibm bm k) = geom_ok k"
  "disk_ok (set_ibm bm k) = disk_ok k" "fs_dir (set_ibm bm k) = fs_dir k" "fs_files (set_ibm bm k) = fs_files k"
  "k_ticks (set_ibm bm k) = k_ticks k" "used_cluster (set_ibm bm k) c = used_cluster k c"
  by (simp_all add: set_ibm_def used_cluster_def)

lemma take_cluster_ok:
  assumes "fs_ok k" "is_cluster k c"
  shows "fs_ok (set_cbm (put_bit (f_cbm (k_fs k)) (unat c)) k)"
  using assms(1) take_cluster_sels [OF fs_okD(1) [OF assms(1)] assms(2)]
  by (simp add: fs_ok_def) (simp add: owned_def)

text \<open>A cluster nobody owns may be overwritten.\<close>

lemma put_free_cluster:
  assumes "fs_ok k" "is_cluster k c" "length b = 512" "\<And>i. i \<in> files (dirents k) \<Longrightarrow> c \<notin> own (read_inode i k)"
  shows "fs_ok (put_cluster c b k)" "dirents (put_cluster c b k) = dirents k" "fs_files (put_cluster c b k) = fs_files k"
proof -
  let ?k = "put_cluster c b k"
  note g = fs_okD(4) [OF assms(1)]
  have r: "read_inode i ?k = read_inode i k" if "is_inode i" for i by (rule disk.geti_putc [OF g that assms(2,3)])
  have r0: "read_inode 0 ?k = read_inode 0 k" by (rule r) (simp add: is_inode_def FS_INODE_COUNT_def)
  show d: "dirents ?k = dirents k"
    using assms(1)
  proof (cases rule: root_cases)
    case empty
    then show ?thesis using r0 by (simp add: dirents_def)
  next
    case (dir e)
    then have "cluster ?k e = cluster k e" using disk.getc_putc [OF g assms(2) dir(6) assms(3)] assms(4) [OF files_root] by auto
    then show ?thesis using r0 dir(2) by (simp add: dirents_def)
  qed
  note i = files_inode [OF assms(1)]
  have o: "owned (\<lambda>i. read_inode i ?k) (files (dirents k)) k"
    using owned_cong [of "files (dirents k)" "\<lambda>i. read_inode i ?k"] r i fs_okD(8) [OF assms(1)] by simp
  show "fs_ok ?k" unfolding fs_ok_def d using fs_base_writes(1) [OF fs_okD(1) [OF assms(1)]] fs_okD [OF assms(1)] o r i r0 by simp
  have "file_bytes (read_inode j ?k) (cluster ?k) = file_bytes (read_inode j k) (cluster k)" if "fs_dir k nm = Some j" for nm j
  proof -
    note j = fs_dir_file [OF assms(1) that]
    show ?thesis using disk.file_putc_other [OF g j(3) assms(2,3)] assms(4) [OF j(1)]
        ownedD(1,2) [OF fs_okD(8) [OF assms(1)] j(1)] fs_okD(7) [OF assms(1) j(1)] by auto
  qed
  then show "fs_files ?k = fs_files k" using fs_dir_cong [OF d] by (auto simp: fs_files_def fun_eq_iff intro!: option.map_cong0)
qed

text \<open>The first block of the directory.\<close>

lemma root_first_block:
  assumes "fs_ok k" "i_size (read_inode 0 k) = 0" "is_cluster k c" "\<not> used_cluster k c" "c \<noteq> 0"
    and "k1 = put_cluster c zero_block (set_cbm (put_bit (f_cbm (k_fs k)) (unat c)) k)"
    and "x = (read_inode 0 k)\<lparr>i_blocks := (i_blocks (read_inode 0 k))[0 := c], i_size := 512\<rparr>"
  shows "fs_ok (write_inode 0 x k1)" "dirents (write_inode 0 x k1) = replicate 16 zero_dirent"
    "fs_files (write_inode 0 x k1) = fs_files k"
proof -
  let ?kc = "set_cbm (put_bit (f_cbm (k_fs k)) (unat c)) k" and ?k = "write_inode 0 x k1"
  note us = take_cluster_sels [OF fs_okD(1) [OF assms(1)] assms(3)]
  have e: "dirents k = []" "\<And>j. j < 10 \<Longrightarrow> i_blocks (read_inode 0 k) ! j = 0" using assms(1,2) by (cases rule: root_cases; simp)+
  have k0: "fs_ok ?kc" by (rule take_cluster_ok [OF assms(1,3)])
  have nc: "c \<notin> own (read_inode i ?kc)" if "i \<in> files (dirents ?kc)" for i
    using ownedD(3) [OF fs_okD(8) [OF assms(1)]] that assms(4) by auto
  have z: "length zero_block = 512" by (simp add: zero_block_def FS_BLOCK_SIZE_def)
  note p = put_free_cluster [OF k0 _ z nc]
  have k1: "fs_ok k1" "dirents k1 = []" "is_cluster k1 c" unfolding assms(6) using p assms(3) e(1) by simp_all
  note g = fs_okD(4) [OF k1(1)]
  have i0: "is_inode 0" by (simp add: is_inode_def FS_INODE_COUNT_def)
  have sh: "inode_shape (read_inode 0 k)" using read_inode_shape fs_okD(2) [OF assms(1)] .
  then have shx: "inode_shape x" by (simp add: assms(7) inode_shape_def)
  have len: "length (i_blocks (read_inode 0 k)) = 10" using sh by (simp add: inode_shape_def FS_MAX_BLOCKS_def)
  have rx: "read_inode 0 ?k = x" using disk.geti_puti [OF g i0 i0 shx] by simp
  have bx: "i_blocks x ! j = (if j = 0 then c else 0)" if "j < 10" for j using that e(2) len by (simp add: assms(7) nth_list_update)
  have ox: "own x = {c}"
    using bx assms(5) len by (auto simp: own_def set_conv_nth assms(7) intro!: exI [of _ 0]) (metis length_list_update)
  have cz: "cluster ?k c = zero_block"
    using disk.getc_puti [OF g i0 k1(3) shx] disk.getc_putc [of ?kc c c zero_block] fs_okD(4) [OF k0] assms(3) z
    unfolding assms(6) by simp
  show d: "dirents ?k = replicate 16 zero_dirent"
    using rx bx [of 0] cz by (simp add: dirents_def assms(7) zero_block_def FS_BLOCK_SIZE_def dec_dir_zeros)
  have lv: "live_ents (replicate 16 zero_dirent) = {}" by (auto simp: live_ents_def zero_dirent_def)
  have dz: "dir_ok (replicate 16 zero_dirent)" by (auto simp: dir_ok_def lv) (simp add: dirent_shape_def zero_dirent_def)
  have sx: "sized x" using bx assms(5) by (auto simp: sized_def) (simp_all add: assms(7))
  have "used_cluster k1 c" unfolding assms(6) using us(1) by simp
  then have ow: "owned (\<lambda>i. read_inode i ?k) {0} k1" using rx shx ox k1(3) bx by (auto simp: owned_def split: if_splits)
  show "fs_ok ?k" unfolding fs_ok_def d files_def lv
    using fs_base_writes(2) [OF fs_okD(1) [OF k1(1)]] fs_okD(10) [OF k1(1)] dz rx sx ow by (simp add: assms(7))
  show "fs_files ?k = fs_files k" unfolding fs_files_def fs_dir_def d e(1) by (auto simp: fun_eq_iff zero_dirent_def find_None_iff)
qed

section \<open>Entries\<close>

lemma live_add:
  assumes "e < length ds" "d_inode (ds ! e) = 0" "d_inode d \<noteq> 0"
  shows "live_ents (ds[e := d]) = insert d (live_ents ds)"
proof (rule set_eqI)
  fix x
  have "x \<in> set (ds[e := d]) \<longleftrightarrow> x = d \<or> (\<exists>i<length ds. i \<noteq> e \<and> x = ds ! i)"
    using assms(1) by (auto simp: in_set_conv_nth nth_list_update)
  then show "x \<in> live_ents (ds[e := d]) \<longleftrightarrow> x \<in> insert d (live_ents ds)"
    using assms(2,3) by (auto simp: live_ents_def in_set_conv_nth)
qed

lemma live_nth: "i < length ds \<Longrightarrow> ds ! i \<in> live_ents ds \<longleftrightarrow> d_inode (ds ! i) \<noteq> 0"
  by (simp add: live_ents_def)

definition fits :: "fs_dirent list \<Rightarrow> fs_dirent \<Rightarrow> bool" where
  "fits ds d \<longleftrightarrow> dirent_shape d \<and> d_inode d \<noteq> 0 \<and> is_inode (d_inode d) \<and> 0 < unat (d_namelen d) \<and> unat (d_namelen d) \<le> FS_NAME_MAX
     \<and> d_inode d \<notin> files ds \<and> (\<forall>x\<in>live_ents ds. ename x \<noteq> ename d)"

lemma dir_ok_add:
  assumes "dir_ok ds" "e < length ds" "d_inode (ds ! e) = 0" "fits ds d"
  shows "dir_ok (ds[e := d])"
proof -
  have d: "dirent_shape d" "d_inode d \<noteq> 0" "is_inode (d_inode d)" "0 < unat (d_namelen d)" "unat (d_namelen d) \<le> FS_NAME_MAX"
    using assms(4) by (simp_all add: fits_def)
  have new: "d_inode x \<noteq> d_inode d \<and> ename x \<noteq> ename d" if "x \<in> live_ents ds" for x
    using that assms(4) by (auto simp: fits_def files_def image_iff)
  note lv = live_add [OF assms(2,3) d(2)]
  have "i = j" if ij: "i < length ds" "j < length ds" "ds[e := d] ! i \<in> live_ents (ds[e := d])" "ds[e := d] ! j \<in> live_ents (ds[e := d])"
    "d_inode (ds[e := d] ! i) = d_inode (ds[e := d] ! j) \<or> ename (ds[e := d] ! i) = ename (ds[e := d] ! j)" for i j
  proof -
    have l: "ds ! n \<in> live_ents ds" if "n < length ds" "n \<noteq> e" "ds[e := d] ! n \<in> live_ents (ds[e := d])" for n
      using that live_nth [of n "ds[e := d]"] by (simp add: live_nth)
    consider "i = e" "j = e" | "i = e" "j \<noteq> e" | "i \<noteq> e" "j = e" | "i \<noteq> e" "j \<noteq> e" by blast
    then show ?thesis
    proof cases
      case 1
      then show ?thesis by simp
    next
      case 2
      then show ?thesis using ij new [OF l [OF ij(2) 2(2) ij(4)]] assms(2) by auto
    next
      case 3
      then show ?thesis using ij new [OF l [OF ij(1) 3(1) ij(3)]] assms(2) by auto
    next
      case 4
      then show ?thesis using ij l assms(1) by (auto simp: dir_ok_def)
    qed
  qed
  moreover have "\<forall>x\<in>set (ds[e := d]). dirent_shape x"
    using assms(1) d(1) set_update_subset_insert [of ds e d] by (auto simp: dir_ok_def)
  ultimately show ?thesis using assms(1) d lv unfolding dir_ok_def by auto
qed

lemma option_eqI: "(\<And>x. a = Some x \<longleftrightarrow> b = Some x) \<Longrightarrow> a = b"
  by (cases a; cases b) auto

lemma find_add:
  assumes "dir_ok ds" "e < length ds" "d_inode (ds ! e) = 0" "fits ds d"
  shows "List.find (\<lambda>d. d_inode d \<noteq> 0 \<and> ename d = nm) (ds[e := d])
       = (if nm = ename d then Some d else List.find (\<lambda>d. d_inode d \<noteq> 0 \<and> ename d = nm) ds)"
proof (rule option_eqI)
  fix x
  have lv: "live_ents (ds[e := d]) = insert d (live_ents ds)" using live_add [OF assms(2,3)] assms(4) by (simp add: fits_def)
  show "List.find (\<lambda>d. d_inode d \<noteq> 0 \<and> ename d = nm) (ds[e := d]) = Some x
      \<longleftrightarrow> (if nm = ename d then Some d else List.find (\<lambda>d. d_inode d \<noteq> 0 \<and> ename d = nm) ds) = Some x"
    unfolding dir_find [OF dir_ok_add [OF assms]] lv using dir_find [OF assms(1)] assms(4) by (auto simp: fits_def)
qed

text \<open>The directory with an entry for an empty file.\<close>

lemma add_entry:
  assumes "fs_ok k" "i_size (read_inode 0 k) \<noteq> 0" "e < 16" "d_inode (dirents k ! e) = 0" "fits (dirents k) d"
    and "used_inode k (d_inode d)" "sized (read_inode (d_inode d) k)" "own (read_inode (d_inode d) k) = {}"
    and "k' = put_cluster (i_blocks (read_inode 0 k) ! 0) (enc_dir ((dirents k)[e := d])) k"
  shows "fs_ok k'" "fs_dir k' = (fs_dir k)(ename d \<mapsto> d_inode d)"
    "fs_files k' = (fs_files k)(ename d \<mapsto> file_bytes (read_inode (d_inode d) k) (cluster k))"
proof -
  let ?ds = "(dirents k)[e := d]"
  have len: "length (dirents k) = 16" using dirents_length [OF fs_okD(2) [OF assms(1)] assms(2)] .
  have e: "e < length (dirents k)" using assms(3) len by simp
  have d: "d_inode d \<noteq> 0" "d_inode d \<notin> files (dirents k)" using assms(5) by (simp_all add: fits_def)
  have lv: "live_ents ?ds = insert d (live_ents (dirents k))" by (rule live_add [OF e assms(4) d(1)])
  then have fl: "files ?ds = insert (d_inode d) (files (dirents k))" by (auto simp: files_def)
  note ok = dir_ok_add [OF fs_okD(5) [OF assms(1)] e assms(4,5)]
  have ow: "owned (\<lambda>i. read_inode i k) (files ?ds) k" unfolding fl
    using fs_okD(8) [OF assms(1)] assms(8) read_inode_shape [OF fs_okD(2) [OF assms(1)]]
    by (auto simp: owned_def) (auto simp: own_def in_set_conv_nth inode_shape_def FS_MAX_BLOCKS_def)
  have sh: "\<And>x. x \<in> set ?ds \<Longrightarrow> dirent_shape x" using ok by (simp add: dir_ok_def)
  have us: "\<And>x. x \<in> live_ents ?ds \<Longrightarrow> used_inode k (d_inode x)" using lv assms(6) fs_okD(6) [OF assms(1)] by auto
  have sz: "\<And>i. i \<in> files ?ds \<Longrightarrow> sized (read_inode i k)" using fl assms(7) fs_okD(7) [OF assms(1)] by auto
  note p = put_dir [OF assms(1,2) refl _ sh ok us sz ow]
  show "fs_ok k'" unfolding assms(9) by (rule p(1)) (use len in simp)
  have "dirents k' = ?ds" unfolding assms(9) by (rule p(2)) (use len in simp)
  then show "fs_dir k' = (fs_dir k)(ename d \<mapsto> d_inode d)"
    using find_add [OF fs_okD(5) [OF assms(1)] e assms(4,5)] by (auto simp: fs_dir_def fun_eq_iff)
  show "fs_files k' = (fs_files k)(ename d \<mapsto> file_bytes (read_inode (d_inode d) k) (cluster k))"
  proof
    fix nm
    have "fs_files k' nm = map_option (\<lambda>d. file_bytes (read_inode (d_inode d) k) (cluster k)) (List.find (\<lambda>d. d_inode d \<noteq> 0 \<and> ename d = nm) ?ds)"
      unfolding assms(9) by (rule p(3)) (use len in simp)
    then show "fs_files k' nm = ((fs_files k)(ename d \<mapsto> file_bytes (read_inode (d_inode d) k) (cluster k))) nm"
      unfolding find_add [OF fs_okD(5) [OF assms(1)] e assms(4,5)] by (simp add: fs_files_def fs_dir_def option.map_comp comp_def)
  qed
qed

lemma dir_add_loop_cases:
  assumes "fs_ok k" "f_root (k_fs k) = read_inode 0 k" "i_size (read_inode 0 k) \<noteq> 0"
  obtains (full) "dir_add_loop d [0..<FS_MAX_BLOCKS] k = Ok (-1, k)" "\<And>x. x \<in> set (dirents k) \<Longrightarrow> d_inode x \<noteq> 0"
  | (slot) e where "e < 16" "d_inode (dirents k ! e) = 0"
      "dir_add_loop d [0..<FS_MAX_BLOCKS] k = Ok (0, put_cluster (i_blocks (read_inode 0 k) ! 0) (enc_dir ((dirents k)[e := d])) k)"
  using assms(1)
proof (cases rule: root_cases)
  case empty
  then show ?thesis using assms(3) by simp
next
  case (dir c)
  have len: "length (dirents k) = 16" using dirents_length [OF fs_okD(2) [OF assms(1)] assms(3)] .
  have r: "root_block k 0 = c" "root_block k 1 = 0" using dir(2,4) assms(2) by (simp_all add: root_block_def)
  have n: "DIRENT_PER_BLOCK = 16" by (simp add: DIRENT_PER_BLOCK_def FS_BLOCK_SIZE_def sizeof_dirent_def)
  show ?thesis
  proof (cases "first_in (\<lambda>e. d_inode (dirents k ! e) = 0) 0 16")
    case None
    have "dir_add_loop d [0..<FS_MAX_BLOCKS] k = Ok (-1, k)"
      using None dir(3,6,7) r n by (simp add: blocks_upt cluster_read_ok)
    moreover have "d_inode x \<noteq> 0" if "x \<in> set (dirents k)" for x
      using None that len by (auto simp: first_in_None_iff in_set_conv_nth)
    ultimately show ?thesis by (rule full)
  next
    case (Some e)
    then have "e < 16" "d_inode (dirents k ! e) = 0" by (auto simp: first_in_Some_iff)
    moreover have "dir_add_loop d [0..<FS_MAX_BLOCKS] k = Ok (0, put_cluster c (enc_dir ((dirents k)[e := d])) k)"
      using Some dir(3,6,7) r n by (simp add: blocks_upt cluster_read_ok cluster_write_ok)
    ultimately show ?thesis using slot dir(2) by simp
  qed
qed

lemma asc_length [simp]: "length (asc s) = length s"
  by (simp add: asc_def)

lemma new_dirent_name:
  assumes "length name \<le> FS_NAME_MAX"
  shows "ename (new_dirent name i ty) = asc name" "unat (d_namelen (new_dirent name i ty)) = length name"
    "dirent_shape (new_dirent name i ty)" "d_inode (new_dirent name i ty) = i"
proof -
  have "length name < 256" using assms by (simp add: FS_NAME_MAX_def)
  then show u: "unat (d_namelen (new_dirent name i ty)) = length name" by (simp add: new_dirent_def unat_of_nat)
  show "ename (new_dirent name i ty) = asc name" unfolding ename_def u by (simp add: new_dirent_def)
  show "dirent_shape (new_dirent name i ty)" using assms by (simp add: new_dirent_def dirent_shape_def)
  show "d_inode (new_dirent name i ty) = i" by (simp add: new_dirent_def)
qed

lemma upd_fs_eq: "f (k_fs k) = g (k_fs k) \<Longrightarrow> upd_fs f k = upd_fs g k"
  by (simp add: upd_fs_def)

text \<open>The directory gets its block when it has none.\<close>

lemma root_ensure_cases:
  assumes "fs_ok k" "f_root (k_fs k) = read_inode 0 k"
  obtains (full) "root_ensure_block k = Ok (-1, k)" "i_size (read_inode 0 k) = 0" "\<And>c. is_cluster k c \<Longrightarrow> used_cluster k c"
  | (there) k' where "root_ensure_block k = Ok (0, k')" "fs_ok k'" "f_root (k_fs k') = read_inode 0 k'" "i_size (read_inode 0 k') \<noteq> 0"
      "dirents k' = (if i_size (read_inode 0 k) = 0 then replicate 16 zero_dirent else dirents k)" "fs_files k' = fs_files k"
      "\<And>i. is_inode i \<Longrightarrow> i \<noteq> 0 \<Longrightarrow> read_inode i k' = read_inode i k" "\<And>i. used_inode k' i = used_inode k i"
proof (cases "i_size (read_inode 0 k) = 0")
  case False
  then have "root_ensure_block k = Ok (0, k)" using assms(2) by (simp add: root_ensure_block_def word_neq_0_conv)
  then show ?thesis by (rule there) (use assms False in auto)
next
  case True
  show ?thesis
    using fs_okD(1) [OF assms(1)]
  proof (cases rule: alloc_cluster_cases)
    case full
    then show ?thesis using that(1) True assms(2) by (simp add: root_ensure_block_def root_extend_def)
  next
    case (got c)
    let ?kc = "set_cbm (put_bit (f_cbm (k_fs k)) (unat c)) k"
    let ?k1 = "put_cluster c zero_block ?kc"
    let ?x = "(read_inode 0 k)\<lparr>i_blocks := (i_blocks (read_inode 0 k))[0 := c], i_size := 512\<rparr>"
    let ?ku = "upd_fs (\<lambda>f. f\<lparr>f_root := ?x\<rparr>) ?k1"
    let ?k' = "write_inode 0 ?x ?ku"
    have z: "length zero_block = 512" by (simp add: zero_block_def FS_BLOCK_SIZE_def)
    have i0: "is_inode 0" by (simp add: is_inode_def FS_INODE_COUNT_def)
    have cw: "fs_cluster_write c zero_block ?kc = (0, ?k1)" using got(2) by (simp add: cluster_write_ok)
    have un: "?k' = upd_fs (\<lambda>f. f\<lparr>f_root := ?x\<rparr>) (write_inode 0 ?x ?k1)"
      by (simp add: write_inode_def disk_write_block_def upd_fs_def inode_lba_def sb_of_def disk_read_block_def)
    note f = root_first_block [OF assms(1) True got(2,3,5) refl refl]
    have "fs_ok ?k'" using f(1) unfolding un by (simp add: fs_ok_def fs_base_def used_inode_def used_cluster_def owned_def)
    moreover have "dirents ?k' = replicate 16 zero_dirent" "fs_files ?k' = fs_files k" unfolding un using f(2,3) by simp_all
    moreover have "upd_fs (\<lambda>f. f\<lparr>f_root := (f_root f)\<lparr>i_blocks := (i_blocks (f_root f))[0 := c], i_size := 512\<rparr>\<rparr>) ?k1 = ?ku"
      by (rule upd_fs_eq) (simp add: assms(2))
    then have "root_ensure_block k = Ok (0, ?k')"
      using got(1,4) cw True assms(2) root_inode_0 [OF assms(1)]
      by (simp add: root_ensure_block_def root_extend_def root_save_def FS_BLOCK_SIZE_def)
    moreover have b: "disk_ok ?k1 \<and> geom_ok ?k1"
      using fs_base_writes(1) [OF take_cluster_sels(3) [OF fs_okD(1) [OF assms(1)] got(2)]] by (simp add: fs_base_def)
    moreover have sh: "inode_shape ?x" using read_inode_shape [OF fs_okD(2) [OF assms(1)], of 0] by (simp add: inode_shape_def)
    moreover have "read_inode 0 ?k' = ?x" unfolding un using disk.geti_puti [OF b i0 i0 sh] by simp
    moreover have "read_inode i ?k' = read_inode i k" if "is_inode i" "i \<noteq> 0" for i
      unfolding un using disk.geti_puti [OF b i0 that(1) sh] disk.geti_putc [of ?kc i c zero_block] that got(2) z b
        take_cluster_sels(3) [OF fs_okD(1) [OF assms(1)] got(2)] by (simp add: fs_base_def)
    moreover have "used_inode ?k' i = used_inode k i" for i unfolding un by (simp add: used_inode_def)
    ultimately show ?thesis using that(2) [of ?k'] True unfolding un by simp
  qed
qed

lemma dir_add_entry_cases:
  assumes "fs_ok k" "is_inode i" "i \<noteq> 0" "i \<notin> files (dirents k)" "used_inode k i" "sized (read_inode i k)" "i_size (read_inode i k) = 0"
    and "fs_dir k (asc name) = None"
  obtains (refused) k' where "dir_add_entry name i ty k = Ok (-1, k')" "fs_ok k'" "fs_files k' = fs_files k"
      "name = [] \<or> FS_NAME_MAX < length name \<or> (\<forall>c. is_cluster k c \<longrightarrow> used_cluster k c)
        \<or> (dirents k \<noteq> [] \<and> (\<forall>d\<in>set (dirents k). d_inode d \<noteq> 0))"
  | (added) k' where "dir_add_entry name i ty k = Ok (0, k')" "fs_ok k'" "fs_files k' = (fs_files k)(asc name \<mapsto> [])"
      "fs_dir k' (asc name) = Some i" "name \<noteq> []" "length name \<le> FS_NAME_MAX"
proof (cases "name = [] \<or> FS_NAME_MAX < length name")
  case True
  then show ?thesis using that(1) [of "root_load k"] assms(1) by (auto simp: dir_add_entry_def root_load_ok)
next
  case False
  let ?k = "root_load k"
  have k: "fs_ok ?k" "f_root (k_fs ?k) = read_inode 0 ?k" using assms(1) root_inode_0 [OF assms(1)] by (simp_all add: root_load_ok)
  have nm: "0 < length name" "length name \<le> FS_NAME_MAX" using False by auto
  let ?d = "new_dirent name i ty"
  note nd = new_dirent_name [OF nm(2), of i ty]
  show ?thesis
    using k
  proof (cases rule: root_ensure_cases)
    case full
    then have "dir_add_entry name i ty k = Ok (-1, ?k)" using nm by (simp add: dir_add_entry_def Let_def)
    then show ?thesis by (rule that(1)) (use k full in auto)
  next
    case (there k')
    have b: "dir_add_entry name i ty k = dir_add_loop ?d [0..<FS_MAX_BLOCKS] k'" using nm there(1) by (simp add: dir_add_entry_def Let_def)
    have lv: "live_ents (dirents k') = live_ents (dirents k)" using there(5)
      by (cases "i_size (read_inode 0 k) = 0") (auto simp: live_ents_def zero_dirent_def dirents_def)
    have r: "read_inode i k' = read_inode i k" using there(7) [of i] assms(2,3) by simp
    have ow: "own (read_inode i k) = {}"
    proof -
      have "i_blocks (read_inode i k) ! j = 0" if "j < 10" for j using assms(6,7) that by (simp add: sized_def)
      then show ?thesis using read_inode_shape [OF fs_okD(2) [OF assms(1)], of i] by (auto simp: own_def in_set_conv_nth inode_shape_def FS_MAX_BLOCKS_def)
    qed
    show ?thesis
      using there(2-4)
    proof (cases rule: dir_add_loop_cases [where d = ?d])
      case full
      have "i_size (read_inode 0 k) \<noteq> 0"
      proof
        assume "i_size (read_inode 0 k) = 0"
        then have "zero_dirent \<in> set (dirents k')" using there(5) by simp
        then show False using full(2) [of zero_dirent] by (simp add: zero_dirent_def)
      qed
      then have "dirents k' = dirents k" using there(5) by simp
      moreover have "dirents k \<noteq> []" using dirents_length [OF fs_okD(2) [OF assms(1)] \<open>i_size (read_inode 0 k) \<noteq> 0\<close>] by auto
      ultimately show ?thesis using that(1) [of k'] b full there(2,6) by auto
    next
      case (slot e)
      let ?n = "put_cluster (i_blocks (read_inode 0 k') ! 0) (enc_dir ((dirents k')[e := ?d])) k'"
      have "ename x \<noteq> asc name" if "x \<in> live_ents (dirents k)" for x
        using fs_dir_Some [OF assms(1), of "asc name" "d_inode x"] assms(8) that by auto
      then have f: "fits (dirents k') ?d" using nd nm assms(2-4) lv by (simp add: fits_def files_def)
      note a = add_entry [OF there(2,4) slot(1,2) f _ _ _ refl, unfolded nd(1,4) r, OF _ assms(6) ow]
      have u: "used_inode k' i" using there(8) assms(5) by simp
      have "file_bytes (read_inode i k) (cluster k') = []" using assms(7) by (simp add: file_bytes_def)
      then show ?thesis using that(2) [of ?n] b slot(3) a [OF u] there(6) nm by simp
    qed
  qed
qed

text \<open>
  \<^verbatim>\<open>fs_create\<close>: either the directory has one more, empty, file, or nothing happens to the files; it fails
  only for a name that is taken or unusable, or when there is no room.
\<close>

lemma fs_create_ok:
  assumes "fs_ok k"
  shows "\<exists>r k'. fs_create name mode k = Ok (r, k') \<and> fs_ok k'
    \<and> (if r \<ge> 0 then fs_files k' = (fs_files k)(asc name \<mapsto> []) \<and> fs_dir k' (asc name) = Some (word_of_int r) \<and> fs_files k (asc name) = None
         \<and> (\<exists>k''. fs_alloc_inode (root_load k) = Ok (word_of_int r, k''))
       else r = -1 \<and> fs_files k' = fs_files k
         \<and> (fs_dir k (asc name) \<noteq> None \<or> name = [] \<or> FS_NAME_MAX < length name \<or> (\<forall>i. is_inode i \<longrightarrow> used_inode k i)
            \<or> (\<forall>c. is_cluster k c \<longrightarrow> used_cluster k c) \<or> (dirents k \<noteq> [] \<and> (\<forall>d\<in>set (dirents k). d_inode d \<noteq> 0))))"
proof -
  let ?k = "root_load k"
  have m: "f_mounted (k_fs k)" using fs_okD(1) [OF assms] by (simp add: fs_base_def)
  have k: "fs_ok ?k" using assms by (simp add: root_load_ok)
  show ?thesis
  proof (cases "fs_dir k (asc name)")
    case (Some i)
    then show ?thesis using fs_lookup_ok [OF assms, of name] m k by (simp add: fs_create_def)
  next
    case None
    have l: "fs_lookup name k = Ok (-1, ?k)" using fs_lookup_ok [OF assms, of name] None by simp
    show ?thesis
      using fs_okD(1) [OF k]
    proof (cases rule: alloc_inode_cases)
      case full
      then have "\<forall>i. is_inode i \<longrightarrow> used_inode k i" using fs_okD(10) [OF assms] by (metis root_load_sel(9))
      then show ?thesis using l m k full(1) by (simp add: fs_create_def)
    next
      case (got i)
      let ?x = "zero_inode\<lparr>i_mode := mode, i_nlinks := 1, i_mtime := ucast (k_ticks k)\<rparr>"
      let ?ki = "set_ibm (put_bit (f_ibm (k_fs ?k)) (unat i)) ?k"
      let ?kw = "write_inode i ?x ?ki"
      note t = take_inode_ok [OF k got(2)]
      have sh: "inode_shape ?x" by (simp add: inode_shape_def zero_inode_def)
      have fresh: "i \<notin> files (dirents ?ki)" using got(3,5) fs_okD(6) [OF assms] by (auto simp: files_def)
      note w = fresh_inode_ok [OF t(1) got(2) fresh sh]
      have rx: "read_inode i ?kw = ?x" using disk.geti_puti [OF fs_okD(4) [OF t(1)] got(2,2) sh] by simp
      have z: "sized (read_inode i ?kw)" "i_size (read_inode i ?kw) = 0"
        unfolding rx by (simp_all add: sized_def zero_inode_def FS_MAX_BLOCKS_def)
      have d: "fs_dir ?kw (asc name) = None" "i \<notin> files (dirents ?kw)" "used_inode ?kw i"
        using None fs_dir_cong [OF w(2)] fresh t(2) w(2) by simp_all
      have c: "fs_create name mode k = bind_res (dir_add_entry name i (if mode = FS_INODE_DIR then DT_DIR else DT_FILE) ?kw)
                 (\<lambda>(r, k). if r \<noteq> 0 then Ok (-1, k) else Ok (sint i, k))"
        using l m got(1,4) by (simp add: fs_create_def)
      show ?thesis
        using w(1) got(2,5) d(2,3) z d(1)
      proof (cases rule: dir_add_entry_cases [where ty = "if mode = FS_INODE_DIR then DT_DIR else DT_FILE"])
        case (refused k')
        then show ?thesis using c w(2,3) by simp blast
      next
        case (added k')
        have s: "sint i = uint i" by (rule inode_sint [OF got(2)])
        have "fs_files k (asc name) = None" using None by (simp add: fs_files_def)
        then show ?thesis using added c w(3) got(1) by (simp add: s)
      qed
    qed
  qed
qed

end
