(* ===== verification/FsWrite.thy ===== *)
theory FsWrite
  imports FsFiles
begin

unbundle bit_operations_syntax

text \<open>
  Writing, reading and removing files. While a file is written, its inode is in memory and the disk still has
  the old one: the invariant of the loops is about the inodes of the other files and the one in memory.
\<close>

section \<open>The loops of a write\<close>

definition wr_inv :: "u32 \<Rightarrow> fs_inode \<Rightarrow> kernel \<Rightarrow> bool" where
  "wr_inv ino x k \<longleftrightarrow> fs_base k \<and> ino \<noteq> 0 \<and> ino \<in> files (dirents k) \<and> (\<forall>i\<in>files (dirents k). is_inode i)
     \<and> (i_size (read_inode 0 k) = 0 \<or> i_blocks (read_inode 0 k) ! 0 \<noteq> 0)
     \<and> owned (\<lambda>i. read_inode i k) (files (dirents k) - {ino}) k \<and> owned (\<lambda>_. x) {ino} k
     \<and> (\<forall>i\<in>files (dirents k) - {ino}. own (read_inode i k) \<inter> own x = {})"

text \<open>What a step of a write leaves as it is.\<close>

definition kept :: "u32 \<Rightarrow> kernel \<Rightarrow> kernel \<Rightarrow> bool" where
  "kept ino k k' \<longleftrightarrow> sb_of k' = sb_of k \<and> dirents k' = dirents k \<and> (\<forall>i. used_inode k' i = used_inode k i) \<and> k_ticks k' = k_ticks k
     \<and> (\<forall>i. is_inode i \<longrightarrow> read_inode i k' = read_inode i k)
     \<and> (\<forall>i\<in>files (dirents k). i \<noteq> ino \<longrightarrow> (\<forall>c\<in>own (read_inode i k). cluster k' c = cluster k c))"

lemma kept_refl [simp]: "kept ino k k"
  by (simp add: kept_def)

lemma kept_trans:
  assumes "kept ino a b" "kept ino b c" "\<forall>i\<in>files (dirents a). is_inode i"
  shows "kept ino a c"
  using assms unfolding kept_def by simp

lemma kept_cbm [simp]: "kept ino k (set_cbm bm k)"
  by (simp add: kept_def used_inode_def)

lemma wr_invD:
  assumes "wr_inv ino x k"
  shows "fs_base k" "disk_ok k \<and> geom_ok k" "ino \<noteq> 0" "ino \<in> files (dirents k)" "\<And>i. i \<in> files (dirents k) \<Longrightarrow> is_inode i"
    "owned (\<lambda>i. read_inode i k) (files (dirents k) - {ino}) k" "owned (\<lambda>_. x) {ino} k" "length (i_blocks x) = 10"
    "\<And>c. c \<in> own x \<Longrightarrow> is_cluster k c" "\<And>c. c \<in> own x \<Longrightarrow> used_cluster k c"
    "\<And>m n. m < 10 \<Longrightarrow> n < 10 \<Longrightarrow> i_blocks x ! m \<noteq> 0 \<Longrightarrow> i_blocks x ! m = i_blocks x ! n \<Longrightarrow> m = n"
    "\<And>i. i \<in> files (dirents k) - {ino} \<Longrightarrow> own (read_inode i k) \<inter> own x = {}"
    "\<And>i c. i \<in> files (dirents k) - {ino} \<Longrightarrow> c \<in> own (read_inode i k) \<Longrightarrow> is_cluster k c \<and> used_cluster k c"
proof -
  note w = assms [unfolded wr_inv_def]
  show "fs_base k" "disk_ok k \<and> geom_ok k" "ino \<noteq> 0" "ino \<in> files (dirents k)" "\<And>i. i \<in> files (dirents k) \<Longrightarrow> is_inode i"
    "\<And>i. i \<in> files (dirents k) - {ino} \<Longrightarrow> own (read_inode i k) \<inter> own x = {}"
    and o: "owned (\<lambda>i. read_inode i k) (files (dirents k) - {ino}) k" and p: "owned (\<lambda>_. x) {ino} k"
    using w by (auto simp: fs_base_def)
  show "length (i_blocks x) = 10" using p by (simp add: owned_def inode_shape_def FS_MAX_BLOCKS_def)
  show "is_cluster k c" "used_cluster k c" if "c \<in> own x" for c using p that by (simp_all add: owned_def)
  show "m = n" if "m < 10" "n < 10" "i_blocks x ! m \<noteq> 0" "i_blocks x ! m = i_blocks x ! n" for m n using p that by (simp add: owned_def)
  show "is_cluster k c \<and> used_cluster k c" if "i \<in> files (dirents k) - {ino}" "c \<in> own (read_inode i k)" for i c
    using ownedD(2,3) [OF o that(1)] that(2) by simp
qed

lemma own_nth: "length (i_blocks x) = 10 \<Longrightarrow> c \<in> own x \<longleftrightarrow> c \<noteq> 0 \<and> (\<exists>j<10. i_blocks x ! j = c)"
  by (auto simp: own_def in_set_conv_nth)

lemma own_update:
  assumes "length (i_blocks x) = 10" "j < 10"
  shows "own (x\<lparr>i_blocks := (i_blocks x)[j := c]\<rparr>) \<subseteq> insert c (own x)"
    "\<And>d. d \<in> own (x\<lparr>i_blocks := (i_blocks x)[j := 0]\<rparr>) \<longleftrightarrow> d \<noteq> 0 \<and> (\<exists>m<10. m \<noteq> j \<and> i_blocks x ! m = d)"
  using assms by (auto simp: own_nth nth_list_update split: if_splits)

lemma free_one:
  assumes "wr_inv ino x k" "j < 10" "i_blocks x ! j \<noteq> 0"
    and "k' = set_cbm (clear_bit (f_cbm (k_fs k)) (unat (i_blocks x ! j))) k" and "x' = x\<lparr>i_blocks := (i_blocks x)[j := 0]\<rparr>"
  shows "fs_free_cluster (i_blocks x ! j) k = Ok k'" "wr_inv ino x' k'"
proof -
  let ?c = "i_blocks x ! j"
  note w = wr_invD [OF assms(1)]
  have co: "?c \<in> own x" using w(8) assms(2,3) by (auto simp: own_nth)
  note c = w(9) [OF co]
  show "fs_free_cluster ?c k = Ok k'" unfolding assms(4) by (rule free_cluster_ok [OF w(1) c])
  have u: "used_cluster k' d \<longleftrightarrow> d \<noteq> ?c \<and> used_cluster k d" for d
    using cluster_in_map [OF w(1), of ?c] c by (auto simp: assms(4) used_cluster_def set_cbm_def test_clear_bit is_cluster_def word_unat_eq_iff)
  have b: "fs_base k'" using w(1) by (simp add: assms(4) fs_base_def set_cbm_def)
  have ox: "own x' \<subseteq> own x - {?c}"
  proof
    fix d
    assume "d \<in> own x'"
    then obtain m where m: "d \<noteq> 0" "m < 10" "m \<noteq> j" "i_blocks x ! m = d" unfolding assms(5) own_update(2) [OF w(8) assms(2)] by blast
    then have "d \<noteq> ?c" using w(11) [OF m(2) assms(2)] by auto
    then show "d \<in> own x - {?c}" using m w(8) by (auto simp: own_nth)
  qed
  have "owned (\<lambda>i. read_inode i k) (files (dirents k) - {ino}) k'" unfolding assms(4)
  proof (rule owned_cbm [OF w(6)])
    fix i d
    assume i: "i \<in> files (dirents k) - {ino}" "d \<in> own (read_inode i k)"
    then have "used_cluster k' d" using u w(12) [OF i(1)] w(13) [OF i] co by auto
    then show "test_bit (clear_bit (f_cbm (k_fs k)) (unat ?c)) (unat d)" by (simp add: assms(4) used_cluster_def set_cbm_def)
  qed
  moreover have "owned (\<lambda>_. x') {ino} k'"
  proof -
    have "m = n" if "m < 10" "n < 10" "i_blocks x' ! m \<noteq> 0" "i_blocks x' ! m = i_blocks x' ! n" for m n
      using that w(8) w(11) [of m n] assms(2) by (auto simp: assms(5) nth_list_update split: if_splits)
    moreover have "inode_shape x'" using w(7) by (simp add: owned_def assms(5) inode_shape_def)
    moreover have "is_cluster k' d \<and> used_cluster k' d" if "d \<in> own x'" for d using that ox u w(9,10) by (auto simp: assms(4))
    ultimately show ?thesis by (auto simp: owned_def)
  qed
  moreover have "\<forall>i\<in>files (dirents k) - {ino}. own (read_inode i k) \<inter> own x' = {}" using w(12) ox by blast
  ultimately show "wr_inv ino x' k'" using assms(1) b by (simp add: wr_inv_def assms(4))
qed

lemma free_tail_ok:
  assumes "wr_inv ino x k" "\<And>j. j \<in> set js \<Longrightarrow> j < 10"
  shows "\<exists>bs bm. let x' = x\<lparr>i_blocks := bs\<rparr>; k' = set_cbm bm k in free_tail js x k = Ok (x', k') \<and> wr_inv ino x' k'
     \<and> (\<forall>j<10. bs ! j = (if j \<in> set js then 0 else i_blocks x ! j)) \<and> ((\<forall>j\<in>set js. i_blocks x ! j = 0) \<longrightarrow> k' = k)"
  using assms
proof (induction js arbitrary: x k)
  case Nil
  have "set_cbm (f_cbm (k_fs k)) k = k" by (simp add: set_cbm_def upd_fs_def)
  then show ?case using Nil by (intro exI [of _ "i_blocks x"] exI [of _ "f_cbm (k_fs k)"]) simp
next
  case (Cons j js)
  have j: "j < 10" using Cons.prems(2) by simp
  show ?case
  proof (cases "i_blocks x ! j = 0")
    case True
    obtain bs bm where "free_tail js x k = Ok (x\<lparr>i_blocks := bs\<rparr>, set_cbm bm k)" "wr_inv ino (x\<lparr>i_blocks := bs\<rparr>) (set_cbm bm k)"
      "\<forall>n<10. bs ! n = (if n \<in> set js then 0 else i_blocks x ! n)" "(\<forall>n\<in>set js. i_blocks x ! n = 0) \<longrightarrow> set_cbm bm k = k"
      using Cons.IH [OF Cons.prems(1)] Cons.prems(2) by (auto simp: Let_def)
    then show ?thesis using True by (intro exI [of _ bs] exI [of _ bm]) (auto simp: Let_def)
  next
    case False
    let ?x = "x\<lparr>i_blocks := (i_blocks x)[j := 0]\<rparr>" and ?k = "set_cbm (clear_bit (f_cbm (k_fs k)) (unat (i_blocks x ! j))) k"
    note f = free_one [OF Cons.prems(1) j False refl refl]
    have l: "length (i_blocks x) = 10" using wr_invD(8) [OF Cons.prems(1)] .
    obtain bs bm where "free_tail js ?x ?k = Ok (?x\<lparr>i_blocks := bs\<rparr>, set_cbm bm ?k)" "wr_inv ino (?x\<lparr>i_blocks := bs\<rparr>) (set_cbm bm ?k)"
      "\<forall>n<10. bs ! n = (if n \<in> set js then 0 else i_blocks ?x ! n)"
      using Cons.IH [OF f(2)] Cons.prems(2) by (auto simp: Let_def)
    moreover have "set_cbm bm ?k = set_cbm bm k" by (simp add: set_cbm_def upd_fs_def)
    ultimately show ?thesis using f(1) False l by (intro exI [of _ bs] exI [of _ bm]) (auto simp: Let_def nth_list_update)
  qed
qed

text \<open>One turn of the writing loop.\<close>

lemma kept_put_cluster:
  assumes "wr_inv ino x k" "is_cluster k c" "length b = 512" "\<And>i. i \<in> files (dirents k) - {ino} \<Longrightarrow> c \<notin> own (read_inode i k)"
  shows "kept ino k (put_cluster c b k)" "wr_inv ino x (put_cluster c b k)"
proof -
  let ?k = "put_cluster c b k"
  note w = wr_invD [OF assms(1)]
  have r: "read_inode i ?k = read_inode i k" if "is_inode i" for i by (rule disk.geti_putc [OF w(2) that assms(2,3)])
  have i0: "is_inode 0" by (simp add: is_inode_def FS_INODE_COUNT_def)
  have cl: "cluster ?k d = cluster k d" if "i \<in> files (dirents k) - {ino}" "d \<in> own (read_inode i k)" for i d
    using disk.getc_putc [OF w(2) assms(2) _ assms(3), of d] w(13) [OF that] assms(4) [OF that(1)] that(2) by auto
  have d: "dirents ?k = dirents k"
  proof (cases "i_size (read_inode 0 k) = 0")
    case True
    then show ?thesis using r [OF i0] by (simp add: dirents_def)
  next
    case False
    have f0: "0 \<in> files (dirents k) - {ino}" using w(3) by auto
    have "inode_shape (read_inode 0 k)" by (rule ownedD(1) [OF w(6) f0])
    moreover have "i_blocks (read_inode 0 k) ! 0 \<noteq> 0" using assms(1) False by (simp add: wr_inv_def)
    ultimately have "i_blocks (read_inode 0 k) ! 0 \<in> own (read_inode 0 k)" by (auto simp: own_nth inode_shape_def FS_MAX_BLOCKS_def intro!: exI [of _ 0])
    then show ?thesis using r [OF i0] cl [OF f0] False by (simp add: dirents_def)
  qed
  show "kept ino k ?k" using r cl d by (simp add: kept_def)
  have "owned (\<lambda>i. read_inode i ?k) (files (dirents k) - {ino}) k"
    using owned_cong [of "files (dirents k) - {ino}" "\<lambda>i. read_inode i ?k"] r w(5,6) by simp
  moreover have "read_inode i ?k = read_inode i k" if "i \<in> files (dirents k)" for i using r w(5) that by simp
  ultimately show "wr_inv ino x ?k" using assms(1) fs_base_writes(1) [OF w(1)] d r [OF i0] by (simp add: wr_inv_def)
qed

lemma grow_one:
  assumes "wr_inv ino x k" "j < 10" "i_blocks x ! j = 0" "is_cluster k c" "\<not> used_cluster k c" "c \<noteq> 0"
  shows "wr_inv ino (x\<lparr>i_blocks := (i_blocks x)[j := c]\<rparr>) (set_cbm (put_bit (f_cbm (k_fs k)) (unat c)) k)"
    "\<And>i. i \<in> files (dirents k) - {ino} \<Longrightarrow> c \<notin> own (read_inode i k)"
proof -
  let ?x = "x\<lparr>i_blocks := (i_blocks x)[j := c]\<rparr>" and ?k = "set_cbm (put_bit (f_cbm (k_fs k)) (unat c)) k"
  note w = wr_invD [OF assms(1)]
  note us = take_cluster_sels [OF w(1) assms(4)]
  show new: "c \<notin> own (read_inode i k)" if "i \<in> files (dirents k) - {ino}" for i using w(13) [OF that] assms(5) by blast
  have newx: "c \<notin> own x" using w(10) assms(5) by blast
  have ox: "own ?x \<subseteq> insert c (own x)" by (rule own_update(1) [OF w(8) assms(2)])
  have "owned (\<lambda>i. read_inode i k) (files (dirents k) - {ino}) ?k"
  proof (rule owned_cbm [OF w(6)])
    fix i d
    assume i: "i \<in> files (dirents k) - {ino}" "d \<in> own (read_inode i k)"
    then have "used_cluster ?k d" using us(1) w(13) by auto
    then show "test_bit (put_bit (f_cbm (k_fs k)) (unat c)) (unat d)" by (simp add: used_cluster_def set_cbm_def)
  qed
  moreover have "owned (\<lambda>_. ?x) {ino} ?k"
  proof -
    have nx: "i_blocks x ! m \<noteq> c" if "m < 10" for m using newx that assms(6) w(8) by (auto simp: own_nth)
    have e: "i_blocks ?x ! m = (if m = j then c else i_blocks x ! m)" for m using w(8) assms(2) by simp
    have "m = n" if "m < 10" "n < 10" "i_blocks ?x ! m \<noteq> 0" "i_blocks ?x ! m = i_blocks ?x ! n" for m n
      using that(3,4) w(11) [OF that(1,2)] nx [OF that(1)] nx [OF that(2)] unfolding e by (cases "m = j"; cases "n = j") auto
    moreover have "inode_shape ?x" using w(7) by (simp add: owned_def inode_shape_def)
    moreover have "is_cluster ?k d \<and> used_cluster ?k d" if "d \<in> own ?x" for d using that ox us(1) w(9,10) assms(4) by auto
    ultimately show ?thesis by (auto simp: owned_def)
  qed
  moreover have "\<forall>i\<in>files (dirents k) - {ino}. own (read_inode i k) \<inter> own ?x = {}" using w(12) ox new by blast
  ultimately show "wr_inv ino ?x ?k" using assms(1) us(3) by (simp add: wr_inv_def)
qed

lemma chunk_length: "length (chunk bs j) = 512"
  by (simp add: chunk_def Let_def FS_BLOCK_SIZE_def)

lemma write_chunks_ok:
  assumes "wr_inv ino x k" "n \<le> 10"
  shows "(\<exists>k'. write_chunks bs [j..<n] x k = Ok (None, k') \<and> kept ino k k' \<and> fs_base k'
           \<and> (\<forall>c. is_cluster k c \<longrightarrow> used_cluster k' c) \<and> (\<exists>m. j \<le> m \<and> m < n \<and> i_blocks x ! m = 0))
       \<or> (\<exists>b k'. let x' = x\<lparr>i_blocks := b\<rparr> in write_chunks bs [j..<n] x k = Ok (Some x', k') \<and> kept ino k k' \<and> wr_inv ino x' k'
           \<and> (\<forall>m<10. m < j \<or> n \<le> m \<longrightarrow> b ! m = i_blocks x ! m \<and> (b ! m \<noteq> 0 \<longrightarrow> cluster k' (b ! m) = cluster k (b ! m)))
           \<and> (\<forall>m. j \<le> m \<and> m < n \<longrightarrow> b ! m \<noteq> 0 \<and> cluster k' (b ! m) = chunk bs m))"
  using assms
proof (induction "n - j" arbitrary: x k j)
  case 0
  then show ?case by (intro disjI2 exI [of _ "i_blocks x"] exI [of _ k]) (auto simp: Let_def)
next
  case (Suc z)
  note w = wr_invD [OF Suc.prems(1)]
  have j: "j < n" "j < 10" "[j..<n] = j # [Suc j..<n]" using Suc.hyps(2) Suc.prems(2) by (auto simp: upt_conv_Cons)
  have turn: ?case
    if c: "is_cluster k c" "c \<noteq> 0" and x1: "wr_inv ino x1 k1" "x1 = x\<lparr>i_blocks := (i_blocks x)[j := c]\<rparr>" "kept ino k k1"
      and k1: "\<And>d. cluster k1 d = cluster k d" "\<And>d. used_cluster k d \<Longrightarrow> used_cluster k1 d" "sb_of k1 = sb_of k" "dirents k1 = dirents k"
        "\<And>i. read_inode i k1 = read_inode i k"
      and run: "write_chunks bs [j..<n] x k = (case fs_cluster_write c (chunk bs j) k1 of
              (r, k) \<Rightarrow> if r \<noteq> 0 then Ok (None, k) else write_chunks bs [Suc j..<n] x1 k)"
    for c x1 k1
  proof -
    let ?k2 = "put_cluster c (chunk bs j) k1"
    have c1: "is_cluster k1 c" using c(1) areas_same_sb(1) [OF k1(3)] by simp
    have cown: "c \<in> own x1" using x1(2) w(8) j(2) c(2) by (auto simp: own_nth nth_list_update)
    have "c \<notin> own (read_inode i k1)" if "i \<in> files (dirents k1) - {ino}" for i using wr_invD(12) [OF x1(1) that] cown by blast
    note p = kept_put_cluster [OF x1(1) c1 chunk_length this]
    have k2: "kept ino k ?k2" using kept_trans [OF x1(3) p(1)] w(5) by blast
    have go: "write_chunks bs [j..<n] x k = write_chunks bs [Suc j..<n] x1 ?k2" using run cluster_write_ok [OF c1] by simp
    have cc: "cluster ?k2 c = chunk bs j" using disk.getc_putc [OF wr_invD(2) [OF x1(1)] c1 c1 chunk_length] by simp
    have co: "cluster ?k2 d = cluster k d" if "d \<noteq> c" "d \<in> own x1" for d
      using disk.getc_putc [OF wr_invD(2) [OF x1(1)] c1 wr_invD(9) [OF x1(1) that(2)] chunk_length] that(1) k1(1) by simp
    have f: "\<forall>i\<in>files (dirents k). is_inode i" using w(5) by blast
    have sb2: "is_cluster ?k2 d = is_cluster k d" for d using areas_same_sb(1) [OF k1(3)] by simp
    have b1: "i_blocks x1 ! m = (if m = j then c else i_blocks x ! m)" if "m < 10" for m using x1(2) w(8) that j(2) by simp
    have "z = n - Suc j" using Suc.hyps(2) by simp
    from Suc.hyps(1) [OF this p(2) Suc.prems(2)] show ?thesis
    proof
      assume "\<exists>k'. write_chunks bs [Suc j..<n] x1 ?k2 = Ok (None, k') \<and> kept ino ?k2 k' \<and> fs_base k'
           \<and> (\<forall>c. is_cluster ?k2 c \<longrightarrow> used_cluster k' c) \<and> (\<exists>m. Suc j \<le> m \<and> m < n \<and> i_blocks x1 ! m = 0)"
      then obtain k' m where k': "write_chunks bs [Suc j..<n] x1 ?k2 = Ok (None, k')" "kept ino ?k2 k'" "fs_base k'"
        "\<forall>c. is_cluster ?k2 c \<longrightarrow> used_cluster k' c" "Suc j \<le> m" "m < n" "i_blocks x1 ! m = 0" by blast
      have "kept ino k k'" by (rule kept_trans [OF k2 k'(2) f])
      moreover have "i_blocks x ! m = 0" using k'(5-7) b1 [of m] Suc.prems(2) by simp
      ultimately show ?thesis using go k' sb2 by (intro disjI1 exI [of _ k']) (auto intro!: exI [of _ m])
    next
      assume "\<exists>b k'. let x' = x1\<lparr>i_blocks := b\<rparr> in write_chunks bs [Suc j..<n] x1 ?k2 = Ok (Some x', k') \<and> kept ino ?k2 k' \<and> wr_inv ino x' k'
           \<and> (\<forall>m<10. m < Suc j \<or> n \<le> m \<longrightarrow> b ! m = i_blocks x1 ! m \<and> (b ! m \<noteq> 0 \<longrightarrow> cluster k' (b ! m) = cluster ?k2 (b ! m)))
           \<and> (\<forall>m. Suc j \<le> m \<and> m < n \<longrightarrow> b ! m \<noteq> 0 \<and> cluster k' (b ! m) = chunk bs m)"
      then obtain b k' where b: "write_chunks bs [Suc j..<n] x1 ?k2 = Ok (Some (x1\<lparr>i_blocks := b\<rparr>), k')" "kept ino ?k2 k'"
        "wr_inv ino (x1\<lparr>i_blocks := b\<rparr>) k'"
        "\<And>m. m < 10 \<Longrightarrow> m < Suc j \<or> n \<le> m \<Longrightarrow> b ! m = i_blocks x1 ! m \<and> (b ! m \<noteq> 0 \<longrightarrow> cluster k' (b ! m) = cluster ?k2 (b ! m))"
        "\<And>m. Suc j \<le> m \<Longrightarrow> m < n \<Longrightarrow> b ! m \<noteq> 0 \<and> cluster k' (b ! m) = chunk bs m"
        unfolding Let_def by blast
      have xx: "x1\<lparr>i_blocks := b\<rparr> = x\<lparr>i_blocks := b\<rparr>" using x1(2) by simp
      have old: "b ! m = i_blocks x ! m \<and> (b ! m \<noteq> 0 \<longrightarrow> cluster k' (b ! m) = cluster k (b ! m))" if "m < 10" "m < j \<or> n \<le> m" for m
      proof -
        have m: "m < Suc j \<or> n \<le> m" "m \<noteq> j" using that j(1) by auto
        have bm: "b ! m = i_blocks x1 ! m" "b ! m = i_blocks x ! m" using b(4) [OF that(1) m(1)] b1 [OF that(1)] m(2) by auto
        have "cluster ?k2 (b ! m) = cluster k (b ! m)" if "b ! m \<noteq> 0"
        proof (rule co)
          show "b ! m \<in> own x1" using bm(1) that \<open>m < 10\<close> wr_invD(8) [OF x1(1)] by (auto simp: own_nth)
          show "b ! m \<noteq> c" using wr_invD(11) [OF x1(1) \<open>m < 10\<close> j(2)] b1 [OF j(2)] bm(1) m(2) that by auto
        qed
        then show ?thesis using b(4) [OF that(1) m(1)] bm by simp
      qed
      have new: "b ! m \<noteq> 0 \<and> cluster k' (b ! m) = chunk bs m" if "j \<le> m" "m < n" for m
      proof (cases "m = j")
        case True
        then have "b ! m = c" "cluster k' (b ! m) = cluster ?k2 (b ! m)" using b(4) [OF j(2)] b1 [OF j(2)] c(2) by auto
        then show ?thesis using cc c(2) True by simp
      next
        case False
        then show ?thesis using b(5) [of m] that by simp
      qed
      have "kept ino k k'" by (rule kept_trans [OF k2 b(2) f])
      moreover have "write_chunks bs [j..<n] x k = Ok (Some (x\<lparr>i_blocks := b\<rparr>), k')" using go b(1) xx by simp
      ultimately show ?thesis using b(3) old new unfolding xx Let_def by blast
    qed
  qed
  show ?case
  proof (cases "i_blocks x ! j = 0")
    case False
    have "i_blocks x ! j \<in> own x" using False w(8) j(2) by (auto simp: own_nth)
    then have c: "is_cluster k (i_blocks x ! j)" by (rule w(9))
    have x: "x = x\<lparr>i_blocks := (i_blocks x)[j := i_blocks x ! j]\<rparr>" by simp
    show ?thesis by (rule turn [OF c False Suc.prems(1) x]) (use False j(3) in \<open>simp_all add: split_beta\<close>)
  next
    case True
    show ?thesis
      using w(1)
    proof (cases rule: alloc_cluster_cases)
      case full
      then show ?thesis using True j w(1) by (intro disjI1 exI [of _ k]) auto
    next
      case (got c)
      note g = grow_one [OF Suc.prems(1) j(2) True got(2,3,5)]
      show ?thesis
        by (rule turn [OF got(2,5) g(1) refl])
          (use True j(3) got(1,4) take_cluster_sels(1) [OF w(1) got(2)] in \<open>simp_all\<close>)
    qed
  qed
qed

section \<open>Writing a file\<close>

lemma wr_inv_start:
  assumes "fs_ok k" "fs_dir k nm = Some ino"
  shows "wr_inv ino (read_inode ino k) k"
proof -
  note f = fs_dir_file [OF assms] and o = fs_okD(8) [OF assms(1)]
  have "owned (\<lambda>i. read_inode i k) (files (dirents k) - {ino}) k" using o by (auto simp: owned_def)
  moreover have "owned (\<lambda>_. read_inode ino k) {ino} k" using ownedD [OF o f(1)] by (auto simp: owned_def)
  moreover have "\<forall>i\<in>files (dirents k) - {ino}. own (read_inode i k) \<inter> own (read_inode ino k) = {}" using ownedD(4) [OF o _ f(1)] by auto
  moreover have "i_size (read_inode 0 k) = 0 \<or> i_blocks (read_inode 0 k) ! 0 \<noteq> 0" using assms(1) by (cases rule: root_cases) auto
  ultimately show ?thesis using fs_okD(1) [OF assms(1)] f files_inode [OF assms(1)] by (simp add: wr_inv_def)
qed

lemma wr_inv_cong: "wr_inv ino x k \<Longrightarrow> i_blocks y = i_blocks x \<Longrightarrow> inode_shape y \<Longrightarrow> wr_inv ino y k"
  by (simp add: wr_inv_def owned_def own_def)

lemma kept_files:
  assumes "fs_ok k" "kept ino k k'" "fs_dir k nm = Some j" "j \<noteq> ino"
  shows "file_bytes (read_inode j k') (cluster k') = file_bytes (read_inode j k) (cluster k)"
proof -
  note j = fs_dir_file [OF assms(1,3)]
  have "read_inode j k' = read_inode j k" using assms(2) j(3) by (simp add: kept_def)
  then show ?thesis
    using assms(2) j(1) assms(4) fs_okD(7) [OF assms(1) j(1)] ownedD(1) [OF fs_okD(8) [OF assms(1)] j(1)]
    by (auto simp: kept_def intro!: file_bytes_cong)
qed

lemma fs_dir_inj:
  assumes "fs_ok k" "fs_dir k a = Some i" "fs_dir k b = Some i"
  shows "a = b"
proof -
  obtain d e where d: "d \<in> live_ents (dirents k)" "ename d = a" "d_inode d = i" and e: "e \<in> live_ents (dirents k)" "ename e = b" "d_inode e = i"
    using assms fs_dir_Some [OF assms(1)] by metis
  then obtain m n where "m < length (dirents k)" "dirents k ! m = d" "n < length (dirents k)" "dirents k ! n = e"
    unfolding live_ents_def by (auto simp: in_set_conv_nth)
  moreover from this have "m = n" using fs_okD(5) [OF assms(1)] d e by (auto simp: dir_ok_def)
  ultimately show ?thesis using d e by simp
qed

text \<open>The file is what the inode in memory says, once that is written.\<close>

lemma commit_inode:
  assumes "fs_ok k" "fs_dir k nm = Some ino" "kept ino k k'" "wr_inv ino x k'" "sized x"
  shows "fs_ok (write_inode ino x k')" "dirents (write_inode ino x k') = dirents k"
    "fs_files (write_inode ino x k') = (fs_files k)(nm \<mapsto> file_bytes x (cluster k'))"
proof -
  let ?k = "write_inode ino x k'"
  note w = wr_invD [OF assms(4)] and f = fs_dir_file [OF assms(1,2)]
  have kd: "dirents k' = dirents k" "\<And>i. is_inode i \<Longrightarrow> read_inode i k' = read_inode i k" "\<And>i. used_inode k' i = used_inode k i"
    using assms(3) by (simp_all add: kept_def)
  have sh: "inode_shape x" using w(7) by (simp add: owned_def)
  have i0: "is_inode 0" by (simp add: is_inode_def FS_INODE_COUNT_def)
  have r: "read_inode i ?k = (if i = ino then x else read_inode i k)" if "is_inode i" for i
    using disk.geti_puti [OF w(2) f(3) that sh] kd(2) [OF that] by simp
  have cl: "cluster ?k c = cluster k' c" if "is_cluster k' c" for c by (rule disk.getc_puti [OF w(2) f(3) that sh])
  have r0: "read_inode 0 ?k = read_inode 0 k" using r [OF i0] f(2) by simp
  show d: "dirents ?k = dirents k"
    using assms(1)
  proof (cases rule: root_cases)
    case empty
    then show ?thesis using r0 by (simp add: dirents_def)
  next
    case (dir c)
    have "0 \<in> files (dirents k') - {ino}" using f(2) by auto
    then have "is_cluster k' c" using w(13) [of 0 c] dir(5) kd(2) [OF i0] by simp
    moreover have "cluster k' c = cluster k c" using assms(3) dir(5) f(2) by (auto simp: kept_def)
    ultimately show ?thesis using r0 cl dir(2) by (simp add: dirents_def)
  qed
  note fi = files_inode [OF assms(1)]
  have o: "owned (\<lambda>i. read_inode i ?k) (files (dirents k)) k'"
  proof -
    have v: "read_inode i ?k = (if i = ino then x else read_inode i k')" if "i \<in> files (dirents k)" for i
      using r [OF fi [OF that]] kd(2) [OF fi [OF that]] by simp
    have "owned (\<lambda>i. if i = ino then x else read_inode i k') (files (dirents k)) k'"
      unfolding owned_def
    proof (intro conjI ballI impI allI)
      fix i j
      assume ij: "i \<in> files (dirents k)" "j \<in> files (dirents k)" "i \<noteq> j"
      have "own (read_inode i k') \<inter> own (read_inode j k') = {}" if "i \<noteq> ino" "j \<noteq> ino"
        using ownedD(4) [OF w(6), of i j] that ij kd(1) by auto
      then show "own (if i = ino then x else read_inode i k') \<inter> own (if j = ino then x else read_inode j k') = {}"
        using ij w(12) [of i] w(12) [of j] kd(1) by auto
    qed (use w(7,9,10,11) w(13) ownedD(1,5) [OF w(6)] kd(1) sh in \<open>auto split: if_splits\<close>)
    then show ?thesis using owned_cong [of "files (dirents k)" "\<lambda>i. read_inode i ?k"] v by simp
  qed
  have "fs_base ?k" by (rule fs_base_writes(2) [OF w(1)])
  moreover have "sized (read_inode i ?k)" if "i \<in> files (dirents k)" for i
    using r [OF fi [OF that]] assms(5) fs_okD(7) [OF assms(1) that] by simp
  ultimately show "fs_ok ?k" unfolding fs_ok_def d using r0 fs_okD(5,6,9,10) [OF assms(1)] o kd(3) by simp
  show "fs_files ?k = (fs_files k)(nm \<mapsto> file_bytes x (cluster k'))"
  proof
    fix a
    show "fs_files ?k a = ((fs_files k)(nm \<mapsto> file_bytes x (cluster k'))) a"
    proof (cases "fs_dir k a")
      case None
      then show ?thesis using assms(2) fs_dir_cong [OF d] by (auto simp: fs_files_def)
    next
      case (Some j)
      note j = fs_dir_file [OF assms(1) Some]
      show ?thesis
      proof (cases "j = ino")
        case True
        then have "a = nm" using fs_dir_inj [OF assms(1) Some] assms(2) by simp
        moreover have "file_bytes x (cluster ?k) = file_bytes x (cluster k')" using cl w(9) by (intro file_bytes_cong [OF assms(5) sh]) auto
        ultimately show ?thesis using Some True fs_dir_cong [OF d] r [OF f(3)] by (simp add: fs_files_def)
      next
        case False
        then have "a \<noteq> nm" using Some assms(2) by auto
        have "file_bytes (read_inode j k) (cluster ?k) = file_bytes (read_inode j k) (cluster k')"
          using cl w(13) [of j] kd(1) kd(2) [OF j(3)] j(1) False fs_okD(7) [OF assms(1) j(1)] ownedD(1) [OF fs_okD(8) [OF assms(1)] j(1)]
          by (intro file_bytes_cong) auto
        then show ?thesis using Some False fs_dir_cong [OF d] r [OF j(3)] kept_files [OF assms(1,3) Some False] kd(2) [OF j(3)] \<open>a \<noteq> nm\<close>
          by (simp add: fs_files_def)
      qed
    qed
  qed
qed

lemma chunks_join:
  assumes "n = (length bs + 511) div 512"
  shows "take (length bs) (concat (map (chunk bs) [0..<n])) = bs"
proof -
  let ?z = "bs @ replicate (512 * n - length bs) 0"
  have len: "length ?z = 512 * n" using assms by simp
  have "chunk bs j = bytes_at (512 * j) 512 ?z" if "j < n" for j
  proof -
    have "512 * j < length bs" "512 * Suc j \<le> 512 * n" using that assms by auto
    then show ?thesis unfolding chunk_def Let_def bytes_at_def FS_BLOCK_SIZE_def
      by (intro nth_equalityI) (auto simp: nth_append mult.commute min_def)
  qed
  then have "concat (map (chunk bs) [0..<n]) = concat (map (\<lambda>j. bytes_at (512 * j) 512 ?z) [0..<n])"
    by (intro arg_cong [of _ _ concat] map_cong) auto
  also have "\<dots> = ?z" by (rule slices_concat [OF len])
  finally show ?thesis by simp
qed

lemma blocks_needed:
  assumes "n \<le> 5120"
  shows "unat ((of_nat n + of_nat FS_BLOCK_SIZE - 1 :: u64) div of_nat FS_BLOCK_SIZE) = (n + 511) div 512"
proof -
  have "of_nat n + of_nat FS_BLOCK_SIZE - 1 = (of_nat (n + 511) :: u64)" by (simp add: FS_BLOCK_SIZE_def)
  moreover have "unat (of_nat (n + 511) :: u64) = n + 511" using assms by (subst unat_of_nat) simp
  ultimately show ?thesis unfolding unat_div by (simp only: FS_BLOCK_SIZE_def) simp
qed

lemma fs_write_too_long:
  assumes "fs_ok k" "5120 < length bs" "length bs < 2 ^ 63"
  shows "fs_write_file ino bs k = Ok (-1, k)"
proof -
  have "unat ((of_nat (length bs) + of_nat FS_BLOCK_SIZE - 1 :: u64) div of_nat FS_BLOCK_SIZE) = (length bs + 511) div 512"
  proof -
    have "of_nat (length bs) + of_nat FS_BLOCK_SIZE - 1 = (of_nat (length bs + 511) :: u64)" by (simp add: FS_BLOCK_SIZE_def)
    moreover have "unat (of_nat (length bs + 511) :: u64) = length bs + 511" using assms(3) by (subst unat_of_nat) simp
    ultimately show ?thesis unfolding unat_div by (simp only: FS_BLOCK_SIZE_def) simp
  qed
  then have "of_nat FS_MAX_BLOCKS < (of_nat (length bs) + of_nat FS_BLOCK_SIZE - 1 :: u64) div of_nat FS_BLOCK_SIZE"
    using assms(2) by (simp add: word_less_nat_alt FS_MAX_BLOCKS_def)
  moreover have "f_mounted (k_fs k)" using fs_okD(1) [OF assms(1)] by (simp add: fs_base_def)
  ultimately show ?thesis by (simp add: fs_write_file_def Let_def)
qed

text \<open>
  \<^verbatim>\<open>fs_write_file\<close>: the file has the new contents and the others keep theirs; it fails only when the data
  area is full, and then only this file may have changed.
\<close>

lemma fs_write_ok:
  assumes "fs_ok k" "fs_dir k nm = Some ino" "length bs \<le> 5120"
  shows "\<exists>r k'. fs_write_file ino bs k = Ok (r, k') \<and> fs_ok k' \<and> fs_dir k' = fs_dir k
    \<and> (if r = 0 then fs_files k' = (fs_files k)(nm \<mapsto> bs)
       else r = -1 \<and> (\<forall>a. a \<noteq> nm \<longrightarrow> fs_files k' a = fs_files k a) \<and> (\<forall>c. is_cluster k' c \<longrightarrow> used_cluster k' c))"
proof -
  let ?n = "(length bs + 511) div 512" and ?x = "read_inode ino k"
  have n: "unat ((of_nat (length bs) + of_nat FS_BLOCK_SIZE - 1 :: u64) div of_nat FS_BLOCK_SIZE) = ?n" "?n \<le> 10"
    using blocks_needed [OF assms(3)] assms(3) by auto
  have mt: "f_mounted (k_fs k)" using fs_okD(1) [OF assms(1)] by (simp add: fs_base_def)
  have le: "\<not> of_nat FS_MAX_BLOCKS < (of_nat (length bs) + of_nat FS_BLOCK_SIZE - 1 :: u64) div of_nat FS_BLOCK_SIZE"
    using n by (simp add: word_less_nat_alt FS_MAX_BLOCKS_def)
  note f = fs_dir_file [OF assms(1,2)] and w0 = wr_inv_start [OF assms(1,2)]
  have sz: "sized ?x" by (rule fs_okD(7) [OF assms(1) f(1)])
  obtain b bm where t: "free_tail [?n..<10] ?x k = Ok (?x\<lparr>i_blocks := b\<rparr>, set_cbm bm k)" "wr_inv ino (?x\<lparr>i_blocks := b\<rparr>) (set_cbm bm k)"
      "\<And>j. j < 10 \<Longrightarrow> b ! j = (if ?n \<le> j then 0 else i_blocks ?x ! j)" "(\<forall>j\<in>{?n..<10}. i_blocks ?x ! j = 0) \<longrightarrow> set_cbm bm k = k"
    using free_tail_ok [OF w0, of "[?n..<10]"] by (auto simp: Let_def)
  let ?x1 = "?x\<lparr>i_blocks := b\<rparr>" and ?k1 = "set_cbm bm k"
  have run: "fs_write_file ino bs k = bind_res (write_chunks bs [0..<?n] ?x1 ?k1) (\<lambda>(r, k). case r of
             None \<Rightarrow> Ok (-1, k)
           | Some i \<Rightarrow> Ok (0, write_inode ino (i\<lparr>i_size := of_nat (length bs), i_mtime := ucast (k_ticks k), i_nlinks := 1,
                               i_mode := i_mode i OR FS_INODE_REG\<rparr>) k))"
    using mt le t(1) unfolding fs_write_file_def Let_def n(1) by (simp add: FS_MAX_BLOCKS_def)
  from write_chunks_ok [OF t(2) n(2), of bs 0] show ?thesis
  proof
    assume "\<exists>k'. write_chunks bs [0..<?n] ?x1 ?k1 = Ok (None, k') \<and> kept ino ?k1 k' \<and> fs_base k'
           \<and> (\<forall>c. is_cluster ?k1 c \<longrightarrow> used_cluster k' c) \<and> (\<exists>m. 0 \<le> m \<and> m < ?n \<and> i_blocks ?x1 ! m = 0)"
    then obtain k' m where k': "write_chunks bs [0..<?n] ?x1 ?k1 = Ok (None, k')" "kept ino ?k1 k'" "fs_base k'"
      "\<And>c. is_cluster k c \<Longrightarrow> used_cluster k' c" "m < ?n" "i_blocks ?x1 ! m = 0" by auto
    have "i_blocks ?x ! m = 0" using k'(5,6) t(3) [of m] n(2) by simp
    moreover have "m < 10" using k'(5) n(2) by linarith
    then have "i_blocks ?x ! m \<noteq> 0 \<longleftrightarrow> m * 512 < unat (i_size ?x)" using sz by (simp add: sized_def)
    ultimately have "unat (i_size ?x) \<le> m * 512" by simp
    then have "i_blocks ?x ! j = 0" if "j \<in> {?n..<10}" for j using sz that k'(5) by (auto simp: sized_def)
    then have "?k1 = k" using t(4) by blast
    then have kk: "kept ino k k'" using k'(2) by simp
    note k = kk [unfolded kept_def]
    have d: "dirents k' = dirents k" using k by simp
    have ri: "read_inode i k' = read_inode i k" if "i \<in> files (dirents k)" for i using k files_inode [OF assms(1) that] by simp
    have cl: "is_cluster k' c = is_cluster k c" for c using k areas_same_sb(1) [of k' k c] by simp
    have "owned (\<lambda>i. read_inode i k) (files (dirents k)) k'" using fs_okD(8) [OF assms(1)] k'(4) cl by (simp add: owned_def)
    then have "owned (\<lambda>i. read_inode i k') (files (dirents k)) k'" using owned_cong [of "files (dirents k)" "\<lambda>i. read_inode i k'"] ri by simp
    then have "fs_ok k'" unfolding fs_ok_def d using k'(3) ri fs_okD(5-7,9,10) [OF assms(1)] k by simp
    moreover have "fs_files k' a = fs_files k a" if "a \<noteq> nm" for a
    proof (cases "fs_dir k a")
      case None
      then show ?thesis using fs_dir_cong [OF d] by (simp add: fs_files_def)
    next
      case (Some j)
      then have "j \<noteq> ino" using fs_dir_inj [OF assms(1) _ assms(2), of a] that by auto
      then show ?thesis using kept_files [OF assms(1) kk Some] Some fs_dir_cong [OF d] by (simp add: fs_files_def)
    qed
    ultimately show ?thesis using run k'(1,4) fs_dir_cong [OF d] cl by auto
  next
    assume "\<exists>b' k'. let x' = ?x1\<lparr>i_blocks := b'\<rparr> in write_chunks bs [0..<?n] ?x1 ?k1 = Ok (Some x', k') \<and> kept ino ?k1 k' \<and> wr_inv ino x' k'
           \<and> (\<forall>m<10. m < 0 \<or> ?n \<le> m \<longrightarrow> b' ! m = i_blocks ?x1 ! m \<and> (b' ! m \<noteq> 0 \<longrightarrow> cluster k' (b' ! m) = cluster ?k1 (b' ! m)))
           \<and> (\<forall>m. 0 \<le> m \<and> m < ?n \<longrightarrow> b' ! m \<noteq> 0 \<and> cluster k' (b' ! m) = chunk bs m)"
    then obtain b' k' where k': "write_chunks bs [0..<?n] ?x1 ?k1 = Ok (Some (?x1\<lparr>i_blocks := b'\<rparr>), k')" "kept ino ?k1 k'"
      "wr_inv ino (?x1\<lparr>i_blocks := b'\<rparr>) k'" "\<And>m. m < 10 \<Longrightarrow> ?n \<le> m \<Longrightarrow> b' ! m = b ! m"
      "\<And>m. m < ?n \<Longrightarrow> b' ! m \<noteq> 0 \<and> cluster k' (b' ! m) = chunk bs m" by (auto simp: Let_def)
    let ?y = "?x1\<lparr>i_blocks := b', i_size := of_nat (length bs), i_mtime := ucast (k_ticks k'), i_nlinks := 1, i_mode := i_mode ?x OR FS_INODE_REG\<rparr>"
    have kk: "kept ino k k'" using kept_trans [OF kept_cbm k'(2)] files_inode [OF assms(1)] by blast
    have su: "unat (i_size ?y) = length bs" using assms(3) by (simp add: unat_of_nat)
    have bz: "b' ! m \<noteq> 0 \<longleftrightarrow> m < ?n" if "m < 10" for m using k'(4) [OF that] k'(5) [of m] t(3) [OF that] by (cases "m < ?n") auto
    have "m < ?n \<longleftrightarrow> m * 512 < length bs" for m by auto
    then have sy: "sized ?y" using bz su assms(3) by (simp add: sized_def)
    have wy: "wr_inv ino ?y k'" by (rule wr_inv_cong [OF k'(3)]) (use wr_invD(7) [OF k'(3)] in \<open>simp_all add: owned_def inode_shape_def\<close>)
    note c = commit_inode [OF assms(1,2) kk wy sy]
    have mp: "map (\<lambda>j. cluster k' (i_blocks ?y ! j)) [0..<?n] = map (chunk bs) [0..<?n]" using k'(5) by simp
    have "file_bytes ?y (cluster k') = bs" unfolding file_bytes_def su mp by (rule chunks_join [OF refl])
    then show ?thesis using run k'(1) c fs_dir_cong [OF c(2)] by simp
  qed
qed

section \<open>Reading a file\<close>

lemma read_chunks_ok:
  assumes "sized x" "inode_shape x" "\<And>c. c \<in> own x \<Longrightarrow> is_cluster k c" "disk_ok k"
    and "m \<le> unat (i_size x) - j * 512" "j \<le> 10"
  shows "read_chunks [j..<10] m x k = (take m (concat (map (\<lambda>i. cluster k (i_blocks x ! i)) [j..<(unat (i_size x) + 511) div 512])), True)"
  using assms(5,6)
proof (induction "10 - j" arbitrary: j m)
  case 0
  then show ?case using assms(1) by (simp add: sized_def)
next
  case (Suc z)
  let ?n = "(unat (i_size x) + 511) div 512"
  have j: "j < 10" "[j..<10] = j # [Suc j..<10]" using Suc.hyps(2) by (auto simp: upt_conv_Cons)
  show ?case
  proof (cases "m = 0")
    case True
    then show ?thesis using j(2) by simp
  next
    case False
    then have jn: "j < ?n" using Suc.prems(1) by auto
    have o: "i_blocks x ! j \<in> own x" by (rule sized_own [OF assms(1,2) jn])
    then have c: "fs_cluster_read (i_blocks x ! j) k = Some (cluster k (i_blocks x ! j))" "i_blocks x ! j \<noteq> 0"
      using cluster_read_ok assms(3) by (auto simp: own_def)
    have l: "length (cluster k (i_blocks x ! j)) = 512" using disk_read_length [OF assms(4)] by (simp add: cluster_def)
    have "m - min m 512 \<le> unat (i_size x) - Suc j * 512" using Suc.prems(1) by simp
    then have "read_chunks [Suc j..<10] (m - min m 512) x k
        = (take (m - min m 512) (concat (map (\<lambda>i. cluster k (i_blocks x ! i)) [Suc j..<?n])), True)"
      using Suc.hyps(1) [of "Suc j" "m - min m 512"] Suc.hyps(2) j(1) by simp
    moreover have "[j..<?n] = j # [Suc j..<?n]" using jn by (rule upt_conv_Cons)
    ultimately show ?thesis using j(2) False c l by (simp add: FS_BLOCK_SIZE_def Let_def min_def)
  qed
qed

lemma fs_read_ok:
  assumes "fs_ok k" "fs_dir k nm = Some ino" "fs_files k nm = Some bs"
  shows "fs_read_file ino limit k = (of_nat (length (take (unat limit) bs)), take (unat limit) bs)"
proof -
  let ?x = "read_inode ino k"
  note f = fs_dir_file [OF assms(1,2)]
  have bs: "bs = file_bytes ?x (cluster k)" using assms(2,3) by (simp add: fs_files_def)
  have sz: "sized ?x" and sh: "inode_shape ?x" and ow: "\<And>c. c \<in> own ?x \<Longrightarrow> is_cluster k c"
    using fs_okD(7) [OF assms(1) f(1)] ownedD(1,2) [OF fs_okD(8) [OF assms(1)] f(1)] by auto
  let ?w = "if i_size ?x < limit then i_size ?x else limit" and ?n = "(unat (i_size ?x) + 511) div 512"
  have w: "unat ?w = min (unat (i_size ?x)) (unat limit)" by (auto simp: word_less_nat_alt)
  have "read_chunks [0..<10] (unat ?w) ?x k = (take (unat ?w) (concat (map (\<lambda>i. cluster k (i_blocks ?x ! i)) [0..<?n])), True)"
    using w by (intro read_chunks_ok [OF sz sh ow fs_okD(2) [OF assms(1)]]) auto
  moreover have t: "take (unat ?w) (concat (map (\<lambda>i. cluster k (i_blocks ?x ! i)) [0..<?n])) = take (unat limit) bs"
    unfolding bs w file_bytes_def by (simp add: min.commute)
  moreover have "length bs = unat (i_size ?x)"
  proof -
    have "length (concat (map (\<lambda>i. cluster k (i_blocks ?x ! i)) [0..<?n])) = 512 * ?n"
      using length_concat_eq [of "[0..<?n]" "\<lambda>i. cluster k (i_blocks ?x ! i)" 512] disk_read_length [OF fs_okD(2) [OF assms(1)]]
      by (simp add: cluster_def)
    then show ?thesis unfolding bs file_bytes_def by simp
  qed
  then have "length (take (unat limit) bs) = unat ?w" unfolding w by (simp add: min.commute)
  then have "of_nat (length (take (unat limit) bs)) = ?w" by (simp only:) simp
  ultimately show ?thesis by (simp add: fs_read_file_def Let_def FS_MAX_BLOCKS_def)
qed

section \<open>Removing a file\<close>

lemma live_del:
  assumes "dir_ok ds" "e < length ds" "d_inode (ds ! e) \<noteq> 0"
  shows "live_ents (ds[e := zero_dirent]) = live_ents ds - {ds ! e}"
proof (rule set_eqI)
  fix x
  have u: "i = e" if "i < length ds" "ds ! i = ds ! e" for i using assms that by (auto simp: dir_ok_def live_ents_def)
  have z: "d_inode zero_dirent = 0" by (simp add: zero_dirent_def)
  have "x \<in> set (ds[e := zero_dirent]) \<longleftrightarrow> x = zero_dirent \<or> (\<exists>i<length ds. i \<noteq> e \<and> x = ds ! i)"
    using assms(2) by (auto simp: in_set_conv_nth nth_list_update)
  then show "x \<in> live_ents (ds[e := zero_dirent]) \<longleftrightarrow> x \<in> live_ents ds - {ds ! e}"
    using u z by (auto simp: live_ents_def in_set_conv_nth)
qed

lemma dir_ok_del:
  assumes "dir_ok ds" "e < length ds" "d_inode (ds ! e) \<noteq> 0"
  shows "dir_ok (ds[e := zero_dirent])"
proof -
  note lv = live_del [OF assms]
  have z: "d_inode zero_dirent = 0" "dirent_shape zero_dirent" by (simp_all add: zero_dirent_def dirent_shape_def)
  have n: "i \<noteq> e \<and> ds ! i \<in> live_ents ds" if "i < length ds" "ds[e := zero_dirent] ! i \<in> live_ents (ds[e := zero_dirent])" for i
    using that live_nth [of i "ds[e := zero_dirent]"] z live_nth [of i ds] by (cases "i = e") auto
  have "\<forall>d\<in>set (ds[e := zero_dirent]). dirent_shape d"
    using assms(1) z(2) set_update_subset_insert [of ds e zero_dirent] by (auto simp: dir_ok_def)
  moreover have "\<forall>i<length ds. \<forall>j<length ds. ds[e := zero_dirent] ! i \<in> live_ents (ds[e := zero_dirent])
      \<longrightarrow> ds[e := zero_dirent] ! j \<in> live_ents (ds[e := zero_dirent])
      \<longrightarrow> d_inode (ds[e := zero_dirent] ! i) = d_inode (ds[e := zero_dirent] ! j) \<or> ename (ds[e := zero_dirent] ! i) = ename (ds[e := zero_dirent] ! j)
      \<longrightarrow> i = j"
  proof (intro allI impI)
    fix i j
    assume ij: "i < length ds" "j < length ds" "ds[e := zero_dirent] ! i \<in> live_ents (ds[e := zero_dirent])"
      "ds[e := zero_dirent] ! j \<in> live_ents (ds[e := zero_dirent])"
      "d_inode (ds[e := zero_dirent] ! i) = d_inode (ds[e := zero_dirent] ! j) \<or> ename (ds[e := zero_dirent] ! i) = ename (ds[e := zero_dirent] ! j)"
    then show "i = j" using n [OF ij(1,3)] n [OF ij(2,4)] assms(1) by (auto simp: dir_ok_def)
  qed
  ultimately show ?thesis using assms(1) lv unfolding dir_ok_def by auto
qed

lemma find_del:
  assumes "dir_ok ds" "e < length ds" "d_inode (ds ! e) \<noteq> 0"
  shows "List.find (\<lambda>d. d_inode d \<noteq> 0 \<and> ename d = a) (ds[e := zero_dirent])
       = (if a = ename (ds ! e) then None else List.find (\<lambda>d. d_inode d \<noteq> 0 \<and> ename d = a) ds)"
proof (rule option_eqI)
  fix x
  have u: "x = ds ! e" if "x \<in> live_ents ds" "ename x = ename (ds ! e)"
    using that assms dir_find [OF assms(1), of "ename (ds ! e)" x] dir_find [OF assms(1), of "ename (ds ! e)" "ds ! e"] live_nth [OF assms(2)] by auto
  show "List.find (\<lambda>d. d_inode d \<noteq> 0 \<and> ename d = a) (ds[e := zero_dirent]) = Some x
      \<longleftrightarrow> (if a = ename (ds ! e) then None else List.find (\<lambda>d. d_inode d \<noteq> 0 \<and> ename d = a) ds) = Some x"
    unfolding dir_find [OF dir_ok_del [OF assms]] live_del [OF assms] using dir_find [OF assms(1), of a x] u by auto
qed

lemma free_blocks_ok:
  assumes "fs_base k" "\<And>c. c \<in> set cs \<Longrightarrow> c \<noteq> 0 \<Longrightarrow> is_cluster k c"
  shows "\<exists>bm. free_blocks cs k = Ok (set_cbm bm k) \<and> fs_base (set_cbm bm k)
    \<and> (\<forall>c. used_cluster (set_cbm bm k) c \<longleftrightarrow> used_cluster k c \<and> (c = 0 \<or> c \<notin> set cs))"
  using assms
proof (induction cs arbitrary: k)
  case Nil
  have "set_cbm (f_cbm (k_fs k)) k = k" by (simp add: set_cbm_def upd_fs_def)
  then show ?case using Nil by (intro exI [of _ "f_cbm (k_fs k)"]) simp
next
  case (Cons c cs)
  show ?case
  proof (cases "c = 0")
    case True
    obtain bm where "free_blocks cs k = Ok (set_cbm bm k)" "fs_base (set_cbm bm k)"
      "\<And>c. used_cluster (set_cbm bm k) c \<longleftrightarrow> used_cluster k c \<and> (c = 0 \<or> c \<notin> set cs)" using Cons by force
    then show ?thesis using True by (intro exI [of _ bm]) auto
  next
    case False
    let ?k = "set_cbm (clear_bit (f_cbm (k_fs k)) (unat c)) k"
    have c: "is_cluster k c" using Cons.prems(2) False by simp
    have u: "used_cluster ?k d \<longleftrightarrow> d \<noteq> c \<and> used_cluster k d" for d
      using cluster_in_map [OF Cons.prems(1), of c] c by (auto simp: used_cluster_def set_cbm_def test_clear_bit is_cluster_def word_unat_eq_iff)
    have b: "fs_base ?k" using Cons.prems(1) by (simp add: fs_base_def set_cbm_def)
    obtain bm where m: "free_blocks cs ?k = Ok (set_cbm bm ?k)" "fs_base (set_cbm bm ?k)"
      "\<And>d. used_cluster (set_cbm bm ?k) d \<longleftrightarrow> used_cluster ?k d \<and> (d = 0 \<or> d \<notin> set cs)" using Cons.IH [OF b] Cons.prems(2) by force
    have e: "set_cbm bm ?k = set_cbm bm k" by (simp add: set_cbm_def upd_fs_def)
    show ?thesis using free_cluster_ok [OF Cons.prems(1) c] m [unfolded e] u False by (intro exI [of _ bm]) auto
  qed
qed

text \<open>
  \<^verbatim>\<open>fs_unlink\<close>: the name is gone, with its clusters and its inode, and the other files keep their contents. The
  steps are taken in the order of the source, so in between the directory still names an inode that is no longer a
  file; the entry is dropped from the invariant first.
\<close>

lemma fs_unlink_ok:
  assumes "fs_ok k"
  shows "\<exists>r k'. fs_unlink name k = Ok (r, k') \<and> fs_ok k' \<and> fs_files k' = (fs_files k)(asc name := None)
    \<and> (r = 0 \<longleftrightarrow> fs_files k (asc name) \<noteq> None) \<and> (r = 0 \<or> r = -1)"
proof -
  let ?k = "root_load k" and ?nm = "asc name"
  have m: "f_mounted (k_fs k)" using fs_okD(1) [OF assms] by (simp add: fs_base_def)
  have k: "fs_ok ?k" "f_root (k_fs ?k) = read_inode 0 ?k" using assms root_inode_0 [OF assms] by (simp_all add: root_load_ok)
  have kk: "root_load ?k = ?k" unfolding root_load_def by (simp add: upd_fs_def sb_of_def read_inode_def inode_lba_def disk_read_block_def)
  note l = fs_lookup_ok [OF assms, of name]
  show ?thesis
  proof (cases "fs_dir k ?nm")
    case None
    then have n: "fs_files k ?nm = None" by (simp add: fs_files_def)
    then have "(fs_files k)(?nm := None) = fs_files k" by auto
    then show ?thesis using None l m k n by (simp add: fs_unlink_def Let_def)
  next
    case (Some i)
    note f = fs_dir_file [OF assms Some]
    let ?ds = "dirents k"
    obtain e where e: "e < length ?ds" "named ?nm (?ds ! e)" "dir_walk ?nm [0..<FS_MAX_BLOCKS] ?k = Ok (Some (0, e, ?ds ! e))"
      using dir_walk_ok [OF k, of ?nm] fs_dir_Some [OF assms, of ?nm i] Some by (auto simp: named_def live_ents_def)
    have di: "d_inode (?ds ! e) = i" "d_inode (?ds ! e) \<noteq> 0" "ename (?ds ! e) = ?nm"
      using e Some dir_find [OF fs_okD(5) [OF assms], of ?nm "?ds ! e"] by (auto simp: named_def fs_dir_def live_ents_def)
    let ?del = "?ds[e := zero_dirent]"
    note del = live_del [OF fs_okD(5) [OF assms] e(1) di(2)] dir_ok_del [OF fs_okD(5) [OF assms] e(1) di(2)] find_del [OF fs_okD(5) [OF assms] e(1) di(2)]
    have uniq: "d_inode d \<noteq> i" if "d \<in> live_ents ?del" for d
    proof
      assume "d_inode d = i"
      moreover have d: "d \<in> live_ents ?ds" "d \<noteq> ?ds ! e" using that del(1) by auto
      ultimately have "fs_dir k (ename d) = Some i" using fs_dir_Some [OF assms] by blast
      then have "ename d = ?nm" using fs_dir_inj [OF assms _ Some] by blast
      then show False using d dir_find [OF fs_okD(5) [OF assms], of ?nm d] dir_find [OF fs_okD(5) [OF assms], of ?nm "?ds ! e"]
          di live_nth [OF e(1)] by auto
    qed
    have fl: "files ?del \<subseteq> files ?ds - {i}" using del(1) uniq f(2) by (auto simp: files_def)
    obtain bm where b: "free_blocks (i_blocks (read_inode i k)) ?k = Ok (set_cbm bm ?k)" "fs_base (set_cbm bm ?k)"
      "\<And>c. used_cluster (set_cbm bm ?k) c \<longleftrightarrow> used_cluster k c \<and> (c = 0 \<or> c \<notin> set (i_blocks (read_inode i k)))"
      using free_blocks_ok [OF fs_okD(1) [OF k(1)], of "i_blocks (read_inode i k)"] ownedD(2) [OF fs_okD(8) [OF assms] f(1)] by (auto simp: own_def)
    let ?kb = "set_cbm bm ?k"
    have wz: "wr_inv i zero_inode ?kb"
    proof -
      have "owned (\<lambda>j. read_inode j k) (files ?ds - {i}) ?kb" unfolding owned_def
      proof (intro conjI ballI impI allI)
        fix j c
        assume j: "j \<in> files ?ds - {i}" and c: "c \<in> own (read_inode j k)"
        have "c \<notin> own (read_inode i k)" using ownedD(4) [OF fs_okD(8) [OF assms] f(1), of j] j c by auto
        then show "is_cluster ?kb c" "used_cluster ?kb c" using ownedD(2,3) [OF fs_okD(8) [OF assms], of j c] j c b(3) by (auto simp: own_def)
      qed (use fs_okD(8) [OF assms] in \<open>auto simp: owned_def\<close>)
      moreover have z: "own zero_inode = {}" "inode_shape zero_inode" by (auto simp: own_def zero_inode_def inode_shape_def)
      moreover have "owned (\<lambda>_. zero_inode) {i} ?kb" using z by (auto simp: owned_def zero_inode_def FS_MAX_BLOCKS_def)
      moreover have "i_size (read_inode 0 k) = 0 \<or> i_blocks (read_inode 0 k) ! 0 \<noteq> 0" using assms by (cases rule: root_cases) auto
      ultimately show ?thesis using b(2) f files_inode [OF assms] by (simp add: wr_inv_def)
    qed
    have zs: "sized zero_inode" by (simp add: sized_def zero_inode_def FS_MAX_BLOCKS_def)
    have ke: "kept i k ?kb" by (simp add: kept_def used_inode_def) (simp add: root_load_def)
    let ?kw = "write_inode i zero_inode ?kb"
    note c = commit_inode [OF assms Some ke wz zs]
    have r0: "i_size (read_inode 0 k) \<noteq> 0" using e(1) by (auto simp: dirents_def)
    have i0: "is_inode 0" by (simp add: is_inode_def FS_INODE_COUNT_def)
    have rw: "read_inode 0 ?kw = read_inode 0 k" using disk.geti_puti [OF wr_invD(2) [OF wz] f(3) i0] wr_invD(7) [OF wz] f(2) by (simp add: owned_def)
    let ?c = "i_blocks (read_inode 0 k) ! 0"
    let ?kd = "put_cluster ?c (enc_dir ?del) ?kw"
    have len: "length ?del = 16" using dirents_length [OF fs_okD(2) [OF assms] r0] by simp
    have dd: "fs_ok ?kd" "dirents ?kd = ?del" "fs_files ?kd a = map_option (\<lambda>d. file_bytes (read_inode (d_inode d) ?kw) (cluster ?kw))
        (List.find (\<lambda>d. d_inode d \<noteq> 0 \<and> ename d = a) ?del)" for a
    proof -
      have o: "owned (\<lambda>j. read_inode j ?kw) (files ?del) ?kw"
        using fs_okD(8) [OF c(1)] fl unfolding c(2) owned_def by blast
      have u: "used_inode ?kw (d_inode d)" if "d \<in> live_ents ?del" for d using that fs_okD(6) [OF c(1)] del(1) unfolding c(2) by auto
      have s: "sized (read_inode j ?kw)" if "j \<in> files ?del" for j using that fs_okD(7) [OF c(1)] fl unfolding c(2) by auto
      have sh: "\<And>d. d \<in> set ?del \<Longrightarrow> dirent_shape d" using del(2) by (simp add: dir_ok_def)
      note p = put_dir [OF c(1) _ _ len sh del(2) u s o, unfolded rw, OF r0 refl]
      show "fs_ok ?kd" "dirents ?kd = ?del" "fs_files ?kd a = map_option (\<lambda>d. file_bytes (read_inode (d_inode d) ?kw) (cluster ?kw))
        (List.find (\<lambda>d. d_inode d \<noteq> 0 \<and> ename d = a) ?del)" by (rule p; assumption)+
    qed
    let ?ib = "clear_bit (f_ibm (k_fs ?kd)) (unat i)"
    have ib: "unat i div 8 < length (f_ibm (k_fs ?kd))" "length (f_ibm (k_fs ?kd)) = 32" "f_ibm_ptr (k_fs ?kd) \<noteq> 0"
      using fs_okD(1) [OF dd(1)] f(3) by (auto simp: fs_base_def is_inode_def FS_INODE_COUNT_def)
    have ui: "used_inode (set_ibm ?ib ?kd) j \<longleftrightarrow> j \<noteq> i \<and> used_inode ?kd j" for j
      using ib(1) by (auto simp: used_inode_def set_ibm_def test_clear_bit word_unat_eq_iff)
    have ok: "fs_ok (set_ibm ?ib ?kd)"
    proof -
      have "fs_base (set_ibm ?ib ?kd)" using fs_okD(1) [OF dd(1)] by (simp add: fs_base_def) (simp add: set_ibm_def)
      moreover have "owned (\<lambda>j. read_inode j ?kd) (files ?del) (set_ibm ?ib ?kd)" using fs_okD(8) [OF dd(1)] unfolding dd(2) by (simp add: owned_def)
      moreover have "used_inode (set_ibm ?ib ?kd) (d_inode d)" if "d \<in> live_ents ?del" for d
        using ui uniq [OF that] fs_okD(6) [OF dd(1)] that unfolding dd(2) by blast
      moreover have "used_inode (set_ibm ?ib ?kd) 0" using ui f(2) fs_okD(10) [OF dd(1)] by auto
      ultimately show ?thesis using fs_okD(5,7,9) [OF dd(1)] unfolding fs_ok_def set_ibm_sel(4) dd(2) by simp
    qed
    have run: "fs_unlink name k = Ok (0, set_ibm ?ib ?kd)"
    proof -
      have s: "dir_find_slot name ?k = Ok (Some (0, e))" using e(3) by (simp add: dir_find_slot_def)
      have ii: "word_of_int (uint i) = i" "i \<noteq> -1" using f(3) minus_one_u32 by (auto simp: is_inode_def FS_INODE_COUNT_def)
      have bc: "bit_clr (f_ibm_ptr (k_fs ?kw)) (f_ibm (k_fs ?kw)) (unat i) = Ok ?ib" using ib by (simp add: bit_clr_def in_map_def)
      let ?ku = "upd_fs (\<lambda>f. f\<lparr>f_ibm := ?ib\<rparr>) ?kw"
      have cc: "is_cluster ?ku ?c" using assms r0 by (cases rule: root_cases) auto
      have rb: "root_block ?ku 0 = ?c" using k(2) by (simp add: root_block_def set_cbm_def)
      have "cluster ?ku ?c = cluster ?kw ?c" by simp
      then have dc: "dec_dir (cluster ?ku ?c) = ?ds" using c(2) r0 rw by (simp add: dirents_def)
      have sw: "put_cluster ?c x ?ku = set_ibm ?ib (put_cluster ?c x ?kw)" for x
        by (simp add: put_cluster_def disk_write_block_def set_ibm_def upd_fs_def sb_of_def)
      show ?thesis
        using l m Some s b(1) bc ii kk cc rb dc sw cluster_read_ok [OF cc] cluster_write_ok [OF cc, of "enc_dir ?del"]
        by (simp add: fs_unlink_def Let_def)
    qed
    have "fs_files (set_ibm ?ib ?kd) a = ((fs_files k)(?nm := None)) a" for a
    proof -
      have "fs_files ?kd a = (if a = ?nm then None else fs_files ?kw a)"
        unfolding dd(3) del(3) di(3) by (simp add: fs_files_def fs_dir_def c(2) option.map_comp comp_def)
      then show ?thesis using c(3) by simp
    qed
    then have "fs_files (set_ibm ?ib ?kd) = (fs_files k)(?nm := None)" by (rule ext)
    then show ?thesis using run ok Some by (simp add: fs_files_def)
  qed
qed

end
