(* ===== verification/FsMount.thy ===== *)
theory FsMount
  imports FsWrite
begin

unbundle bit_operations_syntax

text \<open>
  Formatting, mounting and the two halves of the disk: a fresh file system is empty, what is synced is found again
  after a mount (but the inodes in use are not), and files and swapped pages do not touch each other's sectors.
\<close>

section \<open>Runs of blocks\<close>

lemma fold_write_blocks:
  assumes "unat start + n \<le> 2 ^ 28" "\<And>b. b < n \<Longrightarrow> length (f b) = 512" "unat l < 2 ^ 28"
  shows "disk_read_block l (fold (\<lambda>b. disk_write_block (start + of_nat b) (f b)) [0..<n] k)
       = (if unat start \<le> unat l \<and> unat l < unat start + n then f (unat l - unat start) else disk_read_block l k)"
  using assms(1,2)
proof (induction n)
  case (Suc n)
  have s: "unat (start + of_nat n) = unat start + n" using Suc.prems(1) by (simp add: unat_word_ariths unat_of_nat)
  then have e: "l = start + of_nat n \<longleftrightarrow> unat l = unat start + n" by (simp add: word_unat_eq_iff)
  have "unat (start + of_nat n) < 2 ^ 28" using s Suc.prems(1) by simp
  note w = disk_read_write [OF this assms(3) Suc.prems(2) [of n]]
  show ?case using Suc.IH Suc.prems w e by auto
qed auto

lemma fold_write_sel [simp]:
  "k_fs (fold (\<lambda>b. disk_write_block (g b) (f b)) bs k) = k_fs k" "sb_of (fold (\<lambda>b. disk_write_block (g b) (f b)) bs k) = sb_of k"
  "disk_ok k \<Longrightarrow> disk_ok (fold (\<lambda>b. disk_write_block (g b) (f b)) bs k)"
  by (induction bs arbitrary: k) (simp_all add: disk_write_ok)

lemma write_zeros_sel [simp]: "k_fs (write_zeros s n k) = k_fs k" "sb_of (write_zeros s n k) = sb_of k" "disk_ok k \<Longrightarrow> disk_ok (write_zeros s n k)"
  by (simp_all add: write_zeros_def)

lemma only_mem_disk:
  assumes "only_mem k k'"
  shows "disk_read_block l k' = disk_read_block l k" "k_fs k' = k_fs k" "sb_of k' = sb_of k" "disk_ok k' = disk_ok k" "read_inode i k' = read_inode i k"
  using assms by (auto simp: only_mem_def disk_read_block_def sb_of_def disk_ok_def read_inode_def inode_lba_def)

section \<open>The layout\<close>

text \<open>
  The bitmap is sized for the clusters there would be with the first guess of its size. Every block
  the second guess saves is a cluster more, for which there may be no bit left.
\<close>

lemma inode_blocks_36: "inode_blocks = 36"
  by (simp add: inode_blocks_def FS_INODE_COUNT_def sizeof_inode_def FS_BLOCK_SIZE_def)

lemma unat_minus_eq: "unat (y :: u64) = m \<Longrightarrow> m \<le> unat x \<Longrightarrow> unat (x - y) = unat x - m"
  by (subst unat_sub) (simp_all add: word_le_nat_alt)

lemma layout_sums:
  assumes "unat (x :: u64) \<le> 2 ^ 28"
  shows "unat ((x + 8 * 512 - 1) div (8 * 512)) = (unat x + 4095) div 4096" "unat (2 + x + inode_blocks) = 38 + unat x" "unat (2 + x) = 2 + unat x"
proof -
  have "x + 8 * 512 - 1 = x + 4095" by simp
  moreover have "unat (x + 4095) = unat x + 4095" using assms by (simp add: unat_word_ariths)
  ultimately show "unat ((x + 8 * 512 - 1) div (8 * 512)) = (unat x + 4095) div 4096" unfolding unat_div by (simp only:) simp
  show "unat (2 + x + inode_blocks) = 38 + unat x" "unat (2 + x) = 2 + unat x"
    using assms by (simp_all add: inode_blocks_36 unat_word_ariths)
qed

lemma rounding:
  fixes t :: nat
  assumes "64 \<le> t" "t \<le> 2 ^ 28" "b = (t + 4095) div 4096" "n = t - (38 + b)" "c = (n + 4095) div 4096"
  shows "c \<le> b" "b \<le> c + 17" "38 + c < t"
proof -
  have b: "4096 * b \<le> t + 4095" "t \<le> 4096 * b" using assms(3) by (simp_all add: algebra_simps)
  have c: "4096 * c \<le> n + 4095" "n \<le> 4096 * c" using assms(5) by (simp_all add: algebra_simps)
  have n: "n + 38 + b = t" using assms(1,4) b by linarith
  have "t \<le> 268435456" using assms(2) by simp
  then have "c < b + 1" "b < c + 18" "38 + c < t" using b c n assms(1) by linarith+
  then show "c \<le> b" "b \<le> c + 17" "38 + c < t" by simp_all
qed

lemma new_sb_layout:
  assumes "64 \<le> unat usable" "unat usable \<le> 2 ^ 28"
  defines "s \<equiv> new_sb usable"
  shows "unat (sb_bitmap_start s) = 2" "unat (sb_inode_start s) = 2 + unat (sb_bitmap_blocks s)"
    "unat (sb_data_start s) = unat (sb_inode_start s) + 36" "unat (sb_data_start s) + unat (sb_block_count s) = unat usable"
    "0 < unat (sb_block_count s)" "unat (sb_block_count s) \<le> 4096 * unat (sb_bitmap_blocks s) + 17"
    "sb_inode_count s = of_nat FS_INODE_COUNT" "sb_root_inode s = 0" "sb_seq s = 1" "sb_shape s" "sb_valid s"
proof -
  let ?t = "unat usable"
  let ?b = "(usable + 8 * 512 - 1) div (8 * 512)"
  note b = layout_sums(1) [OF assms(2)]
  have b28: "unat ?b \<le> 2 ^ 28" unfolding b using assms(2) by simp
  let ?n = "usable - (2 + ?b + inode_blocks)"
  note d = layout_sums(2) [OF b28]
  have n: "unat ?n = ?t - (38 + unat ?b)" by (rule unat_minus_eq [OF d]) (use b assms(1) in linarith)
  have n28: "unat ?n \<le> 2 ^ 28" using n assms(2) by linarith
  let ?c = "(?n + 8 * 512 - 1) div (8 * 512)"
  note c = layout_sums(1) [OF n28]
  have c28: "unat ?c \<le> 2 ^ 28" unfolding c using n28 by simp
  note d' = layout_sums(2) [OF c28] and i = layout_sums(3) [OF c28]
  have c2: "unat ?c \<le> unat ?b" "unat ?b \<le> unat ?c + 17" "38 + unat ?c < ?t" using rounding [OF assms(1,2) b n c] by auto
  have n': "unat (usable - (2 + ?c + inode_blocks)) = ?t - (38 + unat ?c)"
    by (rule unat_minus_eq [OF d']) (use c2(3) in linarith)
  have e: "s = zero_sb\<lparr>sb_sig := NOOSFS_SIG, sb_version := NOOSFS_VERSION, sb_block_size := of_nat FS_BLOCK_SIZE,
           sb_block_count := usable - (2 + ?c + inode_blocks), sb_bitmap_start := 2, sb_bitmap_blocks := ?c,
           sb_inode_start := 2 + ?c, sb_inode_count := of_nat FS_INODE_COUNT, sb_data_start := 2 + ?c + inode_blocks,
           sb_root_inode := 0, sb_seq := 1, sb_flags := 0\<rparr>"
    unfolding s_def new_sb_def Let_def ..
  show "unat (sb_bitmap_start s) = 2" "unat (sb_inode_start s) = 2 + unat (sb_bitmap_blocks s)"
    "unat (sb_data_start s) = unat (sb_inode_start s) + 36" using i d' by (simp_all add: e)
  show "unat (sb_data_start s) + unat (sb_block_count s) = unat usable" "0 < unat (sb_block_count s)" using d' n' c2 by (simp_all add: e)
  have "unat ?n \<le> 4096 * unat ?c" unfolding c by simp
  then show "unat (sb_block_count s) \<le> 4096 * unat (sb_bitmap_blocks s) + 17" using n n' c2 by (simp add: e)
  show "sb_inode_count s = of_nat FS_INODE_COUNT" "sb_root_inode s = 0" "sb_seq s = 1" by (simp_all add: e)
  show "sb_shape s" by (simp add: e sb_shape_def NOOSFS_SIG_def zero_sb_def)
  show "sb_valid s" by (simp add: e sb_valid_def)
qed

section \<open>Mounting\<close>

definition sb_stored :: "kernel \<Rightarrow> bool" where
  "sb_stored k \<longleftrightarrow> sb_valid (sb_of k) \<and> dec_sb (disk_read_block 0 k) = sb_of k \<and> dec_sb (disk_read_block 1 k) = sb_of k"

lemma views_disk:
  assumes "sb_of k' = sb_of k" "\<And>l. disk_read_block l k' = disk_read_block l k"
  shows "read_inode i k' = read_inode i k" "cluster k' c = cluster k c" "dirents k' = dirents k" "fs_files k' = fs_files k" "fs_dir k' = fs_dir k"
    "is_cluster k' c = is_cluster k c" "geom_ok k' = geom_ok k"
proof -
  have r: "read_inode i k' = read_inode i k" for i using assms by (simp add: read_inode_def inode_lba_def)
  have c: "cluster k' = cluster k" using assms by (simp add: cluster_def fun_eq_iff)
  show "read_inode i k' = read_inode i k" "cluster k' c = cluster k c" using r c by simp_all
  show d: "dirents k' = dirents k" using r c by (simp add: dirents_def)
  then show f: "fs_dir k' = fs_dir k" by (rule fs_dir_cong)
  show "fs_files k' = fs_files k" by (rule ext) (simp only: fs_files_def f r c)
  show "is_cluster k' c = is_cluster k c" "geom_ok k' = geom_ok k" using assms(1) by (simp_all add: is_cluster_def geom_ok_def)
qed

lemma bitmap_loaded:
  assumes "disk_ok k" "geom_ok k" "load_bitmap k = Ok bm"
  shows "bm = concat (map (\<lambda>b. disk_read_block (2 + of_nat b) k) [0..<unat (sb_bitmap_blocks (sb_of k))])"
    "length bm = 512 * unat (sb_bitmap_blocks (sb_of k))"
proof -
  have "unat (sb_bitmap_start (sb_of k)) = unat (2 :: u64)" using assms(2) by (simp add: geom_ok_def Let_def)
  then have "sb_bitmap_start (sb_of k) = 2" unfolding word_unat_eq_iff .
  then show "bm = concat (map (\<lambda>b. disk_read_block (2 + of_nat b) k) [0..<unat (sb_bitmap_blocks (sb_of k))])"
    using assms(3) by (simp add: load_bitmap_def Let_def split: if_splits)
  then show "length bm = 512 * unat (sb_bitmap_blocks (sb_of k))"
    using length_concat_eq [of "[0..<unat (sb_bitmap_blocks (sb_of k))]" "\<lambda>b. disk_read_block (2 + of_nat b) k" 512] disk_read_length [OF assms(1)]
    by simp
qed

lemma fs_mount_ok:
  assumes "disk_ok k" "geom_ok k" "sb_stored k" "fs_mount k = Ok (0, k')"
  shows "fs_base k'" "sb_of k' = sb_of k" "\<And>l. disk_read_block l k' = disk_read_block l k"
    "f_cbm (k_fs k') = concat (map (\<lambda>b. disk_read_block (2 + of_nat b) k) [0..<unat (sb_bitmap_blocks (sb_of k))])"
    "f_ibm (k_fs k') = put_bit (replicate 32 0) 0"
proof -
  have "read_any_sb k = (0, upd_fs (\<lambda>f. f\<lparr>f_sb := sb_of k\<rparr>) k)"
    using assms(3) by (simp add: read_any_sb_def sb_stored_def Let_def)
  moreover have "upd_fs (\<lambda>f. f\<lparr>f_sb := sb_of k\<rparr>) k = k" by (simp add: upd_fs_def sb_of_def)
  ultimately have r: "read_any_sb k = (0, k)" by simp
  obtain k1 k2 k3 k4 cp ip cbm ibm where s:
    "k_free (f_cbm_ptr (k_fs k)) k = Ok k1" "k_free (f_ibm_ptr (k_fs k1)) k1 = Ok k2"
    "k_malloc (sb_bitmap_blocks (sb_of k2) * of_nat FS_BLOCK_SIZE) k2 = Ok (cp, k3)" "k_malloc ((of_nat FS_INODE_COUNT + 7) div 8) k3 = Ok (ip, k4)"
    "cp \<noteq> 0" "ip \<noteq> 0" "load_bitmap k4 = Ok cbm" "bit_set ip (replicate ((FS_INODE_COUNT + 7) div 8) 0) (unat (sb_root_inode (sb_of k4))) = Ok ibm"
    "k' = upd_fs (\<lambda>f. f\<lparr>f_cbm_ptr := cp, f_cbm := cbm, f_ibm_ptr := ip, f_ibm := ibm, f_mounted := True\<rparr>) k4"
    using assms(4) unfolding fs_mount_def r by (auto simp: bind_res_Ok_iff split: if_splits)
  have m: "only_mem k k4"
    using only_mem_free [OF s(1)] only_mem_free [OF s(2)] only_mem_malloc [OF s(3)] only_mem_malloc [OF s(4)] by (blast intro: only_mem_trans)
  note d = only_mem_disk [OF m]
  have k4: "disk_ok k4" "geom_ok k4" using assms(1,2) d(3,4) by (simp_all add: geom_ok_def)
  note b = bitmap_loaded [OF k4 s(7)]
  show sb: "sb_of k' = sb_of k" using d(3) s(9) by simp
  show dl: "disk_read_block l k' = disk_read_block l k" for l using d(1) s(9) by simp
  show "f_cbm (k_fs k') = concat (map (\<lambda>b. disk_read_block (2 + of_nat b) k) [0..<unat (sb_bitmap_blocks (sb_of k))])"
    using b(1) s(9) d(1,3) by simp
  have "sb_root_inode (sb_of k4) = 0" using k4(2) by (simp add: geom_ok_def Let_def)
  then have i: "ibm = put_bit (replicate 32 0) 0" using s(6,8) by (simp add: bit_set_def in_map_def FS_INODE_COUNT_def)
  then show "f_ibm (k_fs k') = put_bit (replicate 32 0) 0" using s(9) by simp
  show "fs_base k'" using k4 s(5,6,9) b(2) i d(3) by (simp add: fs_base_def)
qed

text \<open>The inode map of a fresh mount has the root directory only.\<close>

lemma mount_inodes: "f_ibm (k_fs k) = put_bit (replicate 32 0) 0 \<Longrightarrow> is_inode i \<Longrightarrow> used_inode k i \<longleftrightarrow> i = 0"
  using test_put_bit [of 0 "replicate 32 0" "unat i"]
  by (auto simp: used_inode_def test_bit_def is_inode_def FS_INODE_COUNT_def word_unat_eq_iff)

section \<open>Format\<close>

lemma sb_stored_write_all:
  assumes "disk_ok k" "sb_shape (sb_of k)" "sb_valid (sb_of k)"
  shows "sb_stored (sb_write_all k)" "sb_of (sb_write_all k) = (sb_of k)\<lparr>sb_seq := sb_seq (sb_of k) + 1\<rparr>" "disk_ok (sb_write_all k)"
    "unat l < 2 ^ 28 \<Longrightarrow> 2 \<le> unat l \<Longrightarrow> disk_read_block l (sb_write_all k) = disk_read_block l k"
proof -
  let ?s = "(sb_of k)\<lparr>sb_seq := sb_seq (sb_of k) + 1\<rparr>"
  have w: "sb_write_all k = disk_write_block 0 (enc_sb ?s) (disk_write_block 1 (enc_sb ?s) (upd_fs (\<lambda>f. f\<lparr>f_sb := (f_sb f)\<lparr>sb_seq := sb_seq (f_sb f) + 1\<rparr>\<rparr>) k))"
    by (simp add: sb_write_all_def Let_def sb_of_def)
  have sh: "sb_shape ?s" "length (enc_sb ?s) = 512" "dec_sb (enc_sb ?s) = ?s" "sb_valid ?s"
    using assms(2,3) enc_sb_length [of ?s] dec_enc_sb [of ?s] by (simp_all add: sb_shape_def sb_valid_def)
  show sb: "sb_of (sb_write_all k) = ?s" unfolding w by (simp add: sb_of_def)
  show "sb_stored (sb_write_all k)" unfolding sb_stored_def sb using sh
    by (simp add: w disk_read_write del: fs_sb.simps)
  show "disk_ok (sb_write_all k)" unfolding w using assms(1) by (simp add: disk_write_ok)
  show "disk_read_block l (sb_write_all k) = disk_read_block l k" if "unat l < 2 ^ 28" "2 \<le> unat l"
    using that sh(2) unfolding w by (auto simp: disk_read_write)
qed

lemma fs_format_ok:
  assumes "disk_ok k" "64 \<le> unat (fs_usable_blocks ds)" "unat (fs_usable_blocks ds) \<le> 2 ^ 28" "fs_format ds k = Ok (0, k')"
    and "unat (sb_block_count (new_sb (fs_usable_blocks ds))) \<le> 4096 * unat (sb_bitmap_blocks (new_sb (fs_usable_blocks ds)))"
  shows "disk_ok k'" "geom_ok k'" "sb_stored k'" "i_size (read_inode 0 k') = 0" "i_blocks (read_inode 0 k') = replicate FS_MAX_BLOCKS 0"
    "\<And>b. b < unat (sb_bitmap_blocks (sb_of k')) \<Longrightarrow> disk_read_block (2 + of_nat b) k' = zero_block"
proof -
  let ?s = "new_sb (fs_usable_blocks ds)" and ?x = "zero_inode\<lparr>i_mode := FS_INODE_DIR, i_nlinks := 2\<rparr>"
  note g = new_sb_layout [OF assms(2,3)]
  let ?ka = "upd_fs (\<lambda>f. f\<lparr>f_sb := ?s\<rparr>) k"
  obtain p k1 k2 p' k3 k4 where s: "k_malloc (sb_bitmap_blocks ?s * of_nat FS_BLOCK_SIZE) ?ka = Ok (p, k1)"
    "k_free p (write_zeros (sb_bitmap_start ?s) (sb_bitmap_blocks ?s) k1) = Ok k2"
    "k_malloc (inode_blocks * of_nat FS_BLOCK_SIZE) k2 = Ok (p', k3)" "k_free p' (write_zeros (sb_inode_start ?s) inode_blocks k3) = Ok k4"
    "k' = sb_write_all (write_inode 0 ?x k4)"
    using assms(4) unfolding fs_format_def Let_def by (auto simp: bind_res_Ok_iff split: if_splits elim: map_res.elims)
  note d = only_mem_disk [OF only_mem_malloc [OF s(1)]] only_mem_disk [OF only_mem_free [OF s(2)]]
    only_mem_disk [OF only_mem_malloc [OF s(3)]] only_mem_disk [OF only_mem_free [OF s(4)]]
  have z: "length zero_block = 512" by (simp add: zero_block_def FS_BLOCK_SIZE_def)
  have sb4: "sb_of k4 = ?s" using d by (simp add: sb_of_def)
  have d4: "disk_ok k4" using d assms(1) by simp
  have geom: "geom_ok k4" unfolding geom_ok_def Let_def sb4 using g assms(3,5) by (simp add: FS_INODE_COUNT_def)
  have bz: "disk_read_block (2 + of_nat b) k4 = zero_block" if b: "b < unat (sb_bitmap_blocks ?s)" for b
  proof -
    have small: "unat (2 + of_nat b :: u64) = 2 + b" "2 + b < 2 ^ 28" using b g(2-4) assms(3) by (simp_all add: unat_word_ariths unat_of_nat)
    have "disk_read_block (2 + of_nat b) k2 = zero_block"
      using fold_write_blocks [of "sb_bitmap_start ?s" "unat (sb_bitmap_blocks ?s)" "\<lambda>_. zero_block" "2 + of_nat b" k1] g(1-4) assms(3) z small b
      by (simp add: d write_zeros_def)
    moreover have "disk_read_block (2 + of_nat b) k4 = disk_read_block (2 + of_nat b) k2"
      using fold_write_blocks [of "sb_inode_start ?s" "unat inode_blocks" "\<lambda>_. zero_block" "2 + of_nat b" k3] g(1-4) assms(3) z small b
      by (simp add: d write_zeros_def inode_blocks_36)
    ultimately show ?thesis by simp
  qed
  have i0: "is_inode 0" by (simp add: is_inode_def FS_INODE_COUNT_def)
  have sx: "inode_shape ?x" by (simp add: inode_shape_def zero_inode_def)
  let ?kw = "write_inode 0 ?x k4"
  have rw: "read_inode 0 ?kw = ?x" using disk.geti_puti [of k4, OF _ i0 i0 sx] d4 geom by simp
  have st: "sb_shape (sb_of ?kw)" "sb_valid (sb_of ?kw)" "disk_ok ?kw" using g(10,11) sb4 d4 write_inode_ok by simp_all
  note a = sb_stored_write_all [OF st(3,1,2)]
  show "disk_ok k'" "sb_stored k'" unfolding s(5) by (rule a)+
  have gk: "geom_ok k' = geom_ok k4" unfolding s(5) geom_ok_def Let_def a(2) by simp
  then show "geom_ok k'" using geom by simp
  have il: "inode_lba 0 k' = inode_lba 0 ?kw" unfolding s(5) inode_lba_def a(2) by simp
  have "2 \<le> unat (inode_lba 0 ?kw)" "unat (inode_lba 0 ?kw) < 2 ^ 28" using geom_inode(3,4) [of ?kw 0] geom i0 by simp_all
  then have r0: "read_inode 0 k' = ?x" using rw a(4) unfolding read_inode_def il unfolding s(5) by simp
  then show "i_size (read_inode 0 k') = 0" "i_blocks (read_inode 0 k') = replicate FS_MAX_BLOCKS 0" by (simp_all add: zero_inode_def)
  fix b
  assume "b < unat (sb_bitmap_blocks (sb_of k'))"
  then have b: "b < unat (sb_bitmap_blocks ?s)" unfolding s(5) a(2) by (simp add: sb4)
  have l: "unat (2 + of_nat b :: u64) = 2 + b" "2 + b < 2 ^ 28" using b g(2-4) assms(3) by (simp_all add: unat_word_ariths unat_of_nat)
  have "2 + of_nat b \<noteq> inode_lba 0 k4"
  proof
    assume "2 + of_nat b = inode_lba 0 k4"
    then have "unat (inode_lba 0 k4) = 2 + b" using l(1) by simp
    then show False using geom_inode(4) [OF geom i0] b sb4 by simp
  qed
  moreover have "length (splice (inode_off 0) (enc_inode ?x) (disk_read_block (inode_lba 0 k4) k4)) = 512"
    using disk_read_length [OF d4] enc_inode_length [OF sx] inode_room [OF d4] by (simp add: length_splice)
  ultimately have "disk_read_block (2 + of_nat b) ?kw = disk_read_block (2 + of_nat b) k4"
    using disk_read_write [of "inode_lba 0 k4" "2 + of_nat b"] geom_inode(3) [OF geom i0] l by (simp add: write_inode_def)
  then show "disk_read_block (2 + of_nat b) k' = zero_block" using bz [OF b] a(4) [of "2 + of_nat b"] l unfolding s(5) by simp
qed

lemma format_mount_ok:
  assumes "disk_ok k" "64 \<le> unat (fs_usable_blocks ds)" "unat (fs_usable_blocks ds) \<le> 2 ^ 28"
    and "unat (sb_block_count (new_sb (fs_usable_blocks ds))) \<le> 4096 * unat (sb_bitmap_blocks (new_sb (fs_usable_blocks ds)))"
    and "fs_format ds k = Ok (0, k1)" "fs_mount k1 = Ok (0, k2)"
  shows "fs_ok k2" "fs_files k2 = Map.empty" "\<And>c. is_cluster k2 c \<Longrightarrow> \<not> used_cluster k2 c"
proof -
  note f = fs_format_ok [OF assms(1-3,5,4)]
  note m = fs_mount_ok [OF f(1-3) assms(6)]
  note v = views_disk [OF m(2,3)]
  have d: "dirents k2 = []" using f(4) v(1) by (simp add: dirents_def)
  have bm: "f_cbm (k_fs k2) = replicate (512 * unat (sb_bitmap_blocks (sb_of k1))) 0"
  proof -
    have "map (\<lambda>b. disk_read_block (2 + of_nat b) k1) [0..<unat (sb_bitmap_blocks (sb_of k1))]
        = replicate (unat (sb_bitmap_blocks (sb_of k1))) (replicate 512 0)"
      using f(6) by (intro nth_equalityI) (simp_all add: zero_block_def FS_BLOCK_SIZE_def)
    moreover have "concat (replicate n (replicate 512 (0 :: u8))) = replicate (512 * n) 0" for n
      by (induction n) (simp_all add: replicate_add [symmetric])
    ultimately show ?thesis using m(4) by simp
  qed
  show "\<not> used_cluster k2 c" if "is_cluster k2 c" for c
    using cluster_in_map [OF m(1), of c] that bm by (simp add: used_cluster_def test_bit_def is_cluster_def)
  have i0: "is_inode 0" by (simp add: is_inode_def FS_INODE_COUNT_def)
  have r: "own (read_inode 0 k2) = {}" "inode_shape (read_inode 0 k2)" "sized (read_inode 0 k2)"
    using f(4,5) v(1) read_inode_shape [of k2 0] m(1) by (auto simp: own_def sized_def FS_MAX_BLOCKS_def fs_base_def)
  have "owned (\<lambda>i. read_inode i k2) {0} k2" using r f(5) v(1) by (auto simp: owned_def FS_MAX_BLOCKS_def)
  then show "fs_ok k2" unfolding fs_ok_def d
    using m(1) f(4) v(1) mount_inodes [OF m(5) i0] r(3) by (simp add: files_def live_ents_def dir_ok_def)
  show "fs_files k2 = Map.empty" by (simp add: fs_files_def fs_dir_def d fun_eq_iff)
qed

section \<open>Mounting again\<close>

lemma fs_sync_ok:
  assumes "fs_ok k" "sb_stored k"
  shows "\<exists>k'. fs_sync_bitmap k = Ok k' \<and> disk_ok k' \<and> sb_of k' = sb_of k \<and> sb_stored k' \<and> k_fs k' = k_fs k \<and> k_heap k' = k_heap k
    \<and> (\<forall>i. is_inode i \<longrightarrow> read_inode i k' = read_inode i k) \<and> (\<forall>c. is_cluster k c \<longrightarrow> cluster k' c = cluster k c)
    \<and> concat (map (\<lambda>b. disk_read_block (2 + of_nat b) k') [0..<unat (sb_bitmap_blocks (sb_of k))]) = f_cbm (k_fs k)"
proof -
  note b = fs_okD(1) [OF assms(1), unfolded fs_base_def] and g = fs_okD(3) [OF assms(1)]
  let ?n = "unat (sb_bitmap_blocks (sb_of k))" and ?f = "\<lambda>b. bytes_at (b * FS_BLOCK_SIZE) FS_BLOCK_SIZE (f_cbm (k_fs k))"
  have bs: "unat (sb_bitmap_start (sb_of k)) = unat (2 :: u64)" "2 + ?n + 36 \<le> 2 ^ 28" using g by (auto simp: geom_ok_def Let_def)
  then have b2: "sb_bitmap_start (sb_of k) = 2" unfolding word_unat_eq_iff by simp
  let ?k = "fold (\<lambda>b. disk_write_block (2 + of_nat b) (?f b)) [0..<?n] k"
  have run: "fs_sync_bitmap k = Ok ?k" using b b2 by (simp add: fs_sync_bitmap_def Let_def FS_BLOCK_SIZE_def sb_of_def)
  have len: "length (?f i) = 512" if "i < ?n" for i using that b by (simp add: FS_BLOCK_SIZE_def)
  have rd: "disk_read_block l ?k = (if 2 \<le> unat l \<and> unat l < 2 + ?n then ?f (unat l - 2) else disk_read_block l k)" if "unat l < 2 ^ 28" for l
    using fold_write_blocks [of 2 ?n ?f l k] len bs(2) that by simp
  have ri: "read_inode i ?k = read_inode i k" if "is_inode i" for i
    using rd [OF geom_inode(3) [OF g that]] geom_inode(4) [OF g that] by (simp add: read_inode_def inode_lba_def)
  have rc: "cluster ?k c = cluster k c" if "is_cluster k c" for c
  proof -
    have "2 + ?n \<le> unat (sb_data_start (sb_of k))" using g by (simp add: geom_ok_def Let_def)
    then show ?thesis using rd [OF geom_data(2) [OF g that]] geom_data(3) [OF g that] by (simp add: cluster_def)
  qed
  have st: "sb_stored ?k" using assms(2) rd [of 0] rd [of 1] by (simp add: sb_stored_def)
  have "map (\<lambda>b. disk_read_block (2 + of_nat b) ?k) [0..<?n] = map (\<lambda>b. bytes_at (512 * b) 512 (f_cbm (k_fs k))) [0..<?n]"
  proof (intro map_cong refl)
    fix i
    assume "i \<in> set [0..<?n]"
    then have i: "i < ?n" by simp
    then have u: "unat (2 + of_nat i :: u64) = 2 + i" using bs(2) by (simp add: unat_word_ariths unat_of_nat)
    then show "disk_read_block (2 + of_nat i) ?k = bytes_at (512 * i) 512 (f_cbm (k_fs k))"
      using rd [of "2 + of_nat i"] i bs(2) by (simp add: FS_BLOCK_SIZE_def mult.commute)
  qed
  then have "concat (map (\<lambda>b. disk_read_block (2 + of_nat b) ?k) [0..<?n]) = f_cbm (k_fs k)"
    using slices_concat [of "f_cbm (k_fs k)" 512 ?n] b by (simp only:)
  moreover have "k_fs (fold (\<lambda>b. disk_write_block (2 + of_nat b) (?f b)) bs k) = k_fs k"
    "k_heap (fold (\<lambda>b. disk_write_block (2 + of_nat b) (?f b)) bs k') = k_heap k'" for bs k'
    by (induction bs arbitrary: k k') (simp_all add: disk_write_block_def)
  ultimately show ?thesis using run ri rc st fs_okD(2) [OF assms(1)] by (intro exI [of _ ?k]) simp
qed

text \<open>
  After a sync and a mount every file is there with its contents and its clusters are taken, but no inode except that
  of the root directory is.
\<close>

lemma remount_ok:
  assumes "fs_ok k" "sb_stored k" "fs_sync_bitmap k = Ok k1" "fs_mount k1 = Ok (0, k2)"
  shows "fs_files k2 = fs_files k" "fs_dir k2 = fs_dir k" "dirents k2 = dirents k" "fs_base k2"
    "\<And>c. used_cluster k2 c = used_cluster k c" "\<And>i. is_inode i \<Longrightarrow> used_inode k2 i \<longleftrightarrow> i = 0"
    "\<And>i. i \<in> files (dirents k) \<Longrightarrow> read_inode i k2 = read_inode i k" "\<And>c. is_cluster k c \<Longrightarrow> cluster k2 c = cluster k c"
    "sb_of k2 = sb_of k"
proof -
  have s: "disk_ok k1" "sb_of k1 = sb_of k" "sb_stored k1" "\<And>i. is_inode i \<Longrightarrow> read_inode i k1 = read_inode i k"
    "\<And>c. is_cluster k c \<Longrightarrow> cluster k1 c = cluster k c"
    "concat (map (\<lambda>b. disk_read_block (2 + of_nat b) k1) [0..<unat (sb_bitmap_blocks (sb_of k))]) = f_cbm (k_fs k)"
    using fs_sync_ok [OF assms(1,2)] assms(3) by auto
  have g: "geom_ok k1" using fs_okD(3) [OF assms(1)] s(2) by (simp add: geom_ok_def)
  note m = fs_mount_ok [OF s(1) g s(3) assms(4)]
  note v = views_disk [OF m(2,3)]
  show "fs_base k2" by (rule m(1))
  show "sb_of k2 = sb_of k" using m(2) s(2) by simp
  show "used_cluster k2 c = used_cluster k c" for c using m(4) s(2,6) by (simp add: used_cluster_def)
  show "used_inode k2 i \<longleftrightarrow> i = 0" if "is_inode i" for i by (rule mount_inodes [OF m(5) that])
  show ri: "read_inode i k2 = read_inode i k" if "i \<in> files (dirents k)" for i using v(1) s(4) files_inode [OF assms(1) that] by simp
  show rc: "cluster k2 c = cluster k c" if "is_cluster k c" for c using v(2) s(5) that by simp
  show d: "dirents k2 = dirents k"
    using assms(1) by (cases rule: root_cases) (use ri [OF files_root] rc in \<open>auto simp: dirents_def\<close>)
  show fd: "fs_dir k2 = fs_dir k" by (rule fs_dir_cong [OF d])
  show "fs_files k2 = fs_files k"
  proof
    fix a
    show "fs_files k2 a = fs_files k a"
    proof (cases "fs_dir k a")
      case (Some i)
      note i = fs_dir_file [OF assms(1) Some]
      have "file_bytes (read_inode i k) (cluster k2) = file_bytes (read_inode i k) (cluster k)"
        using rc ownedD(1,2) [OF fs_okD(8) [OF assms(1)] i(1)] fs_okD(7) [OF assms(1) i(1)] by (intro file_bytes_cong) auto
      then show ?thesis using Some fd ri [OF i(1)] by (simp add: fs_files_def)
    qed (simp add: fs_files_def fd)
  qed
qed

section \<open>The file system and the swap area\<close>

text \<open>
  What an operation on files may change: the state of the file system, and sectors from the inode table to the end of
  the data area.
\<close>

definition confined :: "kernel \<Rightarrow> kernel \<Rightarrow> bool" where
  "confined k k' \<longleftrightarrow> sb_of k' = sb_of k \<and> f_cbm_ptr (k_fs k') = f_cbm_ptr (k_fs k) \<and> f_ibm_ptr (k_fs k') = f_ibm_ptr (k_fs k)
     \<and> k'\<lparr>k_disk := k_disk k, k_fs := k_fs k\<rparr> = k
     \<and> (\<forall>a. unat a < unat (sb_inode_start (sb_of k)) \<or> unat (sb_data_start (sb_of k)) + unat (sb_block_count (sb_of k)) \<le> unat a
          \<longrightarrow> k_disk k' a = k_disk k a)"

lemma confined_refl [simp]: "confined k k"
  by (simp add: confined_def)

lemma confined_trans:
  assumes "confined k k'" "confined k' k''"
  shows "confined k k''"
proof -
  have "k''\<lparr>k_disk := k_disk k, k_fs := k_fs k\<rparr> = (k''\<lparr>k_disk := k_disk k', k_fs := k_fs k'\<rparr>)\<lparr>k_disk := k_disk k, k_fs := k_fs k\<rparr>" by simp
  also have "\<dots> = k" using assms unfolding confined_def by metis
  finally show ?thesis using assms by (simp add: confined_def)
qed

lemma confined_upd:
  "f_sb (f (k_fs k)) = f_sb (k_fs k) \<Longrightarrow> f_cbm_ptr (f (k_fs k)) = f_cbm_ptr (k_fs k) \<Longrightarrow> f_ibm_ptr (f (k_fs k)) = f_ibm_ptr (k_fs k)
     \<Longrightarrow> confined k (upd_fs f k)"
  by (simp add: confined_def upd_fs_def sb_of_def)

lemma confined_write:
  assumes "unat (sb_inode_start (sb_of k)) \<le> unat l" "unat l < unat (sb_data_start (sb_of k)) + unat (sb_block_count (sb_of k))" "geom_ok k"
  shows "confined k (disk_write_block l b k)"
proof -
  have "unat l < 2 ^ 28" using assms by (auto simp: geom_ok_def Let_def)
  note s = lba_small [OF this]
  show ?thesis using s assms(1,2) by (auto simp: confined_def disk_write_block_def sb_of_def)
qed

lemma confined_geom: "confined k k' \<Longrightarrow> geom_ok k' = geom_ok k"
  by (simp add: confined_def geom_ok_def)

lemma confined_inode:
  assumes "geom_ok k" "is_inode i"
  shows "confined k (write_inode i x k)"
proof -
  have "0 < unat (sb_block_count (sb_of k))" using assms(1) by (simp add: geom_ok_def Let_def)
  then show ?thesis using confined_write [OF _ _ assms(1)] geom_inode(1,2) [OF assms] unfolding write_inode_def by simp
qed

lemma confined_cluster:
  assumes "geom_ok k"
  shows "confined k (snd (fs_cluster_write c b k))"
proof (cases "unat c < unat (sb_block_count (sb_of k))")
  case True
  have "unat (sb_data_start (sb_of k)) + unat (sb_block_count (sb_of k)) \<le> 2 ^ 28" using assms by (simp add: geom_ok_def Let_def)
  then have "unat (sb_data_start (sb_of k) + ucast c) = unat (sb_data_start (sb_of k)) + unat c" using True by (simp add: unat_word_ariths)
  moreover have "unat (sb_inode_start (sb_of k)) \<le> unat (sb_data_start (sb_of k))" using assms by (simp add: geom_ok_def Let_def)
  ultimately show ?thesis using True confined_write [OF _ _ assms] by (simp add: fs_cluster_write_def word_le_nat_alt)
qed (simp add: fs_cluster_write_def word_le_nat_alt)

lemma confined_alloc: "fs_alloc_cluster k = Ok (c, k') \<Longrightarrow> confined k k'"
  by (auto simp: fs_alloc_cluster_def Let_def bind_res_Ok_iff split: if_splits option.splits elim!: map_res.elims simp: confined_upd)

lemma confined_free: "fs_free_cluster c k = Ok k' \<Longrightarrow> confined k k'"
  by (auto simp: fs_free_cluster_def split: if_splits elim!: map_res.elims simp: confined_upd)

lemma confined_free_tail: "free_tail js x k = Ok (x', k') \<Longrightarrow> confined k k'"
proof (induction js arbitrary: x k)
  case (Cons j js)
  then show ?case
    by (auto simp: bind_res_Ok_iff split: if_splits dest!: confined_free intro: confined_trans)
qed simp

lemma confined_chunks: "write_chunks bs js x k = Ok (r, k') \<Longrightarrow> geom_ok k \<Longrightarrow> confined k k'"
proof (induction js arbitrary: x k)
  case (Cons j js)
  obtain c k1 where c: "(if i_blocks x ! j = 0 then fs_alloc_cluster k else Ok (i_blocks x ! j, k)) = Ok (c, k1)"
    "(if i_blocks x ! j = 0 \<and> c = -1 then Ok (None, k1)
       else case fs_cluster_write c (chunk bs j) k1 of
              (r, k) \<Rightarrow> if r \<noteq> 0 then Ok (None, k) else write_chunks bs js (x\<lparr>i_blocks := (i_blocks x)[j := c]\<rparr>) k) = Ok (r, k')"
    using Cons.prems(1) by (auto simp: bind_res_Ok_iff)
  have k1: "confined k k1" using c(1) confined_alloc by (auto split: if_splits)
  have g: "geom_ok k1" using confined_geom [OF k1] Cons.prems(2) by simp
  obtain q k2 where w: "fs_cluster_write c (chunk bs j) k1 = (q, k2)" by fastforce
  have k2: "confined k1 k2" "geom_ok k2" using confined_cluster [OF g, of c "chunk bs j"] w confined_geom [of k1 k2] g by simp_all
  show ?case using c(2) w k1 k2 Cons.IH by (auto split: if_splits intro: confined_trans)
qed simp

lemma confined_file:
  assumes "fs_write_file i bs k = Ok (r, k')" "geom_ok k" "is_inode i"
  shows "confined k k'"
proof -
  consider "k' = k" | x k1 r1 k2 where "free_tail [unat ((of_nat (length bs) + of_nat FS_BLOCK_SIZE - 1 :: u64) div of_nat FS_BLOCK_SIZE)..<FS_MAX_BLOCKS] (read_inode i k) k = Ok (x, k1)"
      "write_chunks bs [0..<unat ((of_nat (length bs) + of_nat FS_BLOCK_SIZE - 1 :: u64) div of_nat FS_BLOCK_SIZE)] x k1 = Ok (r1, k2)" "k' = k2 \<or> (\<exists>y. k' = write_inode i y k2)"
    using assms(1) unfolding fs_write_file_def Let_def by (fastforce simp: bind_res_Ok_iff split: if_splits option.splits)
  then show ?thesis
  proof cases
    case 2
    have k1: "confined k k1" by (rule confined_free_tail [OF 2(1)])
    then have "geom_ok k1" using confined_geom [of k k1] assms(2) by simp
    then have "confined k1 k2" by (rule confined_chunks [OF 2(2)])
    then have k2: "confined k k2" by (rule confined_trans [OF k1])
    then have "geom_ok k2" using confined_geom [of k k2] assms(2) by simp
    then show ?thesis using 2(3) confined_inode [OF _ assms(3), of k2] k2 by (auto intro: confined_trans)
  qed simp
qed

lemma confined_root_load [simp]: "confined k (root_load k)"
  by (simp add: root_load_def confined_upd)

lemma confined_extend:
  assumes "root_extend bi g k = Ok (r, k')" "geom_ok k"
  shows "confined k k'"
proof -
  obtain c k1 where a: "fs_alloc_cluster k = Ok (c, k1)" using assms(1) by (auto simp: root_extend_def bind_res_Ok_iff)
  obtain q k2 where w: "fs_cluster_write c zero_block k1 = (q, k2)" by fastforce
  have k1: "confined k k1" by (rule confined_alloc [OF a])
  have g1: "geom_ok k1" using confined_geom [OF k1] assms(2) by simp
  have k2: "confined k1 k2" using confined_cluster [OF g1, of c zero_block] w by simp
  have g2: "geom_ok k2" using confined_geom [OF k2] g1 by simp
  let ?u = "\<lambda>f. f\<lparr>f_root := (f_root f)\<lparr>i_blocks := (i_blocks (f_root f))[bi := c], i_size := g (i_size (f_root f))\<rparr>\<rparr>"
  have u: "confined k2 (upd_fs ?u k2)" by (rule confined_upd) simp_all
  have "sb_root_inode (sb_of (upd_fs ?u k2)) = 0" using g2 by (simp add: geom_ok_def Let_def sb_of_def)
  then have s: "confined (upd_fs ?u k2) (root_save (upd_fs ?u k2))"
    unfolding root_save_def using confined_geom [OF u] g2 by (intro confined_inode) (simp_all add: is_inode_def FS_INODE_COUNT_def)
  note t = confined_trans [OF k1 k2]
  have "k' = k1 \<or> k' = k2 \<or> k' = root_save (upd_fs ?u k2)" using assms(1) a w by (auto simp: root_extend_def split: if_splits)
  then show ?thesis using k1 t confined_trans [OF t confined_trans [OF u s]] by blast
qed

lemma confined_add_loop: "dir_add_loop d bis k = Ok (r, k') \<Longrightarrow> geom_ok k \<Longrightarrow> confined k k'"
proof (induction bis)
  case (Cons bi bis)
  consider "k' = k" | b where "fs_cluster_write (root_block k bi) b k = (r, k')" | "dir_add_loop d bis k = Ok (r, k')"
    using Cons.prems(1) by (auto split: if_splits option.splits)
  then show ?case
  proof cases
    case (2 b)
    then show ?thesis using confined_cluster [OF Cons.prems(2), of "root_block k bi" b] by simp
  next
    case 3
    then show ?thesis by (rule Cons.IH [OF _ Cons.prems(2)])
  qed simp
qed simp

lemma confined_add_entry:
  assumes "dir_add_entry name i ty k = Ok (r, k')" "geom_ok k"
  shows "confined k k'"
proof -
  let ?k = "root_load k"
  have g: "geom_ok ?k" using confined_geom [OF confined_root_load] assms(2) by simp
  consider "k' = ?k" | q k1 where "root_ensure_block ?k = Ok (q, k1)" "k' = k1 \<or> dir_add_loop (new_dirent name i ty) [0..<FS_MAX_BLOCKS] k1 = Ok (r, k')"
    using assms(1) by (auto simp: dir_add_entry_def Let_def bind_res_Ok_iff split: if_splits)
  then show ?thesis
  proof cases
    case 2
    have k1: "confined ?k k1" using 2(1) confined_extend [OF _ g] by (auto simp: root_ensure_block_def split: if_splits)
    have "geom_ok k1" using confined_geom [OF k1] g by simp
    then have "confined ?k k'" using 2(2) k1 confined_add_loop [of _ _ k1 r k'] by (auto intro: confined_trans)
    then show ?thesis by (rule confined_trans [OF confined_root_load])
  qed simp
qed

lemma confined_create:
  assumes "fs_ok k" "fs_create name mode k = Ok (r, k')"
  shows "confined k k'"
proof -
  let ?k = "root_load k"
  have m: "f_mounted (k_fs k)" using fs_okD(1) [OF assms(1)] by (simp add: fs_base_def)
  have k: "fs_ok ?k" using assms(1) by (simp add: root_load_ok)
  show ?thesis
  proof (cases "fs_dir k (asc name)")
    case (Some i)
    then show ?thesis using assms(2) fs_lookup_ok [OF assms(1), of name] m confined_root_load [of k] by (auto simp: fs_create_def)
  next
    case None
    have l: "fs_lookup name k = Ok (-1, ?k)" using fs_lookup_ok [OF assms(1), of name] None by simp
    show ?thesis
      using fs_okD(1) [OF k]
    proof (cases rule: alloc_inode_cases)
      case full
      then show ?thesis using assms(2) l m confined_root_load [of k] by (auto simp: fs_create_def)
    next
      case (got i)
      let ?ki = "set_ibm (put_bit (f_ibm (k_fs ?k)) (unat i)) ?k"
      let ?kw = "write_inode i (zero_inode\<lparr>i_mode := mode, i_nlinks := 1, i_mtime := ucast (k_ticks k)\<rparr>) ?ki"
      have ki: "confined k ?ki" unfolding set_ibm_def by (rule confined_trans [OF confined_root_load confined_upd]) simp_all
      have g: "geom_ok ?ki" using confined_geom [OF ki] fs_okD(3) [OF assms(1)] by simp
      have kw: "confined k ?kw" by (rule confined_trans [OF ki confined_inode [OF g got(2)]])
      have gw: "geom_ok ?kw" using confined_geom [OF kw] fs_okD(3) [OF assms(1)] by simp
      obtain q where "dir_add_entry name i (if mode = FS_INODE_DIR then DT_DIR else DT_FILE) ?kw = Ok (q, k')"
        using assms(2) l m got(1,4) by (auto simp: fs_create_def bind_res_Ok_iff split: if_splits)
      then have "confined ?kw k'" by (rule confined_add_entry [OF _ gw])
      then show ?thesis by (rule confined_trans [OF kw])
    qed
  qed
qed

lemma confined_free_blocks: "free_blocks cs k = Ok k' \<Longrightarrow> confined k k'"
proof (induction cs arbitrary: k)
  case (Cons c cs)
  then show ?case by (auto simp: bind_res_Ok_iff split: if_splits dest!: confined_free intro: confined_trans)
qed simp

lemma confined_unlink:
  assumes "fs_ok k" "fs_unlink name k = Ok (r, k')"
  shows "confined k k'"
proof -
  let ?k = "root_load k"
  have m: "f_mounted (k_fs k)" using fs_okD(1) [OF assms(1)] by (simp add: fs_base_def)
  note l = fs_lookup_ok [OF assms(1), of name]
  show ?thesis
  proof (cases "fs_dir k (asc name)")
    case None
    then show ?thesis using assms(2) l m confined_root_load [of k] by (auto simp: fs_unlink_def Let_def)
  next
    case (Some i)
    note f = fs_dir_file [OF assms(1) Some]
    let ?kr = "root_load ?k"
    have kr: "confined k ?kr" by (rule confined_trans [OF confined_root_load confined_root_load])
    have ii: "word_of_int (uint i) = i" "i \<noteq> -1" using f(3) minus_one_u32 by (auto simp: is_inode_def FS_INODE_COUNT_def)
    consider "k' = ?kr" | kb where "free_blocks (i_blocks (read_inode i ?kr)) ?kr = Ok kb"
        "\<exists>ibm. let ku = upd_fs (\<lambda>f. f\<lparr>f_ibm := ibm\<rparr>) (write_inode i zero_inode kb)
          in k' = ku \<or> (\<exists>c b. k' = snd (fs_cluster_write c b ku))"
      using assms(2) l m Some ii unfolding fs_unlink_def Let_def
      by (fastforce simp: bind_res_Ok_iff split: option.splits if_splits)
    then show ?thesis
    proof cases
      case 2
      have kb: "confined k kb" by (rule confined_trans [OF kr confined_free_blocks [OF 2(1)]])
      have gb: "geom_ok kb" using confined_geom [OF kb] fs_okD(3) [OF assms(1)] by simp
      obtain ibm where ib: "k' = upd_fs (\<lambda>f. f\<lparr>f_ibm := ibm\<rparr>) (write_inode i zero_inode kb)
          \<or> (\<exists>c b. k' = snd (fs_cluster_write c b (upd_fs (\<lambda>f. f\<lparr>f_ibm := ibm\<rparr>) (write_inode i zero_inode kb))))"
        using 2(2) by (auto simp: Let_def)
      let ?ku = "upd_fs (\<lambda>f. f\<lparr>f_ibm := ibm\<rparr>) (write_inode i zero_inode kb)"
      have ku: "confined k ?ku" by (rule confined_trans [OF confined_trans [OF kb confined_inode [OF gb f(3)]] confined_upd]) simp_all
      have gu: "geom_ok ?ku" using confined_geom [OF ku] fs_okD(3) [OF assms(1)] by simp
      show ?thesis using ib confined_trans [OF ku confined_cluster [OF gu]] ku by blast
    qed (use kr in simp)
  qed
qed

text \<open>The superblocks stay as they are, and so does the heap.\<close>

lemma confined_keeps:
  assumes "confined k k'" "geom_ok k"
  shows "sb_stored k' = sb_stored k" "k_heap k' = k_heap k" "k_tasks k' = k_tasks k" "k_geom k' = k_geom k" "k_slots k' = k_slots k"
proof -
  have e: "k'\<lparr>k_disk := k_disk k, k_fs := k_fs k\<rparr> = k" using assms(1) by (simp add: confined_def)
  show "k_heap k' = k_heap k" "k_tasks k' = k_tasks k" "k_geom k' = k_geom k" "k_slots k' = k_slots k"
    using arg_cong [OF e, of k_heap] arg_cong [OF e, of k_tasks] arg_cong [OF e, of k_geom] arg_cong [OF e, of k_slots] by simp_all
  have "k_disk k' a = k_disk k a" if "a = 0 \<or> a = 1" for a
  proof -
    have "unat a < unat (sb_inode_start (sb_of k))" using that assms(2) by (auto simp: geom_ok_def Let_def)
    then show ?thesis using assms(1) by (simp add: confined_def)
  qed
  then have "disk_read_block 0 k' = disk_read_block 0 k" "disk_read_block 1 k' = disk_read_block 1 k"
    by (simp_all add: disk_read_block_def ide_read_sectors_def lba28_def)
  moreover have "sb_of k' = sb_of k" using assms(1) by (simp add: confined_def)
  ultimately show "sb_stored k' = sb_stored k" by (simp add: sb_stored_def)
qed

text \<open>The files depend on the state of the file system and on the sectors of its areas only.\<close>

lemma fs_ok_transfer:
  assumes "fs_ok k" "k_fs k' = k_fs k" "disk_ok k'"
    and "\<And>l. unat l < unat (sb_data_start (sb_of k)) + unat (sb_block_count (sb_of k)) \<Longrightarrow> disk_read_block l k' = disk_read_block l k"
  shows "fs_ok k'" "fs_files k' = fs_files k"
proof -
  have sb: "sb_of k' = sb_of k" using assms(2) by (simp add: sb_of_def)
  note g = fs_okD(3) [OF assms(1)]
  have ri: "read_inode i k' = read_inode i k" if "is_inode i" for i
  proof -
    have "0 < unat (sb_block_count (sb_of k))" using g by (simp add: geom_ok_def Let_def)
    then show ?thesis using assms(4) [of "inode_lba i k"] geom_inode(2) [OF g that] sb by (simp add: read_inode_def inode_lba_def)
  qed
  have rc: "cluster k' c = cluster k c" if "is_cluster k c" for c
    using assms(4) [of "sb_data_start (sb_of k) + ucast c"] geom_data(1) [OF g that] that sb by (simp add: cluster_def is_cluster_def)
  have i0: "is_inode 0" by (simp add: is_inode_def FS_INODE_COUNT_def)
  have d: "dirents k' = dirents k"
    using assms(1) by (cases rule: root_cases) (use ri [OF i0] rc in \<open>auto simp: dirents_def\<close>)
  have us: "used_cluster k' = used_cluster k" "used_inode k' = used_inode k" using assms(2) by (simp_all add: used_cluster_def used_inode_def fun_eq_iff)
  have b: "fs_base k'" using fs_okD(1) [OF assms(1)] assms(2,3) sb by (simp add: fs_base_def geom_ok_def)
  have fi: "read_inode i k' = read_inode i k" if "i \<in> files (dirents k)" for i using ri files_inode [OF assms(1) that] by simp
  have "owned (\<lambda>i. read_inode i k') (files (dirents k)) k'"
    using owned_cong [of "files (dirents k)" "\<lambda>i. read_inode i k'"] fi fs_okD(8) [OF assms(1)] us areas_same_sb(1) [OF sb] by (simp add: owned_def)
  then show "fs_ok k'" unfolding fs_ok_def d using b fi fs_okD(5-7,9,10) [OF assms(1)] us ri [OF i0] by simp
  show "fs_files k' = fs_files k"
  proof
    fix a
    show "fs_files k' a = fs_files k a"
    proof (cases "fs_dir k a")
      case (Some i)
      note i = fs_dir_file [OF assms(1) Some]
      have "file_bytes (read_inode i k) (cluster k') = file_bytes (read_inode i k) (cluster k)"
        using rc ownedD(1,2) [OF fs_okD(8) [OF assms(1)] i(1)] fs_okD(7) [OF assms(1) i(1)] by (intro file_bytes_cong) auto
      then show ?thesis using Some fs_dir_cong [OF d] fi [OF i(1)] by (simp add: fs_files_def)
    qed (simp add: fs_files_def fs_dir_cong [OF d])
  qed
qed

end
