(* ===== verification/FsMap.thy ===== *)
theory FsMap
  imports FsMount
begin

unbundle bit_operations_syntax

text \<open>
  The file system as its users see it: any sequence of creations, writes and removals is a run of the operations of a
  map from names to contents, the disk is laid out and divided with the swap area as intended, and
  what a mount forgets.
\<close>

section \<open>A map of names to contents\<close>

datatype fs_op = FCreate string u16 | FWrite string "u8 list" | FUnlink string

text \<open>A write goes through a lookup, as in \<^verbatim>\<open>corp_write\<close> and \<^verbatim>\<open>il_save\<close>.\<close>

fun fs_do :: "fs_op \<Rightarrow> kernel \<Rightarrow> (int \<times> kernel) res" where
  "fs_do (FCreate name mode) k = fs_create name mode k"
| "fs_do (FWrite name bs) k =
     bind_res (fs_lookup name k) (\<lambda>(i, k). if i < 0 then Ok (-1, k) else fs_write_file (word_of_int i) bs k)"
| "fs_do (FUnlink name) k = fs_unlink name k"

fun fs_dos :: "fs_op list \<Rightarrow> kernel \<Rightarrow> (int list \<times> kernel) res" where
  "fs_dos [] k = Ok ([], k)"
| "fs_dos (x # xs) k = bind_res (fs_do x k) (\<lambda>(r, k). map_res (\<lambda>(rs, k). (r # rs, k)) (fs_dos xs k))"

inductive fs_spec :: "(u8 list \<Rightarrow> u8 list option) \<Rightarrow> fs_op \<Rightarrow> int \<Rightarrow> (u8 list \<Rightarrow> u8 list option) \<Rightarrow> bool" where
  create: "m (asc n) = None \<Longrightarrow> 0 \<le> r \<Longrightarrow> fs_spec m (FCreate n md) r (m(asc n \<mapsto> []))"
| create_fails: "fs_spec m (FCreate n md) (-1) m"
| written: "m (asc n) \<noteq> None \<Longrightarrow> length bs \<le> 5120 \<Longrightarrow> fs_spec m (FWrite n bs) 0 (m(asc n \<mapsto> bs))"
| write_fails: "(\<And>a. a \<noteq> asc n \<Longrightarrow> m' a = m a) \<Longrightarrow> dom m' = dom m \<Longrightarrow> fs_spec m (FWrite n bs) (-1) m'"
| unlink: "m (asc n) \<noteq> None \<Longrightarrow> fs_spec m (FUnlink n) 0 (m(asc n := None))"
| unlink_fails: "m (asc n) = None \<Longrightarrow> fs_spec m (FUnlink n) (-1) m"

inductive fs_runs :: "(u8 list \<Rightarrow> u8 list option) \<Rightarrow> fs_op list \<Rightarrow> int list \<Rightarrow> (u8 list \<Rightarrow> u8 list option) \<Rightarrow> bool" where
  none: "fs_runs m [] [] m"
| one: "fs_spec m x r m' \<Longrightarrow> fs_runs m' xs rs m'' \<Longrightarrow> fs_runs m (x # xs) (r # rs) m''"

inductive_cases fs_spec_write: "fs_spec m (FWrite n bs) r m'"
inductive_simps fs_runs_simps: "fs_runs m [] rs m'" "fs_runs m (x # xs) rs m'"

definition op_size :: "fs_op \<Rightarrow> nat" where
  "op_size x = (case x of FWrite n bs \<Rightarrow> length bs | _ \<Rightarrow> 0)"

lemma fs_files_dom: "fs_files k a = None \<longleftrightarrow> fs_dir k a = None"
  by (simp add: fs_files_def)

lemma fs_do_ok:
  assumes "fs_ok k" "op_size x < 2 ^ 63"
  shows "\<exists>r k'. fs_do x k = Ok (r, k') \<and> fs_ok k' \<and> fs_spec (fs_files k) x r (fs_files k')"
proof (cases x)
  case (FCreate n md)
  obtain r k' where c: "fs_create n md k = Ok (r, k')" "fs_ok k'"
    "if r \<ge> 0 then fs_files k' = (fs_files k)(asc n \<mapsto> []) \<and> fs_files k (asc n) = None else r = -1 \<and> fs_files k' = fs_files k"
    using fs_create_ok [OF assms(1), of n md] by (auto split: if_splits)
  then show ?thesis using FCreate fs_spec.create fs_spec.create_fails by (cases "r \<ge> 0") auto
next
  case (FUnlink n)
  obtain r k' where u: "fs_unlink n k = Ok (r, k')" "fs_ok k'" "fs_files k' = (fs_files k)(asc n := None)"
    "r = 0 \<longleftrightarrow> fs_files k (asc n) \<noteq> None" "r = 0 \<or> r = -1" using fs_unlink_ok [OF assms(1), of n] by blast
  show ?thesis
  proof (cases "fs_files k (asc n)")
    case None
    then have "fs_files k' = fs_files k" "r = -1" using u(3-5) by auto
    then show ?thesis using FUnlink u(1,2) fs_spec.unlink_fails None by auto
  next
    case (Some bs)
    then show ?thesis using FUnlink u fs_spec.unlink [of "fs_files k" n] by auto
  qed
next
  case (FWrite n bs)
  note l = fs_lookup_ok [OF assms(1), of n]
  have k: "fs_ok (root_load k)" using assms(1) by (simp add: root_load_ok)
  show ?thesis
  proof (cases "fs_dir k (asc n)")
    case None
    then show ?thesis using FWrite l k fs_spec.write_fails [of n "fs_files k" "fs_files k" bs] by simp
  next
    case (Some i)
    have w: "fs_do x k = fs_write_file i bs (root_load k)" using FWrite l Some by simp
    show ?thesis
    proof (cases "length bs \<le> 5120")
      case False
      then show ?thesis using w fs_write_too_long [OF k] assms(2) FWrite k fs_spec.write_fails [of n "fs_files k" "fs_files k" bs]
        by (simp add: op_size_def)
    next
      case True
      have "fs_dir (root_load k) (asc n) = Some i" using Some by simp
      from fs_write_ok [OF k this True] obtain r k' where f: "fs_write_file i bs (root_load k) = Ok (r, k')" "fs_ok k'" "fs_dir k' = fs_dir k"
        "if r = 0 then fs_files k' = (fs_files k)(asc n \<mapsto> bs)
         else r = -1 \<and> (\<forall>a. a \<noteq> asc n \<longrightarrow> fs_files k' a = fs_files k a) \<and> (\<forall>c. is_cluster k' c \<longrightarrow> used_cluster k' c)"
        unfolding root_load_sel by blast
      have "dom (fs_files k') = dom (fs_files k)" using f(3) fs_files_dom [of k'] fs_files_dom [of k] by (auto simp: dom_def)
      then show ?thesis using w f FWrite True Some fs_files_dom [of k "asc n"] fs_spec.written [of "fs_files k" n bs]
          fs_spec.write_fails [of n "fs_files k'" "fs_files k" bs] by (cases "r = 0") auto
    qed
  qed
qed

lemma fs_dos_ok:
  "fs_ok k \<Longrightarrow> \<forall>x\<in>set xs. op_size x < 2 ^ 63 \<Longrightarrow> \<exists>rs k'. fs_dos xs k = Ok (rs, k') \<and> fs_ok k' \<and> fs_runs (fs_files k) xs rs (fs_files k')"
proof (induction xs arbitrary: k)
  case Nil
  then show ?case by (auto intro: fs_runs.none)
next
  case (Cons x xs)
  obtain r k1 where x: "fs_do x k = Ok (r, k1)" "fs_ok k1" "fs_spec (fs_files k) x r (fs_files k1)"
    using fs_do_ok [OF Cons.prems(1), of x] Cons.prems(2) by auto
  obtain rs k' where xs: "fs_dos xs k1 = Ok (rs, k')" "fs_ok k'" "fs_runs (fs_files k1) xs rs (fs_files k')"
    using Cons.IH [OF x(2)] Cons.prems(2) by auto
  then show ?case using x fs_runs.one [OF x(3) xs(3)] by auto
qed

lemma fs_reads:
  assumes "fs_ok k" "fs_files k (asc name) = Some bs"
  shows "\<exists>i. fs_lookup name k = Ok (uint i, root_load k) \<and> (\<forall>n. fs_read_file i n (root_load k) = (of_nat (length (take (unat n) bs)), take (unat n) bs))"
proof -
  obtain i where i: "fs_dir k (asc name) = Some i" using assms(2) by (auto simp: fs_files_def)
  have "fs_ok (root_load k)" using assms(1) by (simp add: root_load_ok)
  then show ?thesis using fs_lookup_ok [OF assms(1), of name] fs_read_ok [of "root_load k" "asc name" i bs] i assms(2) by auto
qed

text \<open>What the creation of a file needs.\<close>

definition creatable :: "string \<Rightarrow> kernel \<Rightarrow> bool" where
  "creatable name k \<longleftrightarrow> name \<noteq> [] \<and> length name \<le> FS_NAME_MAX \<and> fs_files k (asc name) = None \<and> (\<exists>i. is_inode i \<and> \<not> used_inode k i)
      \<and> (\<exists>c. is_cluster k c \<and> \<not> used_cluster k c) \<and> (dirents k = [] \<or> (\<exists>d\<in>set (dirents k). d_inode d = 0))"

lemma fs_create_room:
  assumes "fs_ok k" "creatable name k"
  shows "\<exists>r k'. fs_create name mode k = Ok (r, k') \<and> 0 \<le> r"
proof -
  have "fs_dir k (asc name) = None" using assms(2) fs_files_dom [of k] by (simp add: creatable_def)
  then show ?thesis using assms(2) fs_create_ok [OF assms(1), of name mode] unfolding creatable_def by (metis not_le)
qed

section \<open>An example\<close>

text \<open>A disk of 128 sectors, the file system on the first half: 25 clusters, all free.\<close>

definition demo_sb :: fs_sb where
  "demo_sb = new_sb 64"

definition demo_fs :: kernel where
  "demo_fs = one_task\<lparr>k_heap := empty_heap\<lparr>h_pmm := small_pmm\<rparr>, k_disk := (\<lambda>_. replicate 64 0),
     k_fs := \<lparr>f_sb = demo_sb, f_ibm_ptr = 1, f_ibm = put_bit (replicate 32 0) 0, f_cbm_ptr = 1, f_cbm = replicate 512 0,
        f_mounted = True, f_root = zero_inode\<rparr>\<rparr>"

lemma demo_layout: "unat (sb_bitmap_blocks demo_sb) = 1" "unat (sb_inode_start demo_sb) = 3" "unat (sb_data_start demo_sb) = 39"
  "unat (sb_block_count demo_sb) = 25" "sb_bitmap_start demo_sb = 2" "sb_inode_count demo_sb = 256" "sb_root_inode demo_sb = 0"
  "sb_shape demo_sb" "sb_valid demo_sb"
proof -
  note l = new_sb_layout [of 64, folded demo_sb_def]
  show b: "unat (sb_bitmap_blocks demo_sb) = 1" by code_simp
  show i: "unat (sb_inode_start demo_sb) = 3" using l(2) b by simp
  show d: "unat (sb_data_start demo_sb) = 39" using l(3) i by simp
  show "unat (sb_block_count demo_sb) = 25" using l(4) d by simp
  have "unat (sb_bitmap_start demo_sb) = unat (2 :: u64)" using l(1) by simp
  then show "sb_bitmap_start demo_sb = 2" unfolding word_unat_eq_iff .
  show "sb_inode_count demo_sb = 256" using l(7) by (simp add: FS_INODE_COUNT_def)
  show "sb_root_inode demo_sb = 0" "sb_shape demo_sb" "sb_valid demo_sb" using l(8,10,11) by simp_all
qed

lemma demo_sel [simp]: "sb_of demo_fs = demo_sb" "k_fs demo_fs = \<lparr>f_sb = demo_sb, f_ibm_ptr = 1, f_ibm = put_bit (replicate 32 0) 0, f_cbm_ptr = 1,
   f_cbm = replicate 512 0, f_mounted = True, f_root = zero_inode\<rparr>" "disk_ok demo_fs"
  by (simp_all add: demo_fs_def sb_of_def disk_ok_def)

lemma zero_bytes: "sector_bytes (replicate 64 0) = replicate 512 0"
proof -
  have "le_bytes 8 (0 :: u64) = replicate 8 0" by (simp add: le_bytes_def map_replicate_const)
  moreover have "concat (replicate n (replicate 8 (0 :: u8))) = replicate (8 * n) 0" for n
    by (induction n) (simp_all add: replicate_add [symmetric])
  ultimately show ?thesis by (simp add: sector_bytes_def)
qed

lemma demo_disk: "disk_read_block l demo_fs = replicate 512 0"
  by (simp add: disk_read_block_def ide_read_sectors_def demo_fs_def zero_bytes)

lemma dec_inode_zeros: "dec_inode (replicate 72 0) = zero_inode"
proof -
  have "map (\<lambda>j. of_le (bytes_at (24 + 4 * j) 4 (replicate 72 0))) [0..<FS_MAX_BLOCKS] = replicate FS_MAX_BLOCKS (0 :: u32)"
    by (intro nth_equalityI) (simp_all add: FS_MAX_BLOCKS_def slice_zeros of_le_zeros)
  then show ?thesis by (simp add: dec_inode_def zero_inode_def slice_zeros of_le_zeros)
qed

lemma demo_inode: "i_size (read_inode i demo_fs) = 0" "i_blocks (read_inode i demo_fs) = replicate FS_MAX_BLOCKS 0"
  using inode_room [OF demo_sel(3), of i]
  by (simp_all add: read_inode_def demo_disk sizeof_inode_def slice_zeros dec_inode_zeros) (simp_all add: zero_inode_def)

lemma demo_ok: "fs_ok demo_fs"
proof -
  have g: "geom_ok demo_fs" using demo_layout by (simp add: geom_ok_def Let_def FS_INODE_COUNT_def)
  have d: "dirents demo_fs = []" using demo_inode by (simp add: dirents_def)
  have r: "own (read_inode 0 demo_fs) = {}" "sized (read_inode 0 demo_fs)" using demo_inode by (auto simp: own_def sized_def FS_MAX_BLOCKS_def)
  have "owned (\<lambda>i. read_inode i demo_fs) {0} demo_fs"
    using r demo_inode read_inode_shape [OF demo_sel(3)] by (auto simp: owned_def FS_MAX_BLOCKS_def)
  moreover have "used_inode demo_fs 0" using mount_inodes [of demo_fs 0] by (simp add: is_inode_def FS_INODE_COUNT_def)
  ultimately show ?thesis unfolding fs_ok_def d
    using g demo_layout demo_inode r(2) by (simp add: fs_base_def files_def live_ents_def dir_ok_def)
qed

lemma demo_empty: "fs_files demo_fs = Map.empty"
  using demo_inode by (simp add: fs_files_def fs_dir_def dirents_def fun_eq_iff)

lemma demo_creatable: "creatable ''a'' demo_fs"
proof -
  have "is_inode 1 \<and> \<not> used_inode demo_fs 1" using mount_inodes [of demo_fs 1] by (simp add: is_inode_def FS_INODE_COUNT_def)
  moreover have "is_cluster demo_fs 1 \<and> \<not> used_cluster demo_fs 1" using demo_layout(4) by (simp add: is_cluster_def used_cluster_def test_bit_def)
  moreover have "dirents demo_fs = []" using demo_inode by (simp add: dirents_def)
  ultimately show ?thesis unfolding creatable_def by (auto simp: demo_empty FS_NAME_MAX_def)
qed

section \<open>Properties\<close>

text \<open>C12 (refinement)
  The file system is a map from names to contents: any sequence of creations, writes (through a lookup) and removals
  on a well-formed file system runs without leaving defined behaviour, its results and effects are those of the map's
  operations, and afterwards every name of the map is found and reads back as its contents, cut to the caller's limit.
\<close>
theorem fs_refines_map:
  assumes "fs_ok k" "\<forall>x\<in>set ops. op_size x < 2 ^ 63"
  shows "\<exists>rs k'. fs_dos ops k = Ok (rs, k') \<and> fs_ok k' \<and> fs_runs (fs_files k) ops rs (fs_files k')
    \<and> (\<forall>name bs. fs_files k' (asc name) = Some bs \<longrightarrow>
         (\<exists>i. fs_lookup name k' = Ok (uint i, root_load k')
            \<and> (\<forall>n. fs_read_file i n (root_load k') = (of_nat (length (take (unat n) bs)), take (unat n) bs))))"
proof -
  obtain rs k' where k': "fs_dos ops k = Ok (rs, k')" "fs_ok k'" "fs_runs (fs_files k) ops rs (fs_files k')"
    using fs_dos_ok [OF assms] by blast
  moreover have "\<forall>name bs. fs_files k' (asc name) = Some bs \<longrightarrow> (\<exists>i. fs_lookup name k' = Ok (uint i, root_load k')
            \<and> (\<forall>n. fs_read_file i n (root_load k') = (of_nat (length (take (unat n) bs)), take (unat n) bs)))"
    using fs_reads [OF k'(2)] by blast
  ultimately show ?thesis by blast
qed

theorem fs_refines_map_witness:
  "\<exists>rs k'. fs_dos [FCreate ''a'' FS_INODE_REG, FWrite ''a'' [1, 2, 3], FUnlink ''b''] demo_fs = Ok (rs, k') \<and> fs_ok k'
    \<and> fs_runs Map.empty [FCreate ''a'' FS_INODE_REG, FWrite ''a'' [1, 2, 3], FUnlink ''b''] rs (fs_files k')"
  using fs_refines_map [OF demo_ok, of "[FCreate ''a'' FS_INODE_REG, FWrite ''a'' [1, 2, 3], FUnlink ''b'']"]
  by (auto simp: op_size_def demo_empty)

text \<open>C19 (functional)
  Operations do not fail without need: a file with a new name of 1 to 24 characters is created if an inode, a cluster
  and (once the directory has its block) an entry are free; a write of up to 5120 bytes succeeds unless it has taken the last
  cluster; longer writes are refused and change nothing.
\<close>
theorem fs_room:
  assumes "fs_ok k"
  shows "(creatable name k \<longrightarrow> (\<exists>r k'. fs_create name mode k = Ok (r, k') \<and> 0 \<le> r))
    \<and> (fs_dir k nm = Some i \<and> length bs \<le> 5120
        \<longrightarrow> (\<exists>r k'. fs_write_file i bs k = Ok (r, k') \<and> (r = 0 \<or> (\<forall>c. is_cluster k' c \<longrightarrow> used_cluster k' c))))
    \<and> (5120 < length bs \<and> length bs < 2 ^ 63 \<longrightarrow> fs_write_file i bs k = Ok (-1, k))"
  using fs_create_room [OF assms, of name mode] fs_write_ok [OF assms, of nm i bs] fs_write_too_long [OF assms, of bs i] by metis

theorem fs_room_witness:
  "creatable ''a'' demo_fs \<and> (\<exists>r k'. fs_create ''a'' FS_INODE_REG demo_fs = Ok (r, k') \<and> 0 \<le> r)"
  using fs_room [OF demo_ok, of "''a''" FS_INODE_REG] demo_creatable by blast

lemma usable_range:
  assumes "85 \<le> unat ds" "unat ds \<le> 2 ^ 28"
  shows "fs_usable_blocks ds = g_start (swap_geometry ds)" "64 \<le> unat (fs_usable_blocks ds)" "unat (fs_usable_blocks ds) \<le> 2 ^ 28"
proof -
  have "ds \<noteq> 0" using assms(1) by auto
  then show e: "fs_usable_blocks ds = g_start (swap_geometry ds)" by (simp add: fs_usable_blocks_def disk_total_blocks_def)
  have q: "unat (drop_bit 2 ds) = unat ds div 4" by (simp add: drop_bit_eq_div unat_div)
  then have "\<not> drop_bit 2 ds < SWAP_PAGE_SECTORS" using assms(1) by (simp add: SWAP_PAGE_SECTORS_def word_less_nat_alt)
  then have "g_start (swap_geometry ds) = ds - drop_bit 2 ds" by (simp add: swap_geometry_def Let_def)
  moreover have "unat (ds - drop_bit 2 ds) = unat ds - unat ds div 4" by (rule unat_minus_eq [OF q]) simp
  ultimately have "unat (fs_usable_blocks ds) = unat ds - unat ds div 4" using e by simp
  then show "64 \<le> unat (fs_usable_blocks ds)" "unat (fs_usable_blocks ds) \<le> 2 ^ 28" using assms by auto
qed

text \<open>Formatting and mounting succeed when the heap has the memory for the buffers.\<close>

lemma k_free_null: "k_free 0 k = Ok k"
  by (simp add: k_free_def kfree_def)

lemma mount_runs:
  assumes "sb_stored k" "disk_ok k" "geom_ok k" "k_free (f_cbm_ptr (k_fs k)) k = Ok k1" "k_free (f_ibm_ptr (k_fs k)) k1 = Ok k2"
    and "k_malloc (sb_bitmap_blocks (sb_of k) * 512) k2 = Ok (p, k3)" "p \<noteq> 0" "k_malloc 32 k3 = Ok (q, k4)" "q \<noteq> 0"
  shows "\<exists>k'. fs_mount k = Ok (0, k') \<and> f_cbm_ptr (k_fs k') = p \<and> f_ibm_ptr (k_fs k') = q \<and> k_heap k' = k_heap k4"
proof -
  have "read_any_sb k = (0, upd_fs (\<lambda>f. f\<lparr>f_sb := sb_of k\<rparr>) k)" using assms(1) by (simp add: read_any_sb_def sb_stored_def Let_def)
  moreover have "upd_fs (\<lambda>f. f\<lparr>f_sb := sb_of k\<rparr>) k = k" by (simp add: upd_fs_def sb_of_def)
  ultimately have r: "read_any_sb k = (0, k)" by simp
  note d = only_mem_disk [OF only_mem_free [OF assms(4)]] only_mem_disk [OF only_mem_free [OF assms(5)]]
    only_mem_disk [OF only_mem_malloc [OF assms(6)]] only_mem_disk [OF only_mem_malloc [OF assms(8)]]
  have "unat (sb_bitmap_blocks (sb_of k)) * 512 < 2 ^ 64" using assms(3) by (auto simp: geom_ok_def Let_def)
  then obtain bm where l: "load_bitmap k4 = Ok bm" using d by (simp add: load_bitmap_def Let_def FS_BLOCK_SIZE_def)
  have "sb_root_inode (sb_of k4) = 0" using assms(3) d by (simp add: geom_ok_def Let_def)
  then have b: "bit_set q (replicate ((FS_INODE_COUNT + 7) div 8) 0) (unat (sb_root_inode (sb_of k4))) = Ok (put_bit (replicate 32 0) 0)"
    using assms(9) by (simp add: bit_set_def in_map_def FS_INODE_COUNT_def)
  have n: "(of_nat FS_INODE_COUNT + 7) div 8 = (32 :: u64)" by (simp add: FS_INODE_COUNT_def)
  show ?thesis using r assms(4-9) l b d unfolding fs_mount_def n by (simp add: FS_BLOCK_SIZE_def upd_fs_def)
qed

text \<open>The steps of a format, and a heap that has room for them.\<close>

lemma heap_kept [simp]:
  "k_heap (disk_write_block l b k) = k_heap k" "k_heap (upd_fs f k) = k_heap k" "k_heap (write_inode i x k) = k_heap k"
  "k_heap (write_zeros s n k) = k_heap k" "k_heap (sb_write_all k) = k_heap k"
proof -
  have "k_heap (fold (\<lambda>b. disk_write_block (s + of_nat b) zero_block) bs k) = k_heap k" for bs
    by (induction bs arbitrary: k) (simp_all add: disk_write_block_def)
  then show "k_heap (disk_write_block l b k) = k_heap k" "k_heap (upd_fs f k) = k_heap k" "k_heap (write_inode i x k) = k_heap k"
    "k_heap (write_zeros s n k) = k_heap k" "k_heap (sb_write_all k) = k_heap k"
    by (simp_all add: disk_write_block_def upd_fs_def write_inode_def write_zeros_def sb_write_all_def Let_def)
qed

lemma ptr_kept [simp]:
  "k_fs (disk_write_block l b k) = k_fs k" "k_fs (write_inode i x k) = k_fs k" "k_fs (write_zeros s n k) = k_fs k"
  "f_cbm_ptr (k_fs (sb_write_all k)) = f_cbm_ptr (k_fs k)" "f_ibm_ptr (k_fs (sb_write_all k)) = f_ibm_ptr (k_fs k)"
  "sb_bitmap_blocks (f_sb (k_fs (sb_write_all k))) = sb_bitmap_blocks (f_sb (k_fs k))" "k_fs (upd_fs g k) = g (k_fs k)"
  "sb_block_count (f_sb (k_fs (sb_write_all k))) = sb_block_count (f_sb (k_fs k))"
proof -
  have "k_fs (fold (\<lambda>b. disk_write_block (s + of_nat b) zero_block) bs k) = k_fs k" for bs
    by (induction bs arbitrary: k) (simp_all add: disk_write_block_def)
  then show "k_fs (disk_write_block l b k) = k_fs k" "k_fs (write_inode i x k) = k_fs k" "k_fs (write_zeros s n k) = k_fs k"
    "f_cbm_ptr (k_fs (sb_write_all k)) = f_cbm_ptr (k_fs k)" "f_ibm_ptr (k_fs (sb_write_all k)) = f_ibm_ptr (k_fs k)"
  "sb_bitmap_blocks (f_sb (k_fs (sb_write_all k))) = sb_bitmap_blocks (f_sb (k_fs k))" "k_fs (upd_fs g k) = g (k_fs k)"
  "sb_block_count (f_sb (k_fs (sb_write_all k))) = sb_block_count (f_sb (k_fs k))"
    by (simp_all add: disk_write_block_def upd_fs_def write_inode_def write_zeros_def sb_write_all_def Let_def)
qed

lemma heap_steps:
  "kmalloc (Suc (Suc PMM_MAX_FRAMES)) n (k_heap k) = Some (p, h) \<Longrightarrow> k_malloc n k = Ok (p, k\<lparr>k_heap := h\<rparr>)"
  "kfree p (k_heap k) = Ok h \<Longrightarrow> k_free p k = Ok (k\<lparr>k_heap := h\<rparr>)"
  by (auto simp: k_malloc_def k_free_def split: option.splits)

text \<open>A heap of one free block of 64 KiB, and what the requests of a format and of a mount make of it.\<close>

definition room :: "heap \<Rightarrow> bool" where
  "room h \<longleftrightarrow> h_blocks h = [\<lparr>b_addr = 4096, b_size = 65504, b_free = True\<rparr>]"

definition room2 :: "heap \<Rightarrow> bool" where
  "room2 h \<longleftrightarrow> h_blocks h = [\<lparr>b_addr = 4096, b_size = 512, b_free = False\<rparr>, \<lparr>b_addr = 4640, b_size = 32, b_free = False\<rparr>,
                            \<lparr>b_addr = 4704, b_size = 64896, b_free = True\<rparr>]"

lemma align16_some: "align16 512 = 512" "align16 18432 = 18432" "align16 32 = 32"
  by code_simp+

lemma room_malloc:
  assumes "room h"
  shows "\<exists>h1. kmalloc (Suc f) 512 h = Some (4128, h1) \<and> (\<exists>h2. kfree 4128 h1 = Ok h2 \<and> room h2)
    \<and> (\<exists>h2. kmalloc (Suc f) 32 h1 = Some (4672, h2) \<and> room2 h2)"
    "\<exists>h1. kmalloc (Suc f) 18432 h = Some (4128, h1) \<and> (\<exists>h2. kfree 4128 h1 = Ok h2 \<and> room h2)"
  using assms by (simp_all add: room_def room2_def align16_some sizeof_block_def kfree_def merge_next_def merge_prev_def adjacent_def joins_def)

lemma room_free: "room2 h \<Longrightarrow> \<exists>h1. kfree 4128 h = Ok h1 \<and> (\<exists>h2. kfree 4672 h1 = Ok h2 \<and> room h2)"
  by (simp add: room_def room2_def sizeof_block_def kfree_def merge_next_def merge_prev_def adjacent_def joins_def)

lemma format_runs:
  assumes "room (k_heap k)" "sb_bitmap_blocks (new_sb (fs_usable_blocks ds)) = 1"
  shows "\<exists>k'. fs_format ds k = Ok (0, k') \<and> room (k_heap k') \<and> f_cbm_ptr (k_fs k') = f_cbm_ptr (k_fs k)
    \<and> f_ibm_ptr (k_fs k') = f_ibm_ptr (k_fs k) \<and> sb_bitmap_blocks (sb_of k') = 1
    \<and> sb_block_count (sb_of k') = sb_block_count (new_sb (fs_usable_blocks ds))"
proof -
  obtain h1 h2 where a: "kmalloc (Suc (Suc PMM_MAX_FRAMES)) 512 (k_heap k) = Some (4128, h1)" "kfree 4128 h1 = Ok h2" "room h2"
    using room_malloc(1) [OF assms(1)] by blast
  obtain h3 h4 where b: "kmalloc (Suc (Suc PMM_MAX_FRAMES)) 18432 h2 = Some (4128, h3)" "kfree 4128 h3 = Ok h4" "room h4"
    using room_malloc(2) [OF a(3)] by blast
  have n: "of_nat FS_BLOCK_SIZE = (512 :: u64)" "inode_blocks * 512 = 18432" by (simp_all add: FS_BLOCK_SIZE_def) code_simp
  show ?thesis unfolding fs_format_def Let_def n assms(2)
    using a b by (simp add: n heap_steps sb_of_def assms(2))
qed

definition blank_kernel :: kernel where
  "blank_kernel = one_task\<lparr>k_heap := empty_heap\<lparr>h_blocks := [\<lparr>b_addr = 4096, b_size = 65504, b_free = True\<rparr>]\<rparr>,
     k_disk := (\<lambda>_. replicate 64 0), k_fs := boot_fsys\<rparr>"

lemma blank_run:
  "\<exists>k1 k2. fs_format 85 blank_kernel = Ok (0, k1) \<and> fs_mount k1 = Ok (0, k2) \<and> room2 (k_heap k2)
     \<and> f_cbm_ptr (k_fs k2) = 4128 \<and> f_ibm_ptr (k_fs k2) = 4672 \<and> fs_ok k2 \<and> sb_stored k2 \<and> fs_files k2 = Map.empty
     \<and> (\<forall>c. is_cluster k2 c \<longrightarrow> \<not> used_cluster k2 c) \<and> sb_bitmap_blocks (sb_of k2) = 1
     \<and> (\<forall>i. is_inode i \<longrightarrow> used_inode k2 i = (i = 0)) \<and> creatable ''a'' k2"
proof -
  have u: "fs_usable_blocks 85 = 64" by code_simp
  have d: "disk_ok blank_kernel" by (simp add: disk_ok_def blank_kernel_def)
  have r: "room (k_heap blank_kernel)" "f_cbm_ptr (k_fs blank_kernel) = 0" "f_ibm_ptr (k_fs blank_kernel) = 0"
    by (simp_all add: blank_kernel_def room_def boot_fsys_def)
  have b: "sb_bitmap_blocks (new_sb (fs_usable_blocks 85)) = 1" using demo_layout(1) unfolding u demo_sb_def by (simp add: word_unat_eq_iff)
  have c: "unat (sb_block_count (new_sb (fs_usable_blocks 85))) \<le> 4096 * unat (sb_bitmap_blocks (new_sb (fs_usable_blocks 85)))"
    using demo_layout(1,4) unfolding u demo_sb_def by simp
  have z: "64 \<le> unat (fs_usable_blocks 85)" "unat (fs_usable_blocks 85) \<le> 2 ^ 28" unfolding u by simp_all
  obtain k1 where k1: "fs_format 85 blank_kernel = Ok (0, k1)" "room (k_heap k1)" "f_cbm_ptr (k_fs k1) = 0" "f_ibm_ptr (k_fs k1) = 0"
    and s1: "sb_bitmap_blocks (sb_of k1) = 1" "sb_block_count (sb_of k1) = sb_block_count (new_sb (fs_usable_blocks 85))"
    using format_runs [OF r(1) b] r by auto
  note f = fs_format_ok [OF d z k1(1) c]
  obtain h1 h2 where h: "kmalloc (Suc (Suc PMM_MAX_FRAMES)) 512 (k_heap k1) = Some (4128, h1)" "kmalloc (Suc (Suc PMM_MAX_FRAMES)) 32 h1 = Some (4672, h2)" "room2 h2"
    using room_malloc(1) [OF k1(2)] by blast
  obtain k2 where k2: "fs_mount k1 = Ok (0, k2)" "f_cbm_ptr (k_fs k2) = 4128" "f_ibm_ptr (k_fs k2) = 4672" "k_heap k2 = h2"
    using mount_runs [OF f(3,1,2), of k1 k1 4128 "k1\<lparr>k_heap := h1\<rparr>" 4672 "k1\<lparr>k_heap := h2\<rparr>"] h k1(3,4) s1
    by (auto simp: k_free_null heap_steps)
  note m = fs_mount_ok [OF f(1-3) k2(1)]
  have "sb_stored k2" using f(3) m(2,3) by (simp add: sb_stored_def)
  note e = format_mount_ok [OF d z c k1(1) k2(1)]
  have i: "\<forall>i. is_inode i \<longrightarrow> used_inode k2 i = (i = 0)" using mount_inodes [OF m(5)] by blast
  have "is_inode 1 \<and> \<not> used_inode k2 1" using i by (simp add: is_inode_def FS_INODE_COUNT_def)
  moreover have "unat (sb_block_count (sb_of k2)) = 25" using demo_layout(4) m(2) s1(2) unfolding u demo_sb_def by simp
  then have "is_cluster k2 1" by (simp add: is_cluster_def)
  moreover have "dirents k2 = []" using f(4) views_disk(1) [OF m(2,3)] by (simp add: dirents_def)
  ultimately have cr: "creatable ''a'' k2" using e(2,3) unfolding creatable_def by (auto simp: FS_NAME_MAX_def)
  have "sb_stored k2" using f(3) m(2,3) by (simp add: sb_stored_def)
  then show ?thesis using k1(1) k2 h(3) e s1 m(2) i cr by auto
qed

text \<open>C14 (invariant)
  A disk that has been formatted and mounted is a well-formed, empty file system with all clusters free, laid out one area
  after the other up to where the swap area begins, for every drive of 85 to \<open>2 ^ 28\<close> sectors whose bitmap has a bit for
  every cluster; and the bitmap misses at most 17 clusters.
\<close>
theorem fs_format_mount_empty:
  assumes "disk_ok k" "85 \<le> unat ds" "unat ds \<le> 2 ^ 28" "fs_format ds k = Ok (0, k1)" "fs_mount k1 = Ok (0, k2)"
    and "sb = new_sb (fs_usable_blocks ds)"
  shows "(unat (sb_block_count sb) \<le> 4096 * unat (sb_bitmap_blocks sb)
        \<longrightarrow> fs_ok k2 \<and> fs_files k2 = Map.empty \<and> (\<forall>c. is_cluster k2 c \<longrightarrow> \<not> used_cluster k2 c))
    \<and> unat (sb_data_start sb) + unat (sb_block_count sb) = unat (g_start (swap_geometry ds))
    \<and> unat (sb_block_count sb) \<le> 4096 * unat (sb_bitmap_blocks sb) + 17"
proof -
  have u: "fs_usable_blocks ds = g_start (swap_geometry ds)" "64 \<le> unat (fs_usable_blocks ds)" "unat (fs_usable_blocks ds) \<le> 2 ^ 28"
    using usable_range [OF assms(2,3)] by simp_all
  note l = new_sb_layout [OF u(2,3), folded assms(6)]
  note f = format_mount_ok [OF assms(1) u(2,3) _ assms(4,5), folded assms(6)]
  show ?thesis using f l(4,6) u(1) by auto
qed

theorem fs_format_mount_empty_witness:
  "\<exists>k1 k2. fs_format 85 blank_kernel = Ok (0, k1) \<and> fs_mount k1 = Ok (0, k2) \<and> fs_ok k2 \<and> fs_files k2 = Map.empty"
proof -
  obtain k1 k2 where k: "fs_format 85 blank_kernel = Ok (0, k1)" "fs_mount k1 = Ok (0, k2)" using blank_run by blast
  have d: "disk_ok blank_kernel" by (simp add: disk_ok_def blank_kernel_def)
  have u: "fs_usable_blocks 85 = 64" by code_simp
  have "unat (sb_block_count (new_sb 64)) \<le> 4096 * unat (sb_bitmap_blocks (new_sb 64))" using demo_layout(1,4) unfolding demo_sb_def by simp
  then show ?thesis using fs_format_mount_empty [OF d _ _ k refl] k unfolding u by auto
qed

end
