(* ===== verification/FsSwap.thy ===== *)
theory FsSwap
  imports FsMap
begin

text \<open>
  What the file system of \<^verbatim>\<open>kernel/fs/noosfs.c\<close> does across a mount, and how it shares the disk with the swap area of
  \<^verbatim>\<open>kernel/mm/swap.c\<close>.
\<close>

section \<open>A mount forgets the inodes\<close>

lemma remount_rest:
  assumes "fs_ok k" "sb_stored k" "fs_sync_bitmap k = Ok k1" "fs_mount k1 = Ok (0, k2)"
  shows "fs_ok (set_ibm (f_ibm (k_fs k)) k2)"
proof -
  note r = remount_ok [OF assms]
  have u: "used_inode (set_ibm (f_ibm (k_fs k)) k2) i = used_inode k i" for i
    by (simp add: used_inode_def set_ibm_def upd_fs_def)
  have ic: "is_cluster k2 c = is_cluster k c" for c using r(9) by (simp add: is_cluster_def)
  have "owned (\<lambda>i. read_inode i k) (files (dirents k)) k2"
    using fs_okD(8) [OF assms(1)] by (simp add: owned_def r(5) ic)
  then have o: "owned (\<lambda>i. read_inode i k2) (files (dirents k)) (set_ibm (f_ibm (k_fs k)) k2)"
    using owned_cong [of "files (dirents k)" "\<lambda>i. read_inode i k2" "\<lambda>i. read_inode i k"] r(7) by (simp add: owned_def)
  have b: "fs_base (set_ibm (f_ibm (k_fs k)) k2)"
    using r(4) fs_okD(1) [OF assms(1)] by (simp add: fs_base_def) (simp add: set_ibm_def upd_fs_def sb_of_def)
  have z: "read_inode 0 k2 = read_inode 0 k" "\<forall>i\<in>files (dirents k). read_inode i k2 = read_inode i k" using r(7) by simp_all
  show ?thesis using assms(1) b o z unfolding fs_ok_def by (simp add: u r(3))
qed

lemma alloc_first_inode:
  assumes "fs_base k" "\<not> used_inode k 1"
  shows "fs_alloc_inode k = Ok (1, set_ibm (put_bit (f_ibm (k_fs k)) 1) k)"
proof -
  let ?f = "k_fs k"
  have b: "f_ibm_ptr ?f \<noteq> 0" "length (f_ibm ?f) = 32" "unat (sb_inode_count (sb_of k)) = 256"
    using assms by (auto simp: fs_base_def geom_ok_def Let_def FS_INODE_COUNT_def)
  have "first_in (\<lambda>i. \<not> test_bit (f_ibm ?f) i) 1 256 = Some 1"
    using assms(2) by (simp add: first_in_def used_inode_def upt_conv_Cons)
  then have "scan_free (f_ibm_ptr ?f) (f_ibm ?f) (sb_inode_count (sb_of k)) = Ok (Some 1)"
    using b scan_free_first [of "f_ibm_ptr ?f" "sb_inode_count (sb_of k)" "f_ibm ?f"] by simp
  then show ?thesis using b by (simp add: fs_alloc_inode_def Let_def sb_of_def bit_set_def in_map_def set_ibm_def)
qed

lemma write_fresh_inode:
  assumes "fs_ok k" "fs_dir k nm = Some i" "inode_shape x" "i_size x = 0"
  shows "fs_files (write_inode i x k) nm = Some []"
proof -
  note f = fs_dir_file [OF assms(1,2)]
  have n: "i \<noteq> 0" "is_inode i" using f by simp_all
  have "fs_dir (write_inode i x k) = fs_dir k" by (rule fs_dir_cong [OF dirents_write_inode [OF assms(1) n(2,1) assms(3)]])
  then show ?thesis
    using assms(2,4) disk.geti_puti [OF fs_okD(4) [OF assms(1)] n(2,2) assms(3)] by (simp add: fs_files_def file_bytes_def)
qed

lemma created_and_mounted:
  "\<exists>k k1 k2. fs_ok k \<and> sb_stored k \<and> fs_sync_bitmap k = Ok k1 \<and> fs_mount k1 = Ok (0, k2) \<and> fs_dir k (asc ''a'') = Some 1"
proof -
  obtain k0 where k0: "room2 (k_heap k0)" "f_cbm_ptr (k_fs k0) = 4128" "f_ibm_ptr (k_fs k0) = 4672" "fs_ok k0" "sb_stored k0"
    "sb_bitmap_blocks (sb_of k0) = 1" "\<forall>i. is_inode i \<longrightarrow> used_inode k0 i = (i = 0)" "creatable ''a'' k0"
    using blank_run by blast
  obtain r k where c: "fs_create ''a'' FS_INODE_REG k0 = Ok (r, k)" "0 \<le> r" using fs_create_room [OF k0(4,8)] by blast
  have k: "fs_ok k" "fs_dir k (asc ''a'') = Some (word_of_int r)" "\<exists>k''. fs_alloc_inode (root_load k0) = Ok (word_of_int r, k'')"
    using fs_create_ok [OF k0(4), of "''a''" FS_INODE_REG] c by auto
  have "fs_base (root_load k0)" using fs_okD(1) [of "root_load k0"] k0(4) by (simp add: root_load_ok)
  moreover have "\<not> used_inode (root_load k0) 1"
    using k0(7) [rule_format, of 1] by (simp add: used_inode_def is_inode_def FS_INODE_COUNT_def root_load_def upd_fs_def)
  ultimately have "word_of_int r = (1 :: u32)" using alloc_first_inode k(3) by fastforce
  then have d: "fs_dir k (asc ''a'') = Some 1" using k(2) by simp
  note cf = confined_create [OF k0(4) c(1)]
  note kept = confined_keeps [OF cf fs_okD(3) [OF k0(4)]]
  obtain k1 where k1: "fs_sync_bitmap k = Ok k1" "disk_ok k1" "sb_of k1 = sb_of k" "sb_stored k1" "k_fs k1 = k_fs k" "k_heap k1 = k_heap k"
    using fs_sync_ok [OF k(1)] kept(1) k0(5) by auto
  have g: "geom_ok k1" using fs_okD(3) [OF k(1)] k1(3) by (simp add: geom_ok_def)
  have p: "f_cbm_ptr (k_fs k1) = 4128" "f_ibm_ptr (k_fs k1) = 4672" "room2 (k_heap k1)" "sb_bitmap_blocks (sb_of k1) = 1"
    using cf k0(1-3,6) k1(3,5,6) kept(2) by (simp_all add: confined_def)
  obtain h1 h2 where h: "kfree 4128 (k_heap k1) = Ok h1" "kfree 4672 h1 = Ok h2" "room h2" using room_free [OF p(3)] by blast
  obtain h3 h4 where m: "kmalloc (Suc (Suc PMM_MAX_FRAMES)) 512 h2 = Some (4128, h3)" "kmalloc (Suc (Suc PMM_MAX_FRAMES)) 32 h3 = Some (4672, h4)"
    using room_malloc(1) [OF h(3)] by blast
  have "k_free 4128 k1 = Ok (k1\<lparr>k_heap := h1\<rparr>)" "k_free 4672 (k1\<lparr>k_heap := h1\<rparr>) = Ok (k1\<lparr>k_heap := h2\<rparr>)"
    "k_malloc 512 (k1\<lparr>k_heap := h2\<rparr>) = Ok (4128, k1\<lparr>k_heap := h3\<rparr>)" "k_malloc 32 (k1\<lparr>k_heap := h3\<rparr>) = Ok (4672, k1\<lparr>k_heap := h4\<rparr>)"
    using h m by (auto simp: heap_steps)
  then have "\<exists>k2. fs_mount k1 = Ok (0, k2)"
    using mount_runs [OF k1(4,2) g, of "k1\<lparr>k_heap := h1\<rparr>" "k1\<lparr>k_heap := h2\<rparr>" 4128 "k1\<lparr>k_heap := h3\<rparr>" 4672 "k1\<lparr>k_heap := h4\<rparr>"] p by auto
  then show ?thesis using k(1) kept(1) k0(5) k1(1) d by auto
qed

text \<open>C20 (error)
  A mount loads the cluster bitmap but marks no inode except the root's as taken. After a sync and a mount every file is still
  there with its contents and its clusters, but the next inode handed out is number 1 whatever files exist, and a file that
  has it is emptied when the inode is initialised, as creating a file with a new name does.
\<close>
theorem fs_mount_forgets_inodes:
  assumes "fs_ok k" "sb_stored k" "fs_sync_bitmap k = Ok k1" "fs_mount k1 = Ok (0, k2)" "fs_dir k nm = Some 1"
    and "x = zero_inode\<lparr>i_mode := mode, i_nlinks := 1, i_mtime := t\<rparr>"
  shows "fs_files k2 = fs_files k \<and> (\<forall>c. used_cluster k2 c = used_cluster k c)
    \<and> (\<exists>k3. fs_alloc_inode k2 = Ok (1, k3) \<and> fs_files (write_inode 1 x k3) nm = Some [])"
proof -
  note r = remount_ok [OF assms(1-4)] and o = remount_rest [OF assms(1-4)]
  have "is_inode 1" by (simp add: is_inode_def FS_INODE_COUNT_def)
  then have a: "fs_alloc_inode k2 = Ok (1, set_ibm (put_bit (f_ibm (k_fs k2)) 1) k2)" using r(6) by (intro alloc_first_inode r(4)) simp
  have x: "inode_shape x" "i_size x = 0" using assms(6) by (simp_all add: inode_shape_def zero_inode_def)
  have "fs_dir (set_ibm (f_ibm (k_fs k)) k2) nm = Some 1" using r(2) assms(5) by simp
  then have w: "fs_files (write_inode 1 x (set_ibm (f_ibm (k_fs k)) k2)) nm = Some []" by (rule write_fresh_inode [OF o _ x])
  have "fs_files (write_inode 1 x (set_ibm (put_bit (f_ibm (k_fs k2)) 1) k2)) = fs_files (write_inode 1 x (set_ibm (f_ibm (k_fs k)) k2))"
    by (rule views_disk(4)) (simp_all add: sb_of_def set_ibm_def upd_fs_def write_inode_def disk_write_block_def disk_read_block_def inode_lba_def)
  then show ?thesis using r(1,5) a w by auto
qed

theorem fs_mount_forgets_inodes_witness:
  "\<exists>k k2 k3. fs_dir k (asc ''a'') = Some 1 \<and> fs_files k2 = fs_files k
     \<and> fs_alloc_inode k2 = Ok (1, k3) \<and> fs_files (write_inode 1 (zero_inode\<lparr>i_mode := FS_INODE_REG, i_nlinks := 1, i_mtime := 0\<rparr>) k3) (asc ''a'') = Some []"
proof -
  obtain k k1 k2 where "fs_ok k" "sb_stored k" "fs_sync_bitmap k = Ok k1" "fs_mount k1 = Ok (0, k2)" "fs_dir k (asc ''a'') = Some 1"
    using created_and_mounted by blast
  then show ?thesis using fs_mount_forgets_inodes [where mode = FS_INODE_REG and t = 0, OF _ _ _ _ _ refl] by blast
qed

section \<open>Files and swapped pages on one disk\<close>

text \<open>The file system ends where the swap area begins.\<close>

definition shared :: "kernel \<Rightarrow> bool" where
  "shared k \<longleftrightarrow> fs_ok k \<and> swap_ok k \<and> unat (sb_data_start (sb_of k)) + unat (sb_block_count (sb_of k)) \<le> unat (g_start (k_geom k))"

datatype disk_op = Swapping swap_op | Filing fs_op

fun swap_task :: "swap_op \<Rightarrow> nat" where
  "swap_task (Out i va) = i"
| "swap_task (In i va) = i"

fun disk_op_ok :: "disk_op \<Rightarrow> bool" where
  "disk_op_ok (Swapping x) \<longleftrightarrow> swap_task x < TASK_MAX"
| "disk_op_ok (Filing x) \<longleftrightarrow> op_size x < 2 ^ 63"

fun disk_dos :: "disk_op list \<Rightarrow> kernel \<Rightarrow> (int list \<times> kernel) res" where
  "disk_dos [] k = Ok ([], k)"
| "disk_dos (Swapping x # xs) k = disk_dos xs (swap_do x k)"
| "disk_dos (Filing x # xs) k = bind_res (fs_do x k) (\<lambda>(r, k). map_res (\<lambda>(rs, k). (r # rs, k)) (disk_dos xs k))"

fun filings :: "disk_op list \<Rightarrow> fs_op list" where
  "filings [] = []"
| "filings (Swapping x # xs) = filings xs"
| "filings (Filing x # xs) = x # filings xs"

lemma swap_fs [simp]: "k_fs (swap_do x k) = k_fs k"
proof -
  have f: "k_fs (on_mmu g k) = k_fs k" "k_fs (k_free_frame f k) = k_fs k" "k_fs (write_page f p k) = k_fs k" "k_fs (upd_task i h k) = k_fs k"
    "k_fs (slot_free s k) = k_fs k" for g f p i h s k
    by (simp_all add: on_mmu_def with_mmu_def k_free_frame_def write_page_def upd_task_def slot_free_def)
  have s: "k_fs (snd (slot_alloc k)) = k_fs k" by (simp add: slot_alloc_def split: option.split)
  have a: "k_fs (snd (k_alloc_frame k)) = k_fs k" using only_mem_disk(2) only_mem_ops(5) by blast
  show ?thesis
  proof (cases x)
    case (Out i va)
    then show ?thesis using s by (simp add: swap_out_def Let_def split_beta f split: option.split)
  next
    case (In i va)
    then show ?thesis using a by (simp add: swap_in_def Let_def split_beta f split: option.split)
  qed
qed

lemma swap_do_disk:
  assumes "swap_ok k" "swap_task x < TASK_MAX"
  shows "k_disk (swap_do x k) = k_disk k \<or> (\<exists>s p. unat s < unat (g_pages (k_geom k))
      \<and> k_disk (swap_do x k) = ide_write_sectors (slot_lba s k) (page_sectors p) (k_disk k))" (is ?disk)
    "swap_ok (swap_do x k)" "k_geom (swap_do x k) = k_geom k"
proof -
  note D = swap_okD(1,2) [OF assms(1)]
  have "?disk \<and> swap_ok (swap_do x k) \<and> k_geom (swap_do x k) = k_geom k"
  proof (cases x)
    case (Out i va)
    then have i: "i < TASK_MAX" "i < length (k_tasks k)" using assms(2) D(2) by simp_all
    obtain r k' where o: "swap_out i va k = (r, k')" by fastforce
    show ?thesis using o D(1) i(2)
    proof (cases rule: swap_out_spec)
      case failed
      then show ?thesis using Out o assms(1) by simp
    next
      case (out s)
      then show ?thesis using Out o swap_out_stores(1) [OF assms(1) i(1) o] by auto
    qed
  next
    case (In i va)
    then have i: "i < TASK_MAX" "i < length (k_tasks k)" using assms(2) D(2) by simp_all
    obtain r k' where o: "swap_in i va k = (r, k')" by fastforce
    note ok = swap_in_keeps(1) [OF assms(1) i(1) o]
    show ?thesis using o i(2)
    proof (cases rule: swap_in_spec)
      case failed
      then show ?thesis using In o ok by (auto simp: only_mem_def)
    next
      case inn
      then show ?thesis using In o ok by simp
    qed
  qed
  then show ?disk "swap_ok (swap_do x k)" "k_geom (swap_do x k) = k_geom k" by auto
qed

lemma swap_keeps_files:
  assumes "shared k" "swap_task x < TASK_MAX"
  shows "shared (swap_do x k)" "fs_files (swap_do x k) = fs_files k"
proof -
  have k: "fs_ok k" "swap_ok k" "unat (sb_data_start (sb_of k)) + unat (sb_block_count (sb_of k)) \<le> unat (g_start (k_geom k))"
    using assms(1) by (auto simp: shared_def)
  note d = swap_do_disk [OF k(2) assms(2)] and a = swap_okD(1) [OF k(2)]
  have dk: "disk_ok k" by (rule fs_okD(2) [OF k(1)])
  have c: "disk_ok (swap_do x k) \<and> (\<forall>l. unat l < unat (g_start (k_geom k)) \<longrightarrow> disk_read_block l (swap_do x k) = disk_read_block l k)"
    using d(1)
  proof (elim disjE exE conjE)
    fix s p
    assume s: "unat s < unat (g_pages (k_geom k))" "k_disk (swap_do x k) = ide_write_sectors (slot_lba s k) (page_sectors p) (k_disk k)"
    note l = slot_lba_nat [OF a s(1)]
    have at: "unat (slot_lba s k) + length (page_sectors p) \<le> 2 ^ 28" using l(2) by simp
    have "disk_ok (swap_do x k)" using dk unfolding disk_ok_def s(2) ide_write_at [OF at] by (auto simp: page_sectors_def)
    moreover have "disk_read_block b (swap_do x k) = disk_read_block b k" if b: "unat b < unat (g_start (k_geom k))" for b
    proof -
      have "unat b < 2 ^ 28" using b l by simp
      note u = lba_small(2) [OF this]
      have "ide_read_sectors (ucast b) 1 (ide_write_sectors (slot_lba s k) (page_sectors p) (k_disk k)) = ide_read_sectors (ucast b) 1 (k_disk k)"
        by (rule ide_read_apart [OF _ at]) (use u b l in simp_all)
      then show ?thesis by (simp add: disk_read_block_def s(2))
    qed
    ultimately show ?thesis by blast
  qed (use dk in \<open>simp add: disk_ok_def disk_read_block_def\<close>)
  note t = fs_ok_transfer [OF k(1) swap_fs conjunct1 [OF c]]
  show "fs_files (swap_do x k) = fs_files k" by (rule t(2)) (use c k(3) in auto)
  have "fs_ok (swap_do x k)" by (rule t(1)) (use c k(3) in auto)
  then show "shared (swap_do x k)" using d(2,3) k(3) by (simp add: shared_def sb_of_def)
qed

lemma fs_do_confined:
  assumes "fs_ok k" "fs_do x k = Ok (r, k')"
  shows "confined k k'"
proof (cases x)
  case (FCreate n md)
  then show ?thesis using assms confined_create by simp
next
  case (FUnlink n)
  then show ?thesis using assms confined_unlink by simp
next
  case (FWrite n bs)
  note l = fs_lookup_ok [OF assms(1), of n]
  show ?thesis
  proof (cases "fs_dir k (asc n)")
    case None
    then show ?thesis using FWrite l assms(2) by auto
  next
    case (Some i)
    then have w: "fs_write_file i bs (root_load k) = Ok (r, k')" using FWrite l assms(2) by simp
    have "is_inode i" using fs_dir_file [OF assms(1) Some] by simp
    moreover have "geom_ok (root_load k)" using fs_okD(3) [OF assms(1)] confined_geom [OF confined_root_load] by simp
    ultimately show ?thesis using confined_file [OF w] confined_trans [OF confined_root_load] by blast
  qed
qed

lemma confined_swap:
  assumes "shared k" "confined k k'" "fs_ok k'"
  shows "shared k'" "i < TASK_MAX \<Longrightarrow> stored k i va page \<Longrightarrow> stored k' i va page"
proof -
  have k: "fs_ok k" "swap_ok k" "unat (sb_data_start (sb_of k)) + unat (sb_block_count (sb_of k)) \<le> unat (g_start (k_geom k))"
    using assms(1) by (auto simp: shared_def)
  note c = confined_keeps [OF assms(2) fs_okD(3) [OF k(1)]]
  have t: "task_at j k' = task_at j k" for j using c(3) by (simp add: task_at_def)
  have "swap_ok k'" using k(2) c(3-5) by (simp add: swap_ok_def swap_ents_def t)
  then show "shared k'" using assms(2,3) k(3) c(4) by (simp add: shared_def confined_def)
  assume i: "i < TASK_MAX" "stored k i va page"
  then obtain s where s: "(drop_bit 12 va, s) \<in> swap_ents k i" "\<forall>j<512. slot_page k s j = page j" by (auto simp: stored_def)
  note l = slot_lba_nat [OF swap_okD(1) [OF k(2)] conjunct1 [OF swap_okD(4) [OF k(2) i(1) s(1)]]]
  have conf: "k_disk k' a = k_disk k a" if "unat (sb_data_start (sb_of k)) + unat (sb_block_count (sb_of k)) \<le> unat a" for a
    using assms(2) that unfolding confined_def by blast
  have "slot_lba s k' = slot_lba s k" using c(4) by (simp add: slot_lba_def)
  moreover have "ide_read_sectors (slot_lba s k) 8 (k_disk k') = ide_read_sectors (slot_lba s k) 8 (k_disk k)"
  proof (rule nth_equalityI)
    fix n
    assume "n < length (ide_read_sectors (slot_lba s k) 8 (k_disk k'))"
    then have n: "n < 8" by simp
    note e = ide_read_nth [OF l(2) n]
    show "ide_read_sectors (slot_lba s k) 8 (k_disk k') ! n = ide_read_sectors (slot_lba s k) 8 (k_disk k) ! n"
      unfolding e(1) using conf e(2) k(3) l(1) by simp
  qed simp
  ultimately have "slot_page k' s = slot_page k s" by (simp add: slot_page_def)
  then show "stored k' i va page" using s by (auto simp: stored_def swap_ents_def t)
qed

lemma disk_dos_ok:
  "shared k \<Longrightarrow> \<forall>x\<in>set ops. disk_op_ok x \<Longrightarrow>
     \<exists>rs k'. disk_dos ops k = Ok (rs, k') \<and> shared k' \<and> fs_runs (fs_files k) (filings ops) rs (fs_files k')
       \<and> (\<forall>i va page. i < TASK_MAX \<and> stored k i va page \<and> (\<forall>x. Swapping x \<in> set ops \<longrightarrow> \<not> brings_back i va x) \<longrightarrow> stored k' i va page)"
proof (induction ops arbitrary: k)
  case Nil
  then show ?case by (auto intro: fs_runs.none)
next
  case (Cons x ops)
  show ?case
  proof (cases x)
    case (Swapping y)
    then have y: "swap_task y < TASK_MAX" using Cons.prems(2) by simp
    note s = swap_keeps_files [OF Cons.prems(1) y]
    have "stored (swap_do y k) i va page" if "i < TASK_MAX" "stored k i va page" "\<not> brings_back i va y" for i va page
      using swap_do_keeps(2) [OF _ that(3,1,2)] Cons.prems(1) by (simp add: shared_def)
    then show ?thesis using Cons.IH [OF s(1)] Cons.prems(2) s(2) Swapping by fastforce
  next
    case (Filing y)
    have k: "fs_ok k" using Cons.prems(1) by (simp add: shared_def)
    obtain r k1 where y: "fs_do y k = Ok (r, k1)" "fs_ok k1" "fs_spec (fs_files k) y r (fs_files k1)"
      using fs_do_ok [OF k, of y] Cons.prems(2) Filing by auto
    note c = confined_swap [OF Cons.prems(1) fs_do_confined [OF k y(1)] y(2)]
    obtain rs k' where ih: "disk_dos ops k1 = Ok (rs, k')" "shared k'" "fs_runs (fs_files k1) (filings ops) rs (fs_files k')"
      "\<forall>i va page. i < TASK_MAX \<and> stored k1 i va page \<and> (\<forall>x. Swapping x \<in> set ops \<longrightarrow> \<not> brings_back i va x) \<longrightarrow> stored k' i va page"
      using Cons.IH [OF c(1)] Cons.prems(2) by auto
    show ?thesis using Filing y(1) ih fs_runs.one [OF y(3) ih(3)] c(2) by auto
  qed
qed

lemma demo_shared: "shared demo_fs"
proof -
  have "swap_ok demo_fs" using one_task_ok by (simp add: demo_fs_def swap_ok_def swap_ents_def task_at_def)
  moreover have "k_geom demo_fs = k_geom one_task" by (simp add: demo_fs_def)
  then have "g_start (k_geom demo_fs) = 64" by (simp add: one_task_def demo_kernel_def)
  ultimately show ?thesis using demo_ok demo_layout(3,4) by (simp add: shared_def)
qed

text \<open>C13 (safety)
  Files and swapped pages do not disturb each other: in any interleaving of file operations with pages going out and coming back,
  on a disk whose file system ends where the swap area begins, the file operations still run and behave as those of the map,
  both invariants are kept, and a page that is out and not brought back keeps its contents.
\<close>
theorem fs_swap_apart:
  assumes "shared k" "\<forall>x\<in>set ops. disk_op_ok x"
  shows "\<exists>rs k'. disk_dos ops k = Ok (rs, k') \<and> shared k' \<and> fs_runs (fs_files k) (filings ops) rs (fs_files k')
       \<and> (\<forall>i va page. i < TASK_MAX \<and> stored k i va page \<and> (\<forall>x. Swapping x \<in> set ops \<longrightarrow> \<not> brings_back i va x) \<longrightarrow> stored k' i va page)"
  using assms by (rule disk_dos_ok)

theorem fs_swap_apart_witness:
  "\<exists>rs k'. disk_dos [Filing (FCreate ''a'' FS_INODE_REG), Swapping (Out 1 USER_HEAP_BASE), Filing (FWrite ''a'' [1, 2])] demo_fs = Ok (rs, k')
     \<and> shared k' \<and> fs_runs Map.empty [FCreate ''a'' FS_INODE_REG, FWrite ''a'' [1, 2]] rs (fs_files k')"
  using fs_swap_apart [OF demo_shared, of "[Filing (FCreate ''a'' FS_INODE_REG), Swapping (Out 1 USER_HEAP_BASE), Filing (FWrite ''a'' [1, 2])]"]
  by (auto simp: op_size_def demo_empty TASK_MAX_def)

end
